(* ===== verification/Prelude.thy ===== *)
theory Prelude
  imports Main "HOL-Library.Word" "HOL-Library.Multiset"
begin

unbundle bit_operations_syntax

text \<open>
  Shared vocabulary of the development: machine integer types, reads that may leave a
  buffer, block copies, swaps, and the collections of rewrite rules the component proofs use.
  A buffer of the C code is a list; a pointer into it is an index (\<open>nat\<close>).  A read at an
  index outside of the list has the value \<open>None\<close>, so that a component that can be shown never
  to produce \<open>None\<close> never reads out of bounds.
\<close>

type_synonym u8 = "8 word"
type_synonym u16 = "16 word"
type_synonym u32 = "32 word"
type_synonym u64 = "64 word"

named_theorems splice_simps \<open>lengths and elements of block copies\<close>
named_theorems swap_simps \<open>lengths, elements and multisets of swaps\<close>

abbreviation INT32_MAX :: int where
  "INT32_MAX \<equiv> 2147483647"

abbreviation UINT32_MAX :: u32 where
  "UINT32_MAX \<equiv> 4294967295"

subsection \<open>Reads that may leave the buffer\<close>

definition rd :: "'a list \<Rightarrow> nat \<Rightarrow> 'a option" where
  "rd xs i = (if i < length xs then Some (xs ! i) else None)"

lemma rd_Some_iff: "rd xs i = Some x \<longleftrightarrow> i < length xs \<and> xs ! i = x"
  by (auto simp: rd_def)

lemma rd_None_iff [simp]: "rd xs i = None \<longleftrightarrow> length xs \<le> i"
  by (auto simp: rd_def)

lemma rd_in [simp]: "i < length xs \<Longrightarrow> rd xs i = Some (xs ! i)"
  by (simp add: rd_def)

lemma rd_append_left: "i < length xs \<Longrightarrow> rd (xs @ ys) i = Some (xs ! i)"
  by (simp add: rd_def nth_append)

lemma rd_append_right: "length xs \<le> i \<Longrightarrow> rd (xs @ ys) i = rd ys (i - length xs)"
  by (auto simp: rd_def nth_append)

lemma rd_Cons: "rd (x # xs) i = (if i = 0 then Some x else rd xs (i - 1))"
  by (auto simp: rd_def nth_Cons')

subsection \<open>Block copies: memcpy into a buffer\<close>

definition splice_at :: "'a list \<Rightarrow> nat \<Rightarrow> 'a list \<Rightarrow> 'a list" where
  "splice_at b off d = take off b @ d @ drop (off + length d) b"

lemma length_splice_at [splice_simps]:
  "off + length d \<le> length b \<Longrightarrow> length (splice_at b off d) = length b"
  by (simp add: splice_at_def)

lemma take_splice_at [splice_simps]:
  "off \<le> length b \<Longrightarrow> take (off + length d) (splice_at b off d) = take off b @ d"
  by (simp add: splice_at_def)

lemma take_splice_at_le [splice_simps]:
  "n \<le> off \<Longrightarrow> off \<le> length b \<Longrightarrow> take n (splice_at b off d) = take n b"
  by (simp add: splice_at_def min_def)

lemma nth_splice_at:
  "off + length d \<le> length b \<Longrightarrow> i < length b \<Longrightarrow>
   splice_at b off d ! i = (if off \<le> i \<and> i < off + length d then d ! (i - off) else b ! i)"
  by (auto simp: splice_at_def nth_append)

subsection \<open>Swapping two elements\<close>

definition swap_at :: "'a list \<Rightarrow> nat \<Rightarrow> nat \<Rightarrow> 'a list" where
  "swap_at xs i j = xs[i := xs ! j, j := xs ! i]"

lemma length_swap_at [simp, swap_simps]: "length (swap_at xs i j) = length xs"
  by (simp add: swap_at_def)

lemma mset_swap_at [simp, swap_simps]:
  "i < length xs \<Longrightarrow> j < length xs \<Longrightarrow> mset (swap_at xs i j) = mset xs"
  by (simp add: swap_at_def mset_swap)

lemma nth_swap_at [swap_simps]:
  "i < length xs \<Longrightarrow> j < length xs \<Longrightarrow> k < length xs \<Longrightarrow>
   swap_at xs i j ! k = (if k = i then xs ! j else if k = j then xs ! i else xs ! k)"
  by (auto simp: swap_at_def nth_list_update)

lemma swap_at_same [simp]: "swap_at xs i i = xs"
  by (simp add: swap_at_def)

lemma swap_at_other [simp]: "k \<noteq> i \<Longrightarrow> k \<noteq> j \<Longrightarrow> swap_at xs i j ! k = xs ! k"
  by (simp add: swap_at_def)

lemma set_swap_at [simp]: "i < length xs \<Longrightarrow> j < length xs \<Longrightarrow> set (swap_at xs i j) = set xs"
  by (metis mset_swap_at set_mset_mset)

subsection \<open>Memory allocation\<close>

text \<open>
  The C library's \<open>realloc\<close>, on a block seen as a list of its elements: the old contents up to the
  smaller size are kept, the rest of the block holds whatever was in memory (\<open>junk\<close>), and a
  request above \<open>avail\<close> elements fails.  The containers that grow through a \<open>realloc_func\<close> pointer
  rely on the two laws of the locale only.
\<close>

definition libc_realloc :: "nat \<Rightarrow> (nat \<Rightarrow> 'a) \<Rightarrow> 'a list \<Rightarrow> nat \<Rightarrow> 'a list option" where
  "libc_realloc avail junk ptr sz =
     (if sz \<le> avail then Some (take sz ptr @ map junk [length ptr..<sz]) else None)"

locale realloc_contract =
  fixes realloc :: "'a list \<Rightarrow> nat \<Rightarrow> 'a list option"
  assumes realloc_length: "realloc b n = Some b' \<Longrightarrow> length b' = n"
    and realloc_keeps: "realloc b n = Some b' \<Longrightarrow> k \<le> length b \<Longrightarrow> k \<le> n \<Longrightarrow> take k b' = take k b"
begin

lemma realloc_nth: "realloc b n = Some b' \<Longrightarrow> i < length b \<Longrightarrow> i < n \<Longrightarrow> b' ! i = b ! i"
  using realloc_keeps [of b n b' "Suc i"] realloc_length [of b n b']
  by (metis Suc_leI lessI nth_take)

end

interpretation libc: realloc_contract "libc_realloc avail junk" for avail junk
  by unfold_locales (auto simp: libc_realloc_def min_def split: if_splits)

subsection \<open>Words\<close>

lemma not_bit_ge:
  fixes c :: "'a::len word"
  assumes "c < 2 ^ k" "k \<le> n"
  shows "\<not> bit c n"
proof
  assume b: "bit c n"
  then have n: "n < LENGTH('a)" by (rule bit_imp_le_length)
  with assms have "uint c < 2 ^ k"
    by (subst word_2p_lem [symmetric]) (simp_all add: word_size)
  then have "unat c < 2 ^ k" by (simp flip: nat_uint_eq)
  also have "\<dots> \<le> 2 ^ n" using assms by simp
  finally have "unat c div 2 ^ n = 0" by simp
  moreover have "bit (unat c) n" using b by (simp add: bit_unsigned_iff)
  ultimately show False by (simp add: bit_iff_odd)
qed

text \<open>
  Equality of two words of a fixed width, bit by bit: \<open>simp add: word_bits\<close> decides the closed
  shift-and-mask identities of the codecs.
\<close>

lemma word_eq_bits: "a = b \<longleftrightarrow> list_all (\<lambda>n. bit a n = bit b n) [0..<LENGTH('a)]"
  for a b :: "'a::len word"
  by (auto simp: list_all_iff intro: bit_word_eqI)

lemma upt_8: "[0..<8] = [0::nat, 1, 2, 3, 4, 5, 6, 7]"
  by (simp add: upt_rec)

lemma upt_16: "[0..<16] = [0::nat, 1, 2, 3, 4, 5, 6, 7, 8, 9, 10, 11, 12, 13, 14, 15]"
  by (simp add: upt_rec)

lemma upt_32: "[0..<32] = [0::nat, 1, 2, 3, 4, 5, 6, 7, 8, 9, 10, 11, 12, 13, 14, 15,
    16, 17, 18, 19, 20, 21, 22, 23, 24, 25, 26, 27, 28, 29, 30, 31]"
  by (simp add: upt_rec)

lemma upt_64: "[0..<64] = [0::nat, 1, 2, 3, 4, 5, 6, 7, 8, 9, 10, 11, 12, 13, 14, 15,
    16, 17, 18, 19, 20, 21, 22, 23, 24, 25, 26, 27, 28, 29, 30, 31,
    32, 33, 34, 35, 36, 37, 38, 39, 40, 41, 42, 43, 44, 45, 46, 47,
    48, 49, 50, 51, 52, 53, 54, 55, 56, 57, 58, 59, 60, 61, 62, 63]"
  by (simp add: upt_rec)

text \<open>A property of all bytes is decided by evaluating it at the 256 values.\<close>

lemma u8_all: "(\<forall>b::u8. P b) \<longleftrightarrow> list_all (\<lambda>n. P (of_nat n)) [0..<256]"
proof
  assume P: "list_all (\<lambda>n. P (of_nat n)) [0..<256]"
  show "\<forall>b::u8. P b"
  proof
    fix b :: u8
    have "unat b < 256" using unsigned_less [of b] by simp
    with P have "P (word_of_nat (unat b))" by (auto simp only: list_all_iff set_upt atLeastLessThan_iff)
    then show "P b" by simp
  qed
qed (simp add: list_all_iff)

lemma bits_imp_lt:
  fixes c :: "'a::len word"
  assumes "list_all (\<lambda>n. n < k \<or> \<not> bit c n) [0..<LENGTH('a)]" "k < LENGTH('a)"
  shows "c < 2 ^ k"
proof -
  have "c = c AND mask k"
    using assms(1) by (intro bit_word_eqI) (auto simp: bit_simps list_all_iff)
  also have "\<dots> < 2 ^ k" using assms(2) by (intro and_mask_less') simp
  finally show ?thesis .
qed

lemma bit_u8_ge [simp]: "8 \<le> n \<Longrightarrow> \<not> bit (v :: u8) n"
  using bit_imp_le_length [of v n] by auto

lemma bit_u16_ge [simp]: "16 \<le> n \<Longrightarrow> \<not> bit (v :: u16) n"
  using bit_imp_le_length [of v n] by auto

lemma unat_drop: "unat (drop_bit n v) = unat v div 2 ^ n"
  by (rule trans [OF unat_drop_bit_eq drop_bit_eq_div])

lemma unat_and_mask: "unat (v AND mask n) = unat v mod 2 ^ n"
  unfolding take_bit_eq_mask [symmetric] by (rule trans [OF unsigned_take_bit_eq take_bit_eq_mod])

lemma nat_or_add: "d < 2 ^ n \<Longrightarrow> push_bit n x OR d = x * 2 ^ n + (d :: nat)"
proof -
  assume "d < 2 ^ n"
  then have d: "take_bit n d = d" by (simp add: take_bit_nat_eq_self)
  have "push_bit n x AND take_bit n d = 0" by (rule bit_eqI) (auto simp: bit_simps)
  then have "push_bit n x + d = push_bit n x OR d" unfolding d by (rule disjunctive_add_eq_or)
  then show ?thesis by (simp add: push_bit_eq_mult)
qed

lemma unat_push_or:
  fixes a d :: "'a::len word"
  assumes "unat d < 2 ^ n" "unat a * 2 ^ n < 2 ^ LENGTH('a)"
  shows "unat (push_bit n a OR d) = unat a * 2 ^ n + unat d"
proof -
  have "unat (push_bit n a) = push_bit n (unat a)"
    using assms(2) by (simp only: unsigned_push_bit_eq) (simp add: push_bit_eq_mult take_bit_nat_eq_self)
  then show ?thesis using assms(1) by (simp add: unsigned_or_eq nat_or_add)
qed

lemma le_uint32_max: "x \<le> UINT32_MAX"
proof -
  have "x \<le> - 1" by (rule word_n1_ge)
  also have "(- 1 :: u32) = UINT32_MAX" by simp
  finally show ?thesis .
qed

lemmas word_bits = word_eq_bits upt_8 upt_16 upt_32 upt_64 bit_simps

end
