(* ===== verification/CUtils.thy ===== *)
theory CUtils
  imports Prelude
begin

text \<open>
  cutils.c and cutils.h: bounded string copies, minima and maxima, little-endian reads and
  writes, byte swaps, the dynamic buffer \<open>DynBuf\<close> and the hexadecimal digit reader.
  A C string lives in a byte list and ends at its first 0; \<open>None\<close> is a read or a write
  outside of the list.
\<close>

subsection \<open>Strings\<close>

text \<open>\<open>strlen\<close> of the string that starts at index \<open>p\<close>; \<open>None\<close> if there is no terminator.\<close>

function c_strlen :: "u8 list \<Rightarrow> nat \<Rightarrow> nat option" where
  "c_strlen s p = (if p < length s then (if s ! p = 0 then Some 0 else map_option Suc (c_strlen s (Suc p)))
     else None)"
  by pat_completeness auto
termination by (relation "measure (\<lambda>(s, p). length s - p)") auto

declare c_strlen.simps [simp del]

text \<open>The loop of \<open>pstrcpy\<close>: \<open>q\<close> is the write index in \<open>buf\<close>, \<open>lim\<close> is \<open>buf_size - 1\<close>.\<close>

function pstrcpy_loop :: "u8 list \<Rightarrow> nat \<Rightarrow> nat \<Rightarrow> u8 list \<Rightarrow> nat \<Rightarrow> u8 list option" where
  "pstrcpy_loop buf q lim str p =
     (case rd str p of
        None \<Rightarrow> None
      | Some c \<Rightarrow>
          if \<not> q < length buf then None
          else if c = 0 \<or> q \<ge> lim then Some (buf[q := 0])
          else pstrcpy_loop (buf[q := c]) (Suc q) lim str (Suc p))"
  by pat_completeness auto
termination by (relation "measure (\<lambda>(buf, q, lim, str, p). lim - q)") auto

declare pstrcpy_loop.simps [simp del]

definition pstrcpy :: "u8 list \<Rightarrow> nat \<Rightarrow> int \<Rightarrow> u8 list \<Rightarrow> nat \<Rightarrow> u8 list option" where
  "pstrcpy buf start buf_size str p =
     (if buf_size \<le> 0 then Some buf
      else pstrcpy_loop buf start (start + nat buf_size - 1) str p)"

definition pstrcat :: "u8 list \<Rightarrow> int \<Rightarrow> u8 list \<Rightarrow> nat \<Rightarrow> u8 list option" where
  "pstrcat buf buf_size s p =
     (case c_strlen buf 0 of
        None \<Rightarrow> None
      | Some len \<Rightarrow>
          if int len < buf_size then pstrcpy buf len (buf_size - int len) s p else Some buf)"

text \<open>
  \<open>strstart\<close> returns whether \<open>val\<close> is a prefix of \<open>str\<close> and the pointer past the prefix.
\<close>

function strstart :: "u8 list \<Rightarrow> nat \<Rightarrow> u8 list \<Rightarrow> nat \<Rightarrow> (bool \<times> nat) option" where
  "strstart str p val q =
     (if q < length val then
        (if val ! q = 0 then Some (True, p)
         else (case rd str p of
                 None \<Rightarrow> None
               | Some c \<Rightarrow> if c \<noteq> val ! q then Some (False, p)
                           else strstart str (Suc p) val (Suc q)))
      else None)"
  by pat_completeness auto
termination by (relation "measure (\<lambda>(str, p, val, q). length val - q)") auto

declare strstart.simps [simp del]

definition has_suffix :: "u8 list \<Rightarrow> u8 list \<Rightarrow> bool option" where
  "has_suffix str suffix =
     (case (c_strlen str 0, c_strlen suffix 0) of
        (Some len, Some slen) \<Rightarrow>
          Some (len \<ge> slen \<and> take slen (drop (len - slen) str) = take slen suffix)
      | _ \<Rightarrow> None)"

subsection \<open>Minima, maxima, bit scans\<close>

definition max_int :: "int \<Rightarrow> int \<Rightarrow> int" where
  "max_int a b = (if a > b then a else b)"

definition min_int :: "int \<Rightarrow> int \<Rightarrow> int" where
  "min_int a b = (if a < b then a else b)"

definition max_uint32 :: "u32 \<Rightarrow> u32 \<Rightarrow> u32" where
  "max_uint32 a b = (if a > b then a else b)"

definition min_uint32 :: "u32 \<Rightarrow> u32 \<Rightarrow> u32" where
  "min_uint32 a b = (if a < b then a else b)"

definition max_int64 :: "int \<Rightarrow> int \<Rightarrow> int" where
  "max_int64 a b = (if a > b then a else b)"

definition min_int64 :: "int \<Rightarrow> int \<Rightarrow> int" where
  "min_int64 a b = (if a < b then a else b)"

text \<open>
  The compiler builtins count the zero bits above the highest and below the lowest set bit;
  they are undefined for 0, as the comments of the source say.
\<close>

definition builtin_clz :: "'a::len word \<Rightarrow> nat option" where
  "builtin_clz a =
     (if a = 0 then None else Some (length (takeWhile (\<lambda>i. \<not> bit a i) (rev [0..<LENGTH('a)]))))"

definition builtin_ctz :: "'a::len word \<Rightarrow> nat option" where
  "builtin_ctz a =
     (if a = 0 then None else Some (length (takeWhile (\<lambda>i. \<not> bit a i) [0..<LENGTH('a)])))"

definition clz32 :: "u32 \<Rightarrow> nat option" where
  "clz32 a = builtin_clz a"

definition clz64 :: "u64 \<Rightarrow> nat option" where
  "clz64 a = builtin_clz a"

definition ctz32 :: "u32 \<Rightarrow> nat option" where
  "ctz32 a = builtin_ctz a"

definition ctz64 :: "u64 \<Rightarrow> nat option" where
  "ctz64 a = builtin_ctz a"

subsection \<open>Little-endian reads and writes\<close>

text \<open>
  The packed structs of the source read the machine's own byte order; \<open>WORDS_BIGENDIAN\<close> is
  undefined, so the least significant byte comes first.
\<close>

definition get_u8 :: "u8 list \<Rightarrow> nat \<Rightarrow> u32 option" where
  "get_u8 tab p = map_option ucast (rd tab p)"

definition get_u16 :: "u8 list \<Rightarrow> nat \<Rightarrow> u32 option" where
  "get_u16 tab p =
     (if p + 2 \<le> length tab
      then Some (ucast (tab ! p) OR push_bit 8 (ucast (tab ! (p + 1)))) else None)"

definition get_u32 :: "u8 list \<Rightarrow> nat \<Rightarrow> u32 option" where
  "get_u32 tab p =
     (if p + 4 \<le> length tab
      then Some (ucast (tab ! p) OR push_bit 8 (ucast (tab ! (p + 1))) OR
                 push_bit 16 (ucast (tab ! (p + 2))) OR push_bit 24 (ucast (tab ! (p + 3))))
      else None)"

definition get_u64 :: "u8 list \<Rightarrow> nat \<Rightarrow> u64 option" where
  "get_u64 tab p =
     (case (get_u32 tab p, get_u32 tab (p + 4)) of
        (Some lo, Some hi) \<Rightarrow> Some (ucast lo OR push_bit 32 (ucast hi))
      | _ \<Rightarrow> None)"

definition get_i8 :: "u8 list \<Rightarrow> nat \<Rightarrow> int option" where
  "get_i8 tab p = map_option sint (rd tab p)"

definition get_i16 :: "u8 list \<Rightarrow> nat \<Rightarrow> int option" where
  "get_i16 tab p = map_option (\<lambda>v. sint (ucast v :: u16)) (get_u16 tab p)"

definition get_i32 :: "u8 list \<Rightarrow> nat \<Rightarrow> int option" where
  "get_i32 tab p = map_option sint (get_u32 tab p)"

definition get_i64 :: "u8 list \<Rightarrow> nat \<Rightarrow> int option" where
  "get_i64 tab p = map_option sint (get_u64 tab p)"

definition bytes_u16 :: "u16 \<Rightarrow> u8 list" where
  "bytes_u16 v = [ucast v, ucast (drop_bit 8 v)]"

definition bytes_u32 :: "u32 \<Rightarrow> u8 list" where
  "bytes_u32 v = [ucast v, ucast (drop_bit 8 v), ucast (drop_bit 16 v), ucast (drop_bit 24 v)]"

definition bytes_u64 :: "u64 \<Rightarrow> u8 list" where
  "bytes_u64 v = bytes_u32 (ucast v) @ bytes_u32 (ucast (drop_bit 32 v))"

definition put_bytes :: "u8 list \<Rightarrow> nat \<Rightarrow> u8 list \<Rightarrow> u8 list option" where
  "put_bytes tab p d = (if p + length d \<le> length tab then Some (splice_at tab p d) else None)"

definition put_u8 :: "u8 list \<Rightarrow> nat \<Rightarrow> u8 \<Rightarrow> u8 list option" where
  "put_u8 tab p v = put_bytes tab p [v]"

definition put_u16 :: "u8 list \<Rightarrow> nat \<Rightarrow> u16 \<Rightarrow> u8 list option" where
  "put_u16 tab p v = put_bytes tab p (bytes_u16 v)"

definition put_u32 :: "u8 list \<Rightarrow> nat \<Rightarrow> u32 \<Rightarrow> u8 list option" where
  "put_u32 tab p v = put_bytes tab p (bytes_u32 v)"

definition put_u64 :: "u8 list \<Rightarrow> nat \<Rightarrow> u64 \<Rightarrow> u8 list option" where
  "put_u64 tab p v = put_bytes tab p (bytes_u64 v)"

definition bswap16 :: "u16 \<Rightarrow> u16" where
  "bswap16 x = drop_bit 8 x OR push_bit 8 x"

definition bswap32 :: "u32 \<Rightarrow> u32" where
  "bswap32 v =
     drop_bit 24 (v AND 0xff000000) OR drop_bit 8 (v AND 0x00ff0000) OR
     push_bit 8 (v AND 0x0000ff00) OR push_bit 24 (v AND 0x000000ff)"

definition bswap64 :: "u64 \<Rightarrow> u64" where
  "bswap64 v =
     drop_bit 56 (v AND push_bit 56 0xff) OR drop_bit 40 (v AND push_bit 48 0xff) OR
     drop_bit 24 (v AND push_bit 40 0xff) OR drop_bit 8 (v AND push_bit 32 0xff) OR
     push_bit 8 (v AND push_bit 24 0xff) OR push_bit 24 (v AND push_bit 16 0xff) OR
     push_bit 40 (v AND push_bit 8 0xff) OR push_bit 56 (v AND 0xff)"

subsection \<open>The dynamic buffer\<close>

text \<open>
  \<open>db_buf\<close> is the allocated block (its length is \<open>allocated_size\<close>, \<open>[]\<close> for a NULL pointer),
  \<open>db_realloc\<close> is the \<open>realloc_func\<close> pointer together with its \<open>opaque\<close> argument: it takes the
  old block and the new size and returns the new block, or \<open>None\<close> when memory is exhausted.
\<close>

type_synonym realloc_fun = "u8 list \<Rightarrow> nat \<Rightarrow> u8 list option"

record dynbuf =
  db_buf :: "u8 list"
  db_size :: nat
  db_allocated_size :: nat
  db_error :: bool
  db_realloc :: realloc_fun

definition dbuf_default_realloc :: "nat \<Rightarrow> (nat \<Rightarrow> u8) \<Rightarrow> realloc_fun" where
  "dbuf_default_realloc avail junk = libc_realloc avail junk"

definition dbuf_init2 :: "realloc_fun \<Rightarrow> dynbuf" where
  "dbuf_init2 f = \<lparr>db_buf = [], db_size = 0, db_allocated_size = 0, db_error = False, db_realloc = f\<rparr>"

definition dbuf_init :: "nat \<Rightarrow> (nat \<Rightarrow> u8) \<Rightarrow> dynbuf" where
  "dbuf_init avail junk = dbuf_init2 (dbuf_default_realloc avail junk)"

text \<open>The functions return the C status (0 or -1) and the new buffer.\<close>

definition dbuf_realloc :: "dynbuf \<Rightarrow> nat \<Rightarrow> int \<times> dynbuf" where
  "dbuf_realloc s new_size =
     (if new_size > db_allocated_size s then
        if db_error s then (-1, s)
        else
          let sz = db_allocated_size s * 3 div 2;
              new_size = (if sz > new_size then sz else new_size)
          in (case db_realloc s (db_buf s) new_size of
                None \<Rightarrow> (-1, s\<lparr>db_error := True\<rparr>)
              | Some new_buf \<Rightarrow> (0, s\<lparr>db_buf := new_buf, db_allocated_size := new_size\<rparr>))
      else (0, s))"

definition dbuf_write :: "dynbuf \<Rightarrow> nat \<Rightarrow> u8 list \<Rightarrow> int \<times> dynbuf" where
  "dbuf_write s offset data =
     (let e = offset + length data in
      case dbuf_realloc s e of
        (r, s) \<Rightarrow>
          if r \<noteq> 0 then (-1, s)
          else let s = s\<lparr>db_buf := splice_at (db_buf s) offset data\<rparr>
               in (0, if e > db_size s then s\<lparr>db_size := e\<rparr> else s))"

definition dbuf_append :: "dynbuf \<Rightarrow> u8 list \<Rightarrow> dynbuf" where
  "dbuf_append s data =
     s\<lparr>db_buf := splice_at (db_buf s) (db_size s) data, db_size := db_size s + length data\<rparr>"

definition dbuf_put :: "dynbuf \<Rightarrow> u8 list \<Rightarrow> int \<times> dynbuf" where
  "dbuf_put s data =
     (if db_size s + length data > db_allocated_size s then
        (case dbuf_realloc s (db_size s + length data) of
           (r, s') \<Rightarrow> if r \<noteq> 0 then (-1, s') else (0, dbuf_append s' data))
      else (0, dbuf_append s data))"

definition dbuf_put_self :: "dynbuf \<Rightarrow> nat \<Rightarrow> nat \<Rightarrow> int \<times> dynbuf" where
  "dbuf_put_self s offset len =
     (if db_size s + len > db_allocated_size s then
        (case dbuf_realloc s (db_size s + len) of
           (r, s') \<Rightarrow> if r \<noteq> 0 then (-1, s')
                     else (0, dbuf_append s' (take len (drop offset (db_buf s')))))
      else (0, dbuf_append s (take len (drop offset (db_buf s)))))"

definition dbuf_putc :: "dynbuf \<Rightarrow> u8 \<Rightarrow> int \<times> dynbuf" where
  "dbuf_putc s c = dbuf_put s [c]"

definition dbuf_putstr :: "dynbuf \<Rightarrow> u8 list \<Rightarrow> nat \<Rightarrow> (int \<times> dynbuf) option" where
  "dbuf_putstr s str p = map_option (\<lambda>n. dbuf_put s (take n (drop p str))) (c_strlen str p)"

text \<open>
  \<open>txt\<close> is the whole text \<open>vsnprintf\<close> would produce.  Its slow path writes the text and a
  terminating 0 directly into the buffer, truncated to the allocated room.
\<close>

definition dbuf_printf :: "dynbuf \<Rightarrow> u8 list \<Rightarrow> int \<times> dynbuf" where
  "dbuf_printf s txt =
     (let len = length txt in
      if len < 128 then dbuf_put s txt
      else
        (case dbuf_realloc s (db_size s + len + 1) of
           (r, s) \<Rightarrow>
             if r \<noteq> 0 then (-1, s)
             else (0, s\<lparr>db_buf := splice_at (db_buf s) (db_size s)
                                   (take (db_allocated_size s - db_size s - 1) txt @ [0]),
                        db_size := db_size s + len\<rparr>)))"

definition dbuf_free :: "dynbuf \<Rightarrow> dynbuf" where
  "dbuf_free s = dbuf_init2 (\<lambda>_ _. None)"

definition dbuf_set_error :: "dynbuf \<Rightarrow> dynbuf" where
  "dbuf_set_error s = s\<lparr>db_error := True\<rparr>"

definition dbuf_put_u16 :: "dynbuf \<Rightarrow> u16 \<Rightarrow> int \<times> dynbuf" where
  "dbuf_put_u16 s val = dbuf_put s (bytes_u16 val)"

definition dbuf_put_u32 :: "dynbuf \<Rightarrow> u32 \<Rightarrow> int \<times> dynbuf" where
  "dbuf_put_u32 s val = dbuf_put s (bytes_u32 val)"

definition dbuf_put_u64 :: "dynbuf \<Rightarrow> u64 \<Rightarrow> int \<times> dynbuf" where
  "dbuf_put_u64 s val = dbuf_put s (bytes_u64 val)"

subsection \<open>Hexadecimal digits\<close>

definition from_hex :: "int \<Rightarrow> int" where
  "from_hex c =
     (if 48 \<le> c \<and> c \<le> 57 then c - 48
      else if 65 \<le> c \<and> c \<le> 70 then c - 65 + 10
      else if 97 \<le> c \<and> c \<le> 102 then c - 97 + 10
      else -1)"

subsection \<open>Correctness of the string functions\<close>

text \<open>\<open>c_str_at str p s\<close>: the C string at index \<open>p\<close> of \<open>str\<close> has the bytes \<open>s\<close>.\<close>

definition c_str_at :: "u8 list \<Rightarrow> nat \<Rightarrow> u8 list \<Rightarrow> bool" where
  "c_str_at str p s \<longleftrightarrow> 0 \<notin> set s \<and> p \<le> length str \<and> (\<exists>rest. drop p str = s @ 0 # rest)"

lemma c_str_at_Nil: "c_str_at str p [] \<longleftrightarrow> rd str p = Some 0"
  by (auto simp: c_str_at_def rd_def Cons_nth_drop_Suc [symmetric])

lemma c_str_at_Cons: "c_str_at str p (c # s) \<longleftrightarrow> c \<noteq> 0 \<and> rd str p = Some c \<and> c_str_at str (Suc p) s"
proof (cases "p < length str")
  case True
  then have "drop p str = str ! p # drop (Suc p) str" by (rule Cons_nth_drop_Suc [symmetric])
  with True show ?thesis by (auto simp: c_str_at_def rd_def)
next
  case False
  then show ?thesis by (auto simp: c_str_at_def)
qed

lemma c_strlen_c_str_at: "c_str_at str p s \<Longrightarrow> c_strlen str p = Some (length s)"
  by (induction s arbitrary: p)
     (auto simp: c_str_at_Nil c_str_at_Cons rd_def c_strlen.simps [of str] split: if_splits)

lemma pstrcpy_loop_spec:
  "c_str_at str p s \<Longrightarrow> q \<le> lim \<Longrightarrow> lim < length buf \<Longrightarrow>
   pstrcpy_loop buf q lim str p = Some (splice_at buf q (take (lim - q) s @ [0]))"
proof (induction s arbitrary: p q buf)
  case Nil
  then show ?case
    by (auto simp: c_str_at_Nil pstrcpy_loop.simps [of buf] splice_at_def upd_conv_take_nth_drop)
next
  case (Cons c s)
  show ?case
  proof (cases "q = lim")
    case True
    with Cons.prems show ?thesis
      by (auto simp: c_str_at_Cons pstrcpy_loop.simps [of buf] splice_at_def upd_conv_take_nth_drop)
  next
    case False
    with Cons.prems have "pstrcpy_loop buf q lim str p = pstrcpy_loop (buf[q := c]) (Suc q) lim str (Suc p)"
      by (auto simp: c_str_at_Cons pstrcpy_loop.simps [of buf])
    also have "\<dots> = Some (splice_at (buf[q := c]) (Suc q) (take (lim - Suc q) s @ [0]))"
      using Cons.prems False by (intro Cons.IH) (auto simp: c_str_at_Cons)
    also have "lim - q = Suc (lim - Suc q)" using False Cons.prems by simp
    then have "splice_at (buf[q := c]) (Suc q) (take (lim - Suc q) s @ [0]) =
               splice_at buf q (take (lim - q) (c # s) @ [0])"
      using Cons.prems False
      by (simp add: splice_at_def take_Suc_conv_app_nth)
    finally show ?thesis .
  qed
qed

lemma pstrcpy_spec:
  assumes "c_str_at str p s" "0 < buf_size" "start + nat buf_size \<le> length buf"
  shows "pstrcpy buf start buf_size str p =
         Some (splice_at buf start (take (nat buf_size - 1) s @ [0]))"
  using assms pstrcpy_loop_spec [OF assms(1), of start "start + nat buf_size - 1" buf]
  by (auto simp: pstrcpy_def)

lemma pstrcat_spec:
  assumes "c_str_at buf 0 a" "c_str_at str p s" "length a < nat n" "nat n \<le> length buf"
  shows "\<exists>b. pstrcat buf n str p = Some b \<and> c_str_at b 0 (take (nat n - 1) (a @ s)) \<and> length b = length buf"
proof -
  have n: "0 < n" using assms(3) by (cases "n \<le> 0") auto
  let ?d = "take (nat n - length a - 1) s @ [0]"
  have "nat (n - int (length a)) = nat n - length a" by (simp add: nat_diff_distrib')
  then have "pstrcat buf n str p = Some (splice_at buf (length a) ?d)"
    using assms n c_strlen_c_str_at [OF assms(1)]
      pstrcpy_spec [OF assms(2), of "n - int (length a)" "length a" buf]
    by (simp add: pstrcat_def zless_nat_eq_int_zless)
  moreover have "take (length a) buf = a" "length a \<le> length buf"
    using assms(1) by (auto simp: c_str_at_def)
  then have "splice_at buf (length a) ?d = take (nat n - 1) (a @ s) @ 0 # drop (length a + length ?d) buf"
    using assms(3) by (simp add: splice_at_def)
  moreover have "0 \<notin> set (take (nat n - 1) (a @ s))"
    using assms(1,2) by (auto simp only: c_str_at_def set_append dest!: in_set_takeD)
  moreover have "length (splice_at buf (length a) ?d) = length buf"
    using assms by (intro length_splice_at) auto
  ultimately show ?thesis by (auto simp only: c_str_at_def drop_0)
qed

lemma strstart_spec:
  "c_str_at val q v \<Longrightarrow> c_str_at str p s \<Longrightarrow>
   \<exists>p'. strstart str p val q = Some (take (length v) s = v, p') \<and>
        (take (length v) s = v \<longrightarrow> p' = p + length v)"
proof (induction v arbitrary: p q s)
  case Nil
  then show ?case by (auto simp: c_str_at_Nil strstart.simps [of str p val q] rd_Some_iff)
next
  case (Cons c v)
  from Cons.prems have v: "c \<noteq> 0" "q < length val" "val ! q = c" "c_str_at val (Suc q) v"
    by (auto simp: c_str_at_Cons rd_Some_iff)
  show ?case
  proof (cases s)
    case Nil
    with Cons.prems(2) v show ?thesis
      by (simp add: c_str_at_Nil strstart.simps [of str p val q])
  next
    case (Cons d s')
    with Cons.prems(2) have "rd str p = Some d" "c_str_at str (Suc p) s'" by (auto simp: c_str_at_Cons)
    with Cons v Cons.IH [of "Suc q" "Suc p" s'] show ?thesis
      by (auto simp: strstart.simps [of str p val q])
  qed
qed

lemma has_suffix_spec:
  assumes "c_str_at str 0 s" "c_str_at suf 0 t"
  shows "has_suffix str suf = Some (\<exists>u. s = u @ t)"
proof -
  have st: "take (length s) str = s" "take (length t) suf = t" using assms by (auto simp: c_str_at_def)
  have "take (length t) (drop (length s - length t) str) = drop (length s - length t) s"
    if "length t \<le> length s"
    using that st(1) by (metis drop_take le_add_diff_inverse2 diff_diff_cancel)
  moreover have "(length t \<le> length s \<and> drop (length s - length t) s = t) \<longleftrightarrow> (\<exists>u. s = u @ t)"
    by (metis append_eq_conv_conj append_take_drop_id diff_add_inverse2 length_append le_add2)
  ultimately show ?thesis
    using st by (auto simp: has_suffix_def c_strlen_c_str_at [OF assms(1)] c_strlen_c_str_at [OF assms(2)])
qed
subsection \<open>Codecs\<close>

lemma length_bytes [simp]:
  "length (bytes_u16 w) = 2" "length (bytes_u32 v) = 4" "length (bytes_u64 u) = 8"
  by (simp_all add: bytes_u16_def bytes_u32_def bytes_u64_def)

lemma get_u16_bytes: "get_u16 (pre @ bytes_u16 v @ post) (length pre) = Some (ucast v)"
  by (simp add: get_u16_def bytes_u16_def nth_append) (simp add: word_bits)

lemma get_u32_bytes: "get_u32 (pre @ bytes_u32 v @ post) (length pre) = Some v"
  by (simp add: get_u32_def bytes_u32_def nth_append) (simp add: word_bits)

lemma get_u64_bytes: "get_u64 (pre @ bytes_u64 v @ post) (length pre) = Some v"
proof -
  have "get_u32 (pre @ bytes_u64 v @ post) (length pre) = Some (ucast v)"
    using get_u32_bytes [of pre "ucast v" "bytes_u32 (ucast (drop_bit 32 v)) @ post"]
    by (simp add: bytes_u64_def)
  moreover have "get_u32 (pre @ bytes_u64 v @ post) (length pre + 4) = Some (ucast (drop_bit 32 v))"
    using get_u32_bytes [of "pre @ bytes_u32 (ucast v)" "ucast (drop_bit 32 v)" post]
    by (simp add: bytes_u64_def)
  ultimately show ?thesis
    by (simp add: get_u64_def) (simp add: word_bits)
qed

lemma put_bytes_split:
  "put_bytes tab p d = Some tab' \<Longrightarrow>
   tab' = take p tab @ d @ drop (p + length d) tab \<and> length (take p tab) = p"
  by (auto simp: put_bytes_def splice_at_def split: if_splits)

lemma get_put_u32: "put_u32 tab p v = Some tab' \<Longrightarrow> get_u32 tab' p = Some v"
  using get_u32_bytes [of "take p tab" v "drop (p + 4) tab"]
  by (auto simp: put_u32_def dest: put_bytes_split)

lemma get_put_u16: "put_u16 tab p v = Some tab' \<Longrightarrow> get_u16 tab' p = Some (ucast v)"
  using get_u16_bytes [of "take p tab" v "drop (p + 2) tab"]
  by (auto simp: put_u16_def dest: put_bytes_split)

lemma bswap16_bytes: "bytes_u16 (bswap16 v) = rev (bytes_u16 v)"
  by (simp add: bswap16_def bytes_u16_def) (simp add: word_bits)

lemma bswap32_bytes: "bytes_u32 (bswap32 v) = rev (bytes_u32 v)"
  by (simp add: bswap32_def bytes_u32_def) (simp add: word_bits)

lemma bswap64_bytes: "bytes_u64 (bswap64 v) = rev (bytes_u64 v)"
  by (simp add: bswap64_def bytes_u64_def bytes_u32_def) (simp add: word_bits)

subsection \<open>The dynamic buffer under an allocator\<close>

text \<open>
  A client that writes a sequence of blocks and, as the callers in the sources do, looks at
  \<open>dbuf_error\<close> only at the end.
\<close>

fun dbuf_puts :: "dynbuf \<Rightarrow> u8 list list \<Rightarrow> dynbuf" where
  "dbuf_puts s [] = s"
| "dbuf_puts s (d # ds) = dbuf_puts (snd (dbuf_put s d)) ds"

definition db_wf :: "dynbuf \<Rightarrow> bool" where
  "db_wf s \<longleftrightarrow> length (db_buf s) = db_allocated_size s \<and> db_size s \<le> db_allocated_size s"

definition contents :: "dynbuf \<Rightarrow> u8 list" where
  "contents s = take (db_size s) (db_buf s)"

text \<open>
  What the code relies on of \<open>realloc_func\<close> is the allocator's contract.
\<close>

locale dynbuf_alloc = realloc_contract realloc for realloc :: realloc_fun
begin

definition db_ok :: "dynbuf \<Rightarrow> bool" where
  "db_ok s \<longleftrightarrow> db_wf s \<and> db_realloc s = realloc"

lemma length_contents: "db_ok s \<Longrightarrow> length (contents s) = db_size s"
  by (simp add: db_ok_def db_wf_def contents_def)

lemma init_ok: "db_ok (dbuf_init2 realloc)" "contents (dbuf_init2 realloc) = []"
  by (simp_all add: db_ok_def db_wf_def contents_def dbuf_init2_def)

lemma realloc_room:
  assumes "db_ok s" "dbuf_realloc s n = (r, s')"
  shows "db_ok s' \<and> contents s' = contents s \<and> db_size s' = db_size s \<and>
         (r = 0 \<and> n \<le> db_allocated_size s' \<and> db_error s' = db_error s \<or> r = -1 \<and> db_error s')"
  using assms realloc_keeps [of "db_buf s" _ _ "db_size s"] realloc_length [of "db_buf s"]
  by (auto simp: dbuf_realloc_def db_ok_def db_wf_def contents_def Let_def split: if_splits option.splits)

lemma append_ok:
  assumes "db_ok s" "db_size s + length d \<le> db_allocated_size s"
  shows "db_ok (dbuf_append s d) \<and> contents (dbuf_append s d) = contents s @ d \<and>
         db_error (dbuf_append s d) = db_error s"
  using assms by (auto simp: dbuf_append_def db_ok_def db_wf_def contents_def splice_simps)

lemma put_spec:
  assumes "db_ok s" "dbuf_put s d = (r, s')"
  shows "db_ok s' \<and> (r = 0 \<and> contents s' = contents s @ d \<and> db_error s' = db_error s \<or>
                    r = -1 \<and> contents s' = contents s \<and> db_error s')"
proof (cases "db_size s + length d > db_allocated_size s")
  case True
  obtain q t where qt: "dbuf_realloc s (db_size s + length d) = (q, t)" by fastforce
  from realloc_room [OF assms(1) qt]
  show ?thesis using True assms(2) qt append_ok [of t d]
    by (auto simp: dbuf_put_def split: if_splits)
next
  case False
  then show ?thesis using assms append_ok [of s d] by (auto simp: dbuf_put_def)
qed

lemma put_self_spec:
  assumes "db_ok s" "off + len \<le> db_size s" "dbuf_put_self s off len = (r, s')"
  shows "db_ok s' \<and> (r = 0 \<and> contents s' = contents s @ take len (drop off (contents s)) \<and>
                      db_error s' = db_error s \<or>
                    r = -1 \<and> contents s' = contents s \<and> db_error s')"
proof -
  have sl: "take len (drop off (db_buf t)) = take len (drop off (contents t))"
    if "db_ok t" "db_size t = db_size s" for t
    using that assms(2) by (simp add: contents_def drop_take min_def)
  obtain q t where qt: "dbuf_realloc s (db_size s + len) = (q, t)" by fastforce
  from realloc_room [OF assms(1) qt] have t: "db_ok t" "contents t = contents s"
    "db_size t = db_size s" "q = 0 \<and> db_size s + len \<le> db_allocated_size t \<and>
     db_error t = db_error s \<or> q = -1 \<and> db_error t" by auto
  have len: "length (take len (drop off (contents u))) = len"
    if "db_ok u" "db_size u = db_size s" for u
    using that assms(2) length_contents [OF that(1)] by simp
  show ?thesis
    using assms(1,3) qt t sl [of t] sl [of s] len [of t] len [of s]
      append_ok [of t "take len (drop off (contents t))"]
      append_ok [of s "take len (drop off (contents s))"]
    by (auto simp: dbuf_put_self_def split: if_splits)
qed

lemma puts_spec:
  assumes "db_ok s"
  shows "db_ok (dbuf_puts s ds) \<and> (db_error s \<longrightarrow> db_error (dbuf_puts s ds)) \<and>
    (\<not> db_error (dbuf_puts s ds) \<longrightarrow> contents (dbuf_puts s ds) = contents s @ concat ds)"
  using assms
proof (induction ds arbitrary: s)
  case (Cons d ds)
  obtain r t where t: "dbuf_put s d = (r, t)" by fastforce
  from put_spec [OF Cons.prems t] Cons.IH [of t] t show ?case by auto
qed simp

lemma put_error_sticky:
  assumes "db_ok s" "db_error s" "dbuf_put s d = (r, s')"
  shows "db_error s'"
  using put_spec [OF assms(1,3)] assms(2) by auto

end

interpretation dbuf_libc: dynbuf_alloc "dbuf_default_realloc avail junk" for avail junk
  unfolding dbuf_default_realloc_def by unfold_locales

end
