(* ===== verification/LinkedList.thy ===== *)
theory LinkedList
  imports Prelude "HOL-Library.Monad_Syntax"
begin

text \<open>
  list.h: the intrusive doubly linked lists with a list head, on an explicit store of
  \<open>struct list_head\<close> cells.  The operations are the assignments of the source, in its order; they
  are related to operations on the sequence of the elements.
\<close>

subsection \<open>The code\<close>

record list_head =
  prev :: nat
  "next" :: nat

text \<open>A pointer that is not in the domain of the store is not valid; the null pointer is 0.\<close>

type_synonym link_store = "nat \<Rightarrow> list_head option"

definition set_prev :: "link_store \<Rightarrow> nat \<Rightarrow> nat \<Rightarrow> link_store option" where
  "set_prev h p v = (case h p of None \<Rightarrow> None | Some l \<Rightarrow> Some (h(p \<mapsto> l\<lparr>prev := v\<rparr>)))"

definition set_next :: "link_store \<Rightarrow> nat \<Rightarrow> nat \<Rightarrow> link_store option" where
  "set_next h p v = (case h p of None \<Rightarrow> None | Some l \<Rightarrow> Some (h(p \<mapsto> l\<lparr>next := v\<rparr>)))"

definition init_list_head :: "link_store \<Rightarrow> nat \<Rightarrow> link_store option" where
  "init_list_head h head = do { h \<leftarrow> set_prev h head head; set_next h head head }"

definition list_add_between :: "link_store \<Rightarrow> nat \<Rightarrow> nat \<Rightarrow> nat \<Rightarrow> link_store option" where
  "list_add_between h el p n =
     do {
       h \<leftarrow> set_next h p el;
       h \<leftarrow> set_prev h el p;
       h \<leftarrow> set_next h el n;
       set_prev h n el
     }"

definition list_add :: "link_store \<Rightarrow> nat \<Rightarrow> nat \<Rightarrow> link_store option" where
  "list_add h el head = do { l \<leftarrow> h head; list_add_between h el head (next l) }"

definition list_add_tail :: "link_store \<Rightarrow> nat \<Rightarrow> nat \<Rightarrow> link_store option" where
  "list_add_tail h el head = do { l \<leftarrow> h head; list_add_between h el (prev l) head }"

definition list_del :: "link_store \<Rightarrow> nat \<Rightarrow> link_store option" where
  "list_del h el =
     do {
       l \<leftarrow> h el;
       h \<leftarrow> set_next h (prev l) (next l);
       h \<leftarrow> set_prev h (next l) (prev l);
       h \<leftarrow> set_prev h el 0;
       set_next h el 0
     }"

definition list_empty :: "link_store \<Rightarrow> nat \<Rightarrow> bool option" where
  "list_empty h el = map_option (\<lambda>l. next l = el) (h el)"

text \<open>
  The loops, with a body that transforms the store and a state of its own.  \<open>list_for_each\<close>
  reads the successor after the body has run, \<open>list_for_each_safe\<close> before.
\<close>

type_synonym 's body = "nat \<Rightarrow> link_store \<times> 's \<Rightarrow> (link_store \<times> 's) option"

partial_function (option) for_each_from :: "'s body \<Rightarrow> nat \<Rightarrow> nat \<Rightarrow> link_store \<times> 's \<Rightarrow> (link_store \<times> 's) option" where
  "for_each_from f head el s =
     (if el = head then Some s
      else do {
        s \<leftarrow> f el s;
        l \<leftarrow> fst s el;
        for_each_from f head (next l) s
      })"

definition list_for_each :: "'s body \<Rightarrow> nat \<Rightarrow> link_store \<times> 's \<Rightarrow> (link_store \<times> 's) option" where
  "list_for_each f head s = do { l \<leftarrow> fst s head; for_each_from f head (next l) s }"

partial_function (option) for_each_safe_from ::
  "'s body \<Rightarrow> nat \<Rightarrow> nat \<Rightarrow> nat \<Rightarrow> link_store \<times> 's \<Rightarrow> (link_store \<times> 's) option" where
  "for_each_safe_from f head el el1 s =
     (if el = head then Some s
      else do {
        s \<leftarrow> f el s;
        l \<leftarrow> fst s el1;
        for_each_safe_from f head el1 (next l) s
      })"

definition list_for_each_safe :: "'s body \<Rightarrow> nat \<Rightarrow> link_store \<times> 's \<Rightarrow> (link_store \<times> 's) option" where
  "list_for_each_safe f head s =
     do {
       l \<leftarrow> fst s head;
       l1 \<leftarrow> fst s (next l);
       for_each_safe_from f head (next l) (next l1) s
     }"

subsection \<open>The sequence a list head stands for\<close>

abbreviation nx :: "link_store \<Rightarrow> nat \<Rightarrow> nat option" where "nx h p \<equiv> map_option next (h p)"
abbreviation pv :: "link_store \<Rightarrow> nat \<Rightarrow> nat option" where "pv h p \<equiv> map_option prev (h p)"

text \<open>Neighbours in the sequence point at each other.\<close>

fun chain :: "link_store \<Rightarrow> nat list \<Rightarrow> bool" where
  "chain h (x # y # zs) \<longleftrightarrow> nx h x = Some y \<and> pv h y = Some x \<and> chain h (y # zs)"
| "chain h _ \<longleftrightarrow> True"

definition is_list :: "link_store \<Rightarrow> nat \<Rightarrow> nat list \<Rightarrow> bool" where
  "is_list h head xs \<longleftrightarrow> distinct (head # xs) \<and> chain h (head # xs @ [head])"

lemma chain_append: "chain h (xs @ y # ys) \<longleftrightarrow> chain h (xs @ [y]) \<and> chain h (y # ys)"
  by (induction h xs rule: chain.induct) (cases ys; simp)+

lemma chain_frame:
  assumes "\<And>a. a \<in> set (butlast zs) \<Longrightarrow> nx h' a = nx h a" "\<And>a. a \<in> set (tl zs) \<Longrightarrow> pv h' a = pv h a"
  shows "chain h' zs \<longleftrightarrow> chain h zs"
  using assms by (induction h zs rule: chain.induct) auto

lemma chain_join: "xs \<noteq> [] \<Longrightarrow> ys \<noteq> [] \<Longrightarrow>
  chain h (xs @ ys) \<longleftrightarrow> chain h xs \<and> nx h (last xs) = Some (hd ys) \<and> pv h (hd ys) = Some (last xs) \<and> chain h ys"
proof (induction xs rule: rev_induct)
  case (snoc x xs)
  then show ?case using chain_append [of h xs x ys] by (cases ys) auto
qed simp

text \<open>A list is a ring that any place between two neighbours cuts into two chains.\<close>

lemma is_list_cut:
  "is_list h head (us @ vs) \<longleftrightarrow> distinct (head # us @ vs) \<and> chain h (head # us) \<and>
     nx h (last (head # us)) = Some (hd (vs @ [head])) \<and> pv h (hd (vs @ [head])) = Some (last (head # us)) \<and>
     chain h (vs @ [head])"
  using chain_join [of "head # us" "vs @ [head]" h] by (simp add: is_list_def)

lemma is_list_valid: "is_list h head xs \<Longrightarrow> p \<in> set (head # xs) \<Longrightarrow> \<exists>l. h p = Some l"
proof -
  assume a: "is_list h head xs" "p \<in> set (head # xs)"
  then obtain us vs where "head # xs = us @ p # vs" by (meson split_list)
  then have "head # xs @ [head] = us @ p # vs @ [head]" by (metis append_Cons append_assoc)
  then have "chain h (us @ p # vs @ [head])" using a(1) unfolding is_list_def by metis
  then have "chain h (p # vs @ [head])" by (subst (asm) chain_append) simp
  then show ?thesis by (cases vs) (simp; blast)+
qed

lemma is_list_cong: "\<lbrakk>is_list h head xs; \<And>a. a \<in> set (head # xs) \<Longrightarrow> h' a = h a\<rbrakk> \<Longrightarrow> is_list h' head xs"
  unfolding is_list_def using chain_frame [of "head # xs @ [head]" h' h] by (auto simp: butlast_append)

lemma init_list_head_ok: "h head = Some l \<Longrightarrow> \<exists>h'. init_list_head h head = Some h' \<and> is_list h' head [] \<and> (\<forall>a. a \<noteq> head \<longrightarrow> h' a = h a)"
  by (simp add: init_list_head_def set_prev_def set_next_def is_list_def)

lemma list_empty_ok: "is_list h head xs \<Longrightarrow> list_empty h head = Some (xs = [])"
  by (cases xs) (auto simp: is_list_def list_empty_def)

lemma add_between_ok:
  assumes "is_list h head (us @ vs)" "el \<notin> set (head # us @ vs)" "h el = Some l"
  shows "\<exists>h'. list_add_between h el (last (head # us)) (hd (vs @ [head])) = Some h' \<and> is_list h' head (us @ el # vs) \<and>
    (\<forall>a. a \<notin> set (el # head # us @ vs) \<longrightarrow> h' a = h a)"
proof -
  let ?p = "last (head # us)" and ?n = "hd (vs @ [head])"
  note c = assms(1) [unfolded is_list_cut]
  have p: "?p \<in> set (head # us)" "?p \<in> set (head # us @ vs)" using last_in_set [of "head # us"] by auto
  have n: "?n \<in> set (vs @ [head])" "?n \<in> set (head # us @ vs)" using hd_in_set [of "vs @ [head]"] by auto
  obtain lp ln where h: "h ?p = Some lp" "h ?n = Some ln" using is_list_valid [OF assms(1)] p(2) n(2) by blast
  have ne: "el \<noteq> ?p" "el \<noteq> ?n" using assms(2) p n by auto
  define h1 where "h1 = h(?p \<mapsto> lp\<lparr>next := el\<rparr>)"
  define h2 where "h2 = h1(el \<mapsto> l\<lparr>prev := ?p, next := ?n\<rparr>)"
  define h' where "h' = h2(?n \<mapsto> (the (h2 ?n))\<lparr>prev := el\<rparr>)"
  have run: "list_add_between h el ?p ?n = Some h'"
    using h ne assms(3)
    by (auto simp: list_add_between_def set_next_def set_prev_def h'_def h2_def h1_def)
  have nx: "nx h' a = (if a = ?p then Some el else if a = el then Some ?n else nx h a)" for a
    using h ne by (auto simp: h'_def h2_def h1_def)
  have pv: "pv h' a = (if a = ?n then Some el else if a = el then Some ?p else pv h a)" for a
    using h ne by (auto simp: h'_def h2_def h1_def)
  have A: "chain h' (head # us)"
  proof (subst chain_frame [where h = h])
    have "?p \<notin> set (butlast (head # us))" using c
      by (metis append_butlast_last_id distinct_append distinct.simps(2) list.distinct(1) not_distinct_conv_prefix append_Cons)
    then show "nx h' a = nx h a" if "a \<in> set (butlast (head # us))" for a
      using that assms(2) in_set_butlastD [OF that] by (auto simp: nx)
    have "?n \<notin> set us" using c by (cases vs) auto
    then show "pv h' a = pv h a" if "a \<in> set (tl (head # us))" for a using that assms(2) by (auto simp: pv)
  qed (use c in simp)
  have B: "chain h' (vs @ [head])"
  proof (subst chain_frame [where h = h])
    have "?p \<notin> set vs" using c by (cases "us = []") (auto dest: last_in_set)
    then show "nx h' a = nx h a" if "a \<in> set (butlast (vs @ [head]))" for a using that assms(2) by (auto simp: nx)
    have "?n \<notin> set (tl (vs @ [head]))" using c by (cases vs) auto
    then show "pv h' a = pv h a" if "a \<in> set (tl (vs @ [head]))" for a
      using that assms(2) by (cases vs) (auto simp: pv)
  qed (use c in simp)
  have "is_list h' head (us @ el # vs)"
    unfolding is_list_cut using A B c assms(2) nx [of ?p] nx [of el] pv [of el] pv [of ?n] ne
      chain_join [of "[el]" "vs @ [head]" h'] by auto
  moreover have "h' a = h a" if "a \<notin> set (el # head # us @ vs)" for a
    using that p n by (auto simp: h'_def h2_def h1_def)
  ultimately show ?thesis using run by blast
qed

lemma list_add_ok:
  assumes "is_list h head xs" "el \<notin> set (head # xs)" "h el = Some l"
  shows "\<exists>h'. list_add h el head = Some h' \<and> is_list h' head (el # xs) \<and> (\<forall>a. a \<notin> set (el # head # xs) \<longrightarrow> h' a = h a)"
proof -
  obtain l0 where "h head = Some l0" using is_list_valid [OF assms(1), of head] by auto
  moreover from this have "next l0 = hd (xs @ [head])" using assms(1) by (cases xs) (auto simp: is_list_def)
  ultimately show ?thesis using add_between_ok [of h head "[]" xs el l] assms by (simp add: list_add_def)
qed

lemma list_add_tail_ok:
  assumes "is_list h head xs" "el \<notin> set (head # xs)" "h el = Some l"
  shows "\<exists>h'. list_add_tail h el head = Some h' \<and> is_list h' head (xs @ [el]) \<and> (\<forall>a. a \<notin> set (el # head # xs) \<longrightarrow> h' a = h a)"
proof -
  obtain l0 where l0: "h head = Some l0" using is_list_valid [OF assms(1), of head] by auto
  have "pv h head = Some (last (head # xs))" using assms(1) is_list_cut [of h head xs "[]"] by simp
  with l0 have "prev l0 = last (head # xs)" by simp
  with l0 show ?thesis using add_between_ok [of h head xs "[]" el l] assms by (simp add: list_add_tail_def)
qed

lemma list_del_ok:
  assumes "is_list h head (us @ el # vs)"
  shows "\<exists>h'. list_del h el = Some h' \<and> is_list h' head (us @ vs) \<and> h' el = Some \<lparr>prev = 0, next = 0\<rparr> \<and>
    (\<forall>a. a \<notin> set (el # head # us @ vs) \<longrightarrow> h' a = h a)"
proof -
  let ?p = "last (head # us)" and ?n = "hd (vs @ [head])"
  have d: "distinct (head # us @ el # vs)" using assms by (simp add: is_list_def)
  have c: "chain h (head # us)" "nx h ?p = Some el" "pv h el = Some ?p" "chain h (el # vs @ [head])"
    using assms is_list_cut [of h head us "el # vs"] by auto
  have c2: "nx h el = Some ?n" "pv h ?n = Some el" "chain h (vs @ [head])"
    using c(4) chain_join [of "[el]" "vs @ [head]" h] by auto
  have p: "?p \<in> set (head # us)" using last_in_set [of "head # us"] by auto
  have n: "?n \<in> set (vs @ [head])" using hd_in_set [of "vs @ [head]"] by auto
  have ne: "el \<noteq> ?p" "el \<noteq> ?n" using d p n by auto
  obtain l lp ln where h: "h el = Some l" "h ?p = Some lp" "h ?n = Some ln" "prev l = ?p" "next l = ?n"
    using c(2,3) c2(1,2) by auto
  define h1 where "h1 = h(?p \<mapsto> lp\<lparr>next := ?n\<rparr>)"
  define h2 where "h2 = h1(?n \<mapsto> (the (h1 ?n))\<lparr>prev := ?p\<rparr>)"
  define h' where "h' = h2(el \<mapsto> l\<lparr>prev := 0, next := 0\<rparr>)"
  have run: "list_del h el = Some h'"
    using h ne by (auto simp: list_del_def set_next_def set_prev_def h'_def h2_def h1_def)
  have nx: "nx h' a = (if a = el then Some 0 else if a = ?p then Some ?n else nx h a)" for a
    using h ne by (auto simp: h'_def h2_def h1_def)
  have pv: "pv h' a = (if a = el then Some 0 else if a = ?n then Some ?p else pv h a)" for a
    using h ne by (auto simp: h'_def h2_def h1_def)
  have A: "chain h' (head # us)"
  proof (subst chain_frame [where h = h])
    have "?p \<notin> set (butlast (head # us))" using d
      by (metis append_butlast_last_id distinct_append distinct.simps(2) list.distinct(1) not_distinct_conv_prefix append_Cons)
    then show "nx h' a = nx h a" if "a \<in> set (butlast (head # us))" for a
      using that d in_set_butlastD [OF that] by (auto simp: nx)
    have "?n \<notin> set us" using d by (cases vs) auto
    then show "pv h' a = pv h a" if "a \<in> set (tl (head # us))" for a using that d by (auto simp: pv)
  qed (use c in simp)
  have B: "chain h' (vs @ [head])"
  proof (subst chain_frame [where h = h])
    have "?p \<notin> set vs" using d by (cases "us = []") (auto dest: last_in_set)
    then show "nx h' a = nx h a" if "a \<in> set (butlast (vs @ [head]))" for a using that d by (auto simp: nx)
    have "?n \<notin> set (tl (vs @ [head]))" using d by (cases vs) auto
    then show "pv h' a = pv h a" if "a \<in> set (tl (vs @ [head]))" for a
      using that d by (cases vs) (auto simp: pv)
  qed (use c2 in simp)
  have "is_list h' head (us @ vs)"
    unfolding is_list_cut using A B d nx [of ?p] pv [of ?n] ne by auto
  moreover have "h' el = Some \<lparr>prev = 0, next = 0\<rparr>" by (cases l) (simp add: h'_def)
  moreover have "h' a = h a" if "a \<notin> set (el # head # us @ vs)" for a
    using that p n by (auto simp: h'_def h2_def h1_def)
  ultimately show ?thesis using run by blast
qed

subsection \<open>The loops\<close>

text \<open>
  \<open>Inv d t s\<close> holds of the elements \<open>d\<close> that the loop has left behind and the elements \<open>t\<close>
  that it has still to visit.  \<open>list_for_each_safe\<close> tolerates a body that takes the current element,
  or earlier ones, out of the list; \<open>list_for_each\<close> one that adds elements at the end.
\<close>

lemma next_of:
  assumes "is_list h head (us @ x # vs)"
  shows "\<exists>l. h x = Some l \<and> next l = hd (vs @ [head])"
proof -
  have "chain h (x # vs @ [head])"
    using assms chain_append [of h "head # us" x "vs @ [head]"] by (simp add: is_list_def)
  then show ?thesis by (cases vs) auto
qed

lemma first_of:
  assumes "is_list h head xs"
  shows "\<exists>l. h head = Some l \<and> next l = hd (xs @ [head])"
  using assms by (cases xs) (auto simp: is_list_def)

text \<open>The links that a traversal follows from the elements \<open>t\<close> on.\<close>

fun forward :: "link_store \<Rightarrow> nat \<Rightarrow> nat list \<Rightarrow> bool" where
  "forward h head [] \<longleftrightarrow> (\<exists>l. h head = Some l)"
| "forward h head (x # t) \<longleftrightarrow> x \<noteq> head \<and> (\<exists>l. h x = Some l \<and> next l = hd (t @ [head])) \<and> forward h head t"

lemma is_list_forward: "is_list h head (us @ t) \<Longrightarrow> forward h head t"
proof (induction t arbitrary: us)
  case Nil
  then show ?case using is_list_valid [OF Nil, of head] by simp
next
  case (Cons x t)
  have "forward h head t" using Cons.IH [of "us @ [x]"] Cons.prems by simp
  then show ?case using next_of [OF Cons.prems] Cons.prems by (auto simp: is_list_def)
qed

lemma for_each_safe_forward:
  assumes fwd: "\<And>d t s. Inv d t s \<Longrightarrow> forward (fst s) head t"
    and step: "\<And>d x t s. Inv d (x # t) s \<Longrightarrow> \<exists>s'. f x s = Some s' \<and> Inv (d @ [x]) t s'"
    and start: "Inv [] xs s"
    and whole: "is_list (fst s) head xs"
  shows "\<exists>s'. list_for_each_safe f head s = Some s' \<and> Inv xs [] s'"
proof -
  have loop: "\<exists>s'. for_each_safe_from f head (hd (t @ [head])) el1 s = Some s' \<and> Inv (d @ t) [] s'"
    if "Inv d t s" "t \<noteq> [] \<Longrightarrow> el1 = hd (tl t @ [head])" for d t s el1
    using that
  proof (induction t arbitrary: d s el1)
    case Nil
    then show ?case by (simp add: for_each_safe_from.simps)
  next
    case (Cons x t)
    obtain s1 where s1: "f x s = Some s1" "Inv (d @ [x]) t s1" using step [OF Cons.prems(1)] by blast
    have ne: "x \<noteq> head" using fwd [OF Cons.prems(1)] by simp
    have el1: "el1 = hd (t @ [head])" using Cons.prems(2) by simp
    have "\<exists>l. fst s1 el1 = Some l \<and> (t \<noteq> [] \<longrightarrow> next l = hd (tl t @ [head]))"
      using fwd [OF s1(2)] el1 by (cases t) auto
    then obtain l where l: "fst s1 el1 = Some l" "t \<noteq> [] \<Longrightarrow> next l = hd (tl t @ [head])" by blast
    from Cons.IH [OF s1(2) l(2)] obtain s' where
      "for_each_safe_from f head (hd (t @ [head])) (next l) s1 = Some s'" "Inv ((d @ [x]) @ t) [] s'" by blast
    then show ?case using s1(1) l(1) ne el1 by (simp add: for_each_safe_from.simps [of f head x])
  qed
  obtain l where l: "fst s head = Some l" "next l = hd (xs @ [head])" using first_of [OF whole] by blast
  obtain l1 where l1: "fst s (next l) = Some l1" "xs \<noteq> [] \<Longrightarrow> next l1 = hd (tl xs @ [head])"
    using whole l next_of [of "fst s" head "[]" "hd xs" "tl xs"] by (cases xs) auto
  from loop [OF start l1(2)] l l1(1) show ?thesis by (simp add: list_for_each_safe_def)
qed

lemma for_each_safe_ok:
  assumes ring: "\<And>d t s. Inv d t s \<Longrightarrow> \<exists>us. is_list (fst s) head (us @ t)"
    and step: "\<And>d x t s. Inv d (x # t) s \<Longrightarrow> \<exists>s'. f x s = Some s' \<and> Inv (d @ [x]) t s'"
    and start: "Inv [] xs s"
    and whole: "is_list (fst s) head xs"
  shows "\<exists>s'. list_for_each_safe f head s = Some s' \<and> Inv xs [] s'"
proof (rule for_each_safe_forward [where Inv = Inv])
  show "forward (fst s) head t" if "Inv d t s" for d t s using ring [OF that] is_list_forward by blast
qed (fact step start whole)+

lemma for_each_ok:
  assumes ring: "\<And>d t s. Inv d t s \<Longrightarrow> is_list (fst s) head (d @ t) \<and> length d \<le> n"
    and step: "\<And>d x t s. Inv d (x # t) s \<Longrightarrow> \<exists>s' t'. f x s = Some s' \<and> Inv (d @ [x]) t' s'"
    and start: "Inv [] xs s"
  shows "\<exists>s' ys. list_for_each f head s = Some s' \<and> Inv ys [] s'"
proof -
  have loop: "\<exists>s' ys. for_each_from f head (hd (t @ [head])) s = Some s' \<and> Inv ys [] s'" if "Inv d t s" for d t s
    using that
  proof (induction "n - length d" arbitrary: d t s rule: less_induct)
    case less
    show ?case
    proof (cases t)
      case Nil
      with less.prems show ?thesis by (auto simp: for_each_from.simps)
    next
      case (Cons x t0)
      obtain s1 t1 where s1: "f x s = Some s1" "Inv (d @ [x]) t1 s1" using step less.prems Cons by blast
      have n: "n - length (d @ [x]) < n - length d" using ring [OF s1(2)] by (simp del: append_assoc) arith
      obtain l where l: "fst s1 x = Some l" "next l = hd (t1 @ [head])"
        using ring [OF s1(2)] next_of [of "fst s1" head d x t1] by auto
      have "x \<noteq> head" using ring [OF less.prems] Cons by (auto simp: is_list_def)
      with less.hyps [OF n s1(2)] s1(1) l Cons show ?thesis by (simp add: for_each_from.simps [of f head x])
    qed
  qed
  obtain l where "fst s head = Some l" "next l = hd (xs @ [head])" using first_of ring [OF start] by fastforce
  with loop [OF start] show ?thesis by (simp add: list_for_each_def)
qed

text \<open>Two bodies: one that takes its element out of the list, and one that leaves the links alone.\<close>

definition unlink_body :: "(nat \<Rightarrow> 'a \<Rightarrow> 'a) \<Rightarrow> nat \<Rightarrow> link_store \<times> 'a \<Rightarrow> (link_store \<times> 'a) option" where
  "unlink_body g x s = do { h \<leftarrow> list_del (fst s) x; Some (h, g x (snd s)) }"

definition keep_body :: "(nat \<Rightarrow> 'a \<Rightarrow> 'a) \<Rightarrow> nat \<Rightarrow> link_store \<times> 'a \<Rightarrow> (link_store \<times> 'a) option" where
  "keep_body g x s = Some (fst s, g x (snd s))"

lemma for_each_safe_unlink:
  assumes "is_list h head xs"
  shows "\<exists>h'. list_for_each_safe (unlink_body g) head (h, a) = Some (h', fold g xs a) \<and> is_list h' head []"
proof -
  define Inv where "Inv d t s \<longleftrightarrow> d @ t = xs \<and> is_list (fst s) head t \<and> snd s = fold g d a" for d t s
  have "\<exists>s'. list_for_each_safe (unlink_body g) head (h, a) = Some s' \<and> Inv xs [] s'"
  proof (rule for_each_safe_ok [where Inv = Inv])
    fix d t s assume "Inv d t s"
    then have "is_list (fst s) head ([] @ t)" by (simp add: Inv_def)
    then show "\<exists>us. is_list (fst s) head (us @ t)" by blast
  next
    fix d x t s assume i: "Inv d (x # t) s"
    then have "is_list (fst s) head ([] @ x # t)" by (simp add: Inv_def)
    from list_del_ok [OF this] obtain h' where "list_del (fst s) x = Some h'" "is_list h' head t" by auto
    then show "\<exists>s'. unlink_body g x s = Some s' \<and> Inv (d @ [x]) t s'" using i by (simp add: Inv_def unlink_body_def)
  qed (use assms in \<open>simp_all add: Inv_def\<close>)
  then show ?thesis by (auto simp: Inv_def)
qed

lemma for_each_keep:
  assumes "is_list h head xs"
  shows "list_for_each (keep_body g) head (h, a) = Some (h, fold g xs a)"
proof -
  define Inv where "Inv d t s \<longleftrightarrow> d @ t = xs \<and> fst s = h \<and> snd s = fold g d a" for d t s
  have "\<exists>s' d. list_for_each (keep_body g) head (h, a) = Some s' \<and> Inv d [] s'"
  proof (rule for_each_ok [where Inv = Inv])
    show "is_list (fst s) head (d @ t) \<and> length d \<le> length xs" if "Inv d t s" for d t s
    proof -
      have "d @ t = xs" "fst s = h" using that by (simp_all add: Inv_def)
      with assms show ?thesis by (metis le_add1 length_append)
    qed
  qed (auto simp: Inv_def keep_body_def)
  then show ?thesis by (auto simp: Inv_def)
qed

end
