(* ===== verification/GCMark.thy ===== *)
theory GCMark
  imports Prelude "HOL-Library.Monad_Syntax"
begin

text \<open>
  quickjs.c: the objects the garbage collector sees, and \<open>mark_children\<close> with the mark functions of
  the classes.  A mark function is modelled by the pointers it passes to its argument
  \<open>mark_func\<close>, in their order; \<open>None\<close> is a read of a dangling pointer or of the wrong member of a
  union.  Null pointers are \<open>None\<close> in an optional field.
\<close>

unbundle bit_operations_syntax

subsection \<open>Values, properties and objects\<close>

text \<open>A pointer to a garbage collected object is the address of its header.\<close>

type_synonym gc_ptr = nat

datatype js_value =
    JS_OBJECT gc_ptr
  | JS_FUNCTION_BYTECODE gc_ptr
  | JS_REF_COUNTED nat
  | JS_IMMEDIATE

text \<open>The union in \<open>JSProperty\<close>; the flags of the shape say which member is valid.\<close>

datatype js_property =
    P_value js_value
  | P_getset "gc_ptr option" "gc_ptr option"
  | P_var_ref gc_ptr
  | P_init gc_ptr nat

record js_shape_property =
  prop_hash_next :: u32
  prop_flags :: u32
  prop_atom :: u32

record js_shape =
  shape_proto :: "gc_ptr option"
  shape_prop :: "js_shape_property list"

record js_var_ref =
  is_detached :: bool
  pvalue :: js_value
  vr_async_func :: "gc_ptr option"

record js_function_bytecode =
  cpool :: "js_value list"
  bc_realm :: "gc_ptr option"
  closure_var_count :: nat

record js_async_function_state =
  is_completed :: bool
  cur_func :: js_value
  as_this_val :: js_value
  as_stack :: "js_value list option"
  as_resolving_funcs :: "js_value \<times> js_value"

record js_export_entry =
  export_local :: bool
  export_var_ref :: "gc_ptr option"

record js_module_def =
  export_entries :: "js_export_entry list"
  module_ns :: js_value
  func_obj :: js_value
  eval_exception :: js_value
  meta_obj :: js_value
  m_promise :: js_value
  m_resolving_funcs :: "js_value \<times> js_value"

record js_context =
  loaded_modules :: "js_module_def list"
  global_obj :: js_value
  global_var_obj :: js_value
  throw_type_error :: js_value
  eval_obj :: js_value
  array_proto_values :: js_value
  native_error_proto :: "js_value list"
  class_proto :: "js_value list"
  iterator_proto :: js_value
  async_iterator_proto :: js_value
  promise_ctor :: js_value
  array_ctor :: js_value
  regexp_ctor :: js_value
  function_ctor :: js_value
  function_proto :: js_value
  array_shape :: "gc_ptr option"

text \<open>The union \<open>u\<close> of \<open>JSObject\<close>, by the class that uses the member.  A record of a map has its flag
  \<open>empty\<close>, a generator whether its state is \<open>JS_GENERATOR_STATE_COMPLETED\<close>.\<close>

datatype js_class_data =
    C_plain
  | C_array "js_value list"
  | C_object_data js_value
  | C_c_function "gc_ptr option"
  | C_bytecode_function "gc_ptr option" "gc_ptr option" "gc_ptr option list option"
  | C_bound_function js_value js_value "js_value list"
  | C_c_function_data "js_value list option"
  | C_for_in_iterator js_value
  | C_typed_array "gc_ptr option"
  | C_operator_set "(gc_ptr option list \<times> gc_ptr option list list \<times> gc_ptr option list list) option"
  | C_map "(bool \<times> (bool \<times> js_value \<times> js_value) list) option"
  | C_map_iterator "js_value option"
  | C_array_iterator "js_value option"
  | C_regexp_string_iterator "(js_value \<times> js_value) option"
  | C_generator "(bool \<times> gc_ptr option) option"
  | C_proxy "(js_value \<times> js_value) option"
  | C_promise "(((js_value \<times> js_value) \<times> js_value) list \<times> ((js_value \<times> js_value) \<times> js_value) list \<times> js_value) option"
  | C_promise_resolve_function "js_value option"
  | C_async_function_resolve "gc_ptr option"
  | C_async_from_sync_iterator "(js_value \<times> js_value) option"
  | C_async_generator "((js_value \<times> js_value \<times> js_value \<times> js_value) list \<times> gc_ptr option) option"

record js_object =
  obj_shape :: gc_ptr
  obj_prop :: "js_property list"
  obj_class :: js_class_data
  first_weak_ref :: "nat option"

datatype gc_object =
    GC_JS_OBJECT js_object
  | GC_FUNCTION_BYTECODE js_function_bytecode
  | GC_SHAPE js_shape
  | GC_VAR_REF js_var_ref
  | GC_ASYNC_FUNCTION js_async_function_state
  | GC_JS_CONTEXT js_context

type_synonym gc_objects = "gc_ptr \<Rightarrow> gc_object option"

subsection \<open>The mark functions of the values and of the classes\<close>

fun JS_MarkValue :: "js_value \<Rightarrow> gc_ptr list" where
  "JS_MarkValue (JS_OBJECT p) = [p]"
| "JS_MarkValue (JS_FUNCTION_BYTECODE p) = [p]"
| "JS_MarkValue _ = []"

definition mark_values :: "js_value list \<Rightarrow> gc_ptr list" where
  "mark_values vs = concat (map JS_MarkValue vs)"

definition mark_ptr :: "gc_ptr option \<Rightarrow> gc_ptr list" where
  "mark_ptr p = (case p of None \<Rightarrow> [] | Some p \<Rightarrow> [p])"

definition js_array_mark :: "js_value list \<Rightarrow> gc_ptr list" where
  "js_array_mark values = mark_values values"

definition js_object_data_mark :: "js_value \<Rightarrow> gc_ptr list" where
  "js_object_data_mark v = JS_MarkValue v"

definition js_c_function_mark :: "gc_ptr option \<Rightarrow> gc_ptr list" where
  "js_c_function_mark realm = mark_ptr realm"

definition js_bytecode_function_mark ::
  "gc_objects \<Rightarrow> gc_ptr option \<Rightarrow> gc_ptr option \<Rightarrow> gc_ptr option list option \<Rightarrow> gc_ptr list option" where
  "js_bytecode_function_mark objs home_object function_bytecode var_refs =
     (let home = (case home_object of None \<Rightarrow> [] | Some p \<Rightarrow> JS_MarkValue (JS_OBJECT p)) in
      case function_bytecode of
        None \<Rightarrow> Some home
      | Some b \<Rightarrow>
          (case objs b of
             Some (GC_FUNCTION_BYTECODE bc) \<Rightarrow>
               (case var_refs of
                  None \<Rightarrow> Some (home @ JS_MarkValue (JS_FUNCTION_BYTECODE b))
                | Some refs \<Rightarrow>
                    if closure_var_count bc \<le> length refs then
                      Some (home @ concat (map mark_ptr (take (closure_var_count bc) refs)) @
                            JS_MarkValue (JS_FUNCTION_BYTECODE b))
                    else None)
           | _ \<Rightarrow> None))"

definition js_bound_function_mark :: "js_value \<Rightarrow> js_value \<Rightarrow> js_value list \<Rightarrow> gc_ptr list" where
  "js_bound_function_mark fobj this_val argv = JS_MarkValue fobj @ JS_MarkValue this_val @ mark_values argv"

definition js_c_function_data_mark :: "js_value list option \<Rightarrow> gc_ptr list" where
  "js_c_function_data_mark s = (case s of None \<Rightarrow> [] | Some data \<Rightarrow> mark_values data)"

definition js_for_in_iterator_mark :: "js_value \<Rightarrow> gc_ptr list" where
  "js_for_in_iterator_mark obj = JS_MarkValue obj"

definition js_typed_array_mark :: "gc_ptr option \<Rightarrow> gc_ptr list" where
  "js_typed_array_mark ta = (case ta of None \<Rightarrow> [] | Some buffer \<Rightarrow> JS_MarkValue (JS_OBJECT buffer))"

definition js_operator_set_mark ::
  "(gc_ptr option list \<times> gc_ptr option list list \<times> gc_ptr option list list) option \<Rightarrow> gc_ptr list" where
  "js_operator_set_mark opset =
     (case opset of
        None \<Rightarrow> []
      | Some (self_ops, left_tab, right_tab) \<Rightarrow>
          concat (map mark_ptr self_ops) @ concat (map mark_ptr (concat left_tab)) @
          concat (map mark_ptr (concat right_tab)))"

definition js_map_mark :: "(bool \<times> (bool \<times> js_value \<times> js_value) list) option \<Rightarrow> gc_ptr list" where
  "js_map_mark s =
     (case s of
        None \<Rightarrow> []
      | Some (is_weak, records) \<Rightarrow>
          concat (map (\<lambda>(empty, key, val). (if is_weak then [] else JS_MarkValue key) @ JS_MarkValue val) records))"

definition js_map_iterator_mark :: "js_value option \<Rightarrow> gc_ptr list" where
  "js_map_iterator_mark it = (case it of None \<Rightarrow> [] | Some obj \<Rightarrow> JS_MarkValue obj)"

definition js_array_iterator_mark :: "js_value option \<Rightarrow> gc_ptr list" where
  "js_array_iterator_mark it = (case it of None \<Rightarrow> [] | Some obj \<Rightarrow> JS_MarkValue obj)"

definition js_regexp_string_iterator_mark :: "(js_value \<times> js_value) option \<Rightarrow> gc_ptr list" where
  "js_regexp_string_iterator_mark it =
     (case it of None \<Rightarrow> [] | Some (regexp, str) \<Rightarrow> JS_MarkValue regexp @ JS_MarkValue str)"

definition js_generator_mark :: "(bool \<times> gc_ptr option) option \<Rightarrow> gc_ptr list" where
  "js_generator_mark s = (case s of None \<Rightarrow> [] | Some (completed, None) \<Rightarrow> [] | Some (completed, Some func_state) \<Rightarrow> [func_state])"

definition js_proxy_mark :: "(js_value \<times> js_value) option \<Rightarrow> gc_ptr list" where
  "js_proxy_mark s = (case s of None \<Rightarrow> [] | Some (target, handler) \<Rightarrow> JS_MarkValue target @ JS_MarkValue handler)"

definition js_promise_mark ::
  "(((js_value \<times> js_value) \<times> js_value) list \<times> ((js_value \<times> js_value) \<times> js_value) list \<times> js_value) option \<Rightarrow> gc_ptr list" where
  "js_promise_mark s =
     (case s of
        None \<Rightarrow> []
      | Some (reactions0, reactions1, promise_result) \<Rightarrow>
          concat (map (\<lambda>((f0, f1), handler). JS_MarkValue f0 @ JS_MarkValue f1 @ JS_MarkValue handler)
                   (reactions0 @ reactions1)) @
          JS_MarkValue promise_result)"

definition js_promise_resolve_function_mark :: "js_value option \<Rightarrow> gc_ptr list" where
  "js_promise_resolve_function_mark s = (case s of None \<Rightarrow> [] | Some promise \<Rightarrow> JS_MarkValue promise)"

definition js_async_function_resolve_mark :: "gc_ptr option \<Rightarrow> gc_ptr list" where
  "js_async_function_resolve_mark s = mark_ptr s"

definition js_async_from_sync_iterator_mark :: "(js_value \<times> js_value) option \<Rightarrow> gc_ptr list" where
  "js_async_from_sync_iterator_mark s =
     (case s of None \<Rightarrow> [] | Some (sync_iter, next_method) \<Rightarrow> JS_MarkValue sync_iter @ JS_MarkValue next_method)"

definition js_async_generator_mark ::
  "((js_value \<times> js_value \<times> js_value \<times> js_value) list \<times> gc_ptr option) option \<Rightarrow> gc_ptr list" where
  "js_async_generator_mark s =
     (case s of
        None \<Rightarrow> []
      | Some (queue, func_state) \<Rightarrow>
          concat (map (\<lambda>(r, p, f0, f1). JS_MarkValue r @ JS_MarkValue p @ JS_MarkValue f0 @ JS_MarkValue f1) queue) @
          mark_ptr func_state)"

text \<open>The \<open>gc_mark\<close> member of the class table \<open>js_std_class_def\<close>.\<close>

definition class_gc_mark :: "gc_objects \<Rightarrow> js_class_data \<Rightarrow> gc_ptr list option" where
  "class_gc_mark objs u =
     (case u of
        C_plain \<Rightarrow> Some []
      | C_array vs \<Rightarrow> Some (js_array_mark vs)
      | C_object_data v \<Rightarrow> Some (js_object_data_mark v)
      | C_c_function realm \<Rightarrow> Some (js_c_function_mark realm)
      | C_bytecode_function h b refs \<Rightarrow> js_bytecode_function_mark objs h b refs
      | C_bound_function f t argv \<Rightarrow> Some (js_bound_function_mark f t argv)
      | C_c_function_data s \<Rightarrow> Some (js_c_function_data_mark s)
      | C_for_in_iterator v \<Rightarrow> Some (js_for_in_iterator_mark v)
      | C_typed_array ta \<Rightarrow> Some (js_typed_array_mark ta)
      | C_operator_set s \<Rightarrow> Some (js_operator_set_mark s)
      | C_map s \<Rightarrow> Some (js_map_mark s)
      | C_map_iterator it \<Rightarrow> Some (js_map_iterator_mark it)
      | C_array_iterator it \<Rightarrow> Some (js_array_iterator_mark it)
      | C_regexp_string_iterator it \<Rightarrow> Some (js_regexp_string_iterator_mark it)
      | C_generator s \<Rightarrow> Some (js_generator_mark s)
      | C_proxy s \<Rightarrow> Some (js_proxy_mark s)
      | C_promise s \<Rightarrow> Some (js_promise_mark s)
      | C_promise_resolve_function s \<Rightarrow> Some (js_promise_resolve_function_mark s)
      | C_async_function_resolve s \<Rightarrow> Some (js_async_function_resolve_mark s)
      | C_async_from_sync_iterator s \<Rightarrow> Some (js_async_from_sync_iterator_mark s)
      | C_async_generator s \<Rightarrow> Some (js_async_generator_mark s))"

subsection \<open>The children of an object\<close>

abbreviation (input) JS_PROP_TMASK :: u32 where "JS_PROP_TMASK \<equiv> 0x30"
abbreviation (input) JS_PROP_GETSET :: u32 where "JS_PROP_GETSET \<equiv> 0x10"
abbreviation (input) JS_PROP_VARREF :: u32 where "JS_PROP_VARREF \<equiv> 0x20"
abbreviation (input) JS_PROP_AUTOINIT :: u32 where "JS_PROP_AUTOINIT \<equiv> 0x30"

definition js_autoinit_mark :: "js_property \<Rightarrow> gc_ptr list option" where
  "js_autoinit_mark pr = (case pr of P_init realm i \<Rightarrow> Some [realm] | _ \<Rightarrow> None)"

definition mark_property :: "js_shape_property \<Rightarrow> js_property \<Rightarrow> gc_ptr list option" where
  "mark_property prs pr =
     (if prop_atom prs \<noteq> 0 then
        let tag = prop_flags prs AND JS_PROP_TMASK in
        if tag \<noteq> 0 then
          if tag = JS_PROP_GETSET then
            (case pr of P_getset getter setter \<Rightarrow> Some (mark_ptr getter @ mark_ptr setter) | _ \<Rightarrow> None)
          else if tag = JS_PROP_VARREF then
            (case pr of P_var_ref v \<Rightarrow> Some [v] | _ \<Rightarrow> None)
          else if tag = JS_PROP_AUTOINIT then js_autoinit_mark pr
          else Some []
        else (case pr of P_value v \<Rightarrow> Some (JS_MarkValue v) | _ \<Rightarrow> None)
      else Some [])"

fun mark_properties :: "js_shape_property list \<Rightarrow> js_property list \<Rightarrow> gc_ptr list option" where
  "mark_properties [] prop = Some []"
| "mark_properties (prs # shape) [] = None"
| "mark_properties (prs # shape) (pr # prop) =
     do { a \<leftarrow> mark_property prs pr; b \<leftarrow> mark_properties shape prop; Some (a @ b) }"

definition js_mark_module_def :: "js_module_def \<Rightarrow> gc_ptr list" where
  "js_mark_module_def m =
     concat (map (\<lambda>me. if export_local me then mark_ptr (export_var_ref me) else []) (export_entries m)) @
     mark_values [module_ns m, func_obj m, eval_exception m, meta_obj m, m_promise m,
                  fst (m_resolving_funcs m), snd (m_resolving_funcs m)]"

definition JS_MarkContext :: "js_context \<Rightarrow> gc_ptr list" where
  "JS_MarkContext ctx =
     concat (map js_mark_module_def (loaded_modules ctx)) @
     mark_values ([global_obj ctx, global_var_obj ctx, throw_type_error ctx, eval_obj ctx, array_proto_values ctx] @
       native_error_proto ctx @ class_proto ctx @
       [iterator_proto ctx, async_iterator_proto ctx, promise_ctor ctx, array_ctor ctx, regexp_ctor ctx,
        function_ctor ctx, function_proto ctx]) @
     mark_ptr (array_shape ctx)"

definition mark_object :: "gc_objects \<Rightarrow> js_object \<Rightarrow> gc_ptr list option" where
  "mark_object objs p =
     (case objs (obj_shape p) of
        Some (GC_SHAPE sh) \<Rightarrow>
          do {
            props \<leftarrow> mark_properties (shape_prop sh) (obj_prop p);
            cls \<leftarrow> class_gc_mark objs (obj_class p);
            Some (obj_shape p # props @ cls)
          }
      | _ \<Rightarrow> None)"

definition mark_async_function :: "js_async_function_state \<Rightarrow> gc_ptr list" where
  "mark_async_function s =
     (if \<not> is_completed s then
        JS_MarkValue (cur_func s) @ JS_MarkValue (as_this_val s) @
        (case as_stack s of None \<Rightarrow> [] | Some stack \<Rightarrow> mark_values stack)
      else []) @
     JS_MarkValue (fst (as_resolving_funcs s)) @ JS_MarkValue (snd (as_resolving_funcs s))"

definition mark_children :: "gc_objects \<Rightarrow> gc_ptr \<Rightarrow> gc_ptr list option" where
  "mark_children objs gp =
     (case objs gp of
        None \<Rightarrow> None
      | Some (GC_JS_OBJECT p) \<Rightarrow> mark_object objs p
      | Some (GC_FUNCTION_BYTECODE b) \<Rightarrow> Some (mark_values (cpool b) @ mark_ptr (bc_realm b))
      | Some (GC_VAR_REF v) \<Rightarrow> Some (if is_detached v then JS_MarkValue (pvalue v) else mark_ptr (vr_async_func v))
      | Some (GC_ASYNC_FUNCTION s) \<Rightarrow> Some (mark_async_function s)
      | Some (GC_SHAPE sh) \<Rightarrow> Some (mark_ptr (shape_proto sh))
      | Some (GC_JS_CONTEXT ctx) \<Rightarrow> Some (JS_MarkContext ctx))"

end
