(* ===== verification/GC.thy ===== *)
theory GC
  imports LinkedList GCMark
begin

text \<open>
  quickjs.c: the passes of the cycle collector over the lists of list.h.  \<open>gc_decref\<close> takes the
  references inside of the heap away from the reference counts, and sorts out the objects that are
  left without any; \<open>gc_scan\<close> takes back what the objects with references from outside reach, and
  restores all the counts.
\<close>

subsection \<open>The code\<close>

record gc_header =
  ref_count :: int
  gc_mark :: nat

type_synonym gc_headers = "gc_ptr \<Rightarrow> gc_header option"

text \<open>The link of an object has the address of its header.\<close>

type_synonym gc_state = "link_store \<times> gc_headers"

text \<open>The calls that \<open>mark_children\<close> makes of its argument.\<close>

fun call_each :: "(gc_ptr \<Rightarrow> gc_state \<Rightarrow> gc_state option) \<Rightarrow> gc_ptr list \<Rightarrow> gc_state \<Rightarrow> gc_state option" where
  "call_each f [] s = Some s"
| "call_each f (p # ps) s = do { s \<leftarrow> f p s; call_each f ps s }"

definition mark_each ::
  "gc_objects \<Rightarrow> (gc_ptr \<Rightarrow> gc_state \<Rightarrow> gc_state option) \<Rightarrow> gc_ptr \<Rightarrow> gc_state \<Rightarrow> gc_state option" where
  "mark_each objs f gp s = do { ps \<leftarrow> mark_children objs gp; call_each f ps s }"

definition move_to_tail :: "link_store \<Rightarrow> gc_ptr \<Rightarrow> nat \<Rightarrow> link_store option" where
  "move_to_tail h p head = do { h \<leftarrow> list_del h p; list_add_tail h p head }"

definition gc_decref_child :: "nat \<Rightarrow> gc_ptr \<Rightarrow> gc_state \<Rightarrow> gc_state option" where
  "gc_decref_child tmp_obj_list p s =
     (case s of (h, hs) \<Rightarrow>
        do {
          x \<leftarrow> hs p;
          if ref_count x > 0 then
            let x = x\<lparr>ref_count := ref_count x - 1\<rparr>; hs = hs(p \<mapsto> x) in
            if ref_count x = 0 \<and> gc_mark x = 1 then
              do { h \<leftarrow> move_to_tail h p tmp_obj_list; Some (h, hs) }
            else Some (h, hs)
          else None
        })"

definition gc_decref_object :: "gc_objects \<Rightarrow> nat \<Rightarrow> gc_ptr \<Rightarrow> gc_state \<Rightarrow> gc_state option" where
  "gc_decref_object objs tmp_obj_list p s =
     do {
       x \<leftarrow> snd s p;
       if gc_mark x = 0 then
         do {
           s \<leftarrow> mark_each objs (gc_decref_child tmp_obj_list) p s;
           x \<leftarrow> snd s p;
           let hs = (snd s)(p \<mapsto> x\<lparr>gc_mark := 1\<rparr>) in
           if ref_count x = 0 then
             do { h \<leftarrow> move_to_tail (fst s) p tmp_obj_list; Some (h, hs) }
           else Some (fst s, hs)
         }
       else None
     }"

definition gc_decref :: "gc_objects \<Rightarrow> nat \<Rightarrow> nat \<Rightarrow> gc_state \<Rightarrow> gc_state option" where
  "gc_decref objs gc_obj_list tmp_obj_list s =
     do {
       h \<leftarrow> init_list_head (fst s) tmp_obj_list;
       list_for_each_safe (gc_decref_object objs tmp_obj_list) gc_obj_list (h, snd s)
     }"

definition gc_scan_incref_child :: "nat \<Rightarrow> gc_ptr \<Rightarrow> gc_state \<Rightarrow> gc_state option" where
  "gc_scan_incref_child gc_obj_list p s =
     (case s of (h, hs) \<Rightarrow>
        do {
          x \<leftarrow> hs p;
          let x = x\<lparr>ref_count := ref_count x + 1\<rparr> in
          if ref_count x = 1 then
            do { h \<leftarrow> move_to_tail h p gc_obj_list; Some (h, hs(p \<mapsto> x\<lparr>gc_mark := 0\<rparr>)) }
          else Some (h, hs(p \<mapsto> x))
        })"

definition gc_scan_incref_child2 :: "gc_ptr \<Rightarrow> gc_state \<Rightarrow> gc_state option" where
  "gc_scan_incref_child2 p s =
     (case s of (h, hs) \<Rightarrow> do { x \<leftarrow> hs p; Some (h, hs(p \<mapsto> x\<lparr>ref_count := ref_count x + 1\<rparr>)) })"

definition gc_scan_object :: "gc_objects \<Rightarrow> nat \<Rightarrow> gc_ptr \<Rightarrow> gc_state \<Rightarrow> gc_state option" where
  "gc_scan_object objs gc_obj_list p s =
     do {
       x \<leftarrow> snd s p;
       if ref_count x > 0 then
         mark_each objs (gc_scan_incref_child gc_obj_list) p (fst s, (snd s)(p \<mapsto> x\<lparr>gc_mark := 0\<rparr>))
       else None
     }"

definition gc_scan :: "gc_objects \<Rightarrow> nat \<Rightarrow> nat \<Rightarrow> gc_state \<Rightarrow> gc_state option" where
  "gc_scan objs gc_obj_list tmp_obj_list s =
     do {
       s \<leftarrow> list_for_each (gc_scan_object objs gc_obj_list) gc_obj_list s;
       list_for_each (mark_each objs gc_scan_incref_child2) tmp_obj_list s
     }"

subsection \<open>Two disjoint lists\<close>

text \<open>A third one, with the head \<open>zl\<close>, is empty.\<close>

definition lists :: "nat \<Rightarrow> link_store \<Rightarrow> nat \<Rightarrow> nat list \<Rightarrow> nat \<Rightarrow> nat list \<Rightarrow> bool" where
  "lists zl h a xs b ys \<longleftrightarrow> is_list h a xs \<and> is_list h b ys \<and> is_list h zl [] \<and>
     set (a # xs) \<inter> set (b # ys) = {} \<and> zl \<notin> set (a # xs) \<union> set (b # ys)"

lemma lists_sym: "lists zl h a xs b ys \<Longrightarrow> lists zl h b ys a xs"
  by (auto simp: lists_def)

lemma move_lists:
  assumes "lists zl h a (us @ c # vs) b ys"
  shows "\<exists>h'. move_to_tail h c b = Some h' \<and> lists zl h' a (us @ vs) b (ys @ [c])"
proof -
  have l: "is_list h a (us @ c # vs)" "is_list h b ys" "set (a # us @ c # vs) \<inter> set (b # ys) = {}"
    and z: "is_list h zl []" "zl \<notin> set (a # us @ c # vs)" "zl \<notin> set (b # ys)"
    using assms by (auto simp: lists_def)
  obtain h1 where h1: "list_del h c = Some h1" "is_list h1 a (us @ vs)" "h1 c = Some \<lparr>prev = 0, next = 0\<rparr>"
    "\<And>x. x \<notin> set (c # a # us @ vs) \<Longrightarrow> h1 x = h x" using list_del_ok [OF l(1)] by blast
  have b: "is_list h1 b ys"
  proof (rule is_list_cong [OF l(2)])
    fix x assume "x \<in> set (b # ys)"
    then have "x \<notin> set (c # a # us @ vs)" using l(3) by auto
    then show "h1 x = h x" by (rule h1(4))
  qed
  have c: "c \<notin> set (b # ys)" "c \<notin> set (a # us @ vs)" using l(1,3) by (auto simp: is_list_def)
  obtain h2 where h2: "list_add_tail h1 c b = Some h2" "is_list h2 b (ys @ [c])"
    "\<And>x. x \<notin> set (c # b # ys) \<Longrightarrow> h2 x = h1 x" using list_add_tail_ok [OF b c(1) h1(3)] by blast
  have "is_list h2 a (us @ vs)"
  proof (rule is_list_cong [OF h1(2)])
    fix x assume "x \<in> set (a # us @ vs)"
    then have "x \<notin> set (c # b # ys)" using l(3) c(2) by auto
    then show "h2 x = h1 x" by (rule h2(3))
  qed
  moreover have "set (a # us @ vs) \<inter> set (b # ys @ [c]) = {}" using l(3) c(2) by auto
  moreover have "h2 zl = h zl" using h1(4) [of zl] h2(3) [of zl] z(2,3) by auto
  then have "is_list h2 zl []" using is_list_cong [OF z(1), of h2] by simp
  ultimately show ?thesis using h1(1) h2 z(2,3) by (simp add: move_to_tail_def lists_def)
qed

subsection \<open>The heap before a collection\<close>

text \<open>
  \<open>E\<close> gives the children, \<open>R\<close> the reference counts.  All the objects are in the list, none is
  marked, and every count is at least the number of the references from the objects.
\<close>

definition in_edges :: "(gc_ptr \<Rightarrow> gc_ptr list) \<Rightarrow> gc_ptr set \<Rightarrow> gc_ptr \<Rightarrow> nat" where
  "in_edges E S p = (\<Sum>q\<in>S. count_list (E q) p)"

definition external :: "(gc_ptr \<Rightarrow> gc_ptr list) \<Rightarrow> gc_ptr list \<Rightarrow> (gc_ptr \<Rightarrow> int) \<Rightarrow> gc_ptr \<Rightarrow> int" where
  "external E xs R p = R p - int (in_edges E (set xs) p)"

definition closed_heap :: "gc_objects \<Rightarrow> gc_ptr list \<Rightarrow> (gc_ptr \<Rightarrow> gc_ptr list) \<Rightarrow> (gc_ptr \<Rightarrow> int) \<Rightarrow> bool" where
  "closed_heap objs xs E R \<longleftrightarrow>
     distinct xs \<and>
     (\<forall>p\<in>set xs. mark_children objs p = Some (E p) \<and> set (E p) \<subseteq> set xs \<and> 0 \<le> external E xs R p)"

definition counts :: "gc_headers \<Rightarrow> gc_ptr list \<Rightarrow> (gc_ptr \<Rightarrow> int) \<Rightarrow> bool" where
  "counts hs xs f \<longleftrightarrow> (\<forall>p\<in>set xs. \<exists>x. hs p = Some x \<and> ref_count x = f p)"

definition marks :: "gc_headers \<Rightarrow> gc_ptr list \<Rightarrow> gc_ptr set \<Rightarrow> nat \<Rightarrow> bool" where
  "marks hs xs S m \<longleftrightarrow> (\<forall>p\<in>set xs. \<forall>x. p \<in> S \<longrightarrow> hs p = Some x \<longrightarrow> gc_mark x = m)"

lemma in_edges_insert: "finite S \<Longrightarrow> q \<notin> S \<Longrightarrow> in_edges E (insert q S) p = count_list (E q) p + in_edges E S p"
  by (simp add: in_edges_def)

lemma in_edges_mono: "finite T \<Longrightarrow> S \<subseteq> T \<Longrightarrow> in_edges E S p \<le> in_edges E T p"
  unfolding in_edges_def by (rule sum_mono2) auto

lemma in_edges_part:
  assumes "d @ q # t = xs" "distinct xs"
  shows "in_edges E (set d) p + count_list (E q) p \<le> in_edges E (set xs) p"
proof -
  have "insert q (set d) \<subseteq> set xs" "q \<notin> set d" using assms by auto
  with in_edges_mono [of "set xs" "insert q (set d)" E p] in_edges_insert [of "set d" q E p] show ?thesis by simp
qed

lemma counts_upd: "counts hs xs f \<Longrightarrow> c \<in> set xs \<Longrightarrow> ref_count x = g c \<Longrightarrow> (\<And>p. p \<noteq> c \<Longrightarrow> g p = f p) \<Longrightarrow> counts (hs(c \<mapsto> x)) xs g"
  by (auto simp: counts_def)

lemma countsD: "counts hs xs f \<Longrightarrow> p \<in> set xs \<Longrightarrow> \<exists>x. hs p = Some x \<and> ref_count x = f p"
  by (auto simp: counts_def)

subsection \<open>The first pass\<close>

text \<open>The state inside of the visit of \<open>q\<close>, when the references \<open>ks\<close> have been taken away.\<close>

definition decref_at ::
  "(gc_ptr \<Rightarrow> gc_ptr list) \<Rightarrow> gc_ptr list \<Rightarrow> (gc_ptr \<Rightarrow> int) \<Rightarrow> nat \<Rightarrow> nat \<Rightarrow> nat \<Rightarrow> gc_ptr list \<Rightarrow> gc_ptr list \<Rightarrow> gc_ptr list \<Rightarrow> gc_state \<Rightarrow> bool" where
  "decref_at E xs R gcl tmp zl d t ks s \<longleftrightarrow>
     (let f = \<lambda>p. R p - int (in_edges E (set d) p) - int (count_list ks p) in
      counts (snd s) xs f \<and> marks (snd s) xs (set d) 1 \<and> marks (snd s) xs (- set d) 0 \<and>
      (\<exists>ys zs. lists zl (fst s) gcl (ys @ t) tmp zs \<and> set ys = {p \<in> set d. f p \<noteq> 0} \<and> set zs = {p \<in> set d. f p = 0}))"

lemma decref_child_ok:
  assumes "decref_at E xs R gcl tmp zl d t ks s" "c \<in> set xs" "set d \<subseteq> set xs"
    "R c - int (in_edges E (set d) c) - int (count_list ks c) > 0"
  shows "\<exists>s'. gc_decref_child tmp c s = Some s' \<and> decref_at E xs R gcl tmp zl d t (ks @ [c]) s'"
proof -
  obtain h hs where s: "s = (h, hs)" by (cases s)
  define f where "f p = R p - int (in_edges E (set d) p) - int (count_list ks p)" for p
  define g where "g p = R p - int (in_edges E (set d) p) - int (count_list (ks @ [c]) p)" for p
  have g: "g p = (if p = c then f c - 1 else f p)" for p by (simp add: f_def g_def)
  have inv: "counts hs xs f" "marks hs xs (set d) 1" "marks hs xs (- set d) 0"
    using assms(1) by (simp_all add: decref_at_def s Let_def f_def [abs_def])
  obtain ys zs where l: "lists zl h gcl (ys @ t) tmp zs" "set ys = {p \<in> set d. f p \<noteq> 0}" "set zs = {p \<in> set d. f p = 0}"
    using assms(1) by (auto simp: decref_at_def s Let_def f_def)
  obtain x where x: "hs c = Some x" "ref_count x = f c" using countsD [OF inv(1) assms(2)] by blast
  have pos: "f c > 0" using assms(4) by (simp add: f_def)
  let ?x = "x\<lparr>ref_count := ref_count x - 1\<rparr>"
  let ?hs = "hs(c \<mapsto> ?x)"
  have cnt: "counts ?hs xs g" by (rule counts_upd [OF inv(1) assms(2)]) (use x g in auto)
  have mrk: "marks ?hs xs (set d) 1" "marks ?hs xs (- set d) 0" using inv(2,3) x by (auto simp: marks_def)
  have m: "gc_mark x = 1 \<longleftrightarrow> c \<in> set d" using inv(2,3) x assms(2) by (auto simp: marks_def)
  show ?thesis
  proof (cases "g c = 0 \<and> c \<in> set d")
    case True
    then have "c \<in> set ys" using l(2) pos by auto
    then obtain us vs where ys: "ys = us @ c # vs" by (meson split_list)
    from l(1) have "lists zl h gcl (us @ c # (vs @ t)) tmp zs" by (simp add: ys)
    from move_lists [OF this] obtain h' where h': "move_to_tail h c tmp = Some h'" "lists zl h' gcl (us @ vs @ t) tmp (zs @ [c])" by blast
    have "distinct ys" using l(1) by (simp add: lists_def is_list_def)
    then have "set (us @ vs) = set ys - {c}" "set (zs @ [c]) = insert c (set zs)" using ys by auto
    then have sets: "set (us @ vs) = {p \<in> set d. g p \<noteq> 0}" "set (zs @ [c]) = {p \<in> set d. g p = 0}"
      using l(2,3) True by (auto simp: g)
    have l': "lists zl h' gcl ((us @ vs) @ t) tmp (zs @ [c])" using h'(2) by simp
    have "gc_decref_child tmp c s = Some (h', ?hs)"
      using True m x pos h'(1) g by (simp add: gc_decref_child_def s Let_def)
    moreover have "decref_at E xs R gcl tmp zl d t (ks @ [c]) (h', ?hs)"
      unfolding decref_at_def Let_def fst_conv snd_conv g_def [symmetric]
      using cnt [unfolded g_def [abs_def]] mrk sets l' unfolding g_def by blast
    ultimately show ?thesis by blast
  next
    case False
    have sets: "set ys = {p \<in> set d. g p \<noteq> 0}" "set zs = {p \<in> set d. g p = 0}"
      using l(2,3) False pos by (auto simp: g)
    have "gc_decref_child tmp c s = Some (h, ?hs)"
      using False m x pos g by (auto simp: gc_decref_child_def s Let_def)
    moreover have "decref_at E xs R gcl tmp zl d t (ks @ [c]) (h, ?hs)"
      unfolding decref_at_def Let_def fst_conv snd_conv
      using cnt [unfolded g_def [abs_def]] mrk sets l(1) unfolding g_def by blast
    ultimately show ?thesis by blast
  qed
qed

lemma closed_heapD:
  assumes "closed_heap objs xs E R" "p \<in> set xs"
  shows "mark_children objs p = Some (E p)" "set (E p) \<subseteq> set xs" "int (in_edges E (set xs) p) \<le> R p"
  using assms by (auto simp: closed_heap_def external_def)

lemma decref_children_ok:
  assumes "closed_heap objs xs E R" "d @ q # t = xs" "E q = ks @ cs" "decref_at E xs R gcl tmp zl d (q # t) ks s"
  shows "\<exists>s'. call_each (gc_decref_child tmp) cs s = Some s' \<and> decref_at E xs R gcl tmp zl d (q # t) (E q) s'"
  using assms(3,4)
proof (induction cs arbitrary: ks s)
  case (Cons c cs)
  have dist: "distinct xs" using assms(1) by (simp add: closed_heap_def)
  have q: "q \<in> set xs" "set d \<subseteq> set xs" using assms(2) by auto
  have c: "c \<in> set xs" using closed_heapD(2) [OF assms(1) q(1)] Cons.prems(1) by auto
  have "count_list ks c < count_list (E q) c" using Cons.prems(1) by simp
  with closed_heapD(3) [OF assms(1) c] in_edges_part [OF assms(2) dist, of E c]
  have "R c - int (in_edges E (set d) c) - int (count_list ks c) > 0" by linarith
  from decref_child_ok [OF Cons.prems(2) c q(2) this] obtain s1 where
    s1: "gc_decref_child tmp c s = Some s1" "decref_at E xs R gcl tmp zl d (q # t) (ks @ [c]) s1" by blast
  from Cons.IH [OF _ s1(2)] Cons.prems(1) s1(1) show ?case by simp
qed simp

lemma decref_object_ok:
  assumes "closed_heap objs xs E R" "d @ q # t = xs" "decref_at E xs R gcl tmp zl d (q # t) [] s"
  shows "\<exists>s'. gc_decref_object objs tmp q s = Some s' \<and> decref_at E xs R gcl tmp zl (d @ [q]) t [] s'"
proof -
  have dist: "distinct xs" using assms(1) by (simp add: closed_heap_def)
  then have q: "q \<in> set xs" "q \<notin> set d" using assms(2) by auto
  obtain s1 where s1: "call_each (gc_decref_child tmp) (E q) s = Some s1" "decref_at E xs R gcl tmp zl d (q # t) (E q) s1"
    using decref_children_ok [OF assms(1,2) _ assms(3), of "E q"] by auto
  then have each: "mark_each objs (gc_decref_child tmp) q s = Some s1"
    using closed_heapD(1) [OF assms(1) q(1)] by (simp add: mark_each_def)
  obtain x0 where x0: "snd s q = Some x0" "gc_mark x0 = 0"
    using assms(3) q by (auto simp: decref_at_def Let_def counts_def marks_def)
  define f where "f p = R p - int (in_edges E (set d) p) - int (count_list (E q) p)" for p
  have f: "f p = R p - int (in_edges E (set (d @ [q])) p) - int (count_list [] p)" for p
    using in_edges_insert [of "set d" q E p] q(2) by (simp add: f_def)
  obtain h hs where s1h: "s1 = (h, hs)" by (cases s1)
  have inv: "counts hs xs f" "marks hs xs (set d) 1" "marks hs xs (- set d) 0"
    using s1(2) by (simp_all add: decref_at_def s1h Let_def f_def [abs_def])
  obtain ys zs where l: "lists zl h gcl (ys @ q # t) tmp zs" "set ys = {p \<in> set d. f p \<noteq> 0}" "set zs = {p \<in> set d. f p = 0}"
    using s1(2) by (auto simp: decref_at_def s1h Let_def f_def)
  obtain x where x: "hs q = Some x" "ref_count x = f q" using countsD [OF inv(1) q(1)] by blast
  let ?hs = "hs(q \<mapsto> x\<lparr>gc_mark := 1\<rparr>)"
  have hs: "counts ?hs xs f" "marks ?hs xs (set (d @ [q])) 1" "marks ?hs xs (- set (d @ [q])) 0"
    using counts_upd [OF inv(1) q(1), of "x\<lparr>gc_mark := 1\<rparr>" f] x inv(2,3) by (auto simp: marks_def)
  have res: "decref_at E xs R gcl tmp zl (d @ [q]) t [] (h', ?hs)"
    if "lists zl h' gcl (ys' @ t) tmp zs'" "set ys' = {p \<in> set (d @ [q]). f p \<noteq> 0}" "set zs' = {p \<in> set (d @ [q]). f p = 0}"
    for h' ys' zs'
    unfolding decref_at_def Let_def fst_conv snd_conv using hs that unfolding f [abs_def] by blast
  show ?thesis
  proof (cases "f q = 0")
    case True
    from move_lists [OF l(1)] obtain h' where h': "move_to_tail h q tmp = Some h'" "lists zl h' gcl (ys @ t) tmp (zs @ [q])" by blast
    have "gc_decref_object objs tmp q s = Some (h', ?hs)"
      using x0 each s1h x True h'(1) by (simp add: gc_decref_object_def Let_def)
    moreover have "decref_at E xs R gcl tmp zl (d @ [q]) t [] (h', ?hs)" using h'(2) by (rule res) (use l True in auto)
    ultimately show ?thesis by blast
  next
    case False
    have "gc_decref_object objs tmp q s = Some (h, ?hs)"
      using x0 each s1h x False by (simp add: gc_decref_object_def Let_def)
    moreover have "lists zl h gcl ((ys @ [q]) @ t) tmp zs" using l(1) by simp
    then have "decref_at E xs R gcl tmp zl (d @ [q]) t [] (h, ?hs)" by (rule res) (use l False in auto)
    ultimately show ?thesis by blast
  qed
qed

text \<open>The state before a collection.\<close>

definition gc_start :: "gc_ptr list \<Rightarrow> (gc_ptr \<Rightarrow> int) \<Rightarrow> nat \<Rightarrow> nat \<Rightarrow> nat \<Rightarrow> gc_state \<Rightarrow> bool" where
  "gc_start xs R gcl tmp zl s \<longleftrightarrow>
     is_list (fst s) gcl xs \<and> (\<exists>l. fst s tmp = Some l) \<and> tmp \<notin> set (gcl # xs) \<and>
     is_list (fst s) zl [] \<and> zl \<notin> set (gcl # tmp # xs) \<and>
     counts (snd s) xs R \<and> marks (snd s) xs UNIV 0"

lemma gc_decref_ok:
  assumes "closed_heap objs xs E R" "gc_start xs R gcl tmp zl s"
  shows "\<exists>h hs ys zs. gc_decref objs gcl tmp s = Some (h, hs) \<and> lists zl h gcl ys tmp zs \<and>
    set ys = {p \<in> set xs. external E xs R p \<noteq> 0} \<and> set zs = {p \<in> set xs. external E xs R p = 0} \<and>
    counts hs xs (external E xs R)"
proof -
  obtain l where l: "fst s tmp = Some l" "is_list (fst s) gcl xs" "tmp \<notin> set (gcl # xs)"
    "is_list (fst s) zl []" "zl \<notin> set (gcl # tmp # xs)"
    using assms(2) by (auto simp: gc_start_def)
  obtain h0 where h0: "init_list_head (fst s) tmp = Some h0" "is_list h0 tmp []" "\<And>a. a \<noteq> tmp \<Longrightarrow> h0 a = fst s a"
    using init_list_head_ok [of "fst s" tmp, OF l(1)] by blast
  have g: "is_list h0 gcl xs" 
  proof (rule is_list_cong [OF l(2)])
    fix a assume "a \<in> set (gcl # xs)"
    then have "a \<noteq> tmp" using l(3) by auto
    then show "h0 a = fst s a" by (rule h0(3))
  qed
  have "h0 zl = fst s zl" using l(5) h0(3) [of zl] by simp
  then have z: "is_list h0 zl []" using is_list_cong [OF l(4), of h0] by simp
  define Inv where "Inv d t s \<longleftrightarrow> d @ t = xs \<and> decref_at E xs R gcl tmp zl d t [] s" for d t s
  have start: "Inv [] xs (h0, snd s)"
    using assms(2) g h0(2) l(3,5) z unfolding Inv_def decref_at_def Let_def
    by (auto simp: gc_start_def lists_def in_edges_def marks_def)
  have ring: "\<exists>us. is_list (fst s) gcl (us @ t)" if "Inv d t s" for d t s
    using that by (auto simp: Inv_def decref_at_def Let_def lists_def)
  have step: "\<exists>s'. gc_decref_object objs tmp x s = Some s' \<and> Inv (d @ [x]) t s'" if "Inv d (x # t) s" for d x t s
    using decref_object_ok [OF assms(1), of d x t gcl tmp zl s] that by (auto simp: Inv_def)
  have "\<exists>s'. list_for_each_safe (gc_decref_object objs tmp) gcl (h0, snd s) = Some s' \<and> Inv xs [] s'"
  proof (rule for_each_safe_ok [where Inv = Inv])
    show "\<And>d t s. Inv d t s \<Longrightarrow> \<exists>us. is_list (fst s) gcl (us @ t)" by (rule ring)
    show "\<And>d x t s. Inv d (x # t) s \<Longrightarrow> \<exists>s'. gc_decref_object objs tmp x s = Some s' \<and> Inv (d @ [x]) t s'" by (rule step)
  qed (use start g in simp_all)
  then obtain s' where s': "list_for_each_safe (gc_decref_object objs tmp) gcl (h0, snd s) = Some s'" "Inv xs [] s'" by blast
  obtain h hs where hs: "s' = (h, hs)" by (cases s')
  have "external E xs R = (\<lambda>p. R p - int (in_edges E (set xs) p) - int (count_list [] p))"
    by (simp add: external_def [abs_def])
  with s'(2) hs obtain ys zs where "lists zl h gcl ys tmp zs" "counts hs xs (external E xs R)"
    "set ys = {p \<in> set xs. external E xs R p \<noteq> 0}" "set zs = {p \<in> set xs. external E xs R p = 0}"
    by (auto simp: Inv_def decref_at_def Let_def)
  moreover have "gc_decref objs gcl tmp s = Some (h, hs)" using h0(1) s'(1) hs by (simp add: gc_decref_def)
  ultimately show ?thesis by blast
qed

subsection \<open>The second pass\<close>

text \<open>The objects that an object with references from outside of the heap reaches.\<close>

definition reached :: "(gc_ptr \<Rightarrow> gc_ptr list) \<Rightarrow> gc_ptr list \<Rightarrow> (gc_ptr \<Rightarrow> int) \<Rightarrow> gc_ptr set" where
  "reached E xs R = {(p, c). c \<in> set (E p)}\<^sup>* `` {p \<in> set xs. external E xs R p > 0}"

lemma reached_root: "p \<in> set xs \<Longrightarrow> external E xs R p > 0 \<Longrightarrow> p \<in> reached E xs R"
  by (auto simp: reached_def)

lemma reached_child: "p \<in> reached E xs R \<Longrightarrow> c \<in> set (E p) \<Longrightarrow> c \<in> reached E xs R"
  by (auto simp: reached_def Image_iff intro: rtrancl_into_rtrancl)

lemma reached_least:
  assumes "\<And>p. p \<in> set xs \<Longrightarrow> external E xs R p > 0 \<Longrightarrow> p \<in> S" "\<And>p c. p \<in> S \<Longrightarrow> c \<in> set (E p) \<Longrightarrow> c \<in> S"
  shows "reached E xs R \<subseteq> S"
proof
  fix c assume "c \<in> reached E xs R"
  then obtain r where r: "(r, c) \<in> {(p, c). c \<in> set (E p)}\<^sup>*" "r \<in> set xs" "external E xs R r > 0"
    by (auto simp: reached_def)
  from r(1) assms(1) [OF r(2,3)] show "c \<in> S" by (induction rule: rtrancl_induct) (auto intro: assms(2))
qed

text \<open>The state inside of the visit of an object, when the references \<open>ks\<close> have been given back.\<close>

definition scan_at ::
  "(gc_ptr \<Rightarrow> gc_ptr list) \<Rightarrow> gc_ptr list \<Rightarrow> (gc_ptr \<Rightarrow> int) \<Rightarrow> nat \<Rightarrow> nat \<Rightarrow> nat \<Rightarrow> gc_ptr list \<Rightarrow> gc_ptr list \<Rightarrow> gc_ptr list \<Rightarrow> gc_state \<Rightarrow> bool" where
  "scan_at E xs R gcl tmp zl d t ks s \<longleftrightarrow>
     (let f = \<lambda>p. external E xs R p + int (in_edges E (set d) p) + int (count_list ks p) in
      counts (snd s) xs f \<and> marks (snd s) xs (set d) 0 \<and>
      (\<exists>zs. lists zl (fst s) gcl (d @ t) tmp zs \<and> set (d @ t) = {p \<in> set xs. f p \<noteq> 0} \<and> set zs = {p \<in> set xs. f p = 0} \<and>
        set (d @ t) \<subseteq> reached E xs R))"

lemma scan_child_ok:
  assumes "closed_heap objs xs E R" "scan_at E xs R gcl tmp zl d (q # t) ks s" "c \<in> set xs" "c \<in> reached E xs R"
    "marks (snd s) xs {q} 0"
  shows "\<exists>s' t'. gc_scan_incref_child gcl c s = Some s' \<and> scan_at E xs R gcl tmp zl d (q # t') (ks @ [c]) s' \<and> marks (snd s') xs {q} 0"
proof -
  obtain h hs where s: "s = (h, hs)" by (cases s)
  define f where "f p = external E xs R p + int (in_edges E (set d) p) + int (count_list ks p)" for p
  define g where "g p = external E xs R p + int (in_edges E (set d) p) + int (count_list (ks @ [c]) p)" for p
  have g: "g p = (if p = c then f c + 1 else f p)" for p by (simp add: f_def g_def)
  have inv: "counts hs xs f" "marks hs xs (set d) 0" using assms(2) by (simp_all add: scan_at_def s Let_def f_def [abs_def])
  obtain zs where l: "lists zl h gcl (d @ q # t) tmp zs" "set (d @ q # t) = {p \<in> set xs. f p \<noteq> 0}"
    "set zs = {p \<in> set xs. f p = 0}" "set (d @ q # t) \<subseteq> reached E xs R"
    using assms(2) unfolding scan_at_def Let_def s f_def fst_conv snd_conv by blast
  have pos: "0 \<le> f c" using closed_heapD(3) [OF assms(1,3)] by (simp add: f_def external_def)
  obtain x where x: "hs c = Some x" "ref_count x = f c" using countsD [OF inv(1) assms(3)] by blast
  let ?x = "x\<lparr>ref_count := ref_count x + 1\<rparr>"
  have cnt: "counts (hs(c \<mapsto> y)) xs g" if "ref_count y = f c + 1" for y
    by (rule counts_upd [OF inv(1) assms(3)]) (use that g in auto)
  show ?thesis
  proof (cases "f c = 0")
    case True
    then have "c \<in> set zs" using l(3) assms(3) by simp
    then obtain us vs where zs: "zs = us @ c # vs" by (meson split_list)
    from move_lists [OF lists_sym [OF l(1) [unfolded zs]]] obtain h' where
      h': "move_to_tail h c gcl = Some h'" "lists zl h' tmp (us @ vs) gcl ((d @ q # t) @ [c])" by blast
    have "distinct zs" using l(1) by (simp add: lists_def is_list_def)
    then have z: "set (us @ vs) = set zs - {c}" using zs by auto
    let ?hs = "hs(c \<mapsto> ?x\<lparr>gc_mark := 0\<rparr>)"
    have "scan_at E xs R gcl tmp zl d (q # (t @ [c])) (ks @ [c]) (h', ?hs)"
      unfolding scan_at_def Let_def fst_conv snd_conv
    proof (intro conjI exI)
      show "counts ?hs xs (\<lambda>p. external E xs R p + int (in_edges E (set d) p) + int (count_list (ks @ [c]) p))"
        using cnt [of "?x\<lparr>gc_mark := 0\<rparr>"] x by (simp add: g_def [abs_def])
      show "marks ?hs xs (set d) 0" using inv(2) by (auto simp: marks_def)
      show "lists zl h' gcl (d @ q # t @ [c]) tmp (us @ vs)" using lists_sym [OF h'(2)] by simp
      show "set (d @ q # t @ [c]) = {p \<in> set xs. external E xs R p + int (in_edges E (set d) p) + int (count_list (ks @ [c]) p) \<noteq> 0}"
        using l(2) assms(3) True unfolding g_def [symmetric] by (auto simp: g)
      show "set (us @ vs) = {p \<in> set xs. external E xs R p + int (in_edges E (set d) p) + int (count_list (ks @ [c]) p) = 0}"
        using l(3) z True unfolding g_def [symmetric] by (auto simp: g)
      show "set (d @ q # t @ [c]) \<subseteq> reached E xs R" using l(4) assms(4) by auto
    qed
    moreover have "marks ?hs xs {q} 0" using assms(5) by (auto simp: marks_def s)
    moreover have "gc_scan_incref_child gcl c s = Some (h', ?hs)"
      using x True h'(1) by (simp add: gc_scan_incref_child_def s Let_def)
    ultimately show ?thesis by fastforce
  next
    case False
    let ?hs = "hs(c \<mapsto> ?x)"
    have "scan_at E xs R gcl tmp zl d (q # t) (ks @ [c]) (h, ?hs)"
      unfolding scan_at_def Let_def fst_conv snd_conv
    proof (intro conjI exI)
      show "counts ?hs xs (\<lambda>p. external E xs R p + int (in_edges E (set d) p) + int (count_list (ks @ [c]) p))"
        using cnt [of ?x] x by (simp add: g_def [abs_def])
      show "marks ?hs xs (set d) 0" using inv(2) x by (auto simp: marks_def)
      show "lists zl h gcl (d @ q # t) tmp zs" by (rule l(1))
      show "set (d @ q # t) = {p \<in> set xs. external E xs R p + int (in_edges E (set d) p) + int (count_list (ks @ [c]) p) \<noteq> 0}"
        using l(2) False pos unfolding g_def [symmetric] by (auto simp: g)
      show "set zs = {p \<in> set xs. external E xs R p + int (in_edges E (set d) p) + int (count_list (ks @ [c]) p) = 0}"
        using l(3) False pos unfolding g_def [symmetric] by (auto simp: g)
      show "set (d @ q # t) \<subseteq> reached E xs R" by (rule l(4))
    qed
    moreover have "marks ?hs xs {q} 0" using assms(5) x by (auto simp: marks_def s)
    moreover have "gc_scan_incref_child gcl c s = Some (h, ?hs)"
      using x False by (simp add: gc_scan_incref_child_def s Let_def)
    ultimately show ?thesis by fastforce
  qed
qed

lemma scan_children_ok:
  assumes "closed_heap objs xs E R" "q \<in> set xs" "q \<in> reached E xs R" "E q = ks @ cs"
    "scan_at E xs R gcl tmp zl d (q # t) ks s" "marks (snd s) xs {q} 0"
  shows "\<exists>s' t'. call_each (gc_scan_incref_child gcl) cs s = Some s' \<and> scan_at E xs R gcl tmp zl d (q # t') (E q) s' \<and>
    marks (snd s') xs {q} 0"
  using assms(4-6)
proof (induction cs arbitrary: ks s t)
  case (Cons c cs)
  have c: "c \<in> set xs" "c \<in> reached E xs R"
    using closed_heapD(2) [OF assms(1,2)] Cons.prems(1) reached_child [OF assms(3), of c] by auto
  from scan_child_ok [OF assms(1) Cons.prems(2) c Cons.prems(3)] obtain s1 t1 where
    s1: "gc_scan_incref_child gcl c s = Some s1" "scan_at E xs R gcl tmp zl d (q # t1) (ks @ [c]) s1" "marks (snd s1) xs {q} 0" by blast
  from Cons.IH [OF _ s1(2,3)] Cons.prems(1) s1(1) show ?case by simp
qed auto

lemma scan_object_ok:
  assumes "closed_heap objs xs E R" "scan_at E xs R gcl tmp zl d (q # t) [] s"
  shows "\<exists>s' t'. gc_scan_object objs gcl q s = Some s' \<and> scan_at E xs R gcl tmp zl (d @ [q]) t' [] s'"
proof -
  obtain h hs where s: "s = (h, hs)" by (cases s)
  define f where "f p = external E xs R p + int (in_edges E (set d) p) + int (count_list [] p)" for p
  have inv: "counts hs xs f" "marks hs xs (set d) 0" using assms(2) by (simp_all add: scan_at_def s Let_def f_def [abs_def])
  obtain zs where l: "lists zl h gcl (d @ q # t) tmp zs" "set (d @ q # t) = {p \<in> set xs. f p \<noteq> 0}"
    "set (d @ q # t) \<subseteq> reached E xs R"
    using assms(2) unfolding scan_at_def Let_def s f_def fst_conv snd_conv by blast
  have q: "q \<in> set xs" "q \<in> reached E xs R" "f q \<noteq> 0" "q \<notin> set d" using l by (auto simp: lists_def is_list_def)
  obtain x where x: "hs q = Some x" "ref_count x = f q" using countsD [OF inv(1) q(1)] by blast
  have pos: "ref_count x > 0" using closed_heapD(3) [OF assms(1) q(1)] q(3) x by (simp add: f_def external_def)
  let ?hs = "hs(q \<mapsto> x\<lparr>gc_mark := 0\<rparr>)"
  have "counts ?hs xs f" by (rule counts_upd [OF inv(1) q(1)]) (use x in auto)
  moreover have "marks ?hs xs (set d) 0" "marks ?hs xs {q} 0" using inv(2) by (auto simp: marks_def)
  ultimately have "scan_at E xs R gcl tmp zl d (q # t) [] (h, ?hs)" "marks (snd (h, ?hs)) xs {q} 0"
    using assms(2) by (simp_all add: scan_at_def Let_def s f_def [abs_def])
  from scan_children_ok [OF assms(1) q(1,2) _ this, of "E q"] obtain s' t' where
    s': "call_each (gc_scan_incref_child gcl) (E q) (h, ?hs) = Some s'" "scan_at E xs R gcl tmp zl d (q # t') (E q) s'"
    "marks (snd s') xs {q} 0" by auto
  have "gc_scan_object objs gcl q s = Some s'"
    using x pos s'(1) closed_heapD(1) [OF assms(1) q(1)] by (simp add: gc_scan_object_def s mark_each_def)
  moreover have eq: "(\<lambda>p. external E xs R p + int (in_edges E (set d) p) + int (count_list (E q) p)) =
      (\<lambda>p. external E xs R p + int (in_edges E (set (d @ [q])) p) + int (count_list [] p))"
    using in_edges_insert [of "set d" q E] q(4) by (auto simp: fun_eq_iff)
  from s'(2,3) have "scan_at E xs R gcl tmp zl (d @ [q]) t' [] s'"
    unfolding scan_at_def Let_def fun_cong [OF eq] by (auto simp: marks_def)
  ultimately show ?thesis by blast
qed

lemma incref_child2_ok:
  assumes "counts (snd s) xs f" "set cs \<subseteq> set xs"
  shows "\<exists>s'. call_each gc_scan_incref_child2 cs s = Some s' \<and> fst s' = fst s \<and>
    counts (snd s') xs (\<lambda>p. f p + int (count_list cs p)) \<and> (\<forall>S m. marks (snd s) xs S m \<longrightarrow> marks (snd s') xs S m)"
  using assms
proof (induction cs arbitrary: s f)
  case (Cons c cs)
  obtain h hs where s: "s = (h, hs)" by (cases s)
  have c: "c \<in> set xs" using Cons.prems(2) by simp
  obtain x where x: "hs c = Some x" "ref_count x = f c" using countsD [OF Cons.prems(1) c] s by auto
  define s1 where "s1 = (h, hs(c \<mapsto> x\<lparr>ref_count := ref_count x + 1\<rparr>))"
  have c1: "counts (snd s1) xs (\<lambda>p. f p + (if p = c then 1 else 0))"
    unfolding s1_def snd_conv by (rule counts_upd [where f = f]) (use Cons.prems(1) s c x in auto)
  have "set cs \<subseteq> set xs" using Cons.prems(2) by simp
  from Cons.IH [OF c1 this] obtain s' where s': "call_each gc_scan_incref_child2 cs s1 = Some s'" "fst s' = fst s1"
    "counts (snd s') xs (\<lambda>p. f p + (if p = c then 1 else 0) + int (count_list cs p))"
    "\<forall>S m. marks (snd s1) xs S m \<longrightarrow> marks (snd s') xs S m" by blast
  have "call_each gc_scan_incref_child2 (c # cs) s = Some s'"
    using x s s'(1) by (simp add: gc_scan_incref_child2_def s1_def)
  moreover have "(\<lambda>p. f p + (if p = c then 1 else 0) + int (count_list cs p)) = (\<lambda>p. f p + int (count_list (c # cs) p))"
    by (rule ext) simp
  moreover have "marks (snd s) xs S m \<longrightarrow> marks (snd s1) xs S m" for S m using x s by (auto simp: marks_def s1_def)
  ultimately show ?case using s s' by (auto simp: s1_def)
qed simp

lemma scan2_ok:
  assumes "closed_heap objs xs E R" "lists zl (fst s) gcl ys tmp zs" "set zs \<subseteq> set xs" "counts (snd s) xs f"
  shows "\<exists>s'. list_for_each (mark_each objs gc_scan_incref_child2) tmp s = Some s' \<and> fst s' = fst s \<and>
    counts (snd s') xs (\<lambda>p. f p + int (in_edges E (set zs) p)) \<and> (\<forall>S m. marks (snd s) xs S m \<longrightarrow> marks (snd s') xs S m)"
proof -
  define Inv where "Inv d t s' \<longleftrightarrow> d @ t = zs \<and> fst s' = fst s \<and>
    counts (snd s') xs (\<lambda>p. f p + int (in_edges E (set d) p)) \<and> (\<forall>S m. marks (snd s) xs S m \<longrightarrow> marks (snd s') xs S m)" for d t s'
  have zs: "is_list (fst s) tmp zs" "distinct zs" using assms(2) by (auto simp: lists_def is_list_def)
  have ring: "is_list (fst s') tmp (d @ t) \<and> length d \<le> length zs" if "Inv d t s'" for d t s'
  proof -
    have "d @ t = zs" "fst s' = fst s" using that by (simp_all add: Inv_def)
    with zs(1) show ?thesis by (metis le_add1 length_append)
  qed
  have step: "\<exists>s2 t'. mark_each objs gc_scan_incref_child2 q s1 = Some s2 \<and> Inv (d @ [q]) t' s2" if i: "Inv d (q # t) s1" for d q t s1
  proof -
    have dt: "d @ q # t = zs" "fst s1 = fst s" "counts (snd s1) xs (\<lambda>p. f p + int (in_edges E (set d) p))"
      "\<And>S m. marks (snd s) xs S m \<Longrightarrow> marks (snd s1) xs S m" using i by (auto simp: Inv_def)
    then have q: "q \<in> set xs" "q \<notin> set d" using assms(3) zs(2) by auto
    from incref_child2_ok [OF dt(3) closed_heapD(2) [OF assms(1) q(1)]] obtain s2 where
      s2: "call_each gc_scan_incref_child2 (E q) s1 = Some s2" "fst s2 = fst s1"
      "counts (snd s2) xs (\<lambda>p. f p + int (in_edges E (set d) p) + int (count_list (E q) p))"
      "\<And>S m. marks (snd s1) xs S m \<Longrightarrow> marks (snd s2) xs S m" by blast
    have "(\<lambda>p. f p + int (in_edges E (set d) p) + int (count_list (E q) p)) =
        (\<lambda>p. f p + int (in_edges E (set (d @ [q])) p))"
      using in_edges_insert [of "set d" q E] q(2) by (auto simp: fun_eq_iff)
    with s2 dt have "Inv (d @ [q]) t s2" by (simp add: Inv_def)
    moreover have "mark_each objs gc_scan_incref_child2 q s1 = Some s2"
      using s2(1) closed_heapD(1) [OF assms(1) q(1)] by (simp add: mark_each_def)
    ultimately show ?thesis by blast
  qed
  have start: "Inv [] zs s" using assms(4) by (simp add: Inv_def in_edges_def)
  have "\<exists>s' d. list_for_each (mark_each objs gc_scan_incref_child2) tmp s = Some s' \<and> Inv d [] s'"
  proof (rule for_each_ok [where Inv = Inv])
    show "\<And>d t s'. Inv d t s' \<Longrightarrow> is_list (fst s') tmp (d @ t) \<and> length d \<le> length zs" by (rule ring)
    show "\<And>d q t s1. Inv d (q # t) s1 \<Longrightarrow> \<exists>s2 t'. mark_each objs gc_scan_incref_child2 q s1 = Some s2 \<and> Inv (d @ [q]) t' s2"
      by (rule step)
  qed (rule start)
  then obtain s' d where "list_for_each (mark_each objs gc_scan_incref_child2) tmp s = Some s'" "Inv d [] s'" by blast
  then show ?thesis by (auto simp: Inv_def)
qed

text \<open>The two passes together.\<close>

lemma in_edges_union: "finite S \<Longrightarrow> finite T \<Longrightarrow> S \<inter> T = {} \<Longrightarrow> in_edges E (S \<union> T) p = in_edges E S p + in_edges E T p"
  by (simp add: in_edges_def sum.union_disjoint)

theorem gc_passes_ok:
  assumes "closed_heap objs xs E R" "gc_start xs R gcl tmp zl s"
  shows "\<exists>s1 s2 ys zs. gc_decref objs gcl tmp s = Some s1 \<and> gc_scan objs gcl tmp s1 = Some s2 \<and>
    lists zl (fst s2) gcl ys tmp zs \<and> set ys = reached E xs R \<and> set zs = set xs - reached E xs R \<and>
    counts (snd s2) xs R \<and> marks (snd s2) xs (set ys) 0"
proof -
  obtain h hs ys0 zs0 where d: "gc_decref objs gcl tmp s = Some (h, hs)" "lists zl h gcl ys0 tmp zs0"
    "set ys0 = {p \<in> set xs. external E xs R p \<noteq> 0}" "set zs0 = {p \<in> set xs. external E xs R p = 0}"
    "counts hs xs (external E xs R)" using gc_decref_ok [OF assms] by blast
  have "set ys0 \<subseteq> reached E xs R"
  proof
    fix p assume "p \<in> set ys0"
    then have "p \<in> set xs" "external E xs R p \<noteq> 0" using d(3) by auto
    moreover from this have "0 \<le> external E xs R p" using assms(1) by (simp add: closed_heap_def)
    ultimately show "p \<in> reached E xs R" by (intro reached_root) auto
  qed
  then have start: "scan_at E xs R gcl tmp zl [] ys0 [] (h, hs)"
    using d unfolding scan_at_def Let_def by (auto simp: in_edges_def marks_def)
  have ring: "is_list (fst s) gcl (d @ t) \<and> length d \<le> card (set xs)" if i: "scan_at E xs R gcl tmp zl d t [] s" for d t s
  proof -
    obtain zs where "lists zl (fst s) gcl (d @ t) tmp zs" "set (d @ t) \<subseteq> set xs"
      using i unfolding scan_at_def Let_def by blast
    then have "is_list (fst s) gcl (d @ t)" "distinct (d @ t)" by (auto simp: lists_def is_list_def)
    moreover have "length (d @ t) \<le> card (set xs)"
      using card_mono [OF finite_set \<open>set (d @ t) \<subseteq> set xs\<close>] distinct_card [OF \<open>distinct (d @ t)\<close>] by simp
    ultimately show ?thesis by simp
  qed
  have "\<exists>s1 ys. list_for_each (gc_scan_object objs gcl) gcl (h, hs) = Some s1 \<and> scan_at E xs R gcl tmp zl ys [] [] s1"
  proof (rule for_each_ok [where Inv = "\<lambda>d t s. scan_at E xs R gcl tmp zl d t [] s"])
    show "\<And>d t s. scan_at E xs R gcl tmp zl d t [] s \<Longrightarrow> is_list (fst s) gcl (d @ t) \<and> length d \<le> card (set xs)" by (rule ring)
    show "\<And>d x t s. scan_at E xs R gcl tmp zl d (x # t) [] s \<Longrightarrow>
        \<exists>s' t'. gc_scan_object objs gcl x s = Some s' \<and> scan_at E xs R gcl tmp zl (d @ [x]) t' [] s'"
      by (rule scan_object_ok [OF assms(1)])
  qed (rule start)
  then obtain s1 ys where
    s1: "list_for_each (gc_scan_object objs gcl) gcl (h, hs) = Some s1" "scan_at E xs R gcl tmp zl ys [] [] s1" by blast
  define f where "f p = external E xs R p + int (in_edges E (set ys) p)" for p
  have c1: "counts (snd s1) xs f" "marks (snd s1) xs (set ys) 0"
    using s1(2) by (simp_all add: scan_at_def Let_def f_def [abs_def])
  obtain zs where z: "lists zl (fst s1) gcl ys tmp zs" "set ys = {p \<in> set xs. f p \<noteq> 0}" "set zs = {p \<in> set xs. f p = 0}"
    "set ys \<subseteq> reached E xs R" using s1(2) by (auto simp: scan_at_def Let_def f_def)
  have nonneg: "0 \<le> external E xs R p" if "p \<in> set xs" for p using assms(1) that by (simp add: closed_heap_def)
  have "reached E xs R \<subseteq> set ys"
  proof (rule reached_least)
    fix p assume "p \<in> set xs" "external E xs R p > 0"
    then have "f p \<noteq> 0" by (simp add: f_def)
    with \<open>p \<in> set xs\<close> z(2) show "p \<in> set ys" by blast
  next
    fix p c assume p: "p \<in> set ys" "c \<in> set (E p)"
    then have "c \<in> set xs" using z(2) closed_heapD(2) [OF assms(1), of p] by auto
    moreover have "count_list (E p) c \<le> in_edges E (set ys) c" unfolding in_edges_def using p(1) by (intro member_le_sum [of p "set ys" "\<lambda>q. count_list (E q) c"]) auto
    then have "0 < in_edges E (set ys) c" using p(2) count_list_0_iff [of "E p" c] by linarith
    ultimately have "c \<in> set xs" "f c \<noteq> 0" using nonneg [of c] by (simp_all add: f_def)
    with z(2) show "c \<in> set ys" by blast
  qed
  with z(4) have ys: "set ys = reached E xs R" by simp
  have parts: "set xs = set ys \<union> set zs" "set ys \<inter> set zs = {}" "set zs \<subseteq> set xs" using z(2,3) by auto
  obtain s2 where s2: "list_for_each (mark_each objs gc_scan_incref_child2) tmp s1 = Some s2" "fst s2 = fst s1"
    "counts (snd s2) xs (\<lambda>p. f p + int (in_edges E (set zs) p))" "\<And>S m. marks (snd s1) xs S m \<Longrightarrow> marks (snd s2) xs S m"
    using scan2_ok [OF assms(1) z(1) parts(3) c1(1)] by blast
  have "(\<lambda>p. f p + int (in_edges E (set zs) p)) = R"
    using in_edges_union [of "set ys" "set zs" E] parts by (auto simp: f_def external_def fun_eq_iff)
  with s2(3) have "counts (snd s2) xs R" by simp
  moreover have "gc_scan objs gcl tmp (h, hs) = Some s2" using s1(1) s2(1) by (simp add: gc_scan_def)
  moreover have "lists zl (fst s2) gcl ys tmp zs" using z(1) s2(2) by simp
  moreover have "set zs = set xs - reached E xs R" using parts ys by auto
  ultimately show ?thesis using d(1) ys s2(4) [OF c1(2)] by blast
qed

end
