(* ===== verification/GCFree.thy ===== *)
theory GCFree
  imports GCMark "HOL-Library.Multiset"
begin

text \<open>
  quickjs.c: the references that the destruction of an object gives up, by its finalizer and by
  \<open>free_object\<close>, \<open>free_function_bytecode\<close>, \<open>__async_func_free\<close>, \<open>free_var_ref\<close>, \<open>js_free_shape0\<close> and
  \<open>JS_FreeContext\<close>.  As for the mark functions, a function is modelled by the pointers whose
  reference count it decrements, in their order.  The collector is correct only when they are, for
  every object, those that \<open>mark_children\<close> visits.  What a finalizer does besides is left out: it
  frees the memory that the object owns, a weak map unlinks its records from the lists of weak
  references of its keys (\<open>delete_weak_ref\<close>), and a map iterator counts down the reference count of
  its current record when the map is alive (\<open>map_decref_record\<close>, whose record is empty when the
  count gets to zero): no count of an object changes there.  The classes are those of quickjs.c; the
  classes that a program adds (\<open>JS_NewClass\<close>, as quickjs-libc.c does) are not modelled.
\<close>

unbundle bit_operations_syntax

subsection \<open>The finalizers\<close>

text \<open>\<open>JS_FreeValueRT\<close> on a value that points to a garbage collected object.\<close>

fun free_value :: "js_value \<Rightarrow> gc_ptr list" where
  "free_value (JS_OBJECT p) = [p]"
| "free_value (JS_FUNCTION_BYTECODE p) = [p]"
| "free_value _ = []"

definition free_values :: "js_value list \<Rightarrow> gc_ptr list" where
  "free_values vs = concat (map free_value vs)"

definition free_ptr :: "gc_ptr option \<Rightarrow> gc_ptr list" where
  "free_ptr p = (case p of None \<Rightarrow> [] | Some p \<Rightarrow> [p])"

definition js_array_finalizer :: "js_value list \<Rightarrow> gc_ptr list" where
  "js_array_finalizer values = free_values values"

definition js_object_data_finalizer :: "js_value \<Rightarrow> gc_ptr list" where
  "js_object_data_finalizer v = free_value v"

definition js_c_function_finalizer :: "gc_ptr option \<Rightarrow> gc_ptr list" where
  "js_c_function_finalizer realm = free_ptr realm"

definition js_bytecode_function_finalizer ::
  "gc_objects \<Rightarrow> gc_ptr option \<Rightarrow> gc_ptr option \<Rightarrow> gc_ptr option list option \<Rightarrow> gc_ptr list option" where
  "js_bytecode_function_finalizer objs home_object function_bytecode var_refs =
     (let home = (case home_object of None \<Rightarrow> [] | Some p \<Rightarrow> free_value (JS_OBJECT p)) in
      case function_bytecode of
        None \<Rightarrow> Some home
      | Some b \<Rightarrow>
          (case var_refs of
             None \<Rightarrow> Some (home @ free_value (JS_FUNCTION_BYTECODE b))
           | Some refs \<Rightarrow>
               (case objs b of
                  Some (GC_FUNCTION_BYTECODE bc) \<Rightarrow>
                    if closure_var_count bc \<le> length refs then
                      Some (home @ concat (map free_ptr (take (closure_var_count bc) refs)) @
                            free_value (JS_FUNCTION_BYTECODE b))
                    else None
                | _ \<Rightarrow> None)))"

definition js_bound_function_finalizer :: "js_value \<Rightarrow> js_value \<Rightarrow> js_value list \<Rightarrow> gc_ptr list" where
  "js_bound_function_finalizer fobj this_val argv = free_value fobj @ free_value this_val @ free_values argv"

definition js_c_function_data_finalizer :: "js_value list option \<Rightarrow> gc_ptr list" where
  "js_c_function_data_finalizer s = (case s of None \<Rightarrow> [] | Some data \<Rightarrow> free_values data)"

definition js_for_in_iterator_finalizer :: "js_value \<Rightarrow> gc_ptr list" where
  "js_for_in_iterator_finalizer obj = free_value obj"

definition js_typed_array_finalizer :: "gc_ptr option \<Rightarrow> gc_ptr list" where
  "js_typed_array_finalizer ta = (case ta of None \<Rightarrow> [] | Some buffer \<Rightarrow> free_value (JS_OBJECT buffer))"

definition js_operator_set_finalizer ::
  "(gc_ptr option list \<times> gc_ptr option list list \<times> gc_ptr option list list) option \<Rightarrow> gc_ptr list" where
  "js_operator_set_finalizer opset =
     (case opset of
        None \<Rightarrow> []
      | Some (self_ops, left_tab, right_tab) \<Rightarrow>
          concat (map free_ptr self_ops) @ concat (map free_ptr (concat left_tab)) @
          concat (map free_ptr (concat right_tab)))"

definition js_map_finalizer :: "(bool \<times> (bool \<times> js_value \<times> js_value) list) option \<Rightarrow> gc_ptr list" where
  "js_map_finalizer s =
     (case s of
        None \<Rightarrow> []
      | Some (is_weak, records) \<Rightarrow>
          concat (map (\<lambda>(empty, key, val).
            if empty then [] else (if is_weak then [] else free_value key) @ free_value val) records))"

definition js_map_iterator_finalizer :: "js_value option \<Rightarrow> gc_ptr list" where
  "js_map_iterator_finalizer it = (case it of None \<Rightarrow> [] | Some obj \<Rightarrow> free_value obj)"

definition js_array_iterator_finalizer :: "js_value option \<Rightarrow> gc_ptr list" where
  "js_array_iterator_finalizer it = (case it of None \<Rightarrow> [] | Some obj \<Rightarrow> free_value obj)"

definition js_regexp_string_iterator_finalizer :: "(js_value \<times> js_value) option \<Rightarrow> gc_ptr list" where
  "js_regexp_string_iterator_finalizer it =
     (case it of None \<Rightarrow> [] | Some (regexp, str) \<Rightarrow> free_value regexp @ free_value str)"

definition js_generator_finalizer :: "(bool \<times> gc_ptr option) option \<Rightarrow> gc_ptr list" where
  "js_generator_finalizer s =
     (case s of None \<Rightarrow> [] | Some (completed, func_state) \<Rightarrow> if completed then [] else free_ptr func_state)"

definition js_proxy_finalizer :: "(js_value \<times> js_value) option \<Rightarrow> gc_ptr list" where
  "js_proxy_finalizer s = (case s of None \<Rightarrow> [] | Some (target, handler) \<Rightarrow> free_value target @ free_value handler)"

definition promise_reaction_data_free :: "(js_value \<times> js_value) \<times> js_value \<Rightarrow> gc_ptr list" where
  "promise_reaction_data_free r =
     (case r of ((f0, f1), handler) \<Rightarrow> free_value f0 @ free_value f1 @ free_value handler)"

definition js_promise_finalizer ::
  "(((js_value \<times> js_value) \<times> js_value) list \<times> ((js_value \<times> js_value) \<times> js_value) list \<times> js_value) option \<Rightarrow> gc_ptr list" where
  "js_promise_finalizer s =
     (case s of
        None \<Rightarrow> []
      | Some (reactions0, reactions1, promise_result) \<Rightarrow>
          concat (map promise_reaction_data_free (reactions0 @ reactions1)) @ free_value promise_result)"

definition js_promise_resolve_function_finalizer :: "js_value option \<Rightarrow> gc_ptr list" where
  "js_promise_resolve_function_finalizer s = (case s of None \<Rightarrow> [] | Some promise \<Rightarrow> free_value promise)"

definition js_async_function_resolve_finalizer :: "gc_ptr option \<Rightarrow> gc_ptr list" where
  "js_async_function_resolve_finalizer s = free_ptr s"

definition js_async_from_sync_iterator_finalizer :: "(js_value \<times> js_value) option \<Rightarrow> gc_ptr list" where
  "js_async_from_sync_iterator_finalizer s =
     (case s of None \<Rightarrow> [] | Some (sync_iter, next_method) \<Rightarrow> free_value sync_iter @ free_value next_method)"

definition js_async_generator_free ::
  "((js_value \<times> js_value \<times> js_value \<times> js_value) list \<times> gc_ptr option) option \<Rightarrow> gc_ptr list" where
  "js_async_generator_free s =
     (case s of
        None \<Rightarrow> []
      | Some (queue, func_state) \<Rightarrow>
          concat (map (\<lambda>(r, p, f0, f1). free_value r @ free_value p @ free_value f0 @ free_value f1) queue) @
          free_ptr func_state)"

definition class_finalizer :: "gc_objects \<Rightarrow> js_class_data \<Rightarrow> gc_ptr list option" where
  "class_finalizer objs u =
     (case u of
        C_plain \<Rightarrow> Some []
      | C_array vs \<Rightarrow> Some (js_array_finalizer vs)
      | C_object_data v \<Rightarrow> Some (js_object_data_finalizer v)
      | C_c_function realm \<Rightarrow> Some (js_c_function_finalizer realm)
      | C_bytecode_function h b refs \<Rightarrow> js_bytecode_function_finalizer objs h b refs
      | C_bound_function f t argv \<Rightarrow> Some (js_bound_function_finalizer f t argv)
      | C_c_function_data s \<Rightarrow> Some (js_c_function_data_finalizer s)
      | C_for_in_iterator v \<Rightarrow> Some (js_for_in_iterator_finalizer v)
      | C_typed_array ta \<Rightarrow> Some (js_typed_array_finalizer ta)
      | C_operator_set s \<Rightarrow> Some (js_operator_set_finalizer s)
      | C_map s \<Rightarrow> Some (js_map_finalizer s)
      | C_map_iterator it \<Rightarrow> Some (js_map_iterator_finalizer it)
      | C_array_iterator it \<Rightarrow> Some (js_array_iterator_finalizer it)
      | C_regexp_string_iterator it \<Rightarrow> Some (js_regexp_string_iterator_finalizer it)
      | C_generator s \<Rightarrow> Some (js_generator_finalizer s)
      | C_proxy s \<Rightarrow> Some (js_proxy_finalizer s)
      | C_promise s \<Rightarrow> Some (js_promise_finalizer s)
      | C_promise_resolve_function s \<Rightarrow> Some (js_promise_resolve_function_finalizer s)
      | C_async_function_resolve s \<Rightarrow> Some (js_async_function_resolve_finalizer s)
      | C_async_from_sync_iterator s \<Rightarrow> Some (js_async_from_sync_iterator_finalizer s)
      | C_async_generator s \<Rightarrow> Some (js_async_generator_free s))"

subsection \<open>The references an object gives up\<close>

definition js_autoinit_free :: "js_property \<Rightarrow> gc_ptr list option" where
  "js_autoinit_free pr = (case pr of P_init realm i \<Rightarrow> Some [realm] | _ \<Rightarrow> None)"

definition free_property :: "u32 \<Rightarrow> js_property \<Rightarrow> gc_ptr list option" where
  "free_property flags pr =
     (let tag = flags AND JS_PROP_TMASK in
      if tag \<noteq> 0 then
        if tag = JS_PROP_GETSET then
          (case pr of P_getset getter setter \<Rightarrow> Some (free_ptr getter @ free_ptr setter) | _ \<Rightarrow> None)
        else if tag = JS_PROP_VARREF then
          (case pr of P_var_ref v \<Rightarrow> Some [v] | _ \<Rightarrow> None)
        else if tag = JS_PROP_AUTOINIT then js_autoinit_free pr
        else Some []
      else (case pr of P_value v \<Rightarrow> Some (free_value v) | _ \<Rightarrow> None))"

fun free_properties :: "js_shape_property list \<Rightarrow> js_property list \<Rightarrow> gc_ptr list option" where
  "free_properties [] prop = Some []"
| "free_properties (prs # shape) [] = None"
| "free_properties (prs # shape) (pr # prop) =
     do { a \<leftarrow> free_property (prop_flags prs) pr; b \<leftarrow> free_properties shape prop; Some (a @ b) }"

text \<open>\<open>free_object\<close>: the properties, the shape, the finalizer.\<close>

definition free_object_refs :: "gc_objects \<Rightarrow> js_object \<Rightarrow> gc_ptr list option" where
  "free_object_refs objs p =
     (case objs (obj_shape p) of
        Some (GC_SHAPE sh) \<Rightarrow>
          do {
            props \<leftarrow> free_properties (shape_prop sh) (obj_prop p);
            cls \<leftarrow> class_finalizer objs (obj_class p);
            Some (props @ obj_shape p # cls)
          }
      | _ \<Rightarrow> None)"

definition free_function_bytecode_refs :: "js_function_bytecode \<Rightarrow> gc_ptr list" where
  "free_function_bytecode_refs b = free_values (cpool b) @ free_ptr (bc_realm b)"

text \<open>\<open>async_func_free_frame\<close> asserts that the function is not running.\<close>

definition async_func_free_frame :: "js_async_function_state \<Rightarrow> gc_ptr list option" where
  "async_func_free_frame s =
     (case as_stack s of
        None \<Rightarrow> None
      | Some stack \<Rightarrow> Some (free_values stack @ free_value (cur_func s) @ free_value (as_this_val s)))"

definition async_func_free_refs :: "js_async_function_state \<Rightarrow> gc_ptr list option" where
  "async_func_free_refs s =
     do {
       frame \<leftarrow> (if \<not> is_completed s then async_func_free_frame s else Some []);
       Some (frame @ free_value (fst (as_resolving_funcs s)) @ free_value (snd (as_resolving_funcs s)))
     }"

definition free_var_ref_refs :: "js_var_ref \<Rightarrow> gc_ptr list" where
  "free_var_ref_refs v = (if is_detached v then free_value (pvalue v) else free_ptr (vr_async_func v))"

definition js_free_shape0_refs :: "js_shape \<Rightarrow> gc_ptr list" where
  "js_free_shape0_refs sh = (case shape_proto sh of None \<Rightarrow> [] | Some p \<Rightarrow> free_value (JS_OBJECT p))"

definition js_free_module_def :: "js_module_def \<Rightarrow> gc_ptr list" where
  "js_free_module_def m =
     concat (map (\<lambda>me. if export_local me then free_ptr (export_var_ref me) else []) (export_entries m)) @
     free_value (module_ns m) @ free_value (func_obj m) @ free_value (eval_exception m) @ free_value (meta_obj m) @
     free_value (m_promise m) @ free_value (fst (m_resolving_funcs m)) @ free_value (snd (m_resolving_funcs m))"

definition JS_FreeContext_refs :: "js_context \<Rightarrow> gc_ptr list" where
  "JS_FreeContext_refs ctx =
     concat (map js_free_module_def (loaded_modules ctx)) @
     free_values [global_obj ctx, global_var_obj ctx, throw_type_error ctx, eval_obj ctx, array_proto_values ctx] @
     free_values (native_error_proto ctx) @ free_values (class_proto ctx) @
     free_values [iterator_proto ctx, async_iterator_proto ctx, promise_ctor ctx, array_ctor ctx, regexp_ctor ctx,
       function_ctor ctx, function_proto ctx] @
     free_ptr (array_shape ctx)"

definition free_children :: "gc_objects \<Rightarrow> gc_ptr \<Rightarrow> gc_ptr list option" where
  "free_children objs gp =
     (case objs gp of
        None \<Rightarrow> None
      | Some (GC_JS_OBJECT p) \<Rightarrow> free_object_refs objs p
      | Some (GC_FUNCTION_BYTECODE b) \<Rightarrow> Some (free_function_bytecode_refs b)
      | Some (GC_VAR_REF v) \<Rightarrow> Some (free_var_ref_refs v)
      | Some (GC_ASYNC_FUNCTION s) \<Rightarrow> async_func_free_refs s
      | Some (GC_SHAPE sh) \<Rightarrow> Some (js_free_shape0_refs sh)
      | Some (GC_JS_CONTEXT ctx) \<Rightarrow> Some (JS_FreeContext_refs ctx))"

subsection \<open>Well-formed objects\<close>

text \<open>
  What the engine keeps of an object: a deleted property, and an emptied record of a map, hold no
  reference (the code stores \<open>JS_UNDEFINED\<close>); a property of an object has the member of the union
  that its flags select; a completed generator has no function state; an asynchronous function
  that is not completed is suspended, so that its stack pointer is known.
\<close>

definition no_ref :: "js_value \<Rightarrow> bool" where
  "no_ref v \<longleftrightarrow> JS_MarkValue v = []"

definition property_wf :: "js_shape_property \<Rightarrow> js_property \<Rightarrow> bool" where
  "property_wf prs pr \<longleftrightarrow>
     (let tag = prop_flags prs AND JS_PROP_TMASK in
      if prop_atom prs = 0 then tag = 0 \<and> (\<exists>v. pr = P_value v \<and> no_ref v)
      else if tag = 0 then \<exists>v. pr = P_value v
      else if tag = JS_PROP_GETSET then \<exists>g s. pr = P_getset g s
      else if tag = JS_PROP_VARREF then \<exists>v. pr = P_var_ref v
      else \<exists>r i. pr = P_init r i)"

definition class_wf :: "gc_objects \<Rightarrow> js_class_data \<Rightarrow> bool" where
  "class_wf objs u \<longleftrightarrow>
     (case u of
        C_bytecode_function h (Some b) refs \<Rightarrow>
          (\<exists>bc. objs b = Some (GC_FUNCTION_BYTECODE bc) \<and>
             (case refs of None \<Rightarrow> True | Some refs \<Rightarrow> closure_var_count bc \<le> length refs))
      | C_map (Some (is_weak, records)) \<Rightarrow>
          (\<forall>(empty, key, val)\<in>set records. empty \<longrightarrow> no_ref key \<and> no_ref val)
      | C_generator (Some (completed, func_state)) \<Rightarrow> (completed \<longrightarrow> func_state = None)
      | _ \<Rightarrow> True)"

definition object_wf :: "gc_objects \<Rightarrow> gc_ptr \<Rightarrow> bool" where
  "object_wf objs gp \<longleftrightarrow>
     (case objs gp of
        None \<Rightarrow> False
      | Some (GC_JS_OBJECT p) \<Rightarrow>
          class_wf objs (obj_class p) \<and>
          (\<exists>sh. objs (obj_shape p) = Some (GC_SHAPE sh) \<and> length (shape_prop sh) \<le> length (obj_prop p) \<and>
             (\<forall>(prs, pr)\<in>set (zip (shape_prop sh) (obj_prop p)). property_wf prs pr))
      | Some (GC_ASYNC_FUNCTION s) \<Rightarrow> is_completed s \<or> (\<exists>st. as_stack s = Some st)
      | _ \<Rightarrow> True)"

subsection \<open>What is marked is what is freed\<close>

lemma free_value_mark [simp]: "free_value v = JS_MarkValue v"
  by (cases v) simp_all

lemma free_value_fun: "free_value = JS_MarkValue"
  by (rule ext) simp

lemma free_values_mark [simp]: "free_values vs = mark_values vs"
  by (simp add: free_values_def mark_values_def free_value_fun)

lemma free_ptr_mark [simp]: "free_ptr p = mark_ptr p"
  by (simp add: free_ptr_def mark_ptr_def)

lemma free_ptr_fun: "free_ptr = mark_ptr"
  by (rule ext) simp

lemmas mark_defs = js_array_mark_def js_object_data_mark_def js_c_function_mark_def js_bytecode_function_mark_def
  js_bound_function_mark_def js_c_function_data_mark_def js_for_in_iterator_mark_def js_typed_array_mark_def
  js_operator_set_mark_def js_map_mark_def js_map_iterator_mark_def js_array_iterator_mark_def
  js_regexp_string_iterator_mark_def js_generator_mark_def js_proxy_mark_def js_promise_mark_def
  js_promise_resolve_function_mark_def js_async_function_resolve_mark_def js_async_from_sync_iterator_mark_def
  js_async_generator_mark_def

lemmas finalizer_defs = js_array_finalizer_def js_object_data_finalizer_def js_c_function_finalizer_def
  js_bytecode_function_finalizer_def js_bound_function_finalizer_def js_c_function_data_finalizer_def
  js_for_in_iterator_finalizer_def js_typed_array_finalizer_def js_operator_set_finalizer_def js_map_finalizer_def
  js_map_iterator_finalizer_def js_array_iterator_finalizer_def js_regexp_string_iterator_finalizer_def
  js_generator_finalizer_def js_proxy_finalizer_def js_promise_finalizer_def
  js_promise_resolve_function_finalizer_def js_async_function_resolve_finalizer_def
  js_async_from_sync_iterator_finalizer_def js_async_generator_free_def

lemma promise_reaction_fun:
  "promise_reaction_data_free = (\<lambda>((f0, f1), handler). JS_MarkValue f0 @ JS_MarkValue f1 @ JS_MarkValue handler)"
  by (rule ext) (simp add: promise_reaction_data_free_def split: prod.splits)

lemma map_records:
  assumes "\<forall>(empty, key, val)\<in>set records. empty \<longrightarrow> no_ref key \<and> no_ref val"
  shows "concat (map (\<lambda>(empty, key, val). if empty then [] else (if is_weak then [] else free_value key) @ free_value val) records) =
    concat (map (\<lambda>(empty, key, val). (if is_weak then [] else JS_MarkValue key) @ JS_MarkValue val) records)"
  using assms by (intro arg_cong [where f = concat] map_cong) (auto simp: no_ref_def)

lemma class_mark_free:
  assumes "class_wf objs u"
  shows "\<exists>cs. class_gc_mark objs u = Some cs \<and> class_finalizer objs u = Some cs"
proof (cases u)
  case (C_bytecode_function h b refs)
  with assms show ?thesis
    by (auto simp: class_wf_def class_gc_mark_def class_finalizer_def mark_defs finalizer_defs free_ptr_fun Let_def
        split: option.splits)
next
  case (C_map s)
  with assms show ?thesis
    by (auto simp: class_wf_def class_gc_mark_def class_finalizer_def mark_defs finalizer_defs map_records
        split: option.splits prod.splits)
next
  case (C_generator s)
  with assms show ?thesis
    by (auto simp: class_wf_def class_gc_mark_def class_finalizer_def mark_defs finalizer_defs mark_ptr_def
        split: option.splits prod.splits)
qed (simp_all add: class_gc_mark_def class_finalizer_def mark_defs finalizer_defs promise_reaction_fun free_ptr_fun
    split: option.splits prod.splits)

lemma property_mark_free:
  assumes "property_wf prs pr"
  shows "\<exists>cs. mark_property prs pr = Some cs \<and> free_property (prop_flags prs) pr = Some cs"
  using assms
  by (auto simp: property_wf_def mark_property_def free_property_def js_autoinit_mark_def js_autoinit_free_def no_ref_def
      Let_def split: if_splits)

lemma properties_mark_free:
  assumes "length shape \<le> length vals" "\<forall>(prs, pr)\<in>set (zip shape vals). property_wf prs pr"
  shows "\<exists>cs. mark_properties shape vals = Some cs \<and> free_properties shape vals = Some cs"
  using assms
proof (induction shape vals rule: mark_properties.induct)
  case (3 prs shape pr vals)
  from "3.prems" property_mark_free [of prs pr] obtain a where
    a: "mark_property prs pr = Some a" "free_property (prop_flags prs) pr = Some a" by auto
  with "3.IH" [OF a(1)] "3.prems" show ?case by auto
qed simp_all

lemma module_mark_free: "js_free_module_def m = js_mark_module_def m"
  by (simp add: js_free_module_def_def js_mark_module_def_def mark_values_def free_ptr_fun cong: if_cong)

lemma mark_free_children:
  assumes "object_wf objs gp"
  shows "\<exists>ms fs. mark_children objs gp = Some ms \<and> free_children objs gp = Some fs \<and> mset ms = mset fs"
proof (cases "objs gp")
  case None
  with assms show ?thesis by (simp add: object_wf_def)
next
  case (Some x)
  show ?thesis
  proof (cases x)
    case (GC_JS_OBJECT p)
    with assms Some obtain sh where sh: "objs (obj_shape p) = Some (GC_SHAPE sh)" "class_wf objs (obj_class p)"
      "length (shape_prop sh) \<le> length (obj_prop p)" "\<forall>(prs, pr)\<in>set (zip (shape_prop sh) (obj_prop p)). property_wf prs pr"
      by (auto simp: object_wf_def)
    from properties_mark_free [OF sh(3,4)] class_mark_free [OF sh(2)] sh(1) Some GC_JS_OBJECT show ?thesis
      by (auto simp: mark_children_def free_children_def mark_object_def free_object_refs_def)
  next
    case (GC_ASYNC_FUNCTION s)
    with assms Some show ?thesis
      by (auto simp: object_wf_def mark_children_def free_children_def mark_async_function_def async_func_free_refs_def
          async_func_free_frame_def)
  next
    case (GC_JS_CONTEXT ctx)
    moreover have "js_free_module_def = js_mark_module_def" by (rule ext) (rule module_mark_free)
    ultimately show ?thesis using Some
      by (simp add: mark_children_def free_children_def JS_MarkContext_def JS_FreeContext_refs_def mark_values_def)
  qed (use Some in \<open>auto simp: mark_children_def free_children_def free_function_bytecode_refs_def free_var_ref_refs_def
      js_free_shape0_refs_def mark_ptr_def split: option.splits\<close>)
qed

end
