(* ===== verification/GCFreeCycles.thy ===== *)
theory GCFreeCycles
  imports GC GCFree
begin

text \<open>
  quickjs.c: \<open>gc_free_cycles\<close> and \<open>JS_RunGC\<close>.  Freeing an object takes it out of both stores, so
  that any later access to it is the result \<open>None\<close>.  The phase is \<open>JS_GC_PHASE_REMOVE_CYCLES\<close>
  throughout: a reference count that reaches zero then frees variable references, shapes and
  contexts at once, and leaves objects, function bytecodes and asynchronous functions to the loop.
\<close>

subsection \<open>The code\<close>

definition js_free_rt :: "gc_ptr \<Rightarrow> gc_state \<Rightarrow> gc_state" where
  "js_free_rt p s = ((fst s)(p := None), (snd s)(p := None))"

text \<open>The objects that are still allocated.\<close>

definition live_objects :: "gc_objects \<Rightarrow> gc_state \<Rightarrow> gc_objects" where
  "live_objects objs s = (\<lambda>p. if snd s p = None then None else objs p)"

text \<open>The types that the loop of \<open>gc_free_cycles\<close> passes to \<open>free_gc_object\<close>.\<close>

fun is_loop_type :: "gc_object \<Rightarrow> bool" where
  "is_loop_type (GC_JS_OBJECT p) \<longleftrightarrow> True"
| "is_loop_type (GC_FUNCTION_BYTECODE b) \<longleftrightarrow> True"
| "is_loop_type (GC_ASYNC_FUNCTION s) \<longleftrightarrow> True"
| "is_loop_type _ \<longleftrightarrow> False"

text \<open>
  One reference less: \<open>JS_FreeValueRT\<close>, \<open>async_func_free\<close>, \<open>free_var_ref\<close>, \<open>js_free_shape\<close> or
  \<open>JS_FreeContext\<close>, by the type of the object.  The fuel bounds the nesting of the calls.
\<close>

fun drop_ref :: "nat \<Rightarrow> gc_objects \<Rightarrow> gc_ptr \<Rightarrow> gc_state \<Rightarrow> gc_state option" where
  "drop_ref 0 objs p s = None"
| "drop_ref (Suc n) objs p s =
     do {
       x \<leftarrow> snd s p;
       ob \<leftarrow> objs p;
       if ref_count x > 0 then
         let x = x\<lparr>ref_count := ref_count x - 1\<rparr>; s = (fst s, (snd s)(p \<mapsto> x)) in
         if ref_count x > 0 \<or> is_loop_type ob then Some s
         else
           do {
             refs \<leftarrow> free_children (live_objects objs s) p;
             s \<leftarrow> call_each (drop_ref n objs) refs s;
             h \<leftarrow> list_del (fst s) p;
             Some (js_free_rt p (h, snd s))
           }
       else None
     }"

definition no_weak_ref :: "gc_object \<Rightarrow> bool" where
  "no_weak_ref ob \<longleftrightarrow> (case ob of GC_JS_OBJECT p \<Rightarrow> first_weak_ref p = None | _ \<Rightarrow> True)"

definition free_gc_object :: "gc_objects \<Rightarrow> nat \<Rightarrow> gc_ptr \<Rightarrow> gc_state \<Rightarrow> gc_state option" where
  "free_gc_object objs gc_zero_ref_count_list p s =
     do {
       ob \<leftarrow> live_objects objs s p;
       if is_loop_type ob \<and> no_weak_ref ob then
         do {
           refs \<leftarrow> free_children (live_objects objs s) p;
           s \<leftarrow> call_each (drop_ref 3 objs) refs s;
           h \<leftarrow> list_del (fst s) p;
           x \<leftarrow> snd s p;
           if ref_count x \<noteq> 0 then
             do { h \<leftarrow> list_add_tail h p gc_zero_ref_count_list; Some (h, snd s) }
           else Some (js_free_rt p (h, snd s))
         }
       else None
     }"

definition free_cycles_step :: "gc_objects \<Rightarrow> nat \<Rightarrow> gc_ptr \<Rightarrow> gc_state \<Rightarrow> gc_state option" where
  "free_cycles_step objs gc_zero_ref_count_list p s =
     do {
       ob \<leftarrow> live_objects objs s p;
       if is_loop_type ob then free_gc_object objs gc_zero_ref_count_list p s
       else do { h \<leftarrow> move_to_tail (fst s) p gc_zero_ref_count_list; Some (h, snd s) }
     }"

partial_function (option) free_cycles_loop :: "gc_objects \<Rightarrow> nat \<Rightarrow> nat \<Rightarrow> gc_state \<Rightarrow> gc_state option" where
  "free_cycles_loop objs tmp_obj_list gc_zero_ref_count_list s =
     do {
       l \<leftarrow> fst s tmp_obj_list;
       if next l = tmp_obj_list then Some s
       else do {
         s \<leftarrow> free_cycles_step objs gc_zero_ref_count_list (next l) s;
         free_cycles_loop objs tmp_obj_list gc_zero_ref_count_list s
       }
     }"

definition free_zombie :: "gc_objects \<Rightarrow> gc_ptr \<Rightarrow> gc_state \<Rightarrow> gc_state option" where
  "free_zombie objs p s =
     do { ob \<leftarrow> live_objects objs s p; if is_loop_type ob then Some (js_free_rt p s) else None }"

definition gc_free_cycles :: "gc_objects \<Rightarrow> nat \<Rightarrow> nat \<Rightarrow> gc_state \<Rightarrow> gc_state option" where
  "gc_free_cycles objs tmp_obj_list gc_zero_ref_count_list s =
     do {
       s \<leftarrow> free_cycles_loop objs tmp_obj_list gc_zero_ref_count_list s;
       s \<leftarrow> list_for_each_safe (free_zombie objs) gc_zero_ref_count_list s;
       h \<leftarrow> init_list_head (fst s) gc_zero_ref_count_list;
       Some (h, snd s)
     }"

definition JS_RunGC :: "gc_objects \<Rightarrow> nat \<Rightarrow> nat \<Rightarrow> nat \<Rightarrow> gc_state \<Rightarrow> gc_state option" where
  "JS_RunGC objs gc_obj_list tmp_obj_list gc_zero_ref_count_list s =
     do {
       s \<leftarrow> gc_decref objs gc_obj_list tmp_obj_list s;
       s \<leftarrow> gc_scan objs gc_obj_list tmp_obj_list s;
       gc_free_cycles objs tmp_obj_list gc_zero_ref_count_list s
     }"

subsection \<open>Three disjoint lists\<close>

definition rings :: "link_store \<Rightarrow> nat \<Rightarrow> nat list \<Rightarrow> nat \<Rightarrow> nat list \<Rightarrow> nat \<Rightarrow> nat list \<Rightarrow> bool" where
  "rings h a xs b ys c zs \<longleftrightarrow> is_list h a xs \<and> is_list h b ys \<and> is_list h c zs \<and> distinct ((a # xs) @ (b # ys) @ c # zs)"

lemma rings_rotate: "rings h a xs b ys c zs \<Longrightarrow> rings h a xs c zs b ys"
  by (auto simp: rings_def)

lemma list_cong_off:
  assumes "is_list h a xs" "\<And>x. x \<notin> S \<Longrightarrow> h' x = h x" "set (a # xs) \<inter> S = {}"
  shows "is_list h' a xs"
proof (rule is_list_cong [OF assms(1)])
  fix x assume "x \<in> set (a # xs)"
  with assms(3) show "h' x = h x" by (intro assms(2)) blast
qed

lemma rings_del:
  assumes "rings h a xs b (us @ p # vs) c zs"
  shows "\<exists>h'. list_del h p = Some h' \<and> rings h' a xs b (us @ vs) c zs \<and> (\<exists>l. h' p = Some l) \<and>
    p \<notin> set ((a # xs) @ (b # us @ vs) @ c # zs)"
proof -
  have r: "is_list h a xs" "is_list h b (us @ p # vs)" "is_list h c zs" "distinct ((a # xs) @ (b # us @ p # vs) @ c # zs)"
    using assms by (simp_all add: rings_def)
  obtain h' where h': "list_del h p = Some h'" "is_list h' b (us @ vs)" "h' p = Some \<lparr>prev = 0, next = 0\<rparr>"
    "\<And>x. x \<notin> set (p # b # us @ vs) \<Longrightarrow> h' x = h x" using list_del_ok [OF r(2)] by blast
  have "is_list h' a xs" by (rule list_cong_off [OF r(1), of "set (p # b # us @ vs)"]) (rule h'(4), assumption, use r(4) in auto)
  moreover have "is_list h' c zs" by (rule list_cong_off [OF r(3), of "set (p # b # us @ vs)"]) (rule h'(4), assumption, use r(4) in auto)
  ultimately show ?thesis using h' r(4) by (auto simp: rings_def)
qed

lemma rings_add:
  assumes "rings h a xs b ys c zs" "h p = Some l" "p \<notin> set ((a # xs) @ (b # ys) @ c # zs)"
  shows "\<exists>h'. list_add_tail h p c = Some h' \<and> rings h' a xs b ys c (zs @ [p])"
proof -
  have r: "is_list h a xs" "is_list h b ys" "is_list h c zs" "distinct ((a # xs) @ (b # ys) @ c # zs)"
    using assms(1) by (simp_all add: rings_def)
  have "p \<notin> set (c # zs)" using assms(3) by auto
  from list_add_tail_ok [OF r(3) this assms(2)] obtain h' where h': "list_add_tail h p c = Some h'" "is_list h' c (zs @ [p])"
    "\<And>x. x \<notin> set (p # c # zs) \<Longrightarrow> h' x = h x" by blast
  have "is_list h' a xs" by (rule list_cong_off [OF r(1), of "set (p # c # zs)"]) (rule h'(3), assumption, use r(4) assms(3) in auto)
  moreover have "is_list h' b ys" by (rule list_cong_off [OF r(2), of "set (p # c # zs)"]) (rule h'(3), assumption, use r(4) assms(3) in auto)
  ultimately show ?thesis using h' r(4) assms(3) by (auto simp: rings_def)
qed

lemma rings_free:
  assumes "rings h a xs b ys c zs" "p \<notin> set ((a # xs) @ (b # ys) @ c # zs)"
  shows "rings (h(p := None)) a xs b ys c zs"
proof -
  have r: "is_list h a xs" "is_list h b ys" "is_list h c zs" using assms(1) by (simp_all add: rings_def)
  have "is_list (h(p := None)) a xs" by (rule list_cong_off [OF r(1), of "{p}"]) (use assms(2) in auto)
  moreover have "is_list (h(p := None)) b ys" by (rule list_cong_off [OF r(2), of "{p}"]) (use assms(2) in auto)
  moreover have "is_list (h(p := None)) c zs" by (rule list_cong_off [OF r(3), of "{p}"]) (use assms(2) in auto)
  ultimately show ?thesis using assms(1) by (simp add: rings_def)
qed

subsection \<open>The heap after the first two passes\<close>

text \<open>
  \<open>Y\<close> are the objects to keep, \<open>Z\<close> the garbage.  The pointers have the types of the fields they
  are in: the only references from variable references and shapes are to objects that the loop
  handles, those from contexts to these, variable references and shapes.
\<close>

definition rank :: "gc_objects \<Rightarrow> gc_ptr \<Rightarrow> nat" where
  "rank objs p =
     (case objs p of Some (GC_JS_CONTEXT c) \<Rightarrow> 2 | Some (GC_SHAPE s) \<Rightarrow> 1 | Some (GC_VAR_REF v) \<Rightarrow> 1 | _ \<Rightarrow> 0)"

abbreviation loop_obj :: "gc_objects \<Rightarrow> gc_ptr \<Rightarrow> bool" where
  "loop_obj objs p \<equiv> rank objs p = 0"

definition garbage_heap :: "gc_objects \<Rightarrow> gc_ptr set \<Rightarrow> gc_ptr set \<Rightarrow> (gc_ptr \<Rightarrow> gc_ptr list) \<Rightarrow> (gc_ptr \<Rightarrow> int) \<Rightarrow> bool" where
  "garbage_heap objs Y Z E base \<longleftrightarrow>
     finite Z \<and> Y \<inter> Z = {} \<and>
     (\<forall>p\<in>Y. base p > 0) \<and> (\<forall>p\<in>Z. base p = 0 \<and> in_edges E Z p > 0) \<and>
     (\<forall>p\<in>Y \<union> Z. \<exists>ob. objs p = Some ob) \<and>
     (\<forall>p\<in>Z. object_wf objs p \<and> mark_children objs p = Some (E p) \<and> set (E p) \<subseteq> Y \<union> Z \<and>
        no_weak_ref (the (objs p)) \<and>
        (rank objs p > 0 \<longrightarrow> (\<forall>c\<in>set (E p). rank objs c < rank objs p)))"

lemma rank_loop_type: "objs p = Some ob \<Longrightarrow> is_loop_type ob \<longleftrightarrow> loop_obj objs p"
  by (cases ob) (simp_all add: rank_def)

lemma rank_le: "rank objs p \<le> 2"
  by (auto simp: rank_def split: option.splits gc_object.splits)

lemma garbage_refs:
  assumes "garbage_heap objs Y Z E base" "p \<in> Z"
  shows "\<exists>fs. free_children objs p = Some fs \<and> mset fs = mset (E p)"
  using assms mark_free_children [of objs p] by (auto simp: garbage_heap_def)

lemma class_mark_live:
  assumes "class_finalizer objs u = Some cs" "\<And>b. b \<in> set cs \<Longrightarrow> objs' b = objs b"
  shows "class_finalizer objs' u = Some cs"
proof (cases u)
  case (C_bytecode_function h b refs)
  then have f: "js_bytecode_function_finalizer objs h b refs = Some cs" using assms(1) by (simp add: class_finalizer_def)
  have "js_bytecode_function_finalizer objs' h b refs = Some cs"
  proof (cases b)
    case (Some p)
    have "p \<in> set cs"
      using f Some by (auto simp: js_bytecode_function_finalizer_def Let_def split: option.splits gc_object.splits if_splits)
    with assms(2) have "objs' p = objs p" by blast
    then show ?thesis using f unfolding Some js_bytecode_function_finalizer_def option.case by metis
  qed (use f in \<open>simp add: js_bytecode_function_finalizer_def\<close>)
  then show ?thesis using C_bytecode_function by (simp add: class_finalizer_def)
qed (use assms(1) in \<open>simp_all add: class_finalizer_def\<close>)

text \<open>Freeing reads no object but those it has a reference to.\<close>

lemma free_children_live:
  assumes "free_children objs p = Some fs" "objs' p = objs p" "\<And>c. c \<in> set fs \<Longrightarrow> objs' c = objs c"
  shows "free_children objs' p = Some fs"
proof (cases "objs p")
  case (Some ob)
  show ?thesis
  proof (cases ob)
    case (GC_JS_OBJECT q)
    then have r: "free_object_refs objs q = Some fs" using assms(1) Some by (simp add: free_children_def)
    then obtain sh props cls where x: "objs (obj_shape q) = Some (GC_SHAPE sh)" "free_properties (shape_prop sh) (obj_prop q) = Some props"
      "class_finalizer objs (obj_class q) = Some cls" "fs = props @ obj_shape q # cls"
      by (auto simp: free_object_refs_def bind_eq_Some_conv split: option.splits gc_object.splits)
    have "class_finalizer objs' (obj_class q) = Some cls" by (rule class_mark_live [OF x(3)]) (use assms(3) x(4) in auto)
    moreover have "objs' (obj_shape q) = objs (obj_shape q)" using assms(3) x(4) by auto
    ultimately show ?thesis using x assms(2) Some GC_JS_OBJECT by (simp add: free_children_def free_object_refs_def)
  qed (use assms(1,2) Some in \<open>simp_all add: free_children_def\<close>)
qed (use assms in \<open>simp add: free_children_def\<close>)

subsection \<open>The invariant of the third pass\<close>

text \<open>
  \<open>Rel\<close> are the garbage objects whose references have been given up, or are being given up: the
  references \<open>pend\<close> have still to be dropped.  \<open>W\<close> are those that are being freed.  The load of an
  object is the number of the references to it that are left from the garbage.
\<close>

definition load :: "(gc_ptr \<Rightarrow> gc_ptr list) \<Rightarrow> gc_ptr set \<Rightarrow> gc_ptr set \<Rightarrow> gc_ptr list \<Rightarrow> gc_ptr \<Rightarrow> nat" where
  "load E Z Rel pend p = in_edges E (Z - Rel) p + count_list pend p"

definition fc_sets :: "gc_objects \<Rightarrow> gc_ptr set \<Rightarrow> gc_ptr set \<Rightarrow> gc_ptr set \<Rightarrow> gc_ptr set \<Rightarrow> gc_ptr list \<Rightarrow> gc_ptr list \<Rightarrow> gc_headers \<Rightarrow> bool" where
  "fc_sets objs Y Z Rel W ts zs hs \<longleftrightarrow>
     set ts \<union> set zs = {p \<in> Z. hs p \<noteq> None} \<and> W \<subseteq> Rel \<and> Rel \<subseteq> Z \<and> (\<forall>p\<in>W \<union> Y. hs p \<noteq> None) \<and>
     (\<forall>p\<in>Z. hs p = None \<longrightarrow> p \<in> Rel) \<and>
     (\<forall>p\<in>Z. loop_obj objs p \<longrightarrow> (p \<in> set ts \<longleftrightarrow> p \<notin> Rel \<or> p \<in> W)) \<and>
     (\<forall>p\<in>Rel. \<not> loop_obj objs p \<longrightarrow> hs p = None \<or> p \<in> W)"

definition fc_counts ::
  "gc_objects \<Rightarrow> (gc_ptr \<Rightarrow> int) \<Rightarrow> gc_ptr set \<Rightarrow> gc_ptr set \<Rightarrow> gc_ptr set \<Rightarrow> gc_ptr set \<Rightarrow> gc_ptr set \<Rightarrow> (gc_ptr \<Rightarrow> nat) \<Rightarrow> gc_headers \<Rightarrow> bool" where
  "fc_counts objs base Y Z Rel W X ld hs \<longleftrightarrow>
     (\<forall>p\<in>Y \<union> Z. \<forall>x. hs p = Some x \<longrightarrow> ref_count x = base p + int (ld p)) \<and>
     (\<forall>p\<in>Z - Rel - X. \<not> loop_obj objs p \<longrightarrow> 0 < ld p) \<and>
     (\<forall>p\<in>Z. hs p = None \<or> p \<in> W \<and> \<not> loop_obj objs p \<longrightarrow> ld p = 0) \<and>
     (\<forall>p\<in>Y. \<forall>x. hs p = Some x \<longrightarrow> gc_mark x = 0)"

definition fc_inv where
  "fc_inv objs E base Y Z gcl tmp zl ys Rel W X pend ts zs s \<longleftrightarrow>
     rings (fst s) gcl ys tmp ts zl zs \<and> set pend \<subseteq> Y \<union> Z \<and>
     fc_sets objs Y Z Rel W ts zs (snd s) \<and>
     fc_counts objs base Y Z Rel W X (load E Z Rel pend) (snd s)"

lemma load_Cons: "load E Z Rel (p # pend) q = load E Z Rel pend q + (if q = p then 1 else 0)"
  by (simp add: load_def)

lemma load_enter:
  assumes "finite Z" "p \<in> Z" "p \<notin> Rel" "mset fs = mset (E p)"
  shows "load E Z (insert p Rel) (fs @ pend) = load E Z Rel pend"
proof
  fix q
  have eq: "Z - Rel = insert p (Z - insert p Rel)" using assms(2,3) by blast
  have "in_edges E (insert p (Z - insert p Rel)) q = count_list (E p) q + in_edges E (Z - insert p Rel) q"
    by (rule in_edges_insert) (use assms(1) in simp_all)
  then have "in_edges E (Z - Rel) q = count_list (E p) q + in_edges E (Z - insert p Rel) q" by (simp only: eq [symmetric])
  moreover have "count_list fs q = count_list (E p) q" by (metis assms(4) count_mset)
  ultimately show "load E Z (insert p Rel) (fs @ pend) q = load E Z Rel pend q" by (simp add: load_def)
qed

lemma load_child: "finite Z \<Longrightarrow> p \<in> Z \<Longrightarrow> p \<notin> Rel \<Longrightarrow> c \<in> set (E p) \<Longrightarrow> 0 < load E Z Rel pend c"
proof -
  assume a: "finite Z" "p \<in> Z" "p \<notin> Rel" "c \<in> set (E p)"
  then have "count_list (E p) c \<le> in_edges E (Z - Rel) c"
    unfolding in_edges_def by (intro member_le_sum [of p "Z - Rel" "\<lambda>q. count_list (E q) c"]) auto
  moreover have "count_list (E p) c \<noteq> 0" using a(4) by (simp add: count_list_0_iff)
  ultimately show ?thesis by (simp add: load_def)
qed

lemma fc_setsD:
  assumes "fc_sets objs Y Z Rel W ts zs hs"
  shows "set ts \<union> set zs = {p \<in> Z. hs p \<noteq> None}" "W \<subseteq> Rel" "Rel \<subseteq> Z"
    "\<And>p. p \<in> W \<Longrightarrow> hs p \<noteq> None" "\<And>p. p \<in> Y \<Longrightarrow> hs p \<noteq> None" "\<And>p. p \<in> Z \<Longrightarrow> hs p = None \<Longrightarrow> p \<in> Rel"
    "\<And>p. p \<in> Z \<Longrightarrow> loop_obj objs p \<Longrightarrow> p \<in> set ts \<longleftrightarrow> p \<notin> Rel \<or> p \<in> W"
    "\<And>p. p \<in> Rel \<Longrightarrow> \<not> loop_obj objs p \<Longrightarrow> hs p = None \<or> p \<in> W"
  using assms unfolding fc_sets_def by blast+

lemma fc_setsI:
  assumes "set ts \<union> set zs = {p \<in> Z. hs p \<noteq> None}" "W \<subseteq> Rel" "Rel \<subseteq> Z"
    "\<And>p. p \<in> W \<Longrightarrow> hs p \<noteq> None" "\<And>p. p \<in> Y \<Longrightarrow> hs p \<noteq> None" "\<And>p. p \<in> Z \<Longrightarrow> hs p = None \<Longrightarrow> p \<in> Rel"
    "\<And>p. p \<in> Z \<Longrightarrow> loop_obj objs p \<Longrightarrow> p \<in> set ts \<longleftrightarrow> p \<notin> Rel \<or> p \<in> W"
    "\<And>p. p \<in> Rel \<Longrightarrow> \<not> loop_obj objs p \<Longrightarrow> hs p = None \<or> p \<in> W"
  shows "fc_sets objs Y Z Rel W ts zs hs"
  using assms unfolding fc_sets_def by blast

lemma fc_countsD:
  assumes "fc_counts objs base Y Z Rel W X ld hs"
  shows "\<And>p x. p \<in> Y \<union> Z \<Longrightarrow> hs p = Some x \<Longrightarrow> ref_count x = base p + int (ld p)"
    "\<And>p. p \<in> Z \<Longrightarrow> p \<notin> Rel \<Longrightarrow> p \<notin> X \<Longrightarrow> \<not> loop_obj objs p \<Longrightarrow> 0 < ld p"
    "\<And>p. p \<in> Z \<Longrightarrow> hs p = None \<Longrightarrow> ld p = 0"
    "\<And>p. p \<in> Z \<Longrightarrow> p \<in> W \<Longrightarrow> \<not> loop_obj objs p \<Longrightarrow> ld p = 0"
    "\<And>p x. p \<in> Y \<Longrightarrow> hs p = Some x \<Longrightarrow> gc_mark x = 0"
  using assms unfolding fc_counts_def by blast+

lemma fc_countsI:
  assumes "\<And>p x. p \<in> Y \<union> Z \<Longrightarrow> hs p = Some x \<Longrightarrow> ref_count x = base p + int (ld p)"
    "\<And>p. p \<in> Z \<Longrightarrow> p \<notin> Rel \<Longrightarrow> p \<notin> X \<Longrightarrow> \<not> loop_obj objs p \<Longrightarrow> 0 < ld p"
    "\<And>p. p \<in> Z \<Longrightarrow> hs p = None \<Longrightarrow> ld p = 0"
    "\<And>p. p \<in> Z \<Longrightarrow> p \<in> W \<Longrightarrow> \<not> loop_obj objs p \<Longrightarrow> ld p = 0"
    "\<And>p x. p \<in> Y \<Longrightarrow> hs p = Some x \<Longrightarrow> gc_mark x = 0"
  shows "fc_counts objs base Y Z Rel W X ld hs"
  using assms unfolding fc_counts_def by blast

lemma fc_invD:
  assumes "fc_inv objs E base Y Z gcl tmp zl ys Rel W X pend ts zs s"
  shows "rings (fst s) gcl ys tmp ts zl zs" "set pend \<subseteq> Y \<union> Z" "fc_sets objs Y Z Rel W ts zs (snd s)"
    "fc_counts objs base Y Z Rel W X (load E Z Rel pend) (snd s)"
  using assms by (simp_all add: fc_inv_def)

lemma fc_alive:
  assumes "fc_inv objs E base Y Z gcl tmp zl ys Rel W X pend ts zs s" "p \<in> Y \<union> Z" "0 < load E Z Rel pend p"
  shows "\<exists>x. snd s p = Some x \<and> ref_count x = base p + int (load E Z Rel pend p)"
proof (cases "snd s p")
  case None
  then show ?thesis
    using assms(2,3) fc_setsD(5) [OF fc_invD(3) [OF assms(1)], of p] fc_countsD(3) [OF fc_invD(4) [OF assms(1)], of p]
    by auto
next
  case (Some x)
  then show ?thesis using fc_countsD(1) [OF fc_invD(4) [OF assms(1)] assms(2)] by simp
qed

text \<open>The references of \<open>p\<close> become pending.\<close>

lemma fc_enter:
  assumes "fc_inv objs E base Y Z gcl tmp zl ys Rel W {p} pend ts zs s" "garbage_heap objs Y Z E base"
    "p \<in> Z" "p \<notin> Rel" "loop_obj objs p \<or> load E Z Rel pend p = 0"
  shows "\<exists>fs. free_children (live_objects objs s) p = Some fs \<and> mset fs = mset (E p) \<and>
    fc_inv objs E base Y Z gcl tmp zl ys (insert p Rel) (insert p W) {} (fs @ pend) ts zs s"
proof -
  have fin: "finite Z" using assms(2) by (simp add: garbage_heap_def)
  obtain fs where fs: "free_children objs p = Some fs" "mset fs = mset (E p)"
    using garbage_refs [OF assms(2,3)] by blast
  have sub: "set fs \<subseteq> Y \<union> Z" using assms(2,3) mset_eq_setD [OF fs(2)] by (auto simp: garbage_heap_def)
  have alive: "snd s c \<noteq> None" if "c \<in> set fs" for c
    using fc_alive [OF assms(1), of c] load_child [OF fin assms(3,4), of c E pend] that sub mset_eq_setD [OF fs(2)] by auto
  note st = fc_invD(3) [OF assms(1)] and ct = fc_invD(4) [OF assms(1)]
  have palive: "snd s p \<noteq> None" using fc_setsD(6) [OF st assms(3)] assms(4) by blast
  have live: "live_objects objs s c = objs c" if "snd s c \<noteq> None" for c using that by (simp add: live_objects_def del: not_None_eq)
  have "free_children (live_objects objs s) p = Some fs"
    by (rule free_children_live [OF fs(1)]) (use palive alive live in blast)+
  moreover have "fc_inv objs E base Y Z gcl tmp zl ys (insert p Rel) (insert p W) {} (fs @ pend) ts zs s"
    unfolding fc_inv_def load_enter [where E = E, OF fin assms(3,4) fs(2)]
  proof (intro conjI fc_setsI fc_countsI)
    show "rings (fst s) gcl ys tmp ts zl zs" by (rule fc_invD(1) [OF assms(1)])
    show "set (fs @ pend) \<subseteq> Y \<union> Z" using sub fc_invD(2) [OF assms(1)] by auto
    show "set ts \<union> set zs = {p \<in> Z. snd s p \<noteq> None}" by (rule fc_setsD(1) [OF st])
    show "insert p W \<subseteq> insert p Rel" "insert p Rel \<subseteq> Z" using fc_setsD(2,3) [OF st] assms(3) by auto
    show "snd s q \<noteq> None" if "q \<in> insert p W" for q using that fc_setsD(4) [OF st] palive by blast
    show "snd s q \<noteq> None" if "q \<in> Y" for q using fc_setsD(5) [OF st that] .
    show "q \<in> insert p Rel" if "q \<in> Z" "snd s q = None" for q using fc_setsD(6) [OF st that] by blast
    show "q \<in> set ts \<longleftrightarrow> q \<notin> insert p Rel \<or> q \<in> insert p W" if "q \<in> Z" "loop_obj objs q" for q
      using fc_setsD(7) [OF st that] assms(4) by blast
    show "snd s q = None \<or> q \<in> insert p W" if "q \<in> insert p Rel" "\<not> loop_obj objs q" for q
      using fc_setsD(8) [OF st, of q] that by blast
    show "ref_count x = base q + int (load E Z Rel pend q)" if "q \<in> Y \<union> Z" "snd s q = Some x" for q x
      using fc_countsD(1) [OF ct that] .
    show "0 < load E Z Rel pend q" if "q \<in> Z" "q \<notin> insert p Rel" "q \<notin> {}" "\<not> loop_obj objs q" for q
      using fc_countsD(2) [OF ct that(1)] that by blast
    show "load E Z Rel pend q = 0" if "q \<in> Z" "snd s q = None" for q using fc_countsD(3) [OF ct that] .
    show "load E Z Rel pend q = 0" if "q \<in> Z" "q \<in> insert p W" "\<not> loop_obj objs q" for q
      using fc_countsD(4) [OF ct that(1)] that assms(5) by (cases "q = p") auto
    show "gc_mark x = 0" if "q \<in> Y" "snd s q = Some x" for q x by (rule fc_countsD(5) [OF ct that])
  qed
  ultimately show ?thesis using fs(2) by blast
qed

text \<open>An object without references is taken out of its list and freed.\<close>

lemma rings_remove:
  assumes "rings h a xs b ys c zs" "p \<in> set ys \<union> set zs"
  shows "\<exists>h' ys' zs'. list_del h p = Some h' \<and> rings h' a xs b ys' c zs' \<and> (\<exists>l. h' p = Some l) \<and>
    p \<notin> set ((a # xs) @ (b # ys') @ c # zs') \<and> set ys' = set ys - {p} \<and> set zs' = set zs - {p} \<and>
    length ys' \<le> length ys \<and> (p \<in> set ys \<longrightarrow> length ys' < length ys)"
proof (cases "p \<in> set ys")
  case True
  then obtain us vs where ys: "ys = us @ p # vs" by (meson split_list)
  have "distinct ys" "p \<notin> set zs" using assms(1) True by (auto simp: rings_def)
  then have "set (us @ vs) = set ys - {p}" "set zs = set zs - {p}" using ys by auto
  with rings_del [OF assms(1) [unfolded ys]] ys show ?thesis by fastforce
next
  case False
  then obtain us vs where zs: "zs = us @ p # vs" using assms(2) by (auto dest: split_list)
  have "distinct zs" "p \<notin> set ys" using assms(1) False by (auto simp: rings_def)
  then have s: "set (us @ vs) = set zs - {p}" "set ys = set ys - {p}" using zs by auto
  from rings_del [OF rings_rotate [OF assms(1) [unfolded zs]]] obtain h' where
    h': "list_del h p = Some h'" "rings h' a xs c (us @ vs) b ys" "\<exists>l. h' p = Some l"
    "p \<notin> set ((a # xs) @ (c # us @ vs) @ b # ys)" by blast
  from h'(4) have "p \<notin> set ((a # xs) @ (b # ys) @ c # us @ vs)" by auto
  with h'(1,3) rings_rotate [OF h'(2)] s False show ?thesis by blast
qed

lemma fc_free:
  assumes "fc_inv objs E base Y Z gcl tmp zl ys Rel (insert p W) {} pend ts zs s" "p \<notin> W" "load E Z Rel pend p = 0" "Y \<inter> Z = {}"
  shows "\<exists>h ts' zs'. list_del (fst s) p = Some h \<and> length ts' \<le> length ts \<and> (p \<in> set ts \<longrightarrow> length ts' < length ts) \<and>
    fc_inv objs E base Y Z gcl tmp zl ys Rel W {} pend ts' zs' (js_free_rt p (h, snd s))"
proof -
  note st = fc_invD(3) [OF assms(1)] and ct = fc_invD(4) [OF assms(1)]
  have p: "p \<in> Rel" "p \<in> Z" "p \<notin> Y" using fc_setsD(2,3) [OF st] assms(4) by auto
  have "p \<in> set ts \<union> set zs" unfolding fc_setsD(1) [OF st] using p(2) fc_setsD(4) [OF st] by blast
  from rings_remove [OF fc_invD(1) [OF assms(1)] this] obtain h ts' zs' where
    h: "list_del (fst s) p = Some h" "rings h gcl ys tmp ts' zl zs'" "p \<notin> set ((gcl # ys) @ (tmp # ts') @ zl # zs')"
    "set ts' = set ts - {p}" "set zs' = set zs - {p}" "length ts' \<le> length ts" "p \<in> set ts \<longrightarrow> length ts' < length ts" by blast
  let ?hs = "(snd s)(p := None)"
  have hs: "?hs q = (if q = p then None else snd s q)" for q by simp
  have "fc_inv objs E base Y Z gcl tmp zl ys Rel W {} pend ts' zs' (js_free_rt p (h, snd s))"
    unfolding fc_inv_def js_free_rt_def fst_conv snd_conv
  proof (intro conjI fc_setsI fc_countsI)
    show "rings (h(p := None)) gcl ys tmp ts' zl zs'" by (rule rings_free [OF h(2,3)])
    show "set pend \<subseteq> Y \<union> Z" by (rule fc_invD(2) [OF assms(1)])
    show "set ts' \<union> set zs' = {q \<in> Z. ?hs q \<noteq> None}" unfolding h(4,5) hs using fc_setsD(1) [OF st] by auto
    show "W \<subseteq> Rel" "Rel \<subseteq> Z" using fc_setsD(2,3) [OF st] by auto
    show "?hs q \<noteq> None" if "q \<in> W" for q unfolding hs using that assms(2) fc_setsD(4) [OF st, of q] by auto
    show "?hs q \<noteq> None" if "q \<in> Y" for q unfolding hs using that p(3) fc_setsD(5) [OF st, of q] by auto
    show "q \<in> Rel" if "q \<in> Z" "?hs q = None" for q using that p(1) fc_setsD(6) [OF st, of q] by (auto split: if_splits)
    show "q \<in> set ts' \<longleftrightarrow> q \<notin> Rel \<or> q \<in> W" if "q \<in> Z" "loop_obj objs q" for q
      unfolding h(4) using fc_setsD(7) [OF st that] p(1) assms(2) by blast
    show "?hs q = None \<or> q \<in> W" if "q \<in> Rel" "\<not> loop_obj objs q" for q
      unfolding hs using fc_setsD(8) [OF st that] by auto
    show "ref_count x = base q + int (load E Z Rel pend q)" if "q \<in> Y \<union> Z" "?hs q = Some x" for q x
      using fc_countsD(1) [OF ct that(1)] that(2) by (auto split: if_splits)
    show "0 < load E Z Rel pend q" if "q \<in> Z" "q \<notin> Rel" "q \<notin> {}" "\<not> loop_obj objs q" for q
      using fc_countsD(2) [OF ct that] .
    show "load E Z Rel pend q = 0" if "q \<in> Z" "?hs q = None" for q
      using fc_countsD(3) [OF ct that(1)] that(2) assms(3) by (auto split: if_splits)
    show "load E Z Rel pend q = 0" if "q \<in> Z" "q \<in> W" "\<not> loop_obj objs q" for q
      using fc_countsD(4) [OF ct that(1)] that by blast
    show "gc_mark x = 0" if "q \<in> Y" "?hs q = Some x" for q x
      using fc_countsD(5) [OF ct that(1)] that(2) by (auto split: if_splits)
  qed
  with h(1,6,7) show ?thesis by blast
qed

text \<open>One reference is dropped.\<close>

lemma fc_decrement:
  assumes "fc_inv objs E base Y Z gcl tmp zl ys Rel W {} (p # pend) ts zs s" "snd s p = Some x"
  shows "fc_inv objs E base Y Z gcl tmp zl ys Rel W {p} pend ts zs (fst s, (snd s)(p \<mapsto> x\<lparr>ref_count := ref_count x - 1\<rparr>))"
    (is "fc_inv _ _ _ _ _ _ _ _ _ _ _ _ _ _ _ (_, ?hs)")
proof -
  note st = fc_invD(3) [OF assms(1)] and ct = fc_invD(4) [OF assms(1)]
  have hs: "?hs q = None \<longleftrightarrow> snd s q = None" for q using assms(2) by simp
  have ld: "load E Z Rel (p # pend) q = load E Z Rel pend q + (if q = p then 1 else 0)" for q by (rule load_Cons)
  show ?thesis
    unfolding fc_inv_def fst_conv snd_conv
  proof (intro conjI fc_setsI fc_countsI)
    show "rings (fst s) gcl ys tmp ts zl zs" by (rule fc_invD(1) [OF assms(1)])
    show "set pend \<subseteq> Y \<union> Z" using fc_invD(2) [OF assms(1)] by auto
    show "set ts \<union> set zs = {q \<in> Z. ?hs q \<noteq> None}" unfolding hs by (rule fc_setsD(1) [OF st])
    show "W \<subseteq> Rel" "Rel \<subseteq> Z" using fc_setsD(2,3) [OF st] by auto
    show "?hs q \<noteq> None" if "q \<in> W" for q unfolding hs by (rule fc_setsD(4) [OF st that])
    show "?hs q \<noteq> None" if "q \<in> Y" for q unfolding hs by (rule fc_setsD(5) [OF st that])
    show "q \<in> Rel" if "q \<in> Z" "?hs q = None" for q using that(2) unfolding hs by (rule fc_setsD(6) [OF st that(1)])
    show "q \<in> set ts \<longleftrightarrow> q \<notin> Rel \<or> q \<in> W" if "q \<in> Z" "loop_obj objs q" for q by (rule fc_setsD(7) [OF st that])
    show "?hs q = None \<or> q \<in> W" if "q \<in> Rel" "\<not> loop_obj objs q" for q unfolding hs by (rule fc_setsD(8) [OF st that])
    show "ref_count y = base q + int (load E Z Rel pend q)" if "q \<in> Y \<union> Z" "?hs q = Some y" for q y
      using fc_countsD(1) [OF ct that(1)] that(2) assms(2) ld [of q] by (auto split: if_splits)
    show "0 < load E Z Rel pend q" if "q \<in> Z" "q \<notin> Rel" "q \<notin> {p}" "\<not> loop_obj objs q" for q
      using fc_countsD(2) [OF ct that(1,2) _ that(4)] ld [of q] that(3) by auto
    show "load E Z Rel pend q = 0" if "q \<in> Z" "?hs q = None" for q
      using fc_countsD(3) [OF ct that(1)] that(2) ld [of q] unfolding hs by auto
    show "load E Z Rel pend q = 0" if "q \<in> Z" "q \<in> W" "\<not> loop_obj objs q" for q
      using fc_countsD(4) [OF ct that] ld [of q] by auto
    show "gc_mark y = 0" if "q \<in> Y" "?hs q = Some y" for q y
      using fc_countsD(5) [OF ct that(1)] that(2) assms(2) by (auto split: if_splits)
  qed
qed

lemma fc_positive:
  assumes "fc_inv objs E base Y Z gcl tmp zl ys Rel W {p} pend ts zs s" "loop_obj objs p \<or> p \<in> Rel \<or> p \<notin> Z \<or> 0 < load E Z Rel pend p"
  shows "fc_inv objs E base Y Z gcl tmp zl ys Rel W {} pend ts zs s"
proof -
  note ct = fc_invD(4) [OF assms(1)]
  have "fc_counts objs base Y Z Rel W {} (load E Z Rel pend) (snd s)"
  proof (rule fc_countsI)
    show "0 < load E Z Rel pend q" if "q \<in> Z" "q \<notin> Rel" "q \<notin> {}" "\<not> loop_obj objs q" for q
      using fc_countsD(2) [OF ct that(1,2) _ that(4)] assms(2) that by (cases "q = p") auto
  qed (use fc_countsD(1,3,4,5) [OF ct] in blast)+
  with fc_invD(1-3) [OF assms(1)] show ?thesis by (simp add: fc_inv_def)
qed

lemma drop_refs_ok:
  assumes each: "\<And>p pend Rel W ts zs s. fc_inv objs E base Y Z gcl tmp zl ys Rel W {} (p # pend) ts zs s \<Longrightarrow> rank objs p < n \<Longrightarrow>
      \<exists>s' Rel' ts' zs'. drop_ref n objs p s = Some s' \<and> Rel \<subseteq> Rel' \<and> length ts' \<le> length ts \<and>
        fc_inv objs E base Y Z gcl tmp zl ys Rel' W {} pend ts' zs' s'"
    and "fc_inv objs E base Y Z gcl tmp zl ys Rel W {} (cs @ pend) ts zs s" "\<forall>c\<in>set cs. rank objs c < n"
  shows "\<exists>s' Rel' ts' zs'. call_each (drop_ref n objs) cs s = Some s' \<and> Rel \<subseteq> Rel' \<and> length ts' \<le> length ts \<and>
    fc_inv objs E base Y Z gcl tmp zl ys Rel' W {} pend ts' zs' s'"
  using assms(2,3)
proof (induction cs arbitrary: Rel ts zs s)
  case (Cons c cs)
  from each [of Rel W c "cs @ pend" ts zs s] Cons.prems obtain s1 Rel1 ts1 zs1 where
    s1: "drop_ref n objs c s = Some s1" "Rel \<subseteq> Rel1" "length ts1 \<le> length ts"
    "fc_inv objs E base Y Z gcl tmp zl ys Rel1 W {} (cs @ pend) ts1 zs1 s1" by auto
  from Cons.IH [OF s1(4)] Cons.prems(2) obtain s2 Rel2 ts2 zs2 where
    s2: "call_each (drop_ref n objs) cs s1 = Some s2" "Rel1 \<subseteq> Rel2" "length ts2 \<le> length ts1"
    "fc_inv objs E base Y Z gcl tmp zl ys Rel2 W {} pend ts2 zs2 s2" by auto
  have "call_each (drop_ref n objs) (c # cs) s = Some s2" using s1(1) s2(1) by simp
  moreover have "Rel \<subseteq> Rel2" "length ts2 \<le> length ts" using s1 s2 by auto
  ultimately show ?case using s2(4) by blast
qed auto

lemma drop_ref_ok:
  assumes "garbage_heap objs Y Z E base" "fc_inv objs E base Y Z gcl tmp zl ys Rel W {} (p # pend) ts zs s" "rank objs p < n"
  shows "\<exists>s' Rel' ts' zs'. drop_ref n objs p s = Some s' \<and> Rel \<subseteq> Rel' \<and> length ts' \<le> length ts \<and>
    fc_inv objs E base Y Z gcl tmp zl ys Rel' W {} pend ts' zs' s'"
  using assms(2,3)
proof (induction n arbitrary: p pend Rel W ts zs s)
  case (Suc n)
  have disj: "Y \<inter> Z = {}" "finite Z" using assms(1) by (auto simp: garbage_heap_def)
  have p: "p \<in> Y \<union> Z" using fc_invD(2) [OF Suc.prems(1)] by simp
  obtain ob where ob: "objs p = Some ob" using assms(1) p unfolding garbage_heap_def by blast
  have base: "0 \<le> base p" "p \<in> Y \<Longrightarrow> 0 < base p" "p \<in> Z \<Longrightarrow> base p = 0" using assms(1) p by (auto simp: garbage_heap_def less_imp_le)
  have pos: "0 < load E Z Rel (p # pend) p" by (simp add: load_Cons)
  from fc_alive [OF Suc.prems(1) p pos] obtain x where
    x: "snd s p = Some x" "ref_count x = base p + int (load E Z Rel (p # pend) p)" by blast
  define s1 where "s1 = (fst s, (snd s)(p \<mapsto> x\<lparr>ref_count := ref_count x - 1\<rparr>))"
  have inv1: "fc_inv objs E base Y Z gcl tmp zl ys Rel W {p} pend ts zs s1" unfolding s1_def by (rule fc_decrement [OF Suc.prems(1) x(1)])
  have rc: "ref_count x - 1 = base p + int (load E Z Rel pend p)" using x(2) by (simp add: load_Cons)
  show ?case
  proof (cases "ref_count x - 1 > 0 \<or> loop_obj objs p")
    case True
    have "drop_ref (Suc n) objs p s = Some s1"
      using x ob True rank_loop_type [of objs p ob, OF ob] pos base(1) by (auto simp: s1_def Let_def)
    moreover have "loop_obj objs p \<or> p \<in> Rel \<or> p \<notin> Z \<or> 0 < load E Z Rel pend p" using True rc base(3) by auto
    then have "fc_inv objs E base Y Z gcl tmp zl ys Rel W {} pend ts zs s1" by (rule fc_positive [OF inv1])
    ultimately show ?thesis by blast
  next
    case False
    then have z: "load E Z Rel pend p = 0" "base p = 0" "ref_count x = 1" using rc base(1) x(2) pos by auto
    then have pZ: "p \<in> Z" using base(2) p by auto
    have pW: "p \<notin> W" using fc_countsD(4) [OF fc_invD(4) [OF Suc.prems(1)] pZ] False pos by auto
    have pR: "p \<notin> Rel" using fc_setsD(8) [OF fc_invD(3) [OF Suc.prems(1)], of p] False pW x(1) by auto
    from fc_enter [OF inv1 assms(1) pZ pR] z(1) obtain fs where
      fs: "free_children (live_objects objs s1) p = Some fs" "mset fs = mset (E p)"
      "fc_inv objs E base Y Z gcl tmp zl ys (insert p Rel) (insert p W) {} (fs @ pend) ts zs s1" by blast
    have ranks: "\<forall>c\<in>set fs. rank objs c < n"
      using assms(1) pZ False Suc.prems(2) mset_eq_setD [OF fs(2)] by (fastforce simp: garbage_heap_def)
    have "\<exists>s' Rel' ts' zs'. call_each (drop_ref n objs) fs s1 = Some s' \<and> insert p Rel \<subseteq> Rel' \<and> length ts' \<le> length ts \<and>
      fc_inv objs E base Y Z gcl tmp zl ys Rel' (insert p W) {} pend ts' zs' s'"
      by (rule drop_refs_ok [OF _ fs(3) ranks]) (rule Suc.IH)
    then obtain s2 Rel2 ts2 zs2 where
      s2: "call_each (drop_ref n objs) fs s1 = Some s2" "insert p Rel \<subseteq> Rel2" "length ts2 \<le> length ts"
      "fc_inv objs E base Y Z gcl tmp zl ys Rel2 (insert p W) {} pend ts2 zs2 s2" by blast
    have "load E Z Rel2 pend p = 0" using fc_countsD(4) [OF fc_invD(4) [OF s2(4)] pZ] False by auto
    from fc_free [OF s2(4) pW this disj(1)] obtain h ts3 zs3 where h: "list_del (fst s2) p = Some h" "length ts3 \<le> length ts2"
      "fc_inv objs E base Y Z gcl tmp zl ys Rel2 W {} pend ts3 zs3 (js_free_rt p (h, snd s2))" by blast
    have "drop_ref (Suc n) objs p s = Some (js_free_rt p (h, snd s2))"
      using x(1) ob z(3) False rank_loop_type [of objs p ob, OF ob] fs(1) s2(1) h(1) by (simp add: s1_def Let_def)
    then show ?thesis using h s2 by (meson insert_subset order_trans)
  qed
qed simp

subsection \<open>The loop\<close>

lemma fc_weaken:
  assumes "fc_inv objs E base Y Z gcl tmp zl ys Rel W {} pend ts zs s"
  shows "fc_inv objs E base Y Z gcl tmp zl ys Rel W X pend ts zs s"
proof -
  note ct = fc_invD(4) [OF assms]
  have "fc_counts objs base Y Z Rel W X (load E Z Rel pend) (snd s)"
    by (rule fc_countsI) (use fc_countsD [OF ct] in blast)+
  with fc_invD(1-3) [OF assms] show ?thesis by (simp add: fc_inv_def)
qed

lemma rings_move:
  assumes "rings h a xs b ys c zs" "p \<in> set ys"
  shows "\<exists>h1 h' ys'. list_del h p = Some h1 \<and> list_add_tail h1 p c = Some h' \<and> rings h' a xs b ys' c (zs @ [p]) \<and>
    set ys' = set ys - {p} \<and> length ys' < length ys"
proof -
  obtain us vs where ys: "ys = us @ p # vs" using assms(2) by (meson split_list)
  have "distinct ys" using assms(1) by (simp add: rings_def)
  then have s: "set (us @ vs) = set ys - {p}" "length (us @ vs) < length ys" using ys by auto
  from rings_del [OF assms(1) [unfolded ys]] obtain h1 l where
    h1: "list_del h p = Some h1" "rings h1 a xs b (us @ vs) c zs" "h1 p = Some l" "p \<notin> set ((a # xs) @ (b # us @ vs) @ c # zs)"
    by blast
  from rings_add [OF h1(2-4)] h1(1) s show ?thesis by blast
qed

text \<open>Moving an object to the list of the zombies: one that has just been freed, or one that the loop does not free.\<close>

lemma fc_move:
  assumes "fc_inv objs E base Y Z gcl tmp zl ys Rel W' {} pend ts zs s" "p \<in> set ts"
    "W' = insert p W \<and> loop_obj objs p \<and> p \<notin> W \<or> W' = W \<and> \<not> loop_obj objs p"
  shows "\<exists>h1 h ts' zs'. list_del (fst s) p = Some h1 \<and> list_add_tail h1 p zl = Some h \<and> length ts' < length ts \<and>
    fc_inv objs E base Y Z gcl tmp zl ys Rel W {} pend ts' zs' (h, snd s)"
proof -
  note st = fc_invD(3) [OF assms(1)] and ct = fc_invD(4) [OF assms(1)]
  from rings_move [OF fc_invD(1) [OF assms(1)] assms(2)] obtain h1 h ts' where
    h: "list_del (fst s) p = Some h1" "list_add_tail h1 p zl = Some h" "rings h gcl ys tmp ts' zl (zs @ [p])"
    "set ts' = set ts - {p}" "length ts' < length ts" by blast
  have sub: "W \<subseteq> W'" using assms(3) by blast
  have "fc_inv objs E base Y Z gcl tmp zl ys Rel W {} pend ts' (zs @ [p]) (h, snd s)"
    unfolding fc_inv_def fst_conv snd_conv
  proof (intro conjI fc_setsI fc_countsI)
    show "rings h gcl ys tmp ts' zl (zs @ [p])" by (rule h(3))
    show "set pend \<subseteq> Y \<union> Z" by (rule fc_invD(2) [OF assms(1)])
    show "set ts' \<union> set (zs @ [p]) = {p \<in> Z. snd s p \<noteq> None}" using fc_setsD(1) [OF st] h(4) assms(2) by auto
    show "W \<subseteq> Rel" "Rel \<subseteq> Z" using fc_setsD(2,3) [OF st] sub by auto
    show "snd s q \<noteq> None" if "q \<in> W" for q using that fc_setsD(4) [OF st] sub by blast
    show "q \<in> set ts' \<longleftrightarrow> q \<notin> Rel \<or> q \<in> W" if "q \<in> Z" "loop_obj objs q" for q
      using fc_setsD(2) [OF st] fc_setsD(7) [OF st that] assms(3) that h(4) by auto
    show "snd s q = None \<or> q \<in> W" if "q \<in> Rel" "\<not> loop_obj objs q" for q
      using fc_setsD(8) [OF st that] assms(3) that by auto
    show "load E Z Rel pend q = 0" if "q \<in> Z" "q \<in> W" "\<not> loop_obj objs q" for q
      using fc_countsD(4) [OF ct that(1)] that sub by auto
  qed (use fc_setsD(5,6) [OF st] fc_countsD(1,2,3,5) [OF ct] in blast)+
  with h show ?thesis by blast
qed

lemma fc_listed: "fc_inv objs E base Y Z gcl tmp zl ys Rel W X pend ts zs s \<Longrightarrow> p \<in> set ts \<Longrightarrow> p \<in> Z \<and> snd s p \<noteq> None"
  using fc_setsD(1) [OF fc_invD(3), of objs E base Y Z gcl tmp zl ys Rel W X pend ts zs s] by blast

lemma free_gc_object_ok:
  assumes "garbage_heap objs Y Z E base" "fc_inv objs E base Y Z gcl tmp zl ys Rel {} {} [] ts zs s" "p \<in> set ts" "loop_obj objs p"
  shows "\<exists>s' Rel' ts' zs'. free_gc_object objs zl p s = Some s' \<and> length ts' < length ts \<and>
    fc_inv objs E base Y Z gcl tmp zl ys Rel' {} {} [] ts' zs' s'"
proof -
  have p: "p \<in> Z" "snd s p \<noteq> None" using fc_listed [OF assms(2,3)] by simp_all
  have disj: "Y \<inter> Z = {}" using assms(1) by (simp add: garbage_heap_def)
  have pR: "p \<notin> Rel" using fc_setsD(7) [OF fc_invD(3) [OF assms(2)] p(1) assms(4)] assms(3) by simp
  obtain ob where ob: "objs p = Some ob" "no_weak_ref ob" using assms(1) p(1) unfolding garbage_heap_def by fastforce
  have live: "live_objects objs s p = Some ob" using p(2) ob(1) by (simp add: live_objects_def)
  from fc_enter [OF fc_weaken [OF assms(2), of "{p}"] assms(1) p(1) pR] assms(4) obtain fs where
    fs: "free_children (live_objects objs s) p = Some fs" "fc_inv objs E base Y Z gcl tmp zl ys (insert p Rel) {p} {} (fs @ []) ts zs s"
    by auto
  have "\<exists>s' Rel' ts' zs'. call_each (drop_ref 3 objs) fs s = Some s' \<and> insert p Rel \<subseteq> Rel' \<and> length ts' \<le> length ts \<and>
      fc_inv objs E base Y Z gcl tmp zl ys Rel' {p} {} [] ts' zs' s'"
  proof (rule drop_refs_ok [OF _ fs(2)])
    have "rank objs c < 3" for c using rank_le [of objs c] by simp
    then show "\<forall>c\<in>set fs. rank objs c < 3" by blast
  qed (rule drop_ref_ok [OF assms(1)])
  then obtain s1 Rel1 ts1 zs1 where s1: "call_each (drop_ref 3 objs) fs s = Some s1" "insert p Rel \<subseteq> Rel1" "length ts1 \<le> length ts"
    "fc_inv objs E base Y Z gcl tmp zl ys Rel1 {p} {} [] ts1 zs1 s1" by blast
  have pts: "p \<in> set ts1" using fc_setsD(7) [OF fc_invD(3) [OF s1(4)] p(1) assms(4)] by simp
  obtain x where x: "snd s1 p = Some x" using fc_listed [OF s1(4) pts] by blast
  have "ref_count x = base p + int (load E Z Rel1 [] p)" using fc_countsD(1) [OF fc_invD(4) [OF s1(4)] _ x] p(1) by blast
  moreover have "base p = 0" using assms(1) p(1) by (simp add: garbage_heap_def)
  ultimately have rc: "ref_count x = int (load E Z Rel1 [] p)" by simp
  show ?thesis
  proof (cases "ref_count x = 0")
    case True
    with rc have "load E Z Rel1 [] p = 0" by simp
    from fc_free [OF s1(4) _ this disj] pts obtain h ts2 zs2 where h: "list_del (fst s1) p = Some h" "length ts2 < length ts1"
      "fc_inv objs E base Y Z gcl tmp zl ys Rel1 {} {} [] ts2 zs2 (js_free_rt p (h, snd s1))" by blast
    have "free_gc_object objs zl p s = Some (js_free_rt p (h, snd s1))"
      using live ob rank_loop_type [of objs p ob, OF ob(1)] assms(4) fs(1) s1(1) h(1) x True by (simp add: free_gc_object_def)
    moreover have "length ts2 < length ts" using h(2) s1(3) by simp
    ultimately show ?thesis using h(3) by blast
  next
    case False
    from fc_move [OF s1(4) pts, of "{}"] assms(4) obtain h1 h ts2 zs2 where
      h: "list_del (fst s1) p = Some h1" "list_add_tail h1 p zl = Some h" "length ts2 < length ts1"
      "fc_inv objs E base Y Z gcl tmp zl ys Rel1 {} {} [] ts2 zs2 (h, snd s1)" by blast
    have "free_gc_object objs zl p s = Some (h, snd s1)"
      using live ob rank_loop_type [of objs p ob, OF ob(1)] assms(4) fs(1) s1(1) h(1,2) x False by (simp add: free_gc_object_def)
    moreover have "length ts2 < length ts" using h(3) s1(3) by simp
    ultimately show ?thesis using h(4) by blast
  qed
qed

lemma free_cycles_step_ok:
  assumes "garbage_heap objs Y Z E base" "fc_inv objs E base Y Z gcl tmp zl ys Rel {} {} [] ts zs s" "p \<in> set ts"
  shows "\<exists>s' Rel' ts' zs'. free_cycles_step objs zl p s = Some s' \<and> length ts' < length ts \<and>
    fc_inv objs E base Y Z gcl tmp zl ys Rel' {} {} [] ts' zs' s'"
proof -
  have p: "p \<in> Z" "snd s p \<noteq> None" using fc_listed [OF assms(2,3)] by simp_all
  obtain ob where ob: "objs p = Some ob" using assms(1) p(1) unfolding garbage_heap_def by blast
  have live: "live_objects objs s p = Some ob" using p(2) ob by (simp add: live_objects_def)
  note ty = rank_loop_type [of objs p ob, OF ob]
  show ?thesis
  proof (cases "loop_obj objs p")
    case True
    then have "free_cycles_step objs zl p s = free_gc_object objs zl p s" using live ty by (simp add: free_cycles_step_def)
    with free_gc_object_ok [OF assms True] show ?thesis by simp
  next
    case False
    from fc_move [OF assms(2,3), of "{}"] False obtain h1 h ts' zs' where
      h: "list_del (fst s) p = Some h1" "list_add_tail h1 p zl = Some h" "length ts' < length ts"
      "fc_inv objs E base Y Z gcl tmp zl ys Rel {} {} [] ts' zs' (h, snd s)" by blast
    have "free_cycles_step objs zl p s = Some (h, snd s)"
      using live ty False h(1,2) by (simp add: free_cycles_step_def move_to_tail_def)
    with h(3,4) show ?thesis by blast
  qed
qed

lemma free_cycles_loop_ok:
  assumes "garbage_heap objs Y Z E base" "fc_inv objs E base Y Z gcl tmp zl ys Rel {} {} [] ts zs s"
  shows "\<exists>s' Rel' zs'. free_cycles_loop objs tmp zl s = Some s' \<and> fc_inv objs E base Y Z gcl tmp zl ys Rel' {} {} [] [] zs' s'"
  using assms(2)
proof (induction ts arbitrary: Rel zs s rule: length_induct)
  case (1 ts)
  have ring: "is_list (fst s) tmp ts" using fc_invD(1) [OF 1(2)] by (simp add: rings_def)
  from first_of [OF this] obtain l where l: "fst s tmp = Some l" "next l = hd (ts @ [tmp])" by blast
  show ?case
  proof (cases ts)
    case Nil
    then have "free_cycles_loop objs tmp zl s = Some s" using l by (simp add: free_cycles_loop.simps [of objs tmp zl s])
    with 1(2) Nil show ?thesis by blast
  next
    case (Cons p t)
    have ne: "p \<noteq> tmp" "p \<in> set ts" using ring Cons by (auto simp: is_list_def)
    from free_cycles_step_ok [OF assms(1) 1(2) ne(2)] obtain s1 Rel1 ts1 zs1 where
      s1: "free_cycles_step objs zl p s = Some s1" "length ts1 < length ts"
      "fc_inv objs E base Y Z gcl tmp zl ys Rel1 {} {} [] ts1 zs1 s1" by blast
    have "free_cycles_loop objs tmp zl s = free_cycles_loop objs tmp zl s1"
      using l Cons ne s1(1) by (simp add: free_cycles_loop.simps [of objs tmp zl s])
    with 1(1) [rule_format, OF s1(2,3)] show ?thesis by simp
  qed
qed

text \<open>
  The loop leaves no garbage but zombies, to which no reference is left: a variable reference, a
  shape or a context that were left over would be referenced by another one, of a higher rank.
\<close>

lemma free_cycles_all:
  assumes "garbage_heap objs Y Z E base" "fc_inv objs E base Y Z gcl tmp zl ys Rel {} {} [] [] zs s"
  shows "Rel = Z" "\<And>p. p \<in> Z \<Longrightarrow> snd s p \<noteq> None \<longleftrightarrow> p \<in> set zs" "\<And>p. p \<in> set zs \<Longrightarrow> loop_obj objs p"
proof -
  note st = fc_invD(3) [OF assms(2)] and ct = fc_invD(4) [OF assms(2)]
  have loop: "p \<in> Rel" if "p \<in> Z" "loop_obj objs p" for p using fc_setsD(7) [OF st that] by simp
  have "p \<notin> Z - Rel" for p
  proof (induction "2 - rank objs p" arbitrary: p rule: less_induct)
    case less
    show ?case
    proof
      assume p: "p \<in> Z - Rel"
      then have "0 < load E Z Rel [] p" using fc_countsD(2) [OF ct, of p] loop by blast
      then have "in_edges E (Z - Rel) p \<noteq> 0" by (simp add: load_def)
      then obtain q where q: "q \<in> Z - Rel" "count_list (E q) p \<noteq> 0" unfolding in_edges_def by (meson sum.neutral)
      have "p \<in> set (E q)" using q(2) by (simp add: count_list_0_iff)
      moreover have "0 < rank objs q" using q(1) loop by blast
      ultimately have "rank objs p < rank objs q" using assms(1) q(1) unfolding garbage_heap_def by blast
      then have "2 - rank objs q < 2 - rank objs p" using rank_le [of objs q] by simp
      from less [OF this] q(1) show False by simp
    qed
  qed
  with fc_setsD(3) [OF st] show Rel: "Rel = Z" by blast
  show alive: "snd s p \<noteq> None \<longleftrightarrow> p \<in> set zs" if "p \<in> Z" for p using fc_setsD(1) [OF st] that by auto
  show "loop_obj objs p" if "p \<in> set zs" for p
  proof -
    have "p \<in> Rel" "snd s p \<noteq> None" using fc_setsD(1) [OF st] that Rel by auto
    with fc_setsD(8) [OF st, of p] show ?thesis by auto
  qed
qed

lemma forward_cong: "forward h head t \<Longrightarrow> (\<And>x. x \<in> set (head # t) \<Longrightarrow> h' x = h x) \<Longrightarrow> forward h' head t"
  by (induction t) auto

text \<open>The memory of the zombies is freed.\<close>

definition freed :: "gc_ptr list \<Rightarrow> gc_state \<Rightarrow> gc_state" where
  "freed d s = ((\<lambda>p. if p \<in> set d then None else fst s p), (\<lambda>p. if p \<in> set d then None else snd s p))"

lemma free_zombies_ok:
  assumes "is_list (fst s) zl zs" "\<And>p. p \<in> set zs \<Longrightarrow> snd s p \<noteq> None \<and> (\<exists>ob. objs p = Some ob \<and> is_loop_type ob)"
  shows "list_for_each_safe (free_zombie objs) zl s = Some (freed zs s)"
proof -
  define Inv where "Inv d t s' \<longleftrightarrow> d @ t = zs \<and> s' = freed d s" for d t s'
  have dist: "distinct (zl # zs)" using assms(1) by (simp add: is_list_def)
  have "\<exists>s'. list_for_each_safe (free_zombie objs) zl s = Some s' \<and> Inv zs [] s'"
  proof (rule for_each_safe_forward [where Inv = Inv])
    fix d t s' assume i: "Inv d t s'"
    then have "is_list (fst s) zl (d @ t)" using assms(1) by (simp add: Inv_def)
    then have "forward (fst s) zl t" by (rule is_list_forward)
    then show "forward (fst s') zl t" by (rule forward_cong) (use i dist in \<open>auto simp: Inv_def freed_def\<close>)
  next
    fix d x t s' assume i: "Inv d (x # t) s'"
    then have x: "x \<in> set zs" "x \<notin> set d" using dist by (auto simp: Inv_def)
    then have "snd s' x = snd s x" using i by (simp add: Inv_def freed_def)
    with assms(2) [OF x(1)] have "free_zombie objs x s' = Some (js_free_rt x s')"
      by (auto simp: free_zombie_def live_objects_def simp del: not_None_eq)
    moreover have "Inv (d @ [x]) t (js_free_rt x s')" using i by (auto simp: Inv_def freed_def js_free_rt_def fun_eq_iff)
    ultimately show "\<exists>s''. free_zombie objs x s' = Some s'' \<and> Inv (d @ [x]) t s''" by blast
  next
    show "Inv [] zs s" by (simp add: Inv_def freed_def)
  qed (rule assms(1))
  then show ?thesis unfolding Inv_def by blast
qed

lemma gc_free_cycles_ok:
  assumes "garbage_heap objs Y Z E base" "fc_inv objs E base Y Z gcl tmp zl ys {} {} {} [] ts [] s"
  shows "\<exists>s'. gc_free_cycles objs tmp zl s = Some s' \<and> rings (fst s') gcl ys tmp [] zl [] \<and> (\<forall>p\<in>Z. snd s' p = None) \<and>
    (\<forall>p\<in>Y. \<exists>x. snd s' p = Some x \<and> ref_count x = base p \<and> gc_mark x = 0)"
proof -
  from free_cycles_loop_ok [OF assms] obtain s1 Rel zs where s1: "free_cycles_loop objs tmp zl s = Some s1"
    "fc_inv objs E base Y Z gcl tmp zl ys Rel {} {} [] [] zs s1" by blast
  note all = free_cycles_all [OF assms(1) s1(2)] and st = fc_invD(3) [OF s1(2)] and ct = fc_invD(4) [OF s1(2)]
  have r: "is_list (fst s1) gcl ys" "is_list (fst s1) tmp []" "is_list (fst s1) zl zs" "distinct ((gcl # ys) @ [tmp] @ zl # zs)"
    using fc_invD(1) [OF s1(2)] by (simp_all add: rings_def)
  have zsZ: "p \<in> Z \<and> snd s1 p \<noteq> None" if "p \<in> set zs" for p using fc_setsD(1) [OF st] that by auto
  define s2 where "s2 = freed zs s1"
  have "list_for_each_safe (free_zombie objs) zl s1 = Some s2"
    unfolding s2_def
  proof (rule free_zombies_ok [OF r(3)])
    fix p assume p: "p \<in> set zs"
    then obtain ob where ob: "objs p = Some ob" using assms(1) zsZ unfolding garbage_heap_def by blast
    then show "snd s1 p \<noteq> None \<and> (\<exists>ob. objs p = Some ob \<and> is_loop_type ob)"
      using zsZ [OF p] all(3) [OF p] rank_loop_type [of objs p ob, OF ob] by blast
  qed
  moreover have l2: "is_list (fst s2) gcl ys" "is_list (fst s2) tmp []"
    unfolding s2_def freed_def fst_conv
    by (rule list_cong_off [where S = "set zs", OF r(1)]; use r(4) in auto)
      (rule list_cong_off [where S = "set zs", OF r(2)]; use r(4) in auto)
  obtain l where "fst s1 zl = Some l" using is_list_valid [OF r(3), of zl] by auto
  then have "fst s2 zl = Some l" using r(4) by (simp add: s2_def freed_def)
  from init_list_head_ok [of "fst s2" zl, OF this] obtain h where
    h: "init_list_head (fst s2) zl = Some h" "is_list h zl []" "\<And>a. a \<noteq> zl \<Longrightarrow> h a = fst s2 a" by blast
  have "is_list h gcl ys" "is_list h tmp []"
    by (rule list_cong_off [where S = "{zl}", OF l2(1)]; use r(4) h(3) in auto)
      (rule list_cong_off [where S = "{zl}", OF l2(2)]; use r(4) h(3) in auto)
  then have "rings h gcl ys tmp [] zl []" using h(2) r(4) by (simp add: rings_def)
  moreover have "gc_free_cycles objs tmp zl s = Some (h, snd s2)" using s1(1) calculation(1) h(1) by (simp add: gc_free_cycles_def)
  moreover have "snd s2 p = None" if "p \<in> Z" for p
    using all(2) [OF that] by (auto simp: s2_def freed_def)
  moreover have "\<exists>x. snd s2 p = Some x \<and> ref_count x = base p \<and> gc_mark x = 0" if "p \<in> Y" for p
  proof -
    have "snd s1 p \<noteq> None" by (rule fc_setsD(5) [OF st that])
    then obtain x where x: "snd s1 p = Some x" by blast
    have "load E Z Rel [] p = 0" using all(1) by (simp add: load_def in_edges_def)
    then have "ref_count x = base p" using fc_countsD(1) [OF ct _ x] that by simp
    moreover have "gc_mark x = 0" by (rule fc_countsD(5) [OF ct that x])
    moreover have "p \<notin> set zs" using zsZ that assms(1) unfolding garbage_heap_def by blast
    ultimately show ?thesis using x by (simp add: s2_def freed_def)
  qed
  ultimately show ?thesis by fastforce
qed

subsection \<open>A collection\<close>

text \<open>
  What the third pass needs besides: references are counted before a collection, so that no count is
  zero; and the objects to free are well-formed, the targets of no weak reference, and have the types
  of the pointers to them.  Nothing is asked of the objects that stay, which may be the keys of weak
  maps, or functions that are running.
\<close>

definition typed_heap :: "gc_objects \<Rightarrow> gc_ptr list \<Rightarrow> (gc_ptr \<Rightarrow> gc_ptr list) \<Rightarrow> (gc_ptr \<Rightarrow> int) \<Rightarrow> bool" where
  "typed_heap objs xs E R \<longleftrightarrow>
     (\<forall>p\<in>set xs. 0 < R p) \<and>
     (\<forall>p\<in>set xs - reached E xs R. object_wf objs p \<and> (case objs p of None \<Rightarrow> False | Some ob \<Rightarrow> no_weak_ref ob) \<and>
        (rank objs p = 0 \<or> (\<forall>c\<in>set (E p). rank objs c < rank objs p)))"

lemma typed_heapI:
  assumes "\<And>p. p \<in> set xs \<Longrightarrow> 0 < R p" "\<And>p. p \<in> set xs \<Longrightarrow> object_wf objs p"
    "\<And>p. p \<in> set xs \<Longrightarrow> case objs p of None \<Rightarrow> False | Some ob \<Rightarrow> no_weak_ref ob"
    "\<And>p. p \<in> set xs \<Longrightarrow> rank objs p = 0 \<or> (\<forall>c\<in>set (E p). rank objs c < rank objs p)"
  shows "typed_heap objs xs E R"
  unfolding typed_heap_def using assms by blast

text \<open>The counts after the collection: the references from the garbage are gone.\<close>

definition kept_counts :: "(gc_ptr \<Rightarrow> gc_ptr list) \<Rightarrow> gc_ptr list \<Rightarrow> (gc_ptr \<Rightarrow> int) \<Rightarrow> gc_ptr \<Rightarrow> int" where
  "kept_counts E xs R p = R p - int (in_edges E (set xs - reached E xs R) p)"

lemma reached_sub:
  assumes "closed_heap objs xs E R"
  shows "reached E xs R \<subseteq> set xs"
proof (rule reached_least)
  fix p c assume "p \<in> set xs" "c \<in> set (E p)"
  with closed_heapD(2) [OF assms] show "c \<in> set xs" by blast
qed

lemma in_edges_pos: "finite S \<Longrightarrow> q \<in> S \<Longrightarrow> p \<in> set (E q) \<Longrightarrow> 0 < in_edges E S p"
  using load_child [of S q "{}" p E "[]"] by (simp add: load_def)

lemma in_edges_0: "(\<And>q. q \<in> S \<Longrightarrow> p \<notin> set (E q)) \<Longrightarrow> in_edges E S p = 0"
  by (simp add: in_edges_def count_list_0_iff)

text \<open>The counts split into the references from the outside, from the objects to keep and from the garbage.\<close>

lemma kept_counts_eq:
  assumes "closed_heap objs xs E R"
  shows "kept_counts E xs R p = external E xs R p + int (in_edges E (reached E xs R) p)"
proof -
  let ?Y = "reached E xs R"
  have "finite ?Y" "finite (set xs - ?Y)" using reached_sub [OF assms] finite_subset by auto
  then have "in_edges E (?Y \<union> (set xs - ?Y)) p = in_edges E ?Y p + in_edges E (set xs - ?Y) p"
    by (intro in_edges_union) auto
  moreover have "?Y \<union> (set xs - ?Y) = set xs" using reached_sub [OF assms] by blast
  ultimately show ?thesis by (simp add: external_def kept_counts_def)
qed

lemma reached_pos:
  assumes "closed_heap objs xs E R" "p \<in> reached E xs R"
  shows "0 < kept_counts E xs R p"
proof -
  have fin: "finite (reached E xs R)" using reached_sub [OF assms(1)] finite_subset by auto
  have sub: "reached E xs R \<subseteq> {p. p \<in> reached E xs R \<and> (external E xs R p > 0 \<or> 0 < in_edges E (reached E xs R) p)}"
  proof (rule reached_least)
    fix p c assume "p \<in> {p. p \<in> reached E xs R \<and> (external E xs R p > 0 \<or> 0 < in_edges E (reached E xs R) p)}" "c \<in> set (E p)"
    then show "c \<in> {p. p \<in> reached E xs R \<and> (external E xs R p > 0 \<or> 0 < in_edges E (reached E xs R) p)}"
      using in_edges_pos [OF fin, of p c E] reached_child [of p E xs R c] by simp
  qed (simp add: reached_root)
  have "external E xs R p > 0 \<or> 0 < in_edges E (reached E xs R) p" using subsetD [OF sub assms(2)] by simp
  moreover have "p \<in> set xs" using assms reached_sub by blast
  then have "0 \<le> external E xs R p" using assms(1) by (simp add: closed_heap_def)
  ultimately show ?thesis by (auto simp: kept_counts_eq [OF assms(1)])
qed

lemma garbage_zero:
  assumes "closed_heap objs xs E R" "p \<in> set xs" "p \<notin> reached E xs R"
  shows "kept_counts E xs R p = 0"
proof -
  have "in_edges E (reached E xs R) p = 0" by (rule in_edges_0) (use assms(3) reached_child in blast)
  moreover have "external E xs R p = 0" using assms reached_root [of p xs E R] by (force simp: closed_heap_def)
  ultimately show ?thesis by (simp add: kept_counts_eq [OF assms(1)])
qed

lemma garbage_heap_start:
  assumes "closed_heap objs xs E R" "typed_heap objs xs E R"
  shows "garbage_heap objs (reached E xs R) (set xs - reached E xs R) E (kept_counts E xs R)"
    (is "garbage_heap objs ?Y ?Z E ?b")
  unfolding garbage_heap_def
proof (intro conjI ballI impI)
  have ty: "object_wf objs p" "\<exists>ob. objs p = Some ob \<and> no_weak_ref ob"
      "rank objs p \<noteq> 0 \<Longrightarrow> c \<in> set (E p) \<Longrightarrow> rank objs c < rank objs p" if "p \<in> ?Z" for p c
  proof -
    have t: "object_wf objs p \<and> (case objs p of None \<Rightarrow> False | Some ob \<Rightarrow> no_weak_ref ob) \<and>
        (rank objs p = 0 \<or> (\<forall>c\<in>set (E p). rank objs c < rank objs p))"
      using assms(2) that by (simp add: typed_heap_def)
    then show "object_wf objs p" "\<exists>ob. objs p = Some ob \<and> no_weak_ref ob" by (simp_all split: option.splits)
    show "rank objs c < rank objs p" if "rank objs p \<noteq> 0" "c \<in> set (E p)" using t that by blast
  qed
  have pos: "0 < R p" if "p \<in> ?Z" for p using assms(2) that by (simp add: typed_heap_def)
  have some: "\<exists>ob. objs p = Some ob" if "p \<in> set xs" for p
    using closed_heapD(1) [OF assms(1) that] by (cases "objs p") (simp_all add: mark_children_def)
  note cl = closed_heapD [OF assms(1)] and sub = reached_sub [OF assms(1)]
  show "0 < ?b p" if "p \<in> ?Y" for p by (rule reached_pos [OF assms(1) that])
  show z: "?b p = 0" if "p \<in> ?Z" for p using garbage_zero [OF assms(1)] that by blast
  show "0 < in_edges E ?Z p" if "p \<in> ?Z" for p using z [OF that] pos [OF that] by (simp add: kept_counts_def)
  show "\<exists>ob. objs p = Some ob" if "p \<in> ?Y \<union> ?Z" for p using that sub some by blast
  show "set (E p) \<subseteq> ?Y \<union> ?Z" if "p \<in> ?Z" for p using cl(2) [of p] that by blast
  show "no_weak_ref (the (objs p))" if "p \<in> ?Z" for p using ty(2) [OF that] by fastforce
  show "rank objs c < rank objs p" if "p \<in> ?Z" "0 < rank objs p" "c \<in> set (E p)" for p c using ty(3) [OF that(1)] that by blast
  show "object_wf objs p" if "p \<in> ?Z" for p using ty(1) [OF that] .
  show "mark_children objs p = Some (E p)" if "p \<in> ?Z" for p using cl(1) that by blast
qed auto

theorem JS_RunGC_ok:
  assumes "closed_heap objs xs E R" "typed_heap objs xs E R" "gc_start xs R gcl tmp zl s"
  shows "\<exists>s' ys. JS_RunGC objs gcl tmp zl s = Some s' \<and> set ys = reached E xs R \<and>
    closed_heap objs ys E (kept_counts E xs R) \<and> gc_start ys (kept_counts E xs R) gcl tmp zl s' \<and>
    (\<forall>p\<in>set xs - set ys. snd s' p = None)"
proof -
  let ?Y = "reached E xs R" and ?b = "kept_counts E xs R"
  let ?Z = "set xs - ?Y"
  from gc_passes_ok [OF assms(1,3)] obtain s1 s2 ys zs where
    s2: "gc_decref objs gcl tmp s = Some s1" "gc_scan objs gcl tmp s1 = Some s2" "lists zl (fst s2) gcl ys tmp zs"
    "set ys = ?Y" "set zs = ?Z" "counts (snd s2) xs R" "marks (snd s2) xs (set ys) 0" by blast
  note sub = reached_sub [OF assms(1)] and heap = garbage_heap_start [OF assms(1,2)]
  have alive: "\<exists>x. snd s2 p = Some x \<and> ref_count x = R p" if "p \<in> set xs" for p by (rule countsD [OF s2(6) that])
  have "fc_inv objs E ?b ?Y ?Z gcl tmp zl ys {} {} {} [] zs [] s2"
    unfolding fc_inv_def
  proof (intro conjI fc_setsI fc_countsI)
    show "rings (fst s2) gcl ys tmp zs zl []" using s2(3) by (auto simp: lists_def rings_def is_list_def)
    show "ref_count x = ?b p + int (load E ?Z {} [] p)" if "p \<in> ?Y \<union> ?Z" "snd s2 p = Some x" for p x
      using alive [of p] that sub by (auto simp: load_def kept_counts_def)
    show "0 < load E ?Z {} [] p" if "p \<in> ?Z" for p using heap that by (simp add: garbage_heap_def load_def)
    show "gc_mark x = 0" if "p \<in> ?Y" "snd s2 p = Some x" for p x using s2(4,7) that sub by (auto simp: marks_def)
  qed (use alive s2(5) sub in fastforce)+
  from gc_free_cycles_ok [OF heap this] obtain s' where s': "gc_free_cycles objs tmp zl s2 = Some s'"
    "rings (fst s') gcl ys tmp [] zl []" "\<And>p. p \<in> ?Z \<Longrightarrow> snd s' p = None"
    "\<And>p. p \<in> ?Y \<Longrightarrow> \<exists>x. snd s' p = Some x \<and> ref_count x = ?b p \<and> gc_mark x = 0" by blast
  have "JS_RunGC objs gcl tmp zl s = Some s'" using s2(1,2) s'(1) by (simp add: JS_RunGC_def)
  moreover have "closed_heap objs ys E ?b"
    unfolding closed_heap_def
  proof (intro conjI ballI)
    show "distinct ys" using s2(3) by (simp add: lists_def is_list_def)
    fix p assume p: "p \<in> set ys"
    show "mark_children objs p = Some (E p)" using closed_heapD(1) [OF assms(1)] p s2(4) sub by blast
    show "set (E p) \<subseteq> set ys" using p s2(4) reached_child by blast
    have "0 \<le> external E xs R p" using assms(1) p s2(4) sub by (auto simp: closed_heap_def)
    then show "0 \<le> external E ys ?b p" using kept_counts_eq [OF assms(1), of p] s2(4) by (simp add: external_def)
  qed
  moreover have "gc_start ys ?b gcl tmp zl s'"
    unfolding gc_start_def
  proof (intro conjI)
    have r: "is_list (fst s') gcl ys" "is_list (fst s') tmp []" "is_list (fst s') zl []"
      "distinct ((gcl # ys) @ [tmp] @ [zl])" using s'(2) by (simp_all add: rings_def)
    then show "is_list (fst s') gcl ys" "is_list (fst s') zl []" "tmp \<notin> set (gcl # ys)" "zl \<notin> set (gcl # tmp # ys)" by auto
    show "\<exists>l. fst s' tmp = Some l" using is_list_valid [OF r(2), of tmp] by simp
    show "counts (snd s') ys ?b" using s'(4) s2(4) by (auto simp: counts_def)
    show "marks (snd s') ys UNIV 0" using s'(4) s2(4) by (fastforce simp: marks_def)
  qed
  ultimately show ?thesis using s'(3) s2(4) by blast
qed

text \<open>A second collection has nothing to free.\<close>

lemma kept_reached:
  assumes "closed_heap objs xs E R" "set ys = reached E xs R" "closed_heap objs ys E (kept_counts E xs R)"
  shows "reached E ys (kept_counts E xs R) = set ys"
proof
  show "reached E ys (kept_counts E xs R) \<subseteq> set ys" by (rule reached_sub [OF assms(3)])
  have e: "external E ys (kept_counts E xs R) p = external E xs R p" for p
    using kept_counts_eq [OF assms(1), of p] assms(2) by (simp add: external_def)
  have "reached E xs R \<subseteq> reached E ys (kept_counts E xs R)"
  proof (rule reached_least)
    fix p assume p: "p \<in> set xs" "0 < external E xs R p"
    then show "p \<in> reached E ys (kept_counts E xs R)" using reached_root [OF p] assms(2) by (intro reached_root) (simp_all add: e)
  qed (rule reached_child)
  with assms(2) show "set ys \<subseteq> reached E ys (kept_counts E xs R)" by simp
qed

lemma kept_typed:
  assumes "closed_heap objs xs E R" "set ys = reached E xs R" "closed_heap objs ys E (kept_counts E xs R)"
  shows "typed_heap objs ys E (kept_counts E xs R)"
  using kept_reached [OF assms] reached_pos [OF assms(1)] assms(2) by (simp add: typed_heap_def)

end
