(* ===== verification/Utf8.thy ===== *)
theory Utf8
  imports CUtils
begin

unbundle bit_operations_syntax

text \<open>
  cutils.c: the UTF-8 encoder and decoder.  Up to 31 bits are encoded, in one to six bytes; the
  decoder rejects truncated, malformed and overlong sequences.
\<close>

definition cont_byte :: "u32 \<Rightarrow> nat \<Rightarrow> u8" where
  "cont_byte c k = ucast ((drop_bit k c AND 0x3f) OR 0x80)"

text \<open>The bytes \<open>unicode_to_utf8\<close> writes; their number is its result (0 for more than 31 bits).\<close>

definition unicode_to_utf8 :: "u32 \<Rightarrow> u8 list" where
  "unicode_to_utf8 c =
     (if c < 0x80 then [ucast c]
      else if c < 0x800 then [ucast (drop_bit 6 c OR 0xc0), cont_byte c 0]
      else if c < 0x10000 then [ucast (drop_bit 12 c OR 0xe0), cont_byte c 6, cont_byte c 0]
      else if c < 0x00200000 then
        [ucast (drop_bit 18 c OR 0xf0), cont_byte c 12, cont_byte c 6, cont_byte c 0]
      else if c < 0x04000000 then
        [ucast (drop_bit 24 c OR 0xf8), cont_byte c 18, cont_byte c 12, cont_byte c 6, cont_byte c 0]
      else if c < 0x80000000 then
        [ucast (drop_bit 30 c OR 0xfc), cont_byte c 24, cont_byte c 18, cont_byte c 12,
         cont_byte c 6, cont_byte c 0]
      else [])"

definition utf8_min_code :: "u32 list" where
  "utf8_min_code = [0x80, 0x800, 0x10000, 0x00200000, 0x04000000]"

definition utf8_first_code_mask :: "u32 list" where
  "utf8_first_code_mask = [0x1f, 0xf, 0x7, 0x3, 0x1]"

text \<open>The number of continuation bytes announced by a first byte (the \<open>switch\<close>).\<close>

definition utf8_len :: "u8 \<Rightarrow> nat option" where
  "utf8_len c =
     (if 0xc0 \<le> c \<and> c \<le> 0xdf then Some 1
      else if 0xe0 \<le> c \<and> c \<le> 0xef then Some 2
      else if 0xf0 \<le> c \<and> c \<le> 0xf7 then Some 3
      else if 0xf8 \<le> c \<and> c \<le> 0xfb then Some 4
      else if 0xfc \<le> c \<and> c \<le> 0xfd then Some 5
      else None)"

text \<open>
  The loop over the continuation bytes: \<open>None\<close> is a read past the buffer, \<open>Some None\<close> a byte
  that is no continuation byte, \<open>Some (Some (c, p))\<close> the accumulated code and the pointer.
\<close>

fun utf8_cont :: "u8 list \<Rightarrow> nat \<Rightarrow> nat \<Rightarrow> u32 \<Rightarrow> (u32 \<times> nat) option option" where
  "utf8_cont s p 0 c = Some (Some (c, p))"
| "utf8_cont s p (Suc n) c =
     (case rd s p of
        None \<Rightarrow> None
      | Some b \<Rightarrow>
          if b < 0x80 \<or> b \<ge> 0xc0 then Some None
          else utf8_cont s (Suc p) n (push_bit 6 c OR (ucast b AND 0x3f)))"

text \<open>
  The decoder: the C result (the code point, or -1) and the new value of \<open>*pp\<close>, which is left
  alone on an error.
\<close>

definition unicode_from_utf8 :: "u8 list \<Rightarrow> nat \<Rightarrow> int \<Rightarrow> (int \<times> nat) option" where
  "unicode_from_utf8 s p max_len =
     (case rd s p of
        None \<Rightarrow> None
      | Some c \<Rightarrow>
          if c < 0x80 then Some (uint c, Suc p)
          else (case utf8_len c of
                  None \<Rightarrow> Some (-1, p)
                | Some l \<Rightarrow>
                    if int l > max_len - 1 then Some (-1, p)
                    else (case utf8_cont s (Suc p) l (ucast c AND utf8_first_code_mask ! (l - 1)) of
                            None \<Rightarrow> None
                          | Some None \<Rightarrow> Some (-1, p)
                          | Some (Some (v, q)) \<Rightarrow>
                              if v < utf8_min_code ! (l - 1) then Some (-1, p)
                              else Some (sint v, q))))"

subsection \<open>Byte classes\<close>

lemma u8_ge_c0: "\<forall>b::u8. 0xc0 \<le> b \<longleftrightarrow> bit b 7 \<and> bit b 6"
  unfolding u8_all by code_simp

lemma u8_len_iff: "\<forall>b::u8. utf8_len b = (if \<not> bit b 7 \<or> \<not> bit b 6 then None
   else if \<not> bit b 5 then Some 1 else if \<not> bit b 4 then Some 2 else if \<not> bit b 3 then Some 3
   else if \<not> bit b 2 then Some 4 else if \<not> bit b 1 then Some 5 else None)"
  unfolding u8_all by code_simp

lemma u8_ascii_iff: "\<forall>b::u8. b < 0x80 \<longleftrightarrow> \<not> bit b 7"
  unfolding u8_all by code_simp

lemmas utf8_bits = u8_ge_c0 [rule_format] u8_len_iff [rule_format] u8_ascii_iff [rule_format]

lemma bits_lt: "c < 0x80 \<Longrightarrow> 7 \<le> n \<Longrightarrow> \<not> bit c n"
  "c < 0x800 \<Longrightarrow> 11 \<le> n \<Longrightarrow> \<not> bit c n"
  "c < 0x10000 \<Longrightarrow> 16 \<le> n \<Longrightarrow> \<not> bit c n"
  "c < 0x200000 \<Longrightarrow> 21 \<le> n \<Longrightarrow> \<not> bit c n"
  "c < 0x4000000 \<Longrightarrow> 26 \<le> n \<Longrightarrow> \<not> bit c n"
  "c < 0x80000000 \<Longrightarrow> 31 \<le> n \<Longrightarrow> \<not> bit c n" for c :: u32
  using not_bit_ge [of c 7 n] not_bit_ge [of c 11 n] not_bit_ge [of c 16 n] not_bit_ge [of c 21 n]
   not_bit_ge [of c 26 n] not_bit_ge [of c 31 n] by auto

definition is_cont :: "u8 \<Rightarrow> bool" where "is_cont b \<longleftrightarrow> bit b 7 \<and> \<not> bit b 6"

definition utf8_acc :: "u32 \<Rightarrow> u8 \<Rightarrow> u32" where "utf8_acc c b = push_bit 6 c OR (ucast b AND 0x3f)"

lemma utf8_cont_spec:
  "p \<le> length s \<Longrightarrow> utf8_cont s p n c = Some (Some (v, q)) \<longleftrightarrow>
   q = p + n \<and> q \<le> length s \<and> list_all is_cont (take n (drop p s)) \<and>
   v = foldl utf8_acc c (take n (drop p s))"
proof (induction s p n c rule: utf8_cont.induct)
  case (1 s p c)
  then show ?case by auto
next
  case (2 s p n c)
  then show ?case
    by (cases "p < length s") 
     (auto simp: rd_def is_cont_def utf8_bits Cons_nth_drop_Suc [symmetric] utf8_acc_def)
qed

lemma utf8_cont_app:
  "list_all is_cont bs \<Longrightarrow>
   utf8_cont (pre @ bs @ post) (length pre) (length bs) c = Some (Some (foldl utf8_acc c bs, length pre + length bs))"
  by (simp add: utf8_cont_spec)

lemma cont_byte_cont [simp]: "is_cont (cont_byte c k)"
  by (simp_all add: cont_byte_def bit_simps is_cont_def)

lemma from_utf8_multi:
  assumes "utf8_len b = Some (length bs)" "list_all is_cont bs" "int (length bs) < m"
  and "v = foldl utf8_acc (ucast b AND utf8_first_code_mask ! (length bs - 1)) bs" "\<not> v < utf8_min_code ! (length bs - 1)"
  shows "unicode_from_utf8 (pre @ b # bs @ post) (length pre) m =
      Some (sint v, length pre + Suc (length bs))"
proof -
  have "bit b 7" using assms(1) by (auto simp: utf8_bits split: if_splits)
  with assms utf8_cont_app [of bs "pre @ [b]" post]
  show ?thesis by (simp add: unicode_from_utf8_def u8_ascii_iff rd_def)
qed

lemma sint_eq_uint: "c < 0x80000000 \<Longrightarrow> sint c = uint c" for c :: u32
  by (simp add: sint_uint word_less_def signed_take_bit_int_eq_self order.trans [OF _ uint_ge_0])

lemma dec_enc1: "(c::u32) < 0x80 \<Longrightarrow> unicode_from_utf8 (pre @ ucast c # post) (length pre) m =
    Some (sint c, Suc (length pre))"
  using bits_lt(1) [of c 7]
  by (simp add: sint_eq_uint unicode_from_utf8_def utf8_bits bit_simps rd_def unsigned_ucast_eq word_less_def
   take_bit_int_eq_self)

lemma join2: "c < 0x800 \<Longrightarrow> foldl utf8_acc (ucast (ucast (drop_bit 6 c OR 0xc0) :: u8) AND 0x1f) [cont_byte c 0] = c"
  using bits_lt(2) [of c]
  by (simp add: utf8_acc_def cont_byte_def word_bits)
lemma join3: "c < 0x10000 \<Longrightarrow> foldl utf8_acc (ucast (ucast (drop_bit 12 c OR 0xe0) :: u8) AND 0xf) [cont_byte c 6, cont_byte c 0] = c"
  using bits_lt(3) [of c]
  by (simp add: utf8_acc_def cont_byte_def word_bits)
lemma join4: "c < 0x200000 \<Longrightarrow> foldl utf8_acc (ucast (ucast (drop_bit 18 c OR 0xf0) :: u8) AND 0x7)
   [cont_byte c 12, cont_byte c 6, cont_byte c 0] = c"
  using bits_lt(4) [of c]
  by (simp add: utf8_acc_def cont_byte_def word_bits)
lemma join5: "c < 0x4000000 \<Longrightarrow> foldl utf8_acc (ucast (ucast (drop_bit 24 c OR 0xf8) :: u8) AND 0x3)
   [cont_byte c 18, cont_byte c 12, cont_byte c 6, cont_byte c 0] = c"
  using bits_lt(5) [of c]
  by (simp add: utf8_acc_def cont_byte_def word_bits)
lemma join6: "c < 0x80000000 \<Longrightarrow> foldl utf8_acc (ucast (ucast (drop_bit 30 c OR 0xfc) :: u8) AND 0x1)
   [cont_byte c 24, cont_byte c 18, cont_byte c 12, cont_byte c 6, cont_byte c 0] = c"
  using bits_lt(6) [of c]
  by (simp add: utf8_acc_def cont_byte_def word_bits)

lemma len_first:
  "c < 0x800 \<Longrightarrow> utf8_len (ucast (drop_bit 6 c OR 0xc0)) = Some 1"
  "c < 0x10000 \<Longrightarrow> utf8_len (ucast (drop_bit 12 c OR 0xe0)) = Some 2"
  "c < 0x200000 \<Longrightarrow> utf8_len (ucast (drop_bit 18 c OR 0xf0)) = Some 3"
  "c < 0x4000000 \<Longrightarrow> utf8_len (ucast (drop_bit 24 c OR 0xf8)) = Some 4"
  "c < 0x80000000 \<Longrightarrow> utf8_len (ucast (drop_bit 30 c OR 0xfc)) = Some 5" for c :: u32
  using bits_lt(2,3,4,5,6) [of c] by (simp_all add: utf8_bits bit_simps)

lemma utf8_decode_encode:
  assumes "c < 0x80000000" "int (length (unicode_to_utf8 c)) \<le> m"
  shows "unicode_from_utf8 (pre @ unicode_to_utf8 c @ post) (length pre) m =
    Some (uint c, length pre + length (unicode_to_utf8 c))"
  using assms 
  by (auto simp: sint_eq_uint [symmetric] dec_enc1 unicode_to_utf8_def [of c] not_less from_utf8_multi [where bs = "[_]", simplified]
     from_utf8_multi [where bs = "[_,_]", simplified] from_utf8_multi [where bs = "[_,_,_]", simplified]
     from_utf8_multi [where bs = "[_,_,_,_]", simplified] from_utf8_multi [where bs = "[_,_,_,_,_]", simplified]
    join2 [simplified] join3 [simplified] join4 [simplified] join5 [simplified] join6 [simplified]
    len_first utf8_first_code_mask_def utf8_min_code_def split: if_splits)

lemma range2: "foldl utf8_acc (ucast b AND 0x1f) [b1] < 0x800"
  by (rule bits_imp_lt [where k = 11, simplified]) (simp_all add: utf8_acc_def upt_32 bit_simps)
lemma range3: "foldl utf8_acc (ucast b AND 0xf) [b1, b2] < 0x10000"
  by (rule bits_imp_lt [where k = 16, simplified]) (simp_all add: utf8_acc_def upt_32 bit_simps)
lemma range4: "foldl utf8_acc (ucast b AND 0x7) [b1, b2, b3] < 0x200000"
  by (rule bits_imp_lt [where k = 21, simplified]) (simp_all add: utf8_acc_def upt_32 bit_simps)
lemma range5: "foldl utf8_acc (ucast b AND 0x3) [b1, b2, b3, b4] < 0x4000000"
  by (rule bits_imp_lt [where k = 26, simplified]) (simp_all add: utf8_acc_def upt_32 bit_simps)
lemma range6: "foldl utf8_acc (ucast b AND 0x1) [b1, b2, b3, b4, b5] < 0x80000000"
  by (rule bits_imp_lt [where k = 31, simplified]) (simp_all add: utf8_acc_def upt_32 bit_simps)

lemmas conts = cont_byte_def utf8_acc_def is_cont_def

lemma split2:
  assumes "utf8_len b = Some 1" "list_all is_cont [b1]"
   "v = foldl utf8_acc (ucast b AND 0x1f) [b1]" "\<not> v < 0x80"
  shows "unicode_to_utf8 v = [b, b1]"
proof -
  have "ucast (drop_bit 6 v OR 0xc0) = b" "cont_byte v 0 = b1"
    using assms(1,2) unfolding assms(3)
    by (auto simp: utf8_bits conts word_bits split: if_splits)
  with assms range2 [of b b1] show ?thesis by (simp add: unicode_to_utf8_def)
qed
lemma lt_chain: "\<not> v < 0x800 \<Longrightarrow> \<not> v < 0x80" "\<not> v < 0x10000 \<Longrightarrow> \<not> v < 0x800"
  "\<not> v < 0x200000 \<Longrightarrow> \<not> v < 0x10000" "\<not> v < 0x4000000 \<Longrightarrow> \<not> v < 0x200000" for v :: u32
  by (auto simp: not_less elim: order.trans [rotated])

lemma split3:
  assumes "utf8_len b = Some 2" "list_all is_cont [b1, b2]"
    "v = foldl utf8_acc (ucast b AND 0xf) [b1, b2]" "\<not> v < 0x800"
  shows "unicode_to_utf8 v = [b, b1, b2]"
proof -
  have "ucast (drop_bit 12 v OR 0xe0) = b" "cont_byte v 6 = b1" "cont_byte v 0 = b2"
    using assms(1,2) unfolding assms(3)
    by (auto simp: utf8_bits conts word_bits split: if_splits)
  moreover have "v < 2 ^ 16" using range3 [of b b1 b2] by (simp add: assms(3))
  ultimately show ?thesis using assms(4) by (simp add: unicode_to_utf8_def lt_chain)
qed

lemma split4:
  assumes "utf8_len b = Some 3" "list_all is_cont [b1, b2, b3]"
    "v = foldl utf8_acc (ucast b AND 0x7) [b1, b2, b3]" "\<not> v < 0x10000"
  shows "unicode_to_utf8 v = [b, b1, b2, b3]"
proof -
  have "ucast (drop_bit 18 v OR 0xf0) = b" "cont_byte v 12 = b1" "cont_byte v 6 = b2" "cont_byte v 0 = b3"
    using assms(1,2) unfolding assms(3)
    by (auto simp: utf8_bits conts word_bits split: if_splits)
  moreover have "v < 2 ^ 21" using range4 [of b b1 b2 b3] by (simp add: assms(3))
  ultimately show ?thesis using assms(4) by (simp add: unicode_to_utf8_def lt_chain)
qed

lemma split5:
  assumes "utf8_len b = Some 4" "list_all is_cont [b1, b2, b3, b4]"
    "v = foldl utf8_acc (ucast b AND 0x3) [b1, b2, b3, b4]" "\<not> v < 0x200000"
  shows "unicode_to_utf8 v = [b, b1, b2, b3, b4]"
proof -
  have "ucast (drop_bit 24 v OR 0xf8) = b" "cont_byte v 18 = b1" "cont_byte v 12 = b2" "cont_byte v 6 = b3" "cont_byte v 0 = b4"
    using assms(1,2) unfolding assms(3)
    by (auto simp: utf8_bits conts word_bits split: if_splits)
  moreover have "v < 2 ^ 26" using range5 [of b b1 b2 b3 b4] by (simp add: assms(3))
  ultimately show ?thesis using assms(4) by (simp add: unicode_to_utf8_def lt_chain)
qed

lemma split6:
  assumes "utf8_len b = Some 5" "list_all is_cont [b1, b2, b3, b4, b5]"
    "v = foldl utf8_acc (ucast b AND 0x1) [b1, b2, b3, b4, b5]" "\<not> v < 0x4000000"
  shows "unicode_to_utf8 v = [b, b1, b2, b3, b4, b5]"
proof -
  have "ucast (drop_bit 30 v OR 0xfc) = b" "cont_byte v 24 = b1" "cont_byte v 18 = b2" "cont_byte v 12 = b3" "cont_byte v 6 = b4" "cont_byte v 0 = b5"
    using assms(1,2) unfolding assms(3)
    by (auto simp: utf8_bits conts word_bits split: if_splits)
  moreover have "v < 2 ^ 31" using range6 [of b b1 b2 b3 b4 b5] by (simp add: assms(3))
  ultimately show ?thesis using assms(4) by (simp add: unicode_to_utf8_def lt_chain)
qed



subsection \<open>The two directions of the round trip\<close>

lemma split_cases:
  assumes "utf8_len b = Some l" "list_all is_cont bs" "length bs = l"
    "v = foldl utf8_acc (ucast b AND utf8_first_code_mask ! (l - 1)) bs"
    "\<not> v < utf8_min_code ! (l - 1)"
  shows "unicode_to_utf8 v = b # bs \<and> v < 0x80000000 \<and> l \<le> 5"
proof -
  have "l \<in> {1, 2, 3, 4, 5}" using assms(1) by (auto simp: utf8_bits split: if_splits)
  then consider "l = 1" | "l = 2" | "l = 3" | "l = 4" | "l = 5" by blast
  then show ?thesis
  proof cases
    case 1
    with assms obtain b1 where "bs = [b1]" by (auto simp: length_Suc_conv)
    with 1 assms split2 [of b b1 v] range2 [of b b1] show ?thesis
      by (auto simp: utf8_first_code_mask_def utf8_min_code_def elim: order.strict_trans)
  next
    case 2
    with assms obtain b1 b2 where "bs = [b1, b2]" by (auto simp: length_Suc_conv numeral_eq_Suc)
    with 2 assms split3 [of b b1 b2 v] range3 [of b b1 b2] show ?thesis
      by (auto simp: utf8_first_code_mask_def utf8_min_code_def elim: order.strict_trans)
  next
    case 3
    with assms obtain b1 b2 b3 where "bs = [b1, b2, b3]" by (auto simp: length_Suc_conv numeral_eq_Suc)
    with 3 assms split4 [of b b1 b2 b3 v] range4 [of b b1 b2 b3] show ?thesis
      by (auto simp: utf8_first_code_mask_def utf8_min_code_def elim: order.strict_trans)
  next
    case 4
    with assms obtain b1 b2 b3 b4 where "bs = [b1, b2, b3, b4]"
      by (auto simp: length_Suc_conv numeral_eq_Suc)
    with 4 assms split5 [of b b1 b2 b3 b4 v] range5 [of b b1 b2 b3 b4] show ?thesis
      by (auto simp: utf8_first_code_mask_def utf8_min_code_def elim: order.strict_trans)
  next
    case 5
    with assms obtain b1 b2 b3 b4 b5 where "bs = [b1, b2, b3, b4, b5]"
      by (auto simp: length_Suc_conv numeral_eq_Suc)
    with 5 assms split6 [of b b1 b2 b3 b4 b5 v] range6 [of b b1 b2 b3 b4 b5] show ?thesis
      by (auto simp: utf8_first_code_mask_def utf8_min_code_def)
  qed
qed

lemma from_utf8_elim:
  assumes "unicode_from_utf8 s p m = Some (v, q)" "0 \<le> v"
  obtains (ascii) c where "rd s p = Some c" "c < 0x80" "v = uint c" "q = Suc p"
  | (multi) b l w where "rd s p = Some b" "utf8_len b = Some l" "int l \<le> m - 1"
      "utf8_cont s (Suc p) l (ucast b AND utf8_first_code_mask ! (l - 1)) = Some (Some (w, q))"
      "\<not> w < utf8_min_code ! (l - 1)" "v = sint w"
  using assms by (auto simp: unicode_from_utf8_def split: option.splits if_splits prod.splits)

lemma utf8_encode_decode:
  assumes "unicode_from_utf8 s p m = Some (v, q)" "0 \<le> v"
  shows "p < q \<and> q \<le> length s \<and> int q - int p \<le> max 1 m \<and> v < 2 ^ 31 \<and>
    take (q - p) (drop p s) = unicode_to_utf8 (word_of_int v)"
  using assms
proof (cases rule: from_utf8_elim)
  case (ascii c)
  then have "word_of_int v = (ucast c :: u32)" by simp
  moreover have "(ucast c :: u32) < 0x80" using ascii
    by (simp add: word_less_def unsigned_ucast_eq take_bit_int_eq_self order.strict_trans)
  moreover have "uint c < 0x80" using ascii by (simp add: word_less_def)
  moreover have "ucast (ucast c :: u32) = c" by (simp add: word_bits)
  ultimately show ?thesis using ascii
    by (auto simp: unicode_to_utf8_def rd_Some_iff take_Suc_conv_app_nth Cons_nth_drop_Suc [symmetric])
next
  case (multi b l w)
  then have p: "p < length s" "s ! p = b" by (auto simp: rd_Some_iff)
  let ?bs = "take l (drop (Suc p) s)"
  from multi(4) p have q: "q = Suc p + l" "q \<le> length s" "list_all is_cont ?bs"
    "w = foldl utf8_acc (ucast b AND utf8_first_code_mask ! (l - 1)) ?bs"
    by (auto simp: utf8_cont_spec)
  then have "length ?bs = l" by simp
  from split_cases [OF multi(2) q(3) this q(4) multi(5)]
  have enc: "unicode_to_utf8 w = b # ?bs" "w < 0x80000000" "l \<le> 5" by auto
  then have v: "v = uint w" using multi(6) by (simp add: sint_eq_uint)
  moreover have "drop p s = b # drop (Suc p) s" using p by (simp add: Cons_nth_drop_Suc [symmetric])
  moreover have "uint w < 2 ^ 31" using enc(2) by (simp add: word_less_def)
  ultimately show ?thesis using q enc multi(3) by auto
qed

text \<open>The decoder stops at the terminator of a C string: it never reads past it.\<close>

lemma utf8_cont_safe:
  "p \<le> z \<Longrightarrow> rd s z = Some 0 \<Longrightarrow> utf8_cont s p n c \<noteq> None \<and>
   (\<forall>v q. utf8_cont s p n c = Some (Some (v, q)) \<longrightarrow> q \<le> z)"
proof (induction s p n c rule: utf8_cont.induct)
  case (2 s p n c)
  show ?case
  proof (cases "p = z")
    case False
    with 2(2,3) have "p < length s" by (auto simp: rd_Some_iff)
    with False 2 show ?thesis by auto
  qed (use 2(3) in simp)
qed simp

lemma from_utf8_safe:
  assumes "p < z" "rd s z = Some 0"
  obtains v q where "unicode_from_utf8 s p m = Some (v, q)" "p \<le> q" "q \<le> z"
    "v = -1 \<and> q = p \<or> 0 \<le> v \<and> v < 2 ^ 31 \<and> p < q"
proof -
  obtain c where c: "rd s p = Some c" using assms by (auto simp: rd_Some_iff)
  obtain v q where vq: "unicode_from_utf8 s p m = Some (v, q)" "q \<le> z" "v = -1 \<and> q = p \<or> 0 \<le> v"
  proof (cases "c < 0x80")
    case True
    with c assms show ?thesis by (intro that [of "uint c" "Suc p"]) (auto simp: unicode_from_utf8_def)
  next
    case False
    show ?thesis
    proof (cases "\<exists>l. utf8_len c = Some l \<and> \<not> int l > m - 1 \<and>
        (\<exists>w q. utf8_cont s (Suc p) l (ucast c AND utf8_first_code_mask ! (l - 1)) = Some (Some (w, q)) \<and>
          \<not> w < utf8_min_code ! (l - 1))")
      case True
      then obtain l w q where l: "utf8_len c = Some l" "\<not> int l > m - 1"
        "utf8_cont s (Suc p) l (ucast c AND utf8_first_code_mask ! (l - 1)) = Some (Some (w, q))"
        "\<not> w < utf8_min_code ! (l - 1)" by blast
      have "Suc p \<le> length s" "Suc p \<le> z" using assms by (auto simp: rd_Some_iff)
      then have "q \<le> z" "length (take l (drop (Suc p) s)) = l"
        "list_all is_cont (take l (drop (Suc p) s))"
        "w = foldl utf8_acc (ucast c AND utf8_first_code_mask ! (l - 1)) (take l (drop (Suc p) s))"
        using l(3) utf8_cont_safe [OF _ assms(2), of "Suc p" l] by (auto simp: utf8_cont_spec)
      with split_cases [OF l(1) _ _ _ l(4)] have "w < 0x80000000" by blast
      then have "0 \<le> sint w" by (simp add: sint_eq_uint)
      with l c False \<open>q \<le> z\<close> show ?thesis
        by (intro that [of "sint w" q]) (auto simp: unicode_from_utf8_def)
    next
      case no: False
      show ?thesis
      proof (intro that [of "-1" p])
        show "unicode_from_utf8 s p m = Some (- 1, p)"
          using no c False utf8_cont_safe [OF _ assms(2), of "Suc p"] assms(1)
          by (auto simp: unicode_from_utf8_def split: option.splits) (metis option.distinct(1))
      qed (use assms in auto)
    qed
  qed
  with utf8_encode_decode [of s p m v q] show ?thesis by (intro that [of v q]) auto
qed

end
