(* ===== verification/RQSort.thy ===== *)
theory RQSort
  imports Prelude "HOL-Library.Monad_Syntax"
begin

unbundle bit_operations_syntax

text \<open>
  cutils.c: \<open>rqsort\<close>, a quicksort with an explicit stack of 50 segments, a heap sort for the
  segments that are too deep and an insertion sort for the short ones, and the block exchange
  functions it swaps elements with.

  The array is a list of elements; an element is \<open>size\<close> bytes of the C array, and the pointer
  \<open>base + i * size\<close> is the index \<open>i\<close>.  A comparison or a swap outside of the array, and a push
  on a full stack, have the value \<open>None\<close>.  The comparison function may be any function: what
  holds for all of them is memory safety, termination and that the result is a permutation.
\<close>

type_synonym 'a cmp_fun = "'a \<Rightarrow> 'a \<Rightarrow> int"

definition cmp_at :: "'a cmp_fun \<Rightarrow> 'a list \<Rightarrow> nat \<Rightarrow> nat \<Rightarrow> int option" where
  "cmp_at cmp xs i j =
     (if i < length xs \<and> j < length xs then Some (cmp (xs ! i) (xs ! j)) else None)"

definition swap_opt :: "'a list \<Rightarrow> nat \<Rightarrow> nat \<Rightarrow> 'a list option" where
  "swap_opt xs i j = (if i < length xs \<and> j < length xs then Some (swap_at xs i j) else None)"

text \<open>\<open>swap_block\<close>: \<open>n\<close> elements from index \<open>a\<close> on are exchanged with those from \<open>b\<close> on.\<close>

fun swap_block :: "'a list \<Rightarrow> nat \<Rightarrow> nat \<Rightarrow> nat \<Rightarrow> 'a list option" where
  "swap_block xs a b 0 = Some xs"
| "swap_block xs a b (Suc n) = do { xs \<leftarrow> swap_opt xs a b; swap_block xs (Suc a) (Suc b) n }"

subsection \<open>Heap sort of the \<open>n\<close> elements from index \<open>b\<close> on\<close>

text \<open>The sift-down loop (it is written out twice in the source).\<close>

function sift_down :: "'a cmp_fun \<Rightarrow> nat \<Rightarrow> nat \<Rightarrow> nat \<Rightarrow> 'a list \<Rightarrow> 'a list option" where
  "sift_down cmp b n r xs =
     (let c = r * 2 + 1 in
      if c < n then
        do {
          c \<leftarrow> (if c < n - 1 then
                  do { k \<leftarrow> cmp_at cmp xs (b + c) (b + c + 1); Some (if k \<le> 0 then c + 1 else c) }
                else Some c);
          k \<leftarrow> cmp_at cmp xs (b + r) (b + c);
          if k > 0 then Some xs
          else do { xs \<leftarrow> swap_opt xs (b + r) (b + c); sift_down cmp b n c xs }
        }
      else Some xs)"
  by pat_completeness auto
termination
  by (relation "measure (\<lambda>(cmp, b, n, r, xs). n - r)")
     (auto split: if_splits simp: bind_eq_Some_conv)

declare sift_down.simps [simp del]

fun heapify :: "'a cmp_fun \<Rightarrow> nat \<Rightarrow> nat \<Rightarrow> nat \<Rightarrow> 'a list \<Rightarrow> 'a list option" where
  "heapify cmp b n 0 xs = Some xs"
| "heapify cmp b n (Suc i) xs = do { xs \<leftarrow> sift_down cmp b n i xs; heapify cmp b n i xs }"

fun heap_extract :: "'a cmp_fun \<Rightarrow> nat \<Rightarrow> nat \<Rightarrow> 'a list \<Rightarrow> 'a list option" where
  "heap_extract cmp b 0 xs = Some xs"
| "heap_extract cmp b (Suc i) xs =
     do { xs \<leftarrow> swap_opt xs b (b + Suc i);
          xs \<leftarrow> sift_down cmp b (Suc i) 0 xs;
          heap_extract cmp b i xs }"

definition heapsortx :: "'a cmp_fun \<Rightarrow> nat \<Rightarrow> nat \<Rightarrow> 'a list \<Rightarrow> 'a list option" where
  "heapsortx cmp b nmemb xs =
     (if nmemb > 1 then
        do { xs \<leftarrow> heapify cmp b nmemb (nmemb div 2) xs; heap_extract cmp b (nmemb - 1) xs }
      else Some xs)"

subsection \<open>Median of three and partition\<close>

definition med3 :: "'a cmp_fun \<Rightarrow> 'a list \<Rightarrow> nat \<Rightarrow> nat \<Rightarrow> nat \<Rightarrow> nat option" where
  "med3 cmp xs a b c =
     do {
       ab \<leftarrow> cmp_at cmp xs a b;
       if ab < 0 then
         do { bc \<leftarrow> cmp_at cmp xs b c;
              if bc < 0 then Some b
              else do { ac \<leftarrow> cmp_at cmp xs a c; Some (if ac < 0 then c else a) } }
       else
         do { bc \<leftarrow> cmp_at cmp xs b c;
              if bc > 0 then Some b
              else do { ac \<leftarrow> cmp_at cmp xs a c; Some (if ac < 0 then a else c) } }
     }"

text \<open>
  The two scans of the partition loop.  \<open>lt\<close>, \<open>i\<close>, \<open>pj\<close> and \<open>gt\<close> are counted from the start
  \<open>p\<close> of the segment; the pointers \<open>plt\<close>, \<open>pi\<close> and \<open>pgt\<close> of the source are \<open>ptr\<close> plus these.
\<close>

function scan_up :: "'a cmp_fun \<Rightarrow> nat \<Rightarrow> nat \<Rightarrow> nat \<Rightarrow> nat \<Rightarrow> 'a list \<Rightarrow> ('a list \<times> nat \<times> nat) option" where
  "scan_up cmp p pj lt i xs =
     (if i < pj then
        do {
          c \<leftarrow> cmp_at cmp xs p (p + i);
          if c \<ge> 0 then
            (if c = 0 then
               do { xs \<leftarrow> swap_opt xs (p + lt) (p + i); scan_up cmp p pj (Suc lt) (Suc i) xs }
             else scan_up cmp p pj lt (Suc i) xs)
          else Some (xs, lt, i)
        }
      else Some (xs, lt, i))"
  by pat_completeness auto
termination by (relation "measure (\<lambda>(cmp, p, pj, lt, i, xs). pj - i)") auto

declare scan_up.simps [simp del]

fun scan_down :: "'a cmp_fun \<Rightarrow> nat \<Rightarrow> nat \<Rightarrow> nat \<Rightarrow> nat \<Rightarrow> 'a list \<Rightarrow> ('a list \<times> nat \<times> nat) option" where
  "scan_down cmp p i gt 0 xs = None"
| "scan_down cmp p i gt (Suc pj) xs =
     (if i < pj then
        do {
          c \<leftarrow> cmp_at cmp xs p (p + pj);
          if c \<le> 0 then
            (if c = 0 then
               do { xs \<leftarrow> swap_opt xs (p + (gt - 1)) (p + pj); scan_down cmp p i (gt - 1) pj xs }
             else scan_down cmp p i gt pj xs)
          else Some (xs, gt, pj)
        }
      else Some (xs, gt, pj))"

text \<open>
  The loop \<open>for(;;)\<close> that partitions: it returns the array and the final \<open>lt\<close>, \<open>i\<close> and \<open>gt\<close>.
\<close>

lemma scan_up_mono: "scan_up cmp p pj lt i xs = Some (ys, lt', i') \<Longrightarrow> i \<le> i'"
proof (induction cmp p pj lt i xs rule: scan_up.induct)
  case (1 cmp p pj lt i xs)
  from "1.prems" show ?case
    by (subst (asm) scan_up.simps)
       (auto simp: bind_eq_Some_conv split: if_splits dest: "1.IH"(1) "1.IH"(2))
qed

lemma scan_down_mono: "scan_down cmp p i gt pj xs = Some (ys, gt', pj') \<Longrightarrow> pj' < pj"
  by (induction cmp p i gt pj xs rule: scan_down.induct)
     (auto simp: bind_eq_Some_conv split: if_splits, fastforce+)

function partition_loop ::
  "'a cmp_fun \<Rightarrow> nat \<Rightarrow> nat \<Rightarrow> nat \<Rightarrow> nat \<Rightarrow> nat \<Rightarrow> 'a list \<Rightarrow> ('a list \<times> nat \<times> nat \<times> nat) option" where
  "partition_loop cmp p lt i pj gt xs =
     do {
       (xs, lt, i') \<leftarrow> scan_up cmp p pj lt i xs;
       (xs, gt, pj') \<leftarrow> scan_down cmp p i' gt pj xs;
       if i' \<ge> pj' then Some (xs, lt, i', gt)
       else do { xs \<leftarrow> swap_opt xs (p + i') (p + pj');
                 partition_loop cmp p lt (Suc i') pj' gt xs }
     }"
  by pat_completeness auto
termination
  by (relation "measure (\<lambda>(cmp, p, lt, i, pj, gt, xs). pj - i)")
     (auto dest!: scan_up_mono scan_down_mono)

declare partition_loop.simps [simp del]

text \<open>
  One round of the inner \<open>while\<close>: move the median to the start, partition, and bring the
  elements equal to the pivot into the middle.  The result has the sizes \<open>lt\<close> and \<open>gt\<close> after
  the block swaps: the smaller elements are \<open>[0, lt)\<close>, the larger ones \<open>[gt, nmemb)\<close>.
\<close>

definition partition :: "'a cmp_fun \<Rightarrow> nat \<Rightarrow> nat \<Rightarrow> 'a list \<Rightarrow> ('a list \<times> nat \<times> nat) option" where
  "partition cmp p nmemb xs =
     do {
       let m4 = nmemb div 4;
       m \<leftarrow> med3 cmp xs (p + m4) (p + 2 * m4) (p + 3 * m4);
       xs \<leftarrow> swap_opt xs p m;
       (xs, lt, i, gt) \<leftarrow> partition_loop cmp p 1 1 nmemb nmemb xs;
       let span2 = i - lt;
       let span = (if lt > span2 then span2 else lt);
       xs \<leftarrow> swap_block xs p (p + i - span) span;
       let lt = i - lt;
       let span2 = gt - i;
       let span = (if nmemb - gt > span2 then span2 else nmemb - gt);
       xs \<leftarrow> swap_block xs (p + i) (p + nmemb - span) span;
       Some (xs, lt, nmemb - (gt - i))
     }"

subsection \<open>Insertion sort\<close>

fun insert_down :: "'a cmp_fun \<Rightarrow> nat \<Rightarrow> nat \<Rightarrow> 'a list \<Rightarrow> 'a list option" where
  "insert_down cmp p 0 xs = Some xs"
| "insert_down cmp p (Suc j) xs =
     do {
       c \<leftarrow> cmp_at cmp xs (p + j) (p + Suc j);
       if c > 0 then do { xs \<leftarrow> swap_opt xs (p + Suc j) (p + j); insert_down cmp p j xs }
       else Some xs
     }"

function insertion_sort :: "'a cmp_fun \<Rightarrow> nat \<Rightarrow> nat \<Rightarrow> nat \<Rightarrow> 'a list \<Rightarrow> 'a list option" where
  "insertion_sort cmp p n i xs =
     (if i < n then do { xs \<leftarrow> insert_down cmp p i xs; insertion_sort cmp p n (Suc i) xs } else Some xs)"
  by pat_completeness auto
termination by (relation "measure (\<lambda>(cmp, p, n, i, xs). n - i)") auto

declare insertion_sort.simps [simp del]

subsection \<open>Memory safety and permutation, for any comparison function\<close>

text \<open>
  \<open>perm_in lo hi xs ys\<close>: \<open>ys\<close> is a permutation of \<open>xs\<close> that moves elements inside \<open>[lo, hi)\<close> only.
\<close>

definition perm_in :: "nat \<Rightarrow> nat \<Rightarrow> 'a list \<Rightarrow> 'a list \<Rightarrow> bool" where
  "perm_in lo hi xs ys \<longleftrightarrow> length ys = length xs \<and> mset ys = mset xs \<and>
     (\<forall>k<length xs. k < lo \<or> hi \<le> k \<longrightarrow> ys ! k = xs ! k)"

lemma perm_in_refl [simp]: "perm_in lo hi xs xs"
  by (simp add: perm_in_def)

lemma perm_in_trans: "perm_in lo hi xs ys \<Longrightarrow> perm_in lo hi ys zs \<Longrightarrow> perm_in lo hi xs zs"
  by (auto simp: perm_in_def)

lemma perm_in_mono: "perm_in lo hi xs ys \<Longrightarrow> lo' \<le> lo \<Longrightarrow> hi \<le> hi' \<Longrightarrow> perm_in lo' hi' xs ys"
  by (auto simp: perm_in_def)

lemma perm_in_length: "perm_in lo hi xs ys \<Longrightarrow> length ys = length xs"
  by (simp add: perm_in_def)

lemma perm_in_outside: "perm_in lo hi xs ys \<Longrightarrow> k < length xs \<Longrightarrow> k < lo \<or> hi \<le> k \<Longrightarrow> ys ! k = xs ! k"
  by (auto simp: perm_in_def)

lemma perm_in_swap:
  "lo \<le> i \<Longrightarrow> lo \<le> j \<Longrightarrow> i < hi \<Longrightarrow> j < hi \<Longrightarrow> hi \<le> length xs \<Longrightarrow> perm_in lo hi xs (swap_at xs i j)"
  by (auto simp: perm_in_def)

text \<open>
  The loop invariant of the partition, with pivot \<open>v\<close>: elements equal to the pivot at both ends,
  smaller ones in \<open>[lt, i)\<close>, larger ones in \<open>[pj, gt)\<close>.
\<close>

definition part_inv :: "'a cmp_fun \<Rightarrow> 'a \<Rightarrow> nat \<Rightarrow> nat \<Rightarrow> nat \<Rightarrow> nat \<Rightarrow> nat \<Rightarrow> nat \<Rightarrow> 'a list \<Rightarrow> bool" where
  "part_inv cmp v p n lt i pj gt xs \<longleftrightarrow>
     1 \<le> lt \<and> lt \<le> i \<and> i \<le> pj \<and> pj \<le> gt \<and> gt \<le> n \<and> p + n \<le> length xs \<and> xs ! p = v \<and>
     (\<forall>k\<in>{1..<lt}. cmp v (xs ! (p + k)) = 0) \<and>
     (\<forall>k\<in>{lt..<i}. cmp v (xs ! (p + k)) > 0) \<and>
     (\<forall>k\<in>{pj..<gt}. cmp v (xs ! (p + k)) < 0) \<and>
     (\<forall>k\<in>{gt..<n}. cmp v (xs ! (p + k)) = 0)"

lemma ball_first: "a < b \<Longrightarrow> (\<forall>k\<in>{a..<b}. P k) \<longleftrightarrow> P a \<and> (\<forall>k\<in>{Suc a..<b}. P k)"
  by (auto simp: Ball_def) (metis Suc_leI le_neq_implies_less)

lemma ball_last: "a \<le> b \<Longrightarrow> (\<forall>k\<in>{a..<Suc b}. P k) \<longleftrightarrow> (\<forall>k\<in>{a..<b}. P k) \<and> P b"
  by (auto simp: less_Suc_eq)

lemma nth_swap_off:
  "p + i < length xs \<Longrightarrow> p + j < length xs \<Longrightarrow>
   swap_at xs (p + i) (p + j) ! (p + k) = (if k = i then xs ! (p + j) else if k = j then xs ! (p + i) else xs ! (p + k))"
  by (simp add: swap_at_def nth_list_update)

lemma part_inv_up_eq:
  assumes "part_inv cmp v p n lt i pj gt xs" "i < pj" "cmp v (xs ! (p + i)) = 0"
  shows "part_inv cmp v p n (Suc lt) (Suc i) pj gt (swap_at xs (p + lt) (p + i))"
  using assms unfolding part_inv_def by (simp add: nth_swap_off)

lemma part_inv_up_gt:
  assumes "part_inv cmp v p n lt i pj gt xs" "i < pj" "cmp v (xs ! (p + i)) > 0"
  shows "part_inv cmp v p n lt (Suc i) pj gt xs"
  using assms unfolding part_inv_def by (simp add: ball_last)

lemma part_inv_down_eq:
  assumes "part_inv cmp v p n lt i (Suc pj) (Suc gt) xs" "i < pj" "cmp v (xs ! (p + pj)) = 0"
  shows "part_inv cmp v p n lt i pj gt (swap_at xs (p + gt) (p + pj))"
  using assms unfolding part_inv_def
  by (simp add: nth_swap_off ball_first [of gt n])

lemma part_inv_down_lt:
  assumes "part_inv cmp v p n lt i (Suc pj) gt xs" "i \<le> pj" "cmp v (xs ! (p + pj)) < 0"
  shows "part_inv cmp v p n lt i pj gt xs"
  using assms unfolding part_inv_def by (simp add: ball_first [of pj gt])

lemma part_inv_exchange:
  assumes "part_inv cmp v p n lt i (Suc pj) gt xs" "i < pj"
    "cmp v (xs ! (p + i)) < 0" "cmp v (xs ! (p + pj)) > 0"
  shows "part_inv cmp v p n lt (Suc i) pj gt (swap_at xs (p + i) (p + pj))"
  using assms unfolding part_inv_def
  by (simp add: nth_swap_off ball_last ball_first [of pj gt])

lemma part_inv_swap_in:
  assumes "part_inv cmp v p n lt i pj gt xs" "a < n" "b < n"
  shows "swap_opt xs (p + a) (p + b) = Some (swap_at xs (p + a) (p + b))"
    "perm_in p (p + n) xs (swap_at xs (p + a) (p + b))"
  using assms by (auto simp: part_inv_def swap_opt_def intro: perm_in_swap)

lemma part_inv_cmp:
  assumes "part_inv cmp v p n lt i pj gt xs" "a < n"
  shows "cmp_at cmp xs p (p + a) = Some (cmp v (xs ! (p + a)))"
  using assms by (auto simp: part_inv_def cmp_at_def)

lemma scan_up_inv:
  assumes "part_inv cmp v p n lt i pj gt xs"
  shows "\<exists>ys lt' i'. scan_up cmp p pj lt i xs = Some (ys, lt', i') \<and> part_inv cmp v p n lt' i' pj gt ys \<and>
    perm_in p (p + n) xs ys \<and> (i' < pj \<longrightarrow> cmp v (ys ! (p + i')) < 0)"
  using assms
proof (induction cmp p pj lt i xs rule: scan_up.induct)
  case (1 cmp p pj lt i xs)
  show ?case
  proof (cases "i < pj")
    case False
    with "1.prems" show ?thesis by (subst scan_up.simps) auto
  next
    case True
    with "1.prems" have n: "i < n" "lt < n" by (auto simp: part_inv_def)
    note c = part_inv_cmp [OF "1.prems" n(1)] and s = part_inv_swap_in [OF "1.prems" n(2,1)]
    consider "cmp v (xs ! (p + i)) = 0" | "cmp v (xs ! (p + i)) > 0" | "cmp v (xs ! (p + i)) < 0"
      by linarith
    then show ?thesis
    proof cases
      case 1
      from "1.IH"(1) [OF True c _ 1 s(1) part_inv_up_eq [OF "1.prems" True 1]] 1 True c s
      show ?thesis by (subst scan_up.simps) (auto intro: perm_in_trans)
    next
      case 2
      from "1.IH"(2) [OF True c _ _ part_inv_up_gt [OF "1.prems" True 2]] 2 True c
      show ?thesis by (subst scan_up.simps) auto
    next
      case 3
      with True c "1.prems" show ?thesis by (subst scan_up.simps) auto
    qed
  qed
qed

lemma scan_down_inv:
  assumes "part_inv cmp v p n lt i pj gt xs" "i < pj \<longrightarrow> cmp v (xs ! (p + i)) < 0"
  shows "\<exists>ys gt' pj'. scan_down cmp p i gt pj xs = Some (ys, gt', pj') \<and> perm_in p (p + n) xs ys \<and>
    (if pj' \<le> i then part_inv cmp v p n lt i i gt' ys
     else part_inv cmp v p n lt i (Suc pj') gt' ys \<and> cmp v (ys ! (p + i)) < 0 \<and> cmp v (ys ! (p + pj')) > 0)"
  using assms
proof (induction cmp p i gt pj xs rule: scan_down.induct)
  case (1 cmp p i gt xs)
  then show ?case by (auto simp: part_inv_def)
next
  case (2 cmp p i gt pj xs)
  show ?case
  proof (cases "i < pj")
    case False
    with "2.prems" have "part_inv cmp v p n lt i i gt xs"
      by (cases "i = pj") (auto simp: part_inv_def ball_first [of pj gt])
    with False show ?thesis by auto
  next
    case True
    with "2.prems" obtain g where g: "gt = Suc g" by (cases gt) (auto simp: part_inv_def)
    with True "2.prems" have n: "pj < n" "g < n" "1 \<le> i" "i < pj" "pj \<le> g" "p + n \<le> length xs"
      by (auto simp: part_inv_def)
    note c = part_inv_cmp [OF "2.prems"(1) n(1)] and s = part_inv_swap_in [OF "2.prems"(1) n(2,1)]
    consider "cmp v (xs ! (p + pj)) = 0" | "cmp v (xs ! (p + pj)) < 0" | "cmp v (xs ! (p + pj)) > 0"
      by linarith
    then show ?thesis
    proof cases
      case 1
      have "cmp v (swap_at xs (p + g) (p + pj) ! (p + i)) < 0"
        using "2.prems" n by (auto simp: nth_swap_off)
      with "2.IH"(1) [OF True c _ 1, of "swap_at xs (p + g) (p + pj)"]
        part_inv_down_eq [OF "2.prems"(1) [unfolded g] True 1] 1 True c s g
      show ?thesis by (fastforce intro: perm_in_trans)
    next
      case 2
      from "2.IH"(2) [OF True c _ _ part_inv_down_lt [OF "2.prems"(1) less_imp_le [OF True] 2]] 2 True c "2.prems"
      show ?thesis by auto
    next
      case 3
      with True c "2.prems" show ?thesis by auto
    qed
  qed
qed

lemma partition_loop_inv:
  assumes "part_inv cmp v p n lt i pj gt xs"
  shows "\<exists>ys lt' i' gt'. partition_loop cmp p lt i pj gt xs = Some (ys, lt', i', gt') \<and>
    perm_in p (p + n) xs ys \<and> part_inv cmp v p n lt' i' i' gt' ys"
  using assms
proof (induction cmp p lt i pj gt xs rule: partition_loop.induct)
  case (1 cmp p lt i pj gt xs)
  from scan_up_inv [OF "1.prems"] obtain ys lt' i' where
    u: "scan_up cmp p pj lt i xs = Some (ys, lt', i')" "part_inv cmp v p n lt' i' pj gt ys"
      "perm_in p (p + n) xs ys" "i' < pj \<longrightarrow> cmp v (ys ! (p + i')) < 0" by blast
  from scan_down_inv [OF u(2,4)] obtain zs gt' pj' where
    d: "scan_down cmp p i' gt pj ys = Some (zs, gt', pj')" "perm_in p (p + n) ys zs"
      "if pj' \<le> i' then part_inv cmp v p n lt' i' i' gt' zs
       else part_inv cmp v p n lt' i' (Suc pj') gt' zs \<and> cmp v (zs ! (p + i')) < 0 \<and> cmp v (zs ! (p + pj')) > 0"
    by blast
  show ?case
  proof (cases "pj' \<le> i'")
    case True
    with u d show ?thesis by (subst partition_loop.simps) (auto intro: perm_in_trans)
  next
    case False
    then have n: "i' < n" "pj' < n" using d(3) by (auto simp: part_inv_def)
    from False d(3) have inv: "part_inv cmp v p n lt' i' (Suc pj') gt' zs" by simp
    note s = part_inv_swap_in [OF inv n]
    have "part_inv cmp v p n lt' (Suc i') pj' gt' (swap_at zs (p + i') (p + pj'))"
      using False d(3) by (auto intro: part_inv_exchange)
    from "1.IH" [OF u(1) refl refl d(1) refl refl False s(1) this] u d s False
    show ?thesis by (subst partition_loop.simps) (fastforce intro: perm_in_trans)
  qed
qed

lemma swap_block_spec:
  assumes "a + n \<le> b" "b + n \<le> length xs"
  shows "\<exists>ys. swap_block xs a b n = Some ys \<and> length ys = length xs \<and> mset ys = mset xs \<and>
    (\<forall>k<length xs. ys ! k = (if a \<le> k \<and> k < a + n then xs ! (k - a + b)
                             else if b \<le> k \<and> k < b + n then xs ! (k - b + a) else xs ! k))"
  using assms
proof (induction n arbitrary: xs a b)
  case (Suc n)
  have ab: "a < length xs" "b < length xs" "a \<noteq> b" using Suc.prems by auto
  let ?x = "swap_at xs a b"
  from Suc.IH [of "Suc a" "Suc b" ?x] Suc.prems obtain ys where
    ys: "swap_block ?x (Suc a) (Suc b) n = Some ys" "length ys = length xs" "mset ys = mset ?x"
      "\<forall>k<length xs. ys ! k = (if Suc a \<le> k \<and> k < Suc a + n then ?x ! (k - Suc a + Suc b)
         else if Suc b \<le> k \<and> k < Suc b + n then ?x ! (k - Suc b + Suc a) else ?x ! k)"
    by auto
  have "ys ! k = (if a \<le> k \<and> k < a + Suc n then xs ! (k - a + b)
         else if b \<le> k \<and> k < b + Suc n then xs ! (k - b + a) else xs ! k)" if "k < length xs" for k
  proof -
    consider "k = a" | "k = b" | "a < k" "k < a + Suc n" | "b < k" "k < b + Suc n"
      | "k < a \<or> a + Suc n \<le> k" "k < b \<or> b + Suc n \<le> k" by linarith
    moreover have "a < k \<Longrightarrow> Suc (k + b - Suc a) = k + b - a" "b < k \<Longrightarrow> Suc (k + a - Suc b) = k + a - b"
      by auto
    ultimately show ?thesis
      using that ab Suc.prems ys(4) by cases (auto simp: nth_swap_at)
  qed
  with ys ab show ?case by (auto simp: swap_opt_def)
qed auto

lemma block_rotate:
  assumes "s = min l (m - l)" "l \<le> m" "q + m \<le> length xs"
    "\<forall>k\<in>{0..<l}. P (xs ! (q + k))" "\<forall>k\<in>{l..<m}. Q (xs ! (q + k))"
  shows "\<exists>ys. swap_block xs q (q + m - s) s = Some ys \<and> perm_in q (q + m) xs ys \<and>
    (\<forall>k\<in>{0..<m - l}. Q (ys ! (q + k))) \<and> (\<forall>k\<in>{m - l..<m}. P (ys ! (q + k)))"
proof -
  have "q + s \<le> q + m - s" "q + m - s + s \<le> length xs"
    using assms(1-3) by (auto simp: min_def split: if_splits)
  from swap_block_spec [OF this] obtain ys where
    ys: "swap_block xs q (q + m - s) s = Some ys" "length ys = length xs" "mset ys = mset xs"
      "\<forall>k<length xs. ys ! k = (if q \<le> k \<and> k < q + s then xs ! (k - q + (q + m - s))
         else if q + m - s \<le> k \<and> k < q + m - s + s then xs ! (k - (q + m - s) + q) else xs ! k)"
    by blast
  have off: "ys ! (q + k) = (if k < s then xs ! (q + (m - s + k))
         else if m - s \<le> k then xs ! (q + (k - (m - s))) else xs ! (q + k))" if "k < m" for k
  proof -
    obtain d where d: "m = s + d" using assms(1) by (metis le_add_diff_inverse min.cobounded2 diff_le_self order.trans)
    have "q + k < length xs" using that assms(3) by simp
    note y = ys(4) [rule_format, OF this]
    have e: "q + m - s = q + d" "m - s = d" "k < d + s" using d that by auto
    have c: "q + k - q + (q + d) = q + (d + k)" "q + k - (q + d) + q = q + (k - d)" by simp_all
    have l: "q \<le> q + k" "q + k < q + s \<longleftrightarrow> k < s" "q + d \<le> q + k \<longleftrightarrow> d \<le> k" "q + k < q + d + s"
      using e(3) by auto
    show ?thesis using y e(3) unfolding e(1,2) c l by (cases "k < s"; cases "d \<le> k") simp_all
  qed
  have "perm_in q (q + m) xs ys"
    unfolding perm_in_def
  proof (intro conjI allI impI)
    fix k assume k: "k < length xs" "k < q \<or> q + m \<le> k"
    have "s \<le> m" using assms(1) by (auto simp: min_def split: if_splits)
    with k(2) have n: "\<not> (q \<le> k \<and> k < q + s)" "\<not> (q + m - s \<le> k \<and> k < q + m - s + s)" by linarith+
    show "ys ! k = xs ! k" by (simp only: ys(4) [rule_format, OF k(1)] n if_False)
  qed (use ys in auto)
  moreover have "Q (ys ! (q + k))" if "k < m - l" for k
  proof (cases "k < s")
    case True
    have "l \<le> m - s + k" "m - s + k < m" "k < m"
      using True that assms(1,2) by (auto simp: min_def split: if_splits)
    with True off [of k] assms(5) show ?thesis by auto
  next
    case False
    then have "l \<le> k \<and> \<not> m - s \<le> k" using that assms(1,2) by (auto simp: min_def split: if_splits)
    with False that off [of k] assms(5) show ?thesis by auto
  qed
  moreover have "P (ys ! (q + k))" if "m - l \<le> k" "k < m" for k
  proof (cases "m - s \<le> k")
    case True
    then have "\<not> k < s \<and> k - (m - s) < l" using that assms(1,2) by (auto simp: min_def split: if_splits)
    moreover from this have "P (xs ! (q + (k - (m - s))))" using assms(4) by auto
    ultimately show ?thesis using True that off [of k] by simp
  next
    case False
    then have "\<not> k < s \<and> k < l" using that assms(1,2) by (auto simp: min_def split: if_splits)
    with False that off [of k] assms(4) show ?thesis by auto
  qed
  ultimately show ?thesis using ys(1) by auto
qed

lemma med3_in:
  assumes "a < length xs" "b < length xs" "c < length xs"
  shows "\<exists>m. med3 cmp xs a b c = Some m \<and> m \<in> {a, b, c}"
  using assms by (auto simp: med3_def cmp_at_def)

text \<open>What a partition round leaves: smaller elements, the pivot and its equals, larger elements.\<close>

definition part_post :: "'a cmp_fun \<Rightarrow> 'a \<Rightarrow> nat \<Rightarrow> nat \<Rightarrow> nat \<Rightarrow> nat \<Rightarrow> 'a list \<Rightarrow> bool" where
  "part_post cmp v p n lt gt ys \<longleftrightarrow> lt < gt \<and> gt \<le> n \<and>
     (\<forall>k\<in>{0..<lt}. cmp v (ys ! (p + k)) > 0) \<and>
     (\<forall>k\<in>{lt..<gt}. ys ! (p + k) = v \<or> cmp v (ys ! (p + k)) = 0) \<and>
     (\<forall>k\<in>{gt..<n}. cmp v (ys ! (p + k)) < 0)"

lemma partition_spec:
  assumes "6 < n" "p + n \<le> length xs"
  shows "\<exists>ys lt gt v. partition cmp p n xs = Some (ys, lt, gt) \<and> perm_in p (p + n) xs ys \<and>
    part_post cmp v p n lt gt ys"
proof -
  let ?m4 = "n div 4"
  have "3 * ?m4 < n" using assms(1) by linarith
  with med3_in [of "p + ?m4" xs "p + 2 * ?m4" "p + 3 * ?m4" cmp] assms obtain m where
    m: "med3 cmp xs (p + ?m4) (p + 2 * ?m4) (p + 3 * ?m4) = Some m" "m \<in> {p + ?m4, p + 2 * ?m4, p + 3 * ?m4}"
    by auto
  with \<open>3 * ?m4 < n\<close> have mr: "p \<le> m" "m < p + n" by auto
  let ?x = "swap_at xs p m"
  have x: "swap_opt xs p m = Some ?x" "perm_in p (p + n) xs ?x"
    using mr assms by (auto simp: swap_opt_def intro!: perm_in_swap)
  have "part_inv cmp (?x ! p) p n 1 1 n n ?x" using assms by (simp add: part_inv_def)
  from partition_loop_inv [OF this] obtain ys lt i gt where
    l: "partition_loop cmp p 1 1 n n ?x = Some (ys, lt, i, gt)" "perm_in p (p + n) ?x ys"
      "part_inv cmp (?x ! p) p n lt i i gt ys" by blast
  let ?v = "?x ! p"
  from l(3) have i: "1 \<le> lt" "lt \<le> i" "i \<le> gt" "gt \<le> n" "p + n \<le> length ys" "ys ! p = ?v"
    "\<forall>k\<in>{1..<lt}. cmp ?v (ys ! (p + k)) = 0" "\<forall>k\<in>{lt..<i}. cmp ?v (ys ! (p + k)) > 0"
    "\<forall>k\<in>{i..<gt}. cmp ?v (ys ! (p + k)) < 0" "\<forall>k\<in>{gt..<n}. cmp ?v (ys ! (p + k)) = 0"
    by (auto simp: part_inv_def)
  have "\<forall>k\<in>{0..<lt}. ys ! (p + k) = ?v \<or> cmp ?v (ys ! (p + k)) = 0"
    using i(1,6,7) by (auto simp: ball_first [of 0 lt])
  from block_rotate [OF refl i(2) _ this i(8)] i obtain zs where
    z: "swap_block ys p (p + i - min lt (i - lt)) (min lt (i - lt)) = Some zs" "perm_in p (p + i) ys zs"
      "\<forall>k\<in>{0..<i - lt}. cmp ?v (zs ! (p + k)) > 0"
      "\<forall>k\<in>{i - lt..<i}. zs ! (p + k) = ?v \<or> cmp ?v (zs ! (p + k)) = 0" by auto
  have zeq: "zs ! (p + k) = ys ! (p + k)" if "i \<le> k" "k < n" for k
    using perm_in_outside [OF z(2), of "p + k"] that i by auto
  have lz: "length zs = length ys" using z(2) by (rule perm_in_length)
  have "\<forall>k\<in>{0..<gt - i}. cmp ?v (zs ! (p + i + k)) < 0"
    using i(4) i(9) [rule_format, of "i + _"] zeq [of "i + _"] by (auto simp: add.assoc)
  moreover have "\<forall>k\<in>{gt - i..<n - i}. cmp ?v (zs ! (p + i + k)) = 0"
  proof
    fix k assume "k \<in> {gt - i..<n - i}"
    then have "gt \<le> i + k" "i + k < n" by auto
    then show "cmp ?v (zs ! (p + i + k)) = 0"
      using i(10) [rule_format, of "i + k"] zeq [of "i + k"] by (simp add: add.assoc)
  qed
  ultimately have zP: "\<forall>k\<in>{0..<gt - i}. cmp ?v (zs ! (p + i + k)) < 0"
    "\<forall>k\<in>{gt - i..<n - i}. cmp ?v (zs ! (p + i + k)) = 0" by blast+
  have "gt - i \<le> n - i" "p + i + (n - i) \<le> length zs" using i lz by auto
  from block_rotate [OF refl this zP] i obtain ws where
    w: "swap_block zs (p + i) (p + n - min (gt - i) (n - gt)) (min (gt - i) (n - gt)) = Some ws"
      "perm_in (p + i) (p + n) zs ws"
      "\<forall>k\<in>{0..<n - gt}. cmp ?v (ws ! (p + i + k)) = 0"
      "\<forall>k\<in>{n - gt..<n - i}. cmp ?v (ws ! (p + i + k)) < 0" by auto
  have weq: "ws ! (p + k) = zs ! (p + k)" if "k < i" for k
    using perm_in_outside [OF w(2), of "p + k"] that i lz by auto
  let ?gt = "n - (gt - i)"
  have "part_post cmp ?v p n (i - lt) ?gt ws"
  proof -
    have "ws ! (p + k) = ?v \<or> cmp ?v (ws ! (p + k)) = 0" if "i - lt \<le> k" "k < ?gt" for k
    proof (cases "k < i")
      case True
      with that z(4) weq show ?thesis by auto
    next
      case False
      with that i w(3) [rule_format, of "k - i"] show ?thesis by auto
    qed
    moreover have "cmp ?v (ws ! (p + k)) < 0" if "?gt \<le> k" "k < n" for k
    proof -
      have "n - gt \<le> k - i" "k - i < n - i" "i \<le> k" using that i by linarith+
      with w(4) [rule_format, of "k - i"] show ?thesis by (simp add: add.assoc)
    qed
    ultimately show ?thesis using i z(3) weq by (auto simp: part_post_def)
  qed
  moreover have "partition cmp p n xs = Some (ws, i - lt, ?gt)"
  proof -
    have "(if lt > i - lt then i - lt else lt) = min lt (i - lt)"
      "(if n - gt > gt - i then gt - i else n - gt) = min (gt - i) (n - gt)" by auto
    with m(1) x(1) l(1) z(1) w(1) show ?thesis by (simp add: partition_def Let_def)
  qed
  moreover have "perm_in p (p + n) ys zs" "perm_in p (p + n) zs ws"
    using perm_in_mono [OF z(2)] perm_in_mono [OF w(2)] i by auto
  then have "perm_in p (p + n) xs ws" using x(2) l(2) by (blast intro: perm_in_trans)
  ultimately show ?thesis by blast
qed

text \<open>The child the sift-down loop compares with, and the loop on an array that holds the heap.\<close>

definition sift_child :: "'a cmp_fun \<Rightarrow> nat \<Rightarrow> nat \<Rightarrow> nat \<Rightarrow> 'a list \<Rightarrow> nat" where
  "sift_child cmp b n r xs =
     (if 2 * r + 2 < n \<and> cmp (xs ! (b + (2 * r + 1))) (xs ! (b + (2 * r + 2))) \<le> 0
      then 2 * r + 2 else 2 * r + 1)"

lemma sift_child_range: "2 * r + 1 < n \<Longrightarrow> r < sift_child cmp b n r xs \<and> sift_child cmp b n r xs < n"
  by (simp add: sift_child_def)

lemma sift_down_unfold:
  "b + n \<le> length xs \<Longrightarrow> sift_down cmp b n r xs =
     (if 2 * r + 1 < n then
        if cmp (xs ! (b + r)) (xs ! (b + sift_child cmp b n r xs)) > 0 then Some xs
        else sift_down cmp b n (sift_child cmp b n r xs) (swap_at xs (b + r) (b + sift_child cmp b n r xs))
      else Some xs)"
  by (subst sift_down.simps)
     (auto simp: Let_def cmp_at_def swap_opt_def sift_child_def mult.commute numeral_2_eq_2)

lemma sift_down_perm:
  "b + n \<le> length xs \<Longrightarrow> \<exists>ys. sift_down cmp b n r xs = Some ys \<and> perm_in b (b + n) xs ys"
proof (induction "n - r" arbitrary: r xs rule: less_induct)
  case less
  let ?c = "sift_child cmp b n r xs"
  show ?case
  proof (cases "2 * r + 1 < n \<and> \<not> cmp (xs ! (b + r)) (xs ! (b + ?c)) > 0")
    case True
    then have c: "r < ?c" "?c < n" using sift_child_range by blast+
    then have p: "perm_in b (b + n) xs (swap_at xs (b + r) (b + ?c))"
      using less.prems by (intro perm_in_swap) auto
    obtain ys where "sift_down cmp b n ?c (swap_at xs (b + r) (b + ?c)) = Some ys"
      "perm_in b (b + n) (swap_at xs (b + r) (b + ?c)) ys"
      using less.hyps [of ?c "swap_at xs (b + r) (b + ?c)"] diff_less_mono2 [OF c(1)] c less.prems by force
    with True p less.prems show ?thesis by (subst sift_down_unfold) (auto intro: perm_in_trans)
  next
    case False
    then show ?thesis using less.prems by (subst sift_down_unfold) auto
  qed
qed

lemma heapify_perm:
  "b + n \<le> length xs \<Longrightarrow> \<exists>ys. heapify cmp b n i xs = Some ys \<and> perm_in b (b + n) xs ys"
proof (induction i arbitrary: xs)
  case (Suc i)
  from sift_down_perm [OF Suc.prems, of cmp i] obtain ys where
    ys: "sift_down cmp b n i xs = Some ys" "perm_in b (b + n) xs ys" by blast
  with Suc.IH [of ys] Suc.prems show ?case
    by (fastforce simp: perm_in_length intro: perm_in_trans)
qed simp

lemma heap_extract_perm:
  "b + Suc i \<le> length xs \<Longrightarrow> \<exists>ys. heap_extract cmp b i xs = Some ys \<and> perm_in b (b + Suc i) xs ys"
proof (induction i arbitrary: xs)
  case (Suc i)
  let ?x = "swap_at xs b (b + Suc i)"
  have x: "swap_opt xs b (b + Suc i) = Some ?x" "perm_in b (b + Suc (Suc i)) xs ?x"
    using Suc.prems by (auto simp: swap_opt_def intro!: perm_in_swap)
  from sift_down_perm [of b "Suc i" ?x cmp 0] Suc.prems obtain ys where
    ys: "sift_down cmp b (Suc i) 0 ?x = Some ys" "perm_in b (b + Suc i) ?x ys" by auto
  with Suc.IH [of ys] Suc.prems obtain zs where
    zs: "heap_extract cmp b i ys = Some zs" "perm_in b (b + Suc i) ys zs" by (auto simp: perm_in_length)
  have "perm_in b (b + Suc (Suc i)) ?x ys" "perm_in b (b + Suc (Suc i)) ys zs"
    by (rule perm_in_mono [OF ys(2)] perm_in_mono [OF zs(2)]; simp)+
  with x(2) have "perm_in b (b + Suc (Suc i)) xs zs" by (blast intro: perm_in_trans)
  with x(1) ys(1) zs(1) show ?case by simp
qed simp

lemma heapsortx_perm:
  "b + n \<le> length xs \<Longrightarrow> \<exists>ys. heapsortx cmp b n xs = Some ys \<and> perm_in b (b + n) xs ys"
proof (cases "n > 1")
  case True
  assume n: "b + n \<le> length xs"
  from heapify_perm [OF n, of cmp "n div 2"] obtain ys where
    ys: "heapify cmp b n (n div 2) xs = Some ys" "perm_in b (b + n) xs ys" by blast
  with heap_extract_perm [of b "n - 1" ys cmp] n True show ?thesis
    by (fastforce simp: heapsortx_def perm_in_length intro: perm_in_trans)
qed (simp add: heapsortx_def)

lemma insert_down_perm:
  "p + j < length xs \<Longrightarrow> \<exists>ys. insert_down cmp p j xs = Some ys \<and> perm_in p (p + Suc j) xs ys"
proof (induction j arbitrary: xs)
  case (Suc j)
  let ?x = "swap_at xs (p + Suc j) (p + j)"
  have x: "swap_opt xs (p + Suc j) (p + j) = Some ?x" "perm_in p (p + Suc (Suc j)) xs ?x"
    using Suc.prems by (auto simp: swap_opt_def intro!: perm_in_swap)
  have c: "cmp_at cmp xs (p + j) (p + Suc j) = Some (cmp (xs ! (p + j)) (xs ! (p + Suc j)))"
    using Suc.prems by (simp add: cmp_at_def)
  from Suc.IH [of ?x] Suc.prems obtain ys where
    ys: "insert_down cmp p j ?x = Some ys" "perm_in p (p + Suc j) ?x ys" by auto
  have "perm_in p (p + Suc (Suc j)) ?x ys" by (rule perm_in_mono [OF ys(2)]; simp)
  with x(2) have "perm_in p (p + Suc (Suc j)) xs ys" by (blast intro: perm_in_trans)
  with ys(1) x c show ?case by (auto simp del: add_Suc_right)
qed simp

lemma insertion_sort_perm:
  "p + n \<le> length xs \<Longrightarrow> \<exists>ys. insertion_sort cmp p n i xs = Some ys \<and> perm_in p (p + n) xs ys"
proof (induction cmp p n i xs rule: insertion_sort.induct)
  case (1 cmp p n i xs)
  show ?case
  proof (cases "i < n")
    case True
    from insert_down_perm [of p i xs cmp] True "1.prems" obtain ys where
      ys: "insert_down cmp p i xs = Some ys" "perm_in p (p + Suc i) xs ys" by auto
    then have p: "perm_in p (p + n) xs ys" using True by (auto intro: perm_in_mono)
    with "1.IH" [OF True ys(1)] "1.prems" True ys(1) show ?thesis
      by (subst insertion_sort.simps) (auto simp: perm_in_length intro: perm_in_trans)
  qed (subst insertion_sort.simps, simp)
qed

text \<open>
  \<open>rqsort\<close>: \<open>stack\<close> is the local stack of pending segments (start, count, depth), its top first,
  and \<open>cur\<close> the segment the inner loop works on.  A push on a stack of 50 entries is \<open>None\<close>.
\<close>

type_synonym seg = "nat \<times> nat \<times> nat"

definition rq_weight :: "seg list \<Rightarrow> seg option \<Rightarrow> nat" where
  "rq_weight stack cur =
     sum_list (map (\<lambda>(_, c, _). 3 * c + 2) stack) + (case cur of None \<Rightarrow> 0 | Some (_, n, _) \<Rightarrow> 3 * n + 1)"

definition push_seg :: "seg list \<Rightarrow> seg \<Rightarrow> seg list option" where
  "push_seg stack s = (if length stack < 50 then Some (s # stack) else None)"

function rqsort_loop ::
  "'a cmp_fun \<Rightarrow> seg list \<Rightarrow> seg option \<Rightarrow> 'a list \<Rightarrow> 'a list option" where
  "rqsort_loop cmp stack None xs =
     (case stack of [] \<Rightarrow> Some xs | s # stack' \<Rightarrow> rqsort_loop cmp stack' (Some s) xs)"
| "rqsort_loop cmp stack (Some (p, n, d)) xs =
     (if n > 6 then
        if p + n > length xs then None
        else if Suc d > 50 then
          do { xs \<leftarrow> heapsortx cmp p n xs; rqsort_loop cmp stack None xs }
        else
          do {
            (xs, lt, gt) \<leftarrow> partition cmp p n xs;
            if lt > n - gt then
              do { stack \<leftarrow> push_seg stack (p, lt, Suc d);
                   rqsort_loop cmp stack (Some (p + gt, n - gt, Suc d)) xs }
            else
              do { stack \<leftarrow> push_seg stack (p + gt, n - gt, Suc d);
                   rqsort_loop cmp stack (Some (p, lt, Suc d)) xs }
          }
      else
        do { xs \<leftarrow> insertion_sort cmp p n 1 xs; rqsort_loop cmp stack None xs })"
  by pat_completeness auto
termination
proof (relation "measure (\<lambda>(cmp, stack, cur, xs). rq_weight stack cur)", goal_cases)
  case (4 cmp stack p n d xs x xs1 y lt gt stack1)
  then show ?case using partition_spec [of n p xs cmp] 
    by (auto simp: rq_weight_def push_seg_def part_post_def split: if_splits)
next
  case (5 cmp stack p n d xs x xs1 y lt gt stack1)
  then show ?case using partition_spec [of n p xs cmp] 
    by (auto simp: rq_weight_def push_seg_def part_post_def split: if_splits)
qed (auto simp: rq_weight_def)

definition rqsort :: "'a cmp_fun \<Rightarrow> nat \<Rightarrow> nat \<Rightarrow> 'a list \<Rightarrow> 'a list option" where
  "rqsort cmp base nmemb xs =
     (if nmemb < 2 then Some xs else rqsort_loop cmp [(base, nmemb, 0)] None xs)"

declare rqsort_loop.simps(2) [simp del]

text \<open>
  The stack never overflows: the depths of the pending segments are at most 50, they decrease
  strictly from the top of the stack, and only the first segment has depth 0.
\<close>

definition stack_ok :: "nat \<Rightarrow> seg list \<Rightarrow> bool" where
  "stack_ok d stack \<longleftrightarrow> d \<le> 50 \<and> sorted_wrt (\<lambda>s t. snd (snd t) < snd (snd s)) stack \<and>
     (\<forall>s\<in>set stack. 0 < snd (snd s) \<and> snd (snd s) \<le> d)"

lemma stack_ok_length: "stack_ok d stack \<Longrightarrow> length stack \<le> d"
proof (induction stack arbitrary: d)
  case (Cons s stack)
  then have "stack_ok (snd (snd s) - 1) stack" "0 < snd (snd s)" "snd (snd s) \<le> d" 
    by (auto simp: stack_ok_def)
  with Cons.IH show ?case by fastforce
qed simp

lemma stack_ok_push:
  assumes "stack_ok d stack" "Suc d \<le> 50"
  shows "push_seg stack (p, n, Suc d) = Some ((p, n, Suc d) # stack)" "stack_ok (Suc d) ((p, n, Suc d) # stack)"
  using assms stack_ok_length [OF assms(1)] by (auto simp: push_seg_def stack_ok_def less_Suc_eq_le)

definition segs_in :: "nat \<Rightarrow> nat \<Rightarrow> seg list \<Rightarrow> bool" where
  "segs_in lo hi ss \<longleftrightarrow> (\<forall>(p, n, d)\<in>set ss. lo \<le> p \<and> p + n \<le> hi)"

abbreviation cur_segs :: "seg option \<Rightarrow> seg list" where
  "cur_segs cur \<equiv> (case cur of None \<Rightarrow> [] | Some s \<Rightarrow> [s])"

definition cur_depth :: "seg list \<Rightarrow> seg option \<Rightarrow> nat" where
  "cur_depth stack cur = (case cur of Some (_, _, d) \<Rightarrow> d | None \<Rightarrow> 50)"

lemma rqsort_loop_perm:
  assumes "stack_ok (cur_depth stack cur) stack" "segs_in lo hi (cur_segs cur @ stack)" "hi \<le> length xs"
  shows "\<exists>ys. rqsort_loop cmp stack cur xs = Some ys \<and> perm_in lo hi xs ys"
  using assms
proof (induction cmp stack cur xs rule: rqsort_loop.induct)
  case (1 cmp stack xs)
  show ?case
  proof (cases stack)
    case (Cons s st)
    with "1.prems" have "stack_ok (cur_depth st (Some s)) st" 
      by (auto simp: stack_ok_def cur_depth_def split: prod.splits)
    with "1.IH" [OF Cons] "1.prems" Cons show ?thesis by simp
  qed simp
next
  case (2 cmp stack p n d xs)
  have pn: "lo \<le> p" "p + n \<le> hi" "p + n \<le> length xs" "segs_in lo hi stack"
    using "2.prems" by (auto simp: segs_in_def)
  have ok: "stack_ok d stack" using "2.prems" by (simp add: cur_depth_def)
  have pop: "stack_ok (cur_depth stack None) stack" using ok by (auto simp: stack_ok_def cur_depth_def)
  consider "n \<le> 6" | "n > 6" "Suc d > 50" | "n > 6" "Suc d \<le> 50" by linarith
  then show ?case
  proof cases
    case 1
    from insertion_sort_perm [OF pn(3), of cmp 1] obtain ys where
      ys: "insertion_sort cmp p n 1 xs = Some ys" "perm_in p (p + n) xs ys" by blast
    then have p: "perm_in lo hi xs ys" using pn by (blast intro: perm_in_mono)
    have "\<not> 6 < n" using 1 by simp
    from "2.IH"(4) [OF this ys(1) pop] pn p "2.prems"(3) 1 ys(1) show ?thesis
      by (subst rqsort_loop.simps) (auto simp: perm_in_length intro: perm_in_trans)
  next
    case 2
    from heapsortx_perm [OF pn(3), of cmp] obtain ys where
      ys: "heapsortx cmp p n xs = Some ys" "perm_in p (p + n) xs ys" by blast
    then have p: "perm_in lo hi xs ys" using pn by (blast intro: perm_in_mono)
    have "\<not> p + n > length xs" using pn by simp
    from "2.IH"(1) [OF 2(1) this 2(2) ys(1) pop] pn p "2.prems"(3) 2 ys(1) show ?thesis
      by (subst rqsort_loop.simps) (auto simp: perm_in_length intro: perm_in_trans)
  next
    case 3
    from partition_spec [OF 3(1) pn(3), of cmp] obtain ys lt gt v where
      ys: "partition cmp p n xs = Some (ys, lt, gt)" "perm_in p (p + n) xs ys" "part_post cmp v p n lt gt ys" by blast
    then have p: "perm_in lo hi xs ys" using pn by (blast intro: perm_in_mono)
    have g: "lt < gt" "gt \<le> n" using ys(3) by (auto simp: part_post_def)
    have c: "\<not> p + n > length xs" "\<not> Suc d > 50" "hi \<le> length ys"
      using pn 3 "2.prems"(3) perm_in_length [OF p] by auto
    show ?thesis
    proof (cases "lt > n - gt")
      case True
      note s = stack_ok_push [OF ok 3(2), of p lt]
      have "segs_in lo hi (cur_segs (Some (p + gt, n - gt, Suc d)) @ (p, lt, Suc d) # stack)"
        using pn g by (auto simp: segs_in_def)
      from "2.IH"(2) [OF 3(1) c(1,2) ys(1) refl refl True s(1) _ this c(3)] s(2) True 3 c(1) s(1) ys(1) p show ?thesis
        by (subst rqsort_loop.simps) (auto simp: cur_depth_def intro: perm_in_trans)
    next
      case False
      note s = stack_ok_push [OF ok 3(2), of "p + gt" "n - gt"]
      have "segs_in lo hi (cur_segs (Some (p, lt, Suc d)) @ (p + gt, n - gt, Suc d) # stack)"
        using pn g by (auto simp: segs_in_def)
      from "2.IH"(3) [OF 3(1) c(1,2) ys(1) refl refl False s(1) _ this c(3)] s(2) False 3 c(1) s(1) ys(1) p show ?thesis
        by (subst rqsort_loop.simps) (auto simp: cur_depth_def intro: perm_in_trans)
    qed
  qed
qed

lemma rqsort_perm:
  assumes "base + nmemb \<le> length xs"
  shows "\<exists>ys. rqsort cmp base nmemb xs = Some ys \<and> perm_in base (base + nmemb) xs ys"
proof -
  have "stack_ok 0 []" by (simp add: stack_ok_def)
  then have "stack_ok (cur_depth [] (Some (base, nmemb, 0))) []" by (simp add: cur_depth_def)
  moreover have "segs_in base (base + nmemb) (cur_segs (Some (base, nmemb, 0)) @ [])"
    by (simp add: segs_in_def)
  ultimately show ?thesis
    using rqsort_loop_perm [of "[]" "Some (base, nmemb, 0)" base "base + nmemb" xs cmp] assms
    by (simp add: rqsort_def)
qed

subsection \<open>Sorting, for a comparison function that is a total preorder\<close>

lemma perm_in_image:
  assumes "perm_in lo hi xs ys" "hi \<le> length xs"
  shows "(nth ys) ` {lo..<hi} = (nth xs) ` {lo..<hi}"
proof (cases "lo \<le> hi")
  case True
  have split: "mset zs = mset (take lo zs) + mset (map (nth zs) [lo..<hi]) + mset (drop hi zs)"
    if "hi \<le> length zs" for zs :: "'a list"
  proof -
    have "zs = take lo zs @ take (hi - lo) (drop lo zs) @ drop hi zs"
      using True by (metis append_take_drop_id drop_drop le_add_diff_inverse2)
    moreover have "take (hi - lo) (drop lo zs) = map (nth zs) [lo..<hi]"
      using True that by (intro nth_equalityI) auto
    ultimately show ?thesis by (metis add.assoc mset_append)
  qed
  have "take lo ys = take lo xs" "drop hi ys = drop hi xs"
    using assms True by (auto simp: perm_in_def intro!: nth_equalityI)
  with split [of xs] split [of ys] assms have
    "mset (map (nth ys) [lo..<hi]) = mset (map (nth xs) [lo..<hi])"
    by (auto simp: perm_in_def)
  then have "set (map (nth ys) [lo..<hi]) = set (map (nth xs) [lo..<hi])" by (rule mset_eq_setD)
  then show ?thesis by simp
qed simp

lemma perm_in_ball:
  assumes "perm_in lo hi xs ys" "hi \<le> length xs" "\<And>k. lo \<le> k \<Longrightarrow> k < hi \<Longrightarrow> P (xs ! k)" "lo \<le> k" "k < hi"
  shows "P (ys ! k)"
proof -
  have "ys ! k \<in> (nth xs) ` {lo..<hi}" using assms by (simp flip: perm_in_image)
  with assms(3) show ?thesis by auto
qed

definition sorted_in :: "'a cmp_fun \<Rightarrow> nat \<Rightarrow> nat \<Rightarrow> 'a list \<Rightarrow> bool" where
  "sorted_in cmp lo hi xs \<longleftrightarrow> (\<forall>i j. lo \<le> i \<and> i < j \<and> j < hi \<longrightarrow> cmp (xs ! i) (xs ! j) \<le> 0)"

text \<open>The parent of a heap node, and the heap order above position \<open>lo\<close>.\<close>

abbreviation par :: "nat \<Rightarrow> nat" where
  "par c \<equiv> (c - 1) div 2"

definition heap_from :: "'a cmp_fun \<Rightarrow> nat \<Rightarrow> nat \<Rightarrow> nat \<Rightarrow> 'a list \<Rightarrow> bool" where
  "heap_from cmp b lo n xs \<longleftrightarrow>
     (\<forall>c. 0 < c \<and> c < n \<and> lo \<le> par c \<longrightarrow> cmp (xs ! (b + c)) (xs ! (b + par c)) \<le> 0)"

definition heap_hole :: "'a cmp_fun \<Rightarrow> nat \<Rightarrow> nat \<Rightarrow> nat \<Rightarrow> nat \<Rightarrow> 'a list \<Rightarrow> bool" where
  "heap_hole cmp b lo n r xs \<longleftrightarrow> lo \<le> r \<and>
     (\<forall>c. 0 < c \<and> c < n \<and> lo \<le> par c \<and> par c \<noteq> r \<longrightarrow> cmp (xs ! (b + c)) (xs ! (b + par c)) \<le> 0) \<and>
     (\<forall>c. 0 < c \<and> c < n \<and> par c = r \<and> 0 < r \<and> lo \<le> par r \<longrightarrow> cmp (xs ! (b + c)) (xs ! (b + par r)) \<le> 0)"

text \<open>
  Pairs of positions of \<open>[lo, hi)\<close> that are in order already or lie in one pending segment.
\<close>

definition settled :: "'a cmp_fun \<Rightarrow> nat \<Rightarrow> nat \<Rightarrow> seg list \<Rightarrow> 'a list \<Rightarrow> bool" where
  "settled cmp lo hi ss xs \<longleftrightarrow> (\<forall>i j. lo \<le> i \<and> i < j \<and> j < hi \<longrightarrow>
     cmp (xs ! i) (xs ! j) \<le> 0 \<or> (\<exists>(p, n, d)\<in>set ss. p \<le> i \<and> j < p + n))"

definition seg_disjoint :: "seg \<Rightarrow> seg \<Rightarrow> bool" where
  "seg_disjoint s t \<longleftrightarrow> (case (s, t) of ((p, n, _), (q, m, _)) \<Rightarrow> p + n \<le> q \<or> q + m \<le> p)"

lemma settled_nil: "settled cmp lo hi [] xs \<Longrightarrow> sorted_in cmp lo hi xs"
  by (auto simp: settled_def sorted_in_def)

lemma settled_step:
  assumes s: "settled cmp lo hi ((p, n, d) # ss) xs" and p: "perm_in p (p + n) xs ys"
    and r: "lo \<le> p" "p + n \<le> hi" "hi \<le> length xs"
    and dis: "\<forall>t\<in>set ss. seg_disjoint (p, n, d) t"
    and inner: "settled cmp p (p + n) ts ys"
  shows "settled cmp lo hi (ts @ ss) ys"
  unfolding settled_def
proof (intro allI impI)
  fix i j assume ij: "lo \<le> i \<and> i < j \<and> j < hi"
  have n: "p + n \<le> length xs" using r by simp
  have d: "\<exists>(q, m, e)\<in>set ss. q \<le> i \<and> j < q + m"
    if "\<exists>(q, m, e)\<in>set ((p, n, d) # ss). q \<le> i \<and> j < q + m" "\<not> (p \<le> i \<and> j < p + n)" for i j
    using that by auto
  have e: "cmp (xs ! i) (xs ! j) \<le> 0"
    if "lo \<le> i" "i < j" "j < hi" "(i < p \<or> p + n \<le> i) \<noteq> (j < p \<or> p + n \<le> j)" for i j
  proof (rule ccontr)
    assume "\<not> ?thesis"
    with s that have "\<exists>(q, m, e)\<in>set ((p, n, d) # ss). q \<le> i \<and> j < q + m" unfolding settled_def by blast
    moreover have "\<not> (p \<le> i \<and> j < p + n)" using that by auto
    ultimately have "\<exists>(q, m, e)\<in>set ss. q \<le> i \<and> j < q + m" by (rule d)
    with dis that show False by (fastforce simp: seg_disjoint_def)
  qed
  consider "p \<le> i" "j < p + n" | "i < p \<or> p + n \<le> i" "j < p \<or> p + n \<le> j"
    | "i < p" "p \<le> j" "j < p + n" | "p \<le> i" "i < p + n" "p + n \<le> j" using ij by linarith
  then show "cmp (ys ! i) (ys ! j) \<le> 0 \<or> (\<exists>(q, m, e)\<in>set (ts @ ss). q \<le> i \<and> j < q + m)"
  proof cases
    case 1
    with inner ij have "cmp (ys ! i) (ys ! j) \<le> 0 \<or> (\<exists>(q, m, e)\<in>set ts. q \<le> i \<and> j < q + m)"
      unfolding settled_def by blast
    then show ?thesis by auto
  next
    case 2
    then have o: "ys ! i = xs ! i" "ys ! j = xs ! j"
      using perm_in_outside [OF p] ij r by auto
    show ?thesis
    proof (cases "cmp (xs ! i) (xs ! j) \<le> 0")
      case False
      with s ij have x: "\<exists>(q, m, e)\<in>set ((p, n, d) # ss). q \<le> i \<and> j < q + m" unfolding settled_def by blast
      have "\<not> (p \<le> i \<and> j < p + n)" using 2 ij by auto
      from d [OF x this] show ?thesis by auto
    qed (use o in simp)
  next
    case 3
    have "ys ! i = xs ! i" using perm_in_outside [OF p] 3 ij r by auto
    moreover have "cmp (xs ! i) (ys ! j) \<le> 0"
      by (rule perm_in_ball [OF p n _ 3(2,3)]) (use e [of i] 3 ij r in auto)
    ultimately show ?thesis by simp
  next
    case 4
    have "ys ! j = xs ! j" using perm_in_outside [OF p] 4 ij r by auto
    moreover have "cmp (ys ! i) (xs ! j) \<le> 0"
      by (rule perm_in_ball [OF p n _ 4(1,2)]) (use e [of _ j] 4 ij r in auto)
    ultimately show ?thesis by simp
  qed
qed

text \<open>
  The contract of a comparison function, and what the sorting routines guarantee under it.
\<close>

locale comparator =
  fixes cmp :: "'a \<Rightarrow> 'a \<Rightarrow> int"
  assumes sgn_sym: "sgn (cmp y x) = - sgn (cmp x y)"
    and le_trans: "cmp x y \<le> 0 \<Longrightarrow> cmp y z \<le> 0 \<Longrightarrow> cmp x z \<le> 0"
begin

lemma cmp_refl: "cmp x x = 0"
  using sgn_sym [of x x] by (simp add: sgn_if split: if_splits)

lemma cmp_total: "\<not> cmp x y \<le> 0 \<Longrightarrow> cmp y x \<le> 0"
  using sgn_sym [of y x] by (auto simp: sgn_if split: if_splits)

lemma cmp_flip: "cmp x y = 0 \<Longrightarrow> cmp y x \<le> 0" "cmp x y > 0 \<Longrightarrow> cmp y x \<le> 0"
  using sgn_sym [of y x] by (auto simp: sgn_if split: if_splits)

lemma insert_down_sorted:
  assumes "insert_down cmp p j xs = Some ys" "p + m < length xs" "j \<le> m"
    "\<forall>k l. k < l \<and> l \<le> m \<and> l \<noteq> j \<longrightarrow> cmp (xs ! (p + k)) (xs ! (p + l)) \<le> 0"
  shows "\<forall>k l. k < l \<and> l \<le> m \<longrightarrow> cmp (ys ! (p + k)) (ys ! (p + l)) \<le> 0"
  using assms
proof (induction j arbitrary: xs)
  case (Suc j)
  note inv = Suc.prems(4) [rule_format]
  have r: "p + j < length xs" "p + Suc j < length xs" using Suc.prems by auto
  show ?case
  proof (cases "cmp (xs ! (p + j)) (xs ! (p + Suc j)) > 0")
    case True
    let ?x = "swap_at xs (p + Suc j) (p + j)"
    have y: "insert_down cmp p j ?x = Some ys"
      using Suc.prems(1) r True by (simp add: cmp_at_def swap_opt_def)
    have "cmp (?x ! (p + k)) (?x ! (p + l)) \<le> 0" if "k < l \<and> l \<le> m \<and> l \<noteq> j" for k l
      using inv [of k l] inv [of k j] inv [of j l] inv [of "Suc j" l] cmp_flip(2) [OF True] that Suc.prems(2,3)
      by (cases "l = Suc j"; cases "k = j"; cases "k = Suc j") (auto simp: nth_swap_at)
    with Suc.IH [OF y] Suc.prems(2,3) show ?thesis by simp
  next
    case False
    then have "ys = xs" using Suc.prems(1) r by (simp add: cmp_at_def)
    moreover have "cmp (xs ! (p + k)) (xs ! (p + Suc j)) \<le> 0" if "k < Suc j" for k
      using that inv [of k j] False Suc.prems(3) le_trans [of "xs ! (p + k)" "xs ! (p + j)"]
      by (cases "k = j") auto
    ultimately show ?thesis using inv by metis
  qed
qed auto

lemma insertion_sort_sorted:
  assumes "insertion_sort cmp p n i xs = Some ys" "p + n \<le> length xs" "1 \<le> i"
    "sorted_in cmp p (p + i) xs"
  shows "sorted_in cmp p (p + n) ys"
  using assms
proof (induction "n - i" arbitrary: i xs rule: less_induct)
  case less
  show ?case
  proof (cases "i < n")
    case True
    with insert_down_perm [of p i xs cmp] less.prems(2) obtain zs where
      z: "insert_down cmp p i xs = Some zs" "perm_in p (p + Suc i) xs zs" by auto
    have "\<forall>k l. k < l \<and> l \<le> i \<and> l \<noteq> i \<longrightarrow> cmp (xs ! (p + k)) (xs ! (p + l)) \<le> 0"
      using less.prems(4) by (auto simp: sorted_in_def)
    from insert_down_sorted [OF z(1) _ order_refl this] less.prems(2) True
    have o: "\<forall>k l. k < l \<and> l \<le> i \<longrightarrow> cmp (zs ! (p + k)) (zs ! (p + l)) \<le> 0" by simp
    have "sorted_in cmp p (p + Suc i) zs"
      unfolding sorted_in_def
    proof (intro allI impI)
      fix a b assume ab: "p \<le> a \<and> a < b \<and> b < p + Suc i"
      then have "a - p < b - p \<and> b - p \<le> i" by linarith
      with ab o [rule_format, OF this] show "cmp (zs ! a) (zs ! b) \<le> 0" by simp
    qed
    with less.hyps [of "Suc i" zs] less.prems True z show ?thesis
      by (simp add: insertion_sort.simps [of _ _ _ i] perm_in_length)
  next
    case False
    with less.prems show ?thesis
      by (subst (asm) insertion_sort.simps) (auto simp: sorted_in_def)
  qed
qed

lemma sift_down_heap:
  assumes "sift_down cmp b n r xs = Some ys" "b + n \<le> length xs" "heap_hole cmp b lo n r xs"
  shows "heap_from cmp b lo n ys"
  using assms
proof (induction "n - r" arbitrary: r xs rule: less_induct)
  case less
  let ?c = "sift_child cmp b n r xs"
  note h = less.prems(3) [unfolded heap_hole_def]
  have par: "par c = r \<longleftrightarrow> c = 2 * r + 1 \<or> c = 2 * r + 2" if "0 < c" for c using that by auto
  show ?case
  proof (cases "2 * r + 1 < n")
    case True
    then have c: "r < ?c" "?c < n" "par ?c = r" "0 < ?c" by (auto simp: sift_child_def)
    have big: "cmp (xs ! (b + c)) (xs ! (b + ?c)) \<le> 0" if "0 < c" "c < n" "par c = r" for c
    proof -
      have "c = 2 * r + 1 \<or> c = 2 * r + 2" using par [OF that(1)] that(3) by simp
      then show ?thesis
      proof
        assume "c = 2 * r + 1"
        then show ?thesis by (simp add: sift_child_def cmp_refl)
      next
        assume c: "c = 2 * r + 2"
        then show ?thesis
          using cmp_total [of "xs ! (b + (2 * r + 1))" "xs ! (b + (2 * r + 2))"] that(2)
          by (simp add: sift_child_def cmp_refl)
      qed
    qed
    show ?thesis
    proof (cases "cmp (xs ! (b + r)) (xs ! (b + ?c)) > 0")
      case True
      with less.prems \<open>2 * r + 1 < n\<close> have y: "ys = xs" by (simp add: sift_down_unfold)
      have "cmp (xs ! (b + c)) (xs ! (b + r)) \<le> 0" if "0 < c" "c < n" "par c = r" for c
        using big [OF that] cmp_flip(2) [OF True] le_trans by blast
      with h y show ?thesis by (auto simp: heap_from_def)
    next
      case False
      let ?x = "swap_at xs (b + r) (b + ?c)"
      have e: "?x ! (b + k) = (if k = r then xs ! (b + ?c) else if k = ?c then xs ! (b + r) else xs ! (b + k))"
        if "k < n" for k using that c less.prems(2) by (auto simp: nth_swap_at)
      have "heap_hole cmp b lo n ?c ?x"
        unfolding heap_hole_def
      proof (intro conjI allI impI)
        show "lo \<le> ?c" using h c by simp
      next
        fix k assume k: "0 < k \<and> k < n \<and> lo \<le> par k \<and> par k \<noteq> ?c"
        then have pk: "par k < n" "par k < k" by auto
        show "cmp (?x ! (b + k)) (?x ! (b + par k)) \<le> 0"
        proof (cases "par k = r")
          case True
          then have "k \<noteq> r" using pk by auto
          then show ?thesis using k pk True big [of k] False c by (auto simp: e)
        next
          case f: False
          show ?thesis
          proof (cases "k = r")
            case True
            then have "par r \<noteq> r" "0 < r" using f k by auto
            then show ?thesis using True h c k pk by (auto simp: e)
          next
            case False
            then have "k \<noteq> ?c" using f c(3) by auto
            with False f k pk h show ?thesis by (auto simp: e)
          qed
        qed
      next
        fix k assume k: "0 < k \<and> k < n \<and> par k = ?c \<and> 0 < ?c \<and> lo \<le> par ?c"
        then have "k \<noteq> ?c" "k \<noteq> r" using c by auto
        moreover have "cmp (xs ! (b + k)) (xs ! (b + par k)) \<le> 0" using h k c by auto
        ultimately show "cmp (?x ! (b + k)) (?x ! (b + par ?c)) \<le> 0" using k c by (auto simp: e)
      qed
      with less.hyps [of ?c ?x] diff_less_mono2 [OF c(1)] c less.prems False \<open>2 * r + 1 < n\<close>
      show ?thesis by (auto simp: sift_down_unfold)
    qed
  next
    case False
    with less.prems have y: "ys = xs" by (simp add: sift_down_unfold)
    have "par c \<noteq> r" if "0 < c" "c < n" for c using False that par [of c] by auto
    with h y show ?thesis by (auto simp: heap_from_def)
  qed
qed

lemma heapify_heap:
  assumes "heapify cmp b n i xs = Some ys" "b + n \<le> length xs" "heap_from cmp b i n xs"
  shows "heap_from cmp b 0 n ys"
  using assms
proof (induction i arbitrary: xs)
  case (Suc i)
  from sift_down_perm [OF Suc.prems(2), of cmp i] obtain zs where
    z: "sift_down cmp b n i xs = Some zs" "perm_in b (b + n) xs zs" by blast
  have "heap_hole cmp b i n i xs"
    using Suc.prems(3) by (auto simp: heap_from_def heap_hole_def)
  from sift_down_heap [OF z(1) Suc.prems(2) this] Suc z show ?case by (auto simp: perm_in_length)
qed simp

lemma heap_root: "heap_from cmp b 0 n xs \<Longrightarrow> k < n \<Longrightarrow> cmp (xs ! (b + k)) (xs ! b) \<le> 0"
proof (induction k rule: less_induct)
  case (less k)
  show ?case
  proof (cases "k = 0")
    case False
    with less have "cmp (xs ! (b + k)) (xs ! (b + par k)) \<le> 0" by (simp add: heap_from_def)
    moreover have "cmp (xs ! (b + par k)) (xs ! b) \<le> 0" using False less by simp
    ultimately show ?thesis by (rule le_trans)
  qed (simp add: cmp_refl)
qed

lemma heap_extract_sorted:
  assumes "heap_extract cmp b i xs = Some ys" "b + n \<le> length xs" "i < n"
    "heap_from cmp b 0 (Suc i) xs" "sorted_in cmp (b + Suc i) (b + n) xs"
    "\<forall>k l. k \<le> i \<and> i < l \<and> l < n \<longrightarrow> cmp (xs ! (b + k)) (xs ! (b + l)) \<le> 0"
  shows "sorted_in cmp b (b + n) ys"
  using assms
proof (induction i arbitrary: xs)
  case 0
  have "cmp (xs ! k) (xs ! l) \<le> 0" if "b \<le> k \<and> k < l \<and> l < b + n" for k l
    using that 0(5) 0(6) [rule_format, of 0 "l - b"] by (cases "k = b") (auto simp: sorted_in_def)
  with 0(1) show ?case by (auto simp: sorted_in_def)
next
  case (Suc i)
  let ?x = "swap_at xs b (b + Suc i)"
  have x: "swap_opt xs b (b + Suc i) = Some ?x" using Suc.prems(2,3) by (auto simp: swap_opt_def)
  from sift_down_perm [of b "Suc i" ?x cmp 0] Suc.prems(2,3) obtain zs where
    z: "sift_down cmp b (Suc i) 0 ?x = Some zs" "perm_in b (b + Suc i) ?x zs" by auto
  have len: "length zs = length xs" using perm_in_length [OF z(2)] by simp
  have n: "b + Suc i \<le> length ?x" "b < length xs" using Suc.prems(2,3) by auto
  have xe: "?x ! (b + k) = (if k = 0 then xs ! (b + Suc i) else if k = Suc i then xs ! b else xs ! (b + k))"
    if "k < n" for k using that Suc.prems(2,3) by (auto simp: nth_swap_at)
  have "heap_hole cmp b 0 (Suc i) 0 ?x"
    using Suc.prems(3,4) by (auto simp: heap_hole_def heap_from_def xe)
  from sift_down_heap [OF z(1) n(1) this] have h: "heap_from cmp b 0 (Suc i) zs" .
  have up: "cmp (?x ! (b + k)) (?x ! (b + l)) \<le> 0" if "k \<le> i" "i < l" "l < n" for k l
  proof (cases "l = Suc i")
    case True
    have "?x ! (b + k) = xs ! (b + (if k = 0 then Suc i else k))" using xe [of k] that by simp
    moreover have "?x ! (b + l) = xs ! b" using xe [of l] True that by simp
    ultimately show ?thesis using heap_root [OF Suc.prems(4), of "if k = 0 then Suc i else k"] that by simp
  next
    case False
    have "?x ! (b + k) = xs ! (b + (if k = 0 then Suc i else k))" using xe [of k] that by simp
    moreover have "?x ! (b + l) = xs ! (b + l)" using xe [of l] False that by simp
    ultimately show ?thesis
      using Suc.prems(6) [rule_format, of "if k = 0 then Suc i else k" l] that False by simp
  qed
  have o: "zs ! (b + l) = ?x ! (b + l)" if "i < l" "l < n" for l
    using perm_in_outside [OF z(2)] that Suc.prems(2) by auto
  have 1: "\<forall>k l. k \<le> i \<and> i < l \<and> l < n \<longrightarrow> cmp (zs ! (b + k)) (zs ! (b + l)) \<le> 0"
  proof (intro allI impI)
    fix k l assume kl: "k \<le> i \<and> i < l \<and> l < n"
    have "cmp (zs ! (b + k)) (?x ! (b + l)) \<le> 0"
    proof (rule perm_in_ball [OF z(2) n(1)])
      fix m assume "b \<le> m" "m < b + Suc i"
      then show "cmp (?x ! m) (?x ! (b + l)) \<le> 0" using up [of "m - b" l] kl by simp
    qed (use kl in auto)
    then show "cmp (zs ! (b + k)) (zs ! (b + l)) \<le> 0" using o kl by simp
  qed
  have 2: "sorted_in cmp (b + Suc i) (b + n) zs"
    unfolding sorted_in_def
  proof (intro allI impI)
    fix k l assume kl: "b + Suc i \<le> k \<and> k < l \<and> l < b + n"
    define k' l' where "k' = k - b" and "l' = l - b"
    have e: "k = b + k'" "l = b + l'" "Suc i \<le> k'" "k' < l'" "l' < n" using kl by (auto simp: k'_def l'_def)
    have "?x ! (b + k') = (if k' = Suc i then xs ! b else xs ! (b + k'))" "?x ! (b + l') = xs ! (b + l')"
      using xe [of k'] xe [of l'] e by auto
    then have "cmp (?x ! (b + k')) (?x ! (b + l')) \<le> 0"
      using e Suc.prems(5) Suc.prems(6) [rule_format, of 0 l'] by (auto simp: sorted_in_def)
    then show "cmp (zs ! k) (zs ! l) \<le> 0" using e o by simp
  qed
  have "heap_extract cmp b i zs = Some ys" using Suc.prems(1) x z(1) by simp
  from Suc.IH [OF this _ _ h 2 1] Suc.prems(2,3) len show ?case by simp
qed

lemma heapsortx_sorted:
  assumes "heapsortx cmp b n xs = Some ys" "b + n \<le> length xs"
  shows "sorted_in cmp b (b + n) ys"
proof (cases "n > 1")
  case True
  from heapify_perm [OF assms(2), of cmp "n div 2"] obtain zs where
    z: "heapify cmp b n (n div 2) xs = Some zs" "perm_in b (b + n) xs zs" by blast
  have "heap_from cmp b (n div 2) n xs" by (auto simp: heap_from_def)
  from heapify_heap [OF z(1) assms(2) this] have "heap_from cmp b 0 n zs" .
  moreover have "heap_extract cmp b (n - 1) zs = Some ys" using assms(1) True z(1) by (simp add: heapsortx_def)
  ultimately show ?thesis
    using True assms(2) perm_in_length [OF z(2)]
    by (intro heap_extract_sorted [of b "n - 1" zs ys n]) (auto simp: sorted_in_def)
qed (use assms in \<open>auto simp: heapsortx_def sorted_in_def\<close>)

lemma part_post_settled:
  assumes "part_post cmp v p n lt gt ys"
  shows "settled cmp p (p + n) [(p, lt, d), (p + gt, n - gt, d)] ys"
  unfolding settled_def
proof (intro allI impI)
  fix i j assume ij: "p \<le> i \<and> i < j \<and> j < p + n"
  define i' j' where "i' = i - p" and "j' = j - p"
  have e: "i = p + i'" "j = p + j'" "i' < j'" "j' < n" using ij by (auto simp: i'_def j'_def)
  note q = assms [unfolded part_post_def]
  have low: "cmp (ys ! (p + k)) v \<le> 0" if "k < gt" for k
  proof (cases "k < lt")
    case True
    then show ?thesis using q cmp_flip(2) [of v "ys ! (p + k)"] by simp
  next
    case False
    then have "ys ! (p + k) = v \<or> cmp v (ys ! (p + k)) = 0" using q that by simp
    then show ?thesis using cmp_flip(1) cmp_refl by auto
  qed
  have high: "cmp v (ys ! (p + k)) \<le> 0" if "lt \<le> k" "k < n" for k
  proof (cases "k < gt")
    case True
    then have "ys ! (p + k) = v \<or> cmp v (ys ! (p + k)) = 0" using q that by simp
    then show ?thesis using cmp_refl by auto
  next
    case False
    then have "cmp v (ys ! (p + k)) < 0" using q that by simp
    then show ?thesis by simp
  qed
  consider "j' < lt" | "gt \<le> i'" | "i' < gt" "lt \<le> j'" by linarith
  then show "cmp (ys ! i) (ys ! j) \<le> 0 \<or>
    (\<exists>(q, m, e)\<in>set [(p, lt, d), (p + gt, n - gt, d)]. q \<le> i \<and> j < q + m)"
  proof cases
    case 3
    with low high e le_trans show ?thesis by blast
  qed (use e in auto)
qed

lemma rqsort_loop_sorted:
  assumes "rqsort_loop cmp stack cur xs = Some ys" "segs_in lo hi (cur_segs cur @ stack)" "hi \<le> length xs"
    "settled cmp lo hi (cur_segs cur @ stack) xs" "sorted_wrt seg_disjoint (cur_segs cur @ stack)"
  shows "sorted_in cmp lo hi ys"
  using assms
proof (induction cmp\<equiv>cmp stack cur xs rule: rqsort_loop.induct)
  case (1 stack xs)
  then show ?case by (cases stack) (auto intro: settled_nil)
next
  case (2 stack p n d xs)
  have pn: "lo \<le> p" "p + n \<le> hi" "p + n \<le> length xs" "segs_in lo hi stack"
    using "2.prems" by (auto simp: segs_in_def)
  have dis: "\<forall>t\<in>set stack. seg_disjoint (p, n, d) t" "sorted_wrt seg_disjoint stack" using "2.prems"(5) by auto
  have st: "settled cmp lo hi ((p, n, d) # stack) xs" using "2.prems"(4) by simp
  note step = settled_step [OF st _ pn(1,2) "2.prems"(3) dis(1)]
  have fin: "settled cmp lo hi (cur_segs None @ stack) zs" 
    if "perm_in p (p + n) xs zs" "sorted_in cmp p (p + n) zs" for zs
    using step [OF that(1), of "[]"] that(2) by (simp add: settled_def sorted_in_def)
  consider "n \<le> 6" | "n > 6" "Suc d > 50" | "n > 6" "Suc d \<le> 50" by linarith
  then show ?case
  proof cases
    case 1
    from insertion_sort_perm [OF pn(3), of cmp 1] obtain zs where
      z: "insertion_sort cmp p n 1 xs = Some zs" "perm_in p (p + n) xs zs" by blast
    have "sorted_in cmp p (p + 1) xs" by (simp add: sorted_in_def)
    from insertion_sort_sorted [OF z(1) pn(3) _ this] have "sorted_in cmp p (p + n) zs" by simp
    from fin [OF z(2) this] "2.hyps"(4) [OF _ z(1)] "2.prems" 1 z pn dis(2) show ?thesis
      by (simp add: rqsort_loop.simps perm_in_length)
  next
    case 2
    from heapsortx_perm [OF pn(3), of cmp] obtain zs where
      z: "heapsortx cmp p n xs = Some zs" "perm_in p (p + n) xs zs" by blast
    from fin [OF z(2) heapsortx_sorted [OF z(1) pn(3)]] "2.hyps"(1) [OF 2(1) _ 2(2) z(1)] "2.prems" 2 z pn dis(2)
    show ?thesis by (simp add: rqsort_loop.simps perm_in_length)
  next
    case 3
    from partition_spec [OF 3(1) pn(3), of cmp] obtain zs lt gt v where
      z: "partition cmp p n xs = Some (zs, lt, gt)" "perm_in p (p + n) xs zs" "part_post cmp v p n lt gt zs" by blast
    have g: "lt < gt" "gt \<le> n" using z(3) by (auto simp: part_post_def)
    have c: "\<not> p + n > length xs" "\<not> Suc d > 50" "hi \<le> length zs"
      using pn 3 "2.prems"(3) perm_in_length [OF z(2)] by auto
    let ?a = "(p, lt, Suc d)" and ?b = "(p + gt, n - gt, Suc d)"
    have s: "settled cmp lo hi ([?a, ?b] @ stack) zs"
      by (rule step [OF z(2) part_post_settled [OF z(3)]])
    have d: "sorted_wrt seg_disjoint ([?a, ?b] @ stack)" "sorted_wrt seg_disjoint ([?b, ?a] @ stack)"
      using dis g by (fastforce simp: seg_disjoint_def)+
    have i: "segs_in lo hi ([?a, ?b] @ stack)" using pn g by (auto simp: segs_in_def)
    show ?thesis
    proof (cases "lt > n - gt")
      case True
      with "2.prems"(1) 3 c z(1) have r: "push_seg stack ?a = Some (?a # stack)"
        "rqsort_loop cmp (?a # stack) (Some ?b) zs = Some ys"
        by (auto simp: rqsort_loop.simps push_seg_def split: if_splits)
      have "settled cmp lo hi ([?b, ?a] @ stack) zs" using s unfolding settled_def by (simp add: disj_ac)
      with "2.hyps"(2) [OF 3(1) c(1,2) z(1) refl refl True r(1,2) _ c(3)] i d(2) show ?thesis
        by (simp add: segs_in_def)
    next
      case False
      with "2.prems"(1) 3 c z(1) have r: "push_seg stack ?b = Some (?b # stack)"
        "rqsort_loop cmp (?b # stack) (Some ?a) zs = Some ys"
        by (auto simp: rqsort_loop.simps push_seg_def split: if_splits)
      from "2.hyps"(3) [OF 3(1) c(1,2) z(1) refl refl False r(1,2) _ c(3)] i d(1) s show ?thesis by simp
    qed
  qed
qed

lemma rqsort_sorted:
  assumes "rqsort cmp base nmemb xs = Some ys" "base + nmemb \<le> length xs"
  shows "sorted_in cmp base (base + nmemb) ys"
proof (cases "nmemb < 2")
  case True
  with assms show ?thesis by (auto simp: sorted_in_def)
next
  case False
  with assms(1) have "rqsort_loop cmp [] (Some (base, nmemb, 0)) xs = Some ys" by (simp add: rqsort_def)
  then show ?thesis
    by (rule rqsort_loop_sorted) (use assms(2) in \<open>auto simp: segs_in_def settled_def\<close>)
qed

end

end
