(* ===== verification/Exchange.thy ===== *)
theory Exchange
  imports RQSort
begin

unbundle bit_operations_syntax

text \<open>
  cutils.c: the block exchange functions of \<open>rqsort\<close> and the switch \<open>exchange_func\<close> that picks
  one of them, on the bytes of the array, and the proof that they are the element swaps
  \<open>swap_at\<close> and \<open>swap_block\<close> of theory RQSort.

  The array as bytes: pointers are indices into \<open>mem\<close>; an access outside of it is \<open>None\<close>.
  \<open>exchange_unit w\<close> is one exchange of two \<open>w\<close>-byte integers through a temporary.
\<close>

definition ld :: "nat \<Rightarrow> u8 list \<Rightarrow> nat \<Rightarrow> u8 list option" where
  "ld w mem a = (if a + w \<le> length mem then Some (take w (drop a mem)) else None)"

definition st :: "u8 list \<Rightarrow> u8 list \<Rightarrow> nat \<Rightarrow> u8 list option" where
  "st v mem a = (if a + length v \<le> length mem then Some (splice_at mem a v) else None)"

definition exchange_unit :: "nat \<Rightarrow> u8 list \<Rightarrow> nat \<Rightarrow> nat \<Rightarrow> u8 list option" where
  "exchange_unit w mem ap bp =
     do { t \<leftarrow> ld w mem ap; v \<leftarrow> ld w mem bp; mem \<leftarrow> st v mem ap; st t mem bp }"

fun exchange_loop :: "nat \<Rightarrow> u8 list \<Rightarrow> nat \<Rightarrow> nat \<Rightarrow> nat \<Rightarrow> u8 list option" where
  "exchange_loop w mem ap bp 0 = Some mem"
| "exchange_loop w mem ap bp (Suc n) =
     do { mem \<leftarrow> exchange_unit w mem ap bp; exchange_loop w mem (ap + w) (bp + w) n }"

definition exchange_bytes :: "u8 list \<Rightarrow> nat \<Rightarrow> nat \<Rightarrow> nat \<Rightarrow> u8 list option" where
  "exchange_bytes mem a b sz = exchange_loop 1 mem a b sz"

definition exchange_one_byte :: "u8 list \<Rightarrow> nat \<Rightarrow> nat \<Rightarrow> nat \<Rightarrow> u8 list option" where
  "exchange_one_byte mem a b sz = exchange_unit 1 mem a b"

definition exchange_int16s :: "u8 list \<Rightarrow> nat \<Rightarrow> nat \<Rightarrow> nat \<Rightarrow> u8 list option" where
  "exchange_int16s mem a b sz = exchange_loop 2 mem a b (sz div 2)"

definition exchange_one_int16 :: "u8 list \<Rightarrow> nat \<Rightarrow> nat \<Rightarrow> nat \<Rightarrow> u8 list option" where
  "exchange_one_int16 mem a b sz = exchange_unit 2 mem a b"

definition exchange_int32s :: "u8 list \<Rightarrow> nat \<Rightarrow> nat \<Rightarrow> nat \<Rightarrow> u8 list option" where
  "exchange_int32s mem a b sz = exchange_loop 4 mem a b (sz div 4)"

definition exchange_one_int32 :: "u8 list \<Rightarrow> nat \<Rightarrow> nat \<Rightarrow> nat \<Rightarrow> u8 list option" where
  "exchange_one_int32 mem a b sz = exchange_unit 4 mem a b"

definition exchange_int64s :: "u8 list \<Rightarrow> nat \<Rightarrow> nat \<Rightarrow> nat \<Rightarrow> u8 list option" where
  "exchange_int64s mem a b sz = exchange_loop 8 mem a b (sz div 8)"

definition exchange_one_int64 :: "u8 list \<Rightarrow> nat \<Rightarrow> nat \<Rightarrow> nat \<Rightarrow> u8 list option" where
  "exchange_one_int64 mem a b sz = exchange_unit 8 mem a b"

definition exchange_one_int128 :: "u8 list \<Rightarrow> nat \<Rightarrow> nat \<Rightarrow> nat \<Rightarrow> u8 list option" where
  "exchange_one_int128 mem a b sz =
     do {
       t \<leftarrow> ld 8 mem a; u \<leftarrow> ld 8 mem (a + 8);
       v \<leftarrow> ld 8 mem b; mem \<leftarrow> st v mem a;
       v \<leftarrow> ld 8 mem (b + 8); mem \<leftarrow> st v mem (a + 8);
       mem \<leftarrow> st t mem b; st u mem (b + 8)
     }"

fun int128_loop :: "u8 list \<Rightarrow> nat \<Rightarrow> nat \<Rightarrow> nat \<Rightarrow> u8 list option" where
  "int128_loop mem ap bp 0 = Some mem"
| "int128_loop mem ap bp (Suc n) =
     do { mem \<leftarrow> exchange_one_int128 mem ap bp 16; int128_loop mem (ap + 16) (bp + 16) n }"

definition exchange_int128s :: "u8 list \<Rightarrow> nat \<Rightarrow> nat \<Rightarrow> nat \<Rightarrow> u8 list option" where
  "exchange_int128s mem a b sz = int128_loop mem a b (sz div 16)"

type_synonym exchange_f = "u8 list \<Rightarrow> nat \<Rightarrow> nat \<Rightarrow> nat \<Rightarrow> u8 list option"

definition exchange_func :: "u64 \<Rightarrow> u64 \<Rightarrow> exchange_f" where
  "exchange_func base sz =
     (let k = (base OR sz) AND 15 in
      if k = 0 then (if sz = 16 then exchange_one_int128 else exchange_int128s)
      else if k = 8 then (if sz = 8 then exchange_one_int64 else exchange_int64s)
      else if k = 4 \<or> k = 12 then (if sz = 4 then exchange_one_int32 else exchange_int32s)
      else if k = 2 \<or> k = 6 \<or> k = 10 \<or> k = 14 then
        (if sz = 2 then exchange_one_int16 else exchange_int16s)
      else (if sz = 1 then exchange_one_byte else exchange_bytes))"

text \<open>The exchange as a function of the bytes, and the elements of an array of bytes.\<close>

definition swap_bytes :: "u8 list \<Rightarrow> nat \<Rightarrow> nat \<Rightarrow> nat \<Rightarrow> u8 list" where
  "swap_bytes mem a b n =
     map (\<lambda>k. if a \<le> k \<and> k < a + n then mem ! (b + (k - a))
              else if b \<le> k \<and> k < b + n then mem ! (a + (k - b)) else mem ! k) [0..<length mem]"

definition apart :: "nat \<Rightarrow> nat \<Rightarrow> nat \<Rightarrow> nat \<Rightarrow> bool" where
  "apart a b n len \<longleftrightarrow> (a + n \<le> b \<or> b + n \<le> a) \<and> a + n \<le> len \<and> b + n \<le> len"

lemma length_swap_bytes [simp]: "length (swap_bytes mem a b n) = length mem"
  by (simp add: swap_bytes_def)

lemma nth_swap_bytes:
  "k < length mem \<Longrightarrow> swap_bytes mem a b n ! k =
     (if a \<le> k \<and> k < a + n then mem ! (b + (k - a))
      else if b \<le> k \<and> k < b + n then mem ! (a + (k - b)) else mem ! k)"
  by (simp add: swap_bytes_def)

lemma exchange_unit_swap:
  assumes "apart a b w (length mem)"
  shows "exchange_unit w mem a b = Some (swap_bytes mem a b w)"
proof -
  let ?m = "splice_at (splice_at mem a (take w (drop b mem))) b (take w (drop a mem))"
  have r: "a + w \<le> length mem" "b + w \<le> length mem" using assms by (auto simp: apart_def)
  then have "?m = swap_bytes mem a b w"
    using assms by (intro nth_equalityI) (auto simp: splice_simps nth_splice_at nth_swap_bytes apart_def)
  with r show ?thesis by (simp add: exchange_unit_def ld_def st_def splice_simps)
qed

lemma swap_bytes_comp:
  assumes "apart a b (w + n) (length mem)"
  shows "swap_bytes (swap_bytes mem a b w) (a + w) (b + w) n = swap_bytes mem a b (w + n)"
proof (rule nth_equalityI)
  fix k assume k: "k < length (swap_bytes (swap_bytes mem a b w) (a + w) (b + w) n)"
  then have k: "k < length mem" by simp
  have ap: "a + (w + n) \<le> b \<or> b + (w + n) \<le> a" "a + (w + n) \<le> length mem" "b + (w + n) \<le> length mem"
    using assms by (simp_all add: apart_def)
  have e: "b + w + (k - (a + w)) = b + (k - a)" if "a + w \<le> k" using that by simp
  have f: "a + w + (k - (b + w)) = a + (k - b)" if "b + w \<le> k" using that by simp
  consider "a \<le> k" "k < a + w" | "a + w \<le> k" "k < a + w + n" | "b \<le> k" "k < b + w"
    | "b + w \<le> k" "k < b + w + n" | "k < a \<or> a + w + n \<le> k" "k < b \<or> b + w + n \<le> k" by linarith
  then show "swap_bytes (swap_bytes mem a b w) (a + w) (b + w) n ! k = swap_bytes mem a b (w + n) ! k"
  proof cases
    case 1
    with ap have "\<not> (b + w \<le> k \<and> k < b + w + n)" "\<not> a + w \<le> k" by linarith+
    with 1 k show ?thesis by (auto simp: nth_swap_bytes)
  next
    case 2
    then obtain d where d: "k = a + w + d" "d < n" by (metis le_Suc_ex nat_add_left_cancel_less)
    with ap have "\<not> (a \<le> b + w + d \<and> b + w + d < a + w)" "b + w + d < length mem" by linarith+
    with d k show ?thesis by (auto simp: nth_swap_bytes add.assoc)
  next
    case 3
    with ap have "\<not> (a \<le> k \<and> k < a + (w + n))" "\<not> b + w \<le> k" "\<not> (a + w \<le> k \<and> k < a + w + n)"
      "\<not> (a \<le> k \<and> k < a + w)" "k < b + (w + n)" by linarith+
    with 3 k show ?thesis by (auto simp: nth_swap_bytes)
  next
    case 4
    then obtain d where d: "k = b + w + d" "d < n" by (metis le_Suc_ex nat_add_left_cancel_less)
    with ap have "\<not> (b \<le> a + w + d \<and> a + w + d < b + w)" "a + w + d < length mem"
      "\<not> (a \<le> b + w + d \<and> b + w + d < a + (w + n))" by linarith+
    with d k show ?thesis by (auto simp: nth_swap_bytes add.assoc)
  next
    case 5
    then have "\<not> (a \<le> k \<and> k < a + (w + n))" "\<not> (a + w \<le> k \<and> k < a + w + n)" "\<not> (a \<le> k \<and> k < a + w)"
      "\<not> (b \<le> k \<and> k < b + (w + n))" "\<not> (b + w \<le> k \<and> k < b + w + n)" "\<not> (b \<le> k \<and> k < b + w)"
      by linarith+
    with k show ?thesis by (simp only: nth_swap_bytes length_swap_bytes if_False)
  qed
qed simp

lemma exchange_loop_swap:
  "apart a b (n * w) (length mem) \<Longrightarrow> exchange_loop w mem a b n = Some (swap_bytes mem a b (n * w))"
proof (induction n arbitrary: mem a b)
  case 0
  have "swap_bytes mem a b 0 = mem" by (intro nth_equalityI) (auto simp: nth_swap_bytes)
  then show ?case by simp
next
  case (Suc n)
  have a: "apart a b w (length mem)" "apart (a + w) (b + w) (n * w) (length mem)"
    using Suc.prems by (auto simp: apart_def)
  from exchange_unit_swap [OF a(1)] Suc.IH [of "a + w" "b + w" "swap_bytes mem a b w"] a(2)
    swap_bytes_comp [of a b w "n * w" mem] Suc.prems show ?case by simp
qed

lemma exchange_one_int128_swap:
  assumes "apart a b 16 (length mem)"
  shows "exchange_one_int128 mem a b sz = Some (swap_bytes mem a b 16)"
proof -
  let ?m = "splice_at (splice_at (splice_at (splice_at mem a (take 8 (drop b mem))) (a + 8) (take 8 (drop (b + 8) mem)))
     b (take 8 (drop a mem))) (b + 8) (take 8 (drop (a + 8) mem))"
  have r: "a + 16 \<le> length mem" "b + 16 \<le> length mem" using assms by (auto simp: apart_def)
  have "take 8 (drop (b + 8) (splice_at mem a (take 8 (drop b mem)))) = take 8 (drop (b + 8) mem)"
    using r assms by (intro nth_equalityI) (auto simp: splice_simps nth_splice_at apart_def)
  moreover have "?m = swap_bytes mem a b 16"
    using r assms by (intro nth_equalityI) (auto simp: splice_simps nth_splice_at nth_swap_bytes apart_def)
  ultimately show ?thesis using r by (simp add: exchange_one_int128_def ld_def st_def splice_simps)
qed

lemma int128_loop_swap:
  "apart a b (n * 16) (length mem) \<Longrightarrow> int128_loop mem a b n = Some (swap_bytes mem a b (n * 16))"
proof (induction n arbitrary: mem a b)
  case 0
  have "swap_bytes mem a b 0 = mem" by (intro nth_equalityI) (auto simp: nth_swap_bytes)
  then show ?case by simp
next
  case (Suc n)
  have a: "apart a b 16 (length mem)" "apart (a + 16) (b + 16) (n * 16) (length mem)"
    using Suc.prems by (auto simp: apart_def)
  from exchange_one_int128_swap [OF a(1)] Suc.IH [of "a + 16" "b + 16" "swap_bytes mem a b 16"] a(2)
    swap_bytes_comp [of a b 16 "n * 16" mem] Suc.prems show ?case by (simp add: algebra_simps)
qed

text \<open>The switch picks a unit that divides the sz; \<open>len\<close> is any multiple of the unit.\<close>

lemma and_15_dvd: 
  fixes base sz :: u64
  assumes "k = (base OR sz) AND 15" "k AND mask m = 0" "m \<le> 4"
  shows "2 ^ m dvd unat sz"
proof -
  have "sz AND mask m = 0"
  proof (rule bit_word_eqI)
    fix n assume "n < LENGTH(64)"
    have "\<not> bit (k AND mask m) n" using assms(2) by simp
    moreover have "bit (15 :: u64) n" if "n < m"
    proof -
      have "n < 4" using that assms(3) by simp
      moreover have "(15 :: u64) = mask 4" by (simp add: mask_eq_exp_minus_1)
      ultimately show ?thesis using \<open>n < LENGTH(64)\<close> by (simp only: bit_mask_iff possible_bit_word)
    qed
    ultimately show "bit (sz AND mask m) n = bit 0 n"
      using assms(1) by (auto simp: bit_simps)
  qed
  then have "take_bit m sz = 0" by (simp add: take_bit_eq_mask)
  then have "take_bit m (unat sz) = 0" by (simp flip: unsigned_take_bit_eq)
  then show ?thesis by (simp add: take_bit_eq_0_iff)
qed
lemma exchange_func_swap:
  assumes "apart a b len (length mem)" "\<And>m. m \<le> 4 \<Longrightarrow> 2 ^ m dvd unat sz \<Longrightarrow> 2 ^ m dvd len"
    "unat sz = len \<or> 16 < unat sz"
  shows "exchange_func base sz mem a b len = Some (swap_bytes mem a b len)"
proof -
  define k where "k = (base OR sz) AND 15"
  have un: "apart a b (len div 2 ^ m * 2 ^ m) (length mem)" "len div 2 ^ m * 2 ^ m = len"
    if "k AND mask m = 0" "m \<le> 4" for m
  proof -
    have "2 ^ m dvd len" using and_15_dvd [OF k_def that] by (rule assms(2) [OF that(2)])
    then show "len div 2 ^ m * 2 ^ m = len" by simp
    with assms(1) show "apart a b (len div 2 ^ m * 2 ^ m) (length mem)" by simp
  qed
  note loop = exchange_loop_swap [OF un(1), unfolded un(2)]
  have one: "len = unat c" if "sz = c" "unat c \<le> 16" for c :: u64
    using that assms(3) by auto
  consider "k = 0" | "k = 8" | "k = 4 \<or> k = 12" | "k = 2 \<or> k = 6 \<or> k = 10 \<or> k = 14"
    | "k \<notin> {0, 2, 4, 6, 8, 10, 12, 14}" by auto
  then show ?thesis
  proof cases
    case 1
    then have "k AND mask 4 = 0" by simp
    from un [OF this] int128_loop_swap [of a b "len div 16" mem] exchange_one_int128_swap [of a b mem len]
      one [of 16] assms(1) 1 show ?thesis
      by (auto simp: exchange_func_def exchange_int128s_def k_def)
  next
    case 2
    then have "k AND mask 3 = 0" by (simp add: mask_eq_exp_minus_1)
    from un [OF this] exchange_loop_swap [of a b "len div 8" 8 mem] exchange_unit_swap [of a b 8 mem]
      one [of 8] assms(1) 2 show ?thesis
      by (auto simp: exchange_func_def exchange_int64s_def exchange_one_int64_def k_def)
  next
    case 3
    then have "k AND mask 2 = 0" by (auto simp: mask_eq_exp_minus_1)
    from un [OF this] exchange_loop_swap [of a b "len div 4" 4 mem] exchange_unit_swap [of a b 4 mem]
      one [of 4] assms(1) 3 show ?thesis
      by (auto simp: exchange_func_def exchange_int32s_def exchange_one_int32_def k_def)
  next
    case 4
    then have "k AND mask 1 = 0" by (auto simp: mask_eq_exp_minus_1)
    from un [OF this] exchange_loop_swap [of a b "len div 2" 2 mem] exchange_unit_swap [of a b 2 mem]
      one [of 2] assms(1) 4 show ?thesis
      by (auto simp: exchange_func_def exchange_int16s_def exchange_one_int16_def k_def)
  next
    case 5
    with exchange_loop_swap [of a b len 1 mem] exchange_unit_swap [of a b 1 mem] one [of 1] assms(1)
    show ?thesis
      by (auto simp: exchange_func_def exchange_bytes_def exchange_one_byte_def simp flip: k_def)
  qed
qed
text \<open>The elements of an array of bytes: element \<open>i\<close> is the \<open>sz\<close> bytes from \<open>i * sz\<close> on.\<close>

definition elem :: "nat \<Rightarrow> u8 list \<Rightarrow> nat \<Rightarrow> u8 list" where
  "elem sz mem i = map (\<lambda>t. mem ! (i * sz + t)) [0..<sz]"

definition elems :: "nat \<Rightarrow> nat \<Rightarrow> u8 list \<Rightarrow> u8 list list" where
  "elems n sz mem = map (elem sz mem) [0..<n]"

lemma block_index:
  assumes "t < (sz :: nat)"
  shows "i * sz \<le> k * sz + t \<longleftrightarrow> i \<le> k" "k * sz + t < i * sz + m * sz \<longleftrightarrow> k < i + m"
proof -
  have "i * sz \<le> k * sz + t \<longleftrightarrow> i \<le> k" for i
  proof
    assume "i * sz \<le> k * sz + t"
    then have "i * sz < Suc k * sz" using assms by simp
    then have "i < Suc k" by (simp only: mult_less_cancel2)
    then show "i \<le> k" by simp
  next
    assume "i \<le> k"
    then show "i * sz \<le> k * sz + t" by (simp add: trans_le_add1)
  qed
  note le = this
  show "i * sz \<le> k * sz + t \<longleftrightarrow> i \<le> k" by (rule le)
  have "i * sz + m * sz = (i + m) * sz" by (simp add: add_mult_distrib)
  with le [of "i + m"] show "k * sz + t < i * sz + m * sz \<longleftrightarrow> k < i + m" by (metis not_le)
qed

lemma elem_swap_bytes:
  assumes "k < n" "n * sz \<le> length mem"
  shows "elem sz (swap_bytes mem (i * sz) (j * sz) (m * sz)) k =
    elem sz mem (if i \<le> k \<and> k < i + m then j + (k - i) else if j \<le> k \<and> k < j + m then i + (k - j) else k)"
  unfolding elem_def
proof (rule map_cong [OF refl])
  fix t assume "t \<in> set [0..<sz]"
  then have t: "t < sz" by simp
  have "Suc k * sz \<le> n * sz" using assms(1) by (intro mult_right_mono) auto
  with t assms(2) have len: "k * sz + t < length mem" by simp
  have e: "b * sz + (k * sz + t - a * sz) = (b + (k - a)) * sz + t" if ak: "a \<le> k" for a b
  proof -
    obtain d where d: "k = a + d" using le_Suc_ex [OF ak] by blast
    have "a * sz + d * sz + t - a * sz = d * sz + t" by simp
    then show ?thesis unfolding d by (simp add: add_mult_distrib)
  qed
  show "swap_bytes mem (i * sz) (j * sz) (m * sz) ! (k * sz + t) =
    mem ! ((if i \<le> k \<and> k < i + m then j + (k - i) else if j \<le> k \<and> k < j + m then i + (k - j) else k) * sz + t)"
  proof (cases "i \<le> k \<and> k < i + m")
    case True
    show ?thesis by (simp only: nth_swap_bytes [OF len] block_index [OF t] if_P [OF True] e [OF conjunct1 [OF True]])
  next
    case f: False
    show ?thesis
    proof (cases "j \<le> k \<and> k < j + m")
      case True
      show ?thesis by (simp only: nth_swap_bytes [OF len] block_index [OF t] if_not_P [OF f] if_P [OF True] e [OF conjunct1 [OF True]])
    next
      case False
      show ?thesis by (simp only: nth_swap_bytes [OF len] block_index [OF t] if_not_P [OF f] if_not_P [OF False])
    qed
  qed
qed

lemma elems_swap:
  assumes "i < n" "j < n" "n * sz \<le> length mem"
  shows "elems n sz (swap_bytes mem (i * sz) (j * sz) sz) = swap_at (elems n sz mem) i j"
proof (rule nth_equalityI)
  fix k assume "k < length (elems n sz (swap_bytes mem (i * sz) (j * sz) sz))"
  then have k: "k < n" by (simp add: elems_def)
  with elem_swap_bytes [OF k assms(3), of i j 1] assms
  show "elems n sz (swap_bytes mem (i * sz) (j * sz) sz) ! k = swap_at (elems n sz mem) i j ! k"
    by (auto simp: elems_def nth_swap_at)
qed (simp add: elems_def)

lemma elems_swap_block:
  assumes "i + m \<le> j" "j + m \<le> n" "n * sz \<le> length mem"
  shows "swap_block (elems n sz mem) i j m = Some (elems n sz (swap_bytes mem (i * sz) (j * sz) (m * sz)))"
proof -
  from swap_block_spec [OF assms(1), of "elems n sz mem"] assms(2) obtain ys where
    ys: "swap_block (elems n sz mem) i j m = Some ys" "length ys = n"
      "\<forall>k<n. ys ! k = (if i \<le> k \<and> k < i + m then elems n sz mem ! (k - i + j)
         else if j \<le> k \<and> k < j + m then elems n sz mem ! (k - j + i) else elems n sz mem ! k)"
    by (auto simp: elems_def)
  have "ys = elems n sz (swap_bytes mem (i * sz) (j * sz) (m * sz))"
  proof (rule nth_equalityI)
    fix k assume "k < length ys"
    then have k: "k < n" using ys(2) by simp
    from ys(3) [rule_format, OF k] elem_swap_bytes [OF k assms(3), of i j m] k assms
    show "ys ! k = elems n sz (swap_bytes mem (i * sz) (j * sz) (m * sz)) ! k"
      by (auto simp: elems_def add.commute)
  qed (use ys(2) in \<open>simp add: elems_def\<close>)
  with ys(1) show ?thesis by simp
qed

lemma exchange_refines_swap:
  assumes "i < n" "j < n" "i \<noteq> j" "n * unat sz \<le> length mem"
  shows "\<exists>mem'. exchange_func base sz mem (i * unat sz) (j * unat sz) (unat sz) = Some mem' \<and>
    elems n (unat sz) mem' = swap_at (elems n (unat sz) mem) i j"
proof -
  have "Suc i * unat sz \<le> n * unat sz" "Suc j * unat sz \<le> n * unat sz"
    using assms by (intro mult_right_mono; simp)+
  moreover have "Suc i * unat sz \<le> j * unat sz \<or> Suc j * unat sz \<le> i * unat sz"
    using assms(3) by (cases "i < j") (auto intro!: mult_right_mono simp del: mult_Suc)
  ultimately have "apart (i * unat sz) (j * unat sz) (unat sz) (length mem)"
    using assms(4) by (auto simp: apart_def add.commute)
  from exchange_func_swap [OF this, of sz base] elems_swap [OF assms(1,2,4)] show ?thesis by auto
qed

lemma exchange_refines_swap_block:
  assumes "i + m \<le> j" "j + m \<le> n" "n * unat sz \<le> length mem"
  shows "\<exists>mem'. exchange_func base (sz OR 128) mem (i * unat sz) (j * unat sz) (m * unat sz) = Some mem' \<and>
    swap_block (elems n (unat sz) mem) i j m = Some (elems n (unat sz) mem')"
proof -
  have "(i + m) * unat sz \<le> j * unat sz" "(j + m) * unat sz \<le> n * unat sz"
    using assms by (intro mult_right_mono; simp)+
  then have a: "apart (i * unat sz) (j * unat sz) (m * unat sz) (length mem)"
    using assms(3) by (auto simp: apart_def add_mult_distrib)
  have "2 ^ b dvd m * unat sz" if "b \<le> 4" "2 ^ b dvd unat (sz OR 128)" for b
  proof -
    have "take_bit b (unat (sz OR 128)) = 0" using that(2) by (simp add: take_bit_eq_0_iff)
    then have "take_bit b (sz OR 128) = 0" by (metis unsigned_take_bit_eq unat_eq_zero)
    then have "take_bit b sz = 0" by (simp add: or_eq_0_iff)
    then have "take_bit b (unat sz) = 0" by (simp flip: unsigned_take_bit_eq)
    then show ?thesis by (simp add: take_bit_eq_0_iff)
  qed
  moreover have "128 \<le> sz OR 128" by (rule le_word_or1)
  then have "16 < unat (sz OR 128)" by (simp add: word_le_nat_alt)
  ultimately show ?thesis
    using exchange_func_swap [OF a, of "sz OR 128" base] elems_swap_block [OF assms] by auto
qed
end
