(* ===== verification/CharRange.thy ===== *)
theory CharRange
  imports RQSort
begin

text \<open>
  libunicode.h, libunicode.c: character ranges.  A \<open>CharRange\<close> holds a sorted array of points;
  a code point \<open>c\<close> is in the range when an odd number of points is at most \<open>c\<close>, so two
  consecutive points \<open>a\<close>, \<open>b\<close> are the interval \<open>[a, b)\<close>.  The operations are shown to be
  the set operations, and the ranges they build to be canonical: strictly increasing points.
\<close>

subsection \<open>The record and its operations\<close>

type_synonym cr_realloc_fun = "u32 list \<Rightarrow> nat \<Rightarrow> u32 list option"

record char_range =
  cr_len :: nat
  cr_size :: nat
  cr_points :: "u32 list"
  cr_realloc_func :: cr_realloc_fun

datatype cr_op_enum = CR_OP_UNION | CR_OP_INTER | CR_OP_XOR

definition cr_default_realloc :: "nat \<Rightarrow> (nat \<Rightarrow> u32) \<Rightarrow> cr_realloc_fun" where
  "cr_default_realloc avail junk = libc_realloc avail junk"

definition cr_init :: "cr_realloc_fun \<Rightarrow> char_range" where
  "cr_init f = \<lparr>cr_len = 0, cr_size = 0, cr_points = [], cr_realloc_func = f\<rparr>"

text \<open>\<open>cr_free\<close> leaves the fields as they are; the block is the allocator's again.\<close>

definition cr_free :: "char_range \<Rightarrow> char_range" where
  "cr_free cr = cr\<lparr>cr_points := []\<rparr>"

definition cr_realloc :: "char_range \<Rightarrow> nat \<Rightarrow> int \<times> char_range" where
  "cr_realloc cr sz =
     (if sz > cr_size cr then
        let new_size = max sz (cr_size cr * 3 div 2) in
        (case cr_realloc_func cr (cr_points cr) new_size of
           None \<Rightarrow> (-1, cr)
         | Some new_buf \<Rightarrow> (0, cr\<lparr>cr_points := new_buf, cr_size := new_size\<rparr>))
      else (0, cr))"

definition cr_copy :: "char_range \<Rightarrow> char_range \<Rightarrow> int \<times> char_range" where
  "cr_copy cr cr1 =
     (case cr_realloc cr (cr_len cr1) of
        (r, cr) \<Rightarrow>
          if r \<noteq> 0 then (-1, cr)
          else (0, cr\<lparr>cr_points := splice_at (cr_points cr) 0 (take (cr_len cr1) (cr_points cr1)),
                      cr_len := cr_len cr1\<rparr>))"

definition cr_add_point :: "char_range \<Rightarrow> u32 \<Rightarrow> int \<times> char_range" where
  "cr_add_point cr v =
     (case (if cr_len cr \<ge> cr_size cr then cr_realloc cr (cr_len cr + 1) else (0, cr)) of
        (r, cr) \<Rightarrow>
          if r \<noteq> 0 then (-1, cr)
          else (0, cr\<lparr>cr_points := (cr_points cr)[cr_len cr := v], cr_len := cr_len cr + 1\<rparr>))"

definition cr_add_interval :: "char_range \<Rightarrow> u32 \<Rightarrow> u32 \<Rightarrow> int \<times> char_range" where
  "cr_add_interval cr c1 c2 =
     (case (if cr_len cr + 2 > cr_size cr then cr_realloc cr (cr_len cr + 2) else (0, cr)) of
        (r, cr) \<Rightarrow>
          if r \<noteq> 0 then (-1, cr)
          else (0, cr\<lparr>cr_points := (cr_points cr)[cr_len cr := c1, cr_len cr + 1 := c2],
                      cr_len := cr_len cr + 2\<rparr>))"

text \<open>\<open>cr_compress\<close>: the inner loop finds the end of a run of adjacent intervals.\<close>

function run_end :: "u32 list \<Rightarrow> nat \<Rightarrow> nat \<Rightarrow> nat" where
  "run_end pt len j = (if j + 3 < len \<and> pt ! (j + 1) = pt ! (j + 2) then run_end pt len (j + 2) else j)"
  by pat_completeness auto
termination by (relation "measure (\<lambda>(pt, len, j). len - j)") auto

declare run_end.simps [simp del]

lemma run_end_ge: "j \<le> run_end pt len j"
proof (induction pt len j rule: run_end.induct)
  case (1 pt len j)
  show ?case
  proof (cases "j + 3 < len \<and> pt ! (j + 1) = pt ! (j + 2)")
    case True
    with 1 have "j + 2 \<le> run_end pt len (j + 2)" by blast
    with True show ?thesis by (simp add: run_end.simps [of pt len j])
  next
    case False
    show ?thesis by (simp only: run_end.simps [of pt len j] if_not_P [OF False] order_refl)
  qed
qed

function compress_loop :: "u32 list \<Rightarrow> nat \<Rightarrow> nat \<Rightarrow> nat \<Rightarrow> u32 list \<times> nat" where
  "compress_loop pt len i k =
     (if i + 1 < len then
        if pt ! i = pt ! (i + 1) then compress_loop pt len (i + 2) k
        else
          let j = run_end pt len i;
              pt = pt[k := pt ! i];
              pt = pt[k + 1 := pt ! (j + 1)]
          in compress_loop pt len (j + 2) (k + 2)
      else (pt, k))"
  by pat_completeness auto
termination
proof (relation "measure (\<lambda>(pt, len, i, k). len - i)", goal_cases)
  case (3 pt len i k j pt1 pt2)
  then show ?case using run_end_ge [of i pt len] by simp
qed simp_all

declare compress_loop.simps [simp del]

definition cr_compress :: "char_range \<Rightarrow> char_range" where
  "cr_compress cr =
     (case compress_loop (cr_points cr) (cr_len cr) 0 0 of (pt, k) \<Rightarrow> cr\<lparr>cr_points := pt, cr_len := k\<rparr>)"

text \<open>
  \<open>cr_op\<close>: \<open>next_point\<close> takes the next point of \<open>a\<close> and \<open>b\<close> in increasing order, \<open>is_in\<close> is
  the status after it, and the point is added when the status changes.
\<close>

definition next_point :: "u32 list \<Rightarrow> nat \<Rightarrow> u32 list \<Rightarrow> nat \<Rightarrow> (u32 \<times> nat \<times> nat) option" where
  "next_point a_pt a_idx b_pt b_idx =
     (if a_idx < length a_pt \<and> b_idx < length b_pt then
        if a_pt ! a_idx < b_pt ! b_idx then Some (a_pt ! a_idx, a_idx + 1, b_idx)
        else if a_pt ! a_idx = b_pt ! b_idx then Some (a_pt ! a_idx, a_idx + 1, b_idx + 1)
        else Some (b_pt ! b_idx, a_idx, b_idx + 1)
      else if a_idx < length a_pt then Some (a_pt ! a_idx, a_idx + 1, b_idx)
      else if b_idx < length b_pt then Some (b_pt ! b_idx, a_idx, b_idx + 1)
      else None)"

fun op_in :: "cr_op_enum \<Rightarrow> bool \<Rightarrow> bool \<Rightarrow> bool" where
  "op_in CR_OP_UNION a b = (a \<or> b)"
| "op_in CR_OP_INTER a b = (a \<and> b)"
| "op_in CR_OP_XOR a b = (a \<noteq> b)"

function cr_op_loop ::
  "char_range \<Rightarrow> u32 list \<Rightarrow> nat \<Rightarrow> u32 list \<Rightarrow> nat \<Rightarrow> cr_op_enum \<Rightarrow> int \<times> char_range" where
  "cr_op_loop cr a_pt a_idx b_pt b_idx op =
     (case next_point a_pt a_idx b_pt b_idx of
        None \<Rightarrow> (0, cr)
      | Some (v, a_idx, b_idx) \<Rightarrow>
          if op_in op (odd a_idx) (odd b_idx) \<noteq> odd (cr_len cr) then
            (case cr_add_point cr v of
               (r, cr) \<Rightarrow> if r \<noteq> 0 then (-1, cr) else cr_op_loop cr a_pt a_idx b_pt b_idx op)
          else cr_op_loop cr a_pt a_idx b_pt b_idx op)"
  by pat_completeness auto
termination
  by (relation "measure (\<lambda>(cr, a, i, b, j, op). (length a - i) + (length b - j))")
     (auto simp: next_point_def split: if_splits)

declare cr_op_loop.simps [simp del]

definition cr_op :: "char_range \<Rightarrow> u32 list \<Rightarrow> u32 list \<Rightarrow> cr_op_enum \<Rightarrow> int \<times> char_range" where
  "cr_op cr a_pt b_pt op =
     (case cr_op_loop cr a_pt 0 b_pt 0 op of
        (r, cr) \<Rightarrow> if r \<noteq> 0 then (-1, cr) else (0, cr_compress cr))"

definition cr_union1 :: "char_range \<Rightarrow> u32 list \<Rightarrow> int \<times> char_range" where
  "cr_union1 cr b_pt =
     cr_op (cr\<lparr>cr_len := 0, cr_size := 0, cr_points := []\<rparr>) (take (cr_len cr) (cr_points cr)) b_pt CR_OP_UNION"

definition cr_union_interval :: "char_range \<Rightarrow> u32 \<Rightarrow> u32 \<Rightarrow> int \<times> char_range" where
  "cr_union_interval cr c1 c2 = cr_union1 cr [c1, c2 + 1]"

definition cr_invert :: "char_range \<Rightarrow> int \<times> char_range" where
  "cr_invert cr =
     (let len = cr_len cr in
      case cr_realloc cr (len + 2) of
        (r, cr) \<Rightarrow>
          if r \<noteq> 0 then (-1, cr)
          else
            let pt = splice_at (cr_points cr) 1 (take len (cr_points cr));
                pt = pt[0 := 0, len + 1 := UINT32_MAX]
            in (0, cr_compress (cr\<lparr>cr_points := pt, cr_len := len + 2\<rparr>)))"

text \<open>
  \<open>cr_sort_and_remove_overlap\<close>: the points are sorted as an array of pairs by their first point.
\<close>

definition point_cmp :: "u32 \<times> u32 \<Rightarrow> u32 \<times> u32 \<Rightarrow> int" where
  "point_cmp p1 p2 = (let v1 = fst p1; v2 = fst p2 in of_bool (v1 > v2) - of_bool (v1 < v2))"

fun pairs :: "'a list \<Rightarrow> ('a \<times> 'a) list" where
  "pairs (x # y # xs) = (x, y) # pairs xs"
| "pairs xs = []"

fun unpairs :: "('a \<times> 'a) list \<Rightarrow> 'a list" where
  "unpairs [] = []"
| "unpairs ((x, y) # xs) = x # y # unpairs xs"

text \<open>The inner \<open>while\<close>: the end of the merged interval and the index after it.\<close>

function overlap_end :: "u32 list \<Rightarrow> nat \<Rightarrow> nat \<Rightarrow> u32 \<Rightarrow> u32 \<times> nat" where
  "overlap_end pt len i e =
     (if i < len then
        if pt ! i > e then (e, i)
        else if pt ! (i + 1) \<le> e then overlap_end pt len (i + 2) e
        else overlap_end pt len (i + 2) (pt ! (i + 1))
      else (e, i))"
  by pat_completeness auto
termination by (relation "measure (\<lambda>(pt, len, i, e). len - i)") auto

declare overlap_end.simps [simp del]

lemma overlap_end_ge: "i \<le> snd (overlap_end pt len i e)"
proof (induction pt len i e rule: overlap_end.induct)
  case (1 pt len i e)
  then show ?case by (subst overlap_end.simps) (auto simp del: add_2_eq_Suc')
qed

function overlap_loop :: "u32 list \<Rightarrow> nat \<Rightarrow> nat \<Rightarrow> nat \<Rightarrow> u32 list \<times> nat" where
  "overlap_loop pt len i j =
     (if i < len then
        let start = pt ! i;
            r = overlap_end pt len (i + 2) (pt ! (i + 1))
        in overlap_loop (pt[j := start, j + 1 := fst r]) len (snd r) (j + 2)
      else (pt, j))"
  by pat_completeness auto
termination
proof (relation "measure (\<lambda>(pt, len, i, j). len - i)", goal_cases)
  case (2 pt len i j start r)
  then show ?case using overlap_end_ge [of "i + 2" pt len "pt ! (i + 1)"] by simp
qed simp_all

declare overlap_loop.simps [simp del]

definition cr_sort_and_remove_overlap :: "char_range \<Rightarrow> char_range option" where
  "cr_sort_and_remove_overlap cr =
     do {
       ps \<leftarrow> rqsort point_cmp 0 (cr_len cr div 2) (pairs (take (cr_len cr) (cr_points cr)));
       let pt = splice_at (cr_points cr) 0 (unpairs ps);
       case overlap_loop pt (cr_len cr) 0 0 of
         (pt, j) \<Rightarrow> Some (cr\<lparr>cr_points := pt, cr_len := j\<rparr>)
     }"

subsection \<open>The set a list of points stands for\<close>

definition cnt :: "u32 \<Rightarrow> u32 list \<Rightarrow> nat" where
  "cnt c pts = length (filter (\<lambda>p. p \<le> c) pts)"

definition in_points :: "u32 list \<Rightarrow> u32 \<Rightarrow> bool" where
  "in_points pts c = odd (cnt c pts)"

definition cr_set :: "u32 list \<Rightarrow> u32 set" where
  "cr_set pts = {c. in_points pts c}"

definition canonical :: "u32 list \<Rightarrow> bool" where
  "canonical pts \<longleftrightarrow> sorted_wrt (<) pts \<and> even (length pts)"

lemma cnt_simps [simp]:
  "cnt c [] = 0" "cnt c (p # ps) = (if p \<le> c then Suc (cnt c ps) else cnt c ps)"
  "cnt c (ps @ qs) = cnt c ps + cnt c qs"
  by (simp_all add: cnt_def)

lemma cnt_above: "(\<And>p. p \<in> set ps \<Longrightarrow> c < p) \<Longrightarrow> cnt c ps = 0"
  by (induction ps) (auto simp: not_le)

lemma cnt_below: "(\<And>p. p \<in> set ps \<Longrightarrow> p \<le> c) \<Longrightarrow> cnt c ps = length ps"
  by (induction ps) auto

lemma in_cr_set [simp]: "c \<in> cr_set pts \<longleftrightarrow> odd (cnt c pts)"
  by (simp add: cr_set_def in_points_def)

text \<open>The largest code unit is in no range, and canonical points are determined by the set.\<close>

lemma max_not_in: "even (length pts) \<Longrightarrow> UINT32_MAX \<notin> cr_set pts"
  using cnt_below [of pts UINT32_MAX] le_uint32_max by simp

lemma cnt_pred:
  assumes "sorted_wrt (<) pts" "p \<noteq> 0"
  shows "cnt p pts = cnt (p - 1) pts + of_bool (p \<in> set pts)"
  using assms
proof (induction pts)
  case (Cons q pts)
  have less: "q \<le> p - 1 \<longleftrightarrow> q < p" for q using Cons.prems(2) unat_eq_zero [of p]
    by (auto simp: word_le_nat_alt word_less_nat_alt unat_minus_one)
  show ?case
  proof (cases "q = p")
    case True
    with Cons.prems have "cnt p pts = 0" "cnt (p - 1) pts = 0" "p \<notin> set pts"
      using less by (auto intro!: cnt_above simp flip: not_le)
    with True less show ?thesis by simp
  next
    case False
    with Cons less show ?thesis by auto
  qed
qed simp

lemma canonical_unique:
  assumes "sorted_wrt (<) xs" "sorted_wrt (<) ys" "cr_set xs = cr_set ys"
  shows "xs = ys"
proof -
  have mem: "p \<in> set zs \<longleftrightarrow> (if p = 0 then p \<in> cr_set zs else (p \<in> cr_set zs) \<noteq> (p - 1 \<in> cr_set zs))"
    if "sorted_wrt (<) zs" for p zs
  proof (cases "p = 0")
    case True
    have "cnt 0 zs = of_bool (0 \<in> set zs)" using that
      by (induction zs) (auto simp: cnt_above word_gt_0 intro!: cnt_above)
    with True show ?thesis by simp
  next
    case False
    from cnt_pred [OF that False] show ?thesis using False by auto
  qed
  have "set xs = set ys" using mem [OF assms(1)] mem [OF assms(2)] assms(3) by auto
  with assms(1,2) show ?thesis by (metis strict_sorted_equal)
qed

subsection \<open>The operations on lists of points\<close>

fun op_points :: "cr_op_enum \<Rightarrow> bool \<Rightarrow> bool \<Rightarrow> u32 list \<Rightarrow> u32 list \<Rightarrow> u32 list" where
  "op_points op pa pb [] [] = []"
| "op_points op pa pb (x # xs) [] =
     (if op_in op (\<not> pa) pb \<noteq> op_in op pa pb then [x] else []) @ op_points op (\<not> pa) pb xs []"
| "op_points op pa pb [] (y # ys) =
     (if op_in op pa (\<not> pb) \<noteq> op_in op pa pb then [y] else []) @ op_points op pa (\<not> pb) [] ys"
| "op_points op pa pb (x # xs) (y # ys) =
     (if x < y then
        (if op_in op (\<not> pa) pb \<noteq> op_in op pa pb then [x] else []) @ op_points op (\<not> pa) pb xs (y # ys)
      else if x = y then
        (if op_in op (\<not> pa) (\<not> pb) \<noteq> op_in op pa pb then [x] else []) @ op_points op (\<not> pa) (\<not> pb) xs ys
      else
        (if op_in op pa (\<not> pb) \<noteq> op_in op pa pb then [y] else []) @ op_points op pa (\<not> pb) (x # xs) ys)"

lemma op_points_subset: "set (op_points op pa pb xs ys) \<subseteq> set xs \<union> set ys"
  by (induction op pa pb xs ys rule: op_points.induct) auto

lemma op_points_sorted: "sorted xs \<Longrightarrow> sorted ys \<Longrightarrow> sorted (op_points op pa pb xs ys)"
proof (induction op pa pb xs ys rule: op_points.induct)
  case (2 op pa pb x xs)
  then show ?case using op_points_subset [of op "\<not> pa" pb xs "[]"] by (auto simp: subset_iff)
next
  case (3 op pa pb y ys)
  then show ?case using op_points_subset [of op pa "\<not> pb" "[]" ys] by (auto simp: subset_iff)
next
  case (4 op pa pb x xs y ys)
  have up: "\<forall>w\<in>set xs. x \<le> w" "\<forall>w\<in>set ys. y \<le> w" "sorted xs" "sorted ys" using "4.prems" by simp_all
  consider "x < y" | "x = y" | "y < x" by fastforce
  then show ?case
  proof cases
    case 1
    have "\<forall>w\<in>set (op_points op (\<not> pa) pb xs (y # ys)). x \<le> w"
      using op_points_subset [of op "\<not> pa" pb xs "y # ys"] up 1 by (fastforce simp: subset_iff)
    moreover have "sorted (op_points op (\<not> pa) pb xs (y # ys))" using "4.IH"(1) [OF 1] up "4.prems" by simp
    ultimately show ?thesis using 1 by simp
  next
    case 2
    have "\<forall>w\<in>set (op_points op (\<not> pa) (\<not> pb) xs ys). x \<le> w"
      using op_points_subset [of op "\<not> pa" "\<not> pb" xs ys] up 2 by (fastforce simp: subset_iff)
    moreover have "sorted (op_points op (\<not> pa) (\<not> pb) xs ys)" using "4.IH"(2) [OF _ 2] up 2 by simp
    ultimately show ?thesis using 2 by simp
  next
    case 3
    have "\<forall>w\<in>set (op_points op pa (\<not> pb) (x # xs) ys). y \<le> w"
      using op_points_subset [of op pa "\<not> pb" "x # xs" ys] up 3 by (fastforce simp: subset_iff)
    moreover have "sorted (op_points op pa (\<not> pb) (x # xs) ys)" using "4.IH"(3) up 3 "4.prems" by simp
    moreover have "\<not> x < y" "x \<noteq> y" using 3 by auto
    ultimately show ?thesis by simp
  qed
qed simp

lemma op_points_cnt:
  "sorted xs \<Longrightarrow> sorted ys \<Longrightarrow>
   odd (cnt c (op_points op pa pb xs ys)) \<longleftrightarrow>
     op_in op (pa \<noteq> odd (cnt c xs)) (pb \<noteq> odd (cnt c ys)) \<noteq> op_in op pa pb"
proof (induction op pa pb xs ys rule: op_points.induct)
  case (2 op pa pb x xs)
  show ?case
  proof (cases "x \<le> c")
    case False
    with 2 have "cnt c xs = 0" by (auto intro!: cnt_above)
    with 2 False show ?thesis by auto
  qed (use 2 in auto)
next
  case (3 op pa pb y ys)
  show ?case
  proof (cases "y \<le> c")
    case False
    with 3 have "cnt c ys = 0" by (auto intro!: cnt_above)
    with 3 False show ?thesis by auto
  qed (use 3 in auto)
next
  case (4 op pa pb x xs y ys)
  have x: "\<not> x \<le> c \<Longrightarrow> cnt c xs = 0" using "4.prems" by (auto intro!: cnt_above)
  have y: "\<not> y \<le> c \<Longrightarrow> cnt c ys = 0" using "4.prems" by (auto intro!: cnt_above)
  consider "x < y" | "x = y" | "y < x" by fastforce
  then show ?case using 4 x y by cases auto
qed simp

fun compress_list :: "u32 list \<Rightarrow> u32 list" and compress_run :: "u32 \<Rightarrow> u32 \<Rightarrow> u32 list \<Rightarrow> u32 list" where
  "compress_list (x # y # zs) = (if x = y then compress_list zs else compress_run x y zs)"
| "compress_list zs = []"
| "compress_run x y (u # v # zs) =
     (if y = u then compress_run x v zs else x # y # compress_list (u # v # zs))"
| "compress_run x y zs = [x, y]"

lemma compress_even: "even (length (compress_list xs))" "even (length (compress_run x y zs))"
  by (induction xs and x y zs rule: compress_list_compress_run.induct) auto

lemma compress_cnt:
  "even (length xs) \<Longrightarrow> odd (cnt c (compress_list xs)) \<longleftrightarrow> odd (cnt c xs)"
  "even (length zs) \<Longrightarrow> odd (cnt c (compress_run x y zs)) \<longleftrightarrow> odd (cnt c (x # y # zs))"
  by (induction xs and x y zs rule: compress_list_compress_run.induct) auto

lemma compress_strict:
  "sorted xs \<Longrightarrow> sorted_wrt (<) (compress_list xs) \<and> set (compress_list xs) \<subseteq> set xs"
  "sorted (x # y # zs) \<Longrightarrow> x < y \<Longrightarrow>
     sorted_wrt (<) (compress_run x y zs) \<and> set (compress_run x y zs) \<subseteq> insert x (insert y (set zs))"
proof (induction xs and x y zs rule: compress_list_compress_run.induct)
  case (1 x y zs)
  then show ?case by (cases "x = y") (auto simp: order_less_le)
next
  case (3 x y u v zs)
  show ?case
  proof (cases "y = u")
    case True
    have "x < v" "sorted (x # v # zs)" using "3.prems" True by (auto intro: less_le_trans)
    with "3.IH"(1) [OF True] True show ?thesis by auto
  next
    case False
    then have "y < u" "sorted (u # v # zs)" "\<forall>w\<in>set (u # v # zs). u \<le> w" using "3.prems" by auto
    moreover from this "3.IH"(2) [OF False]
    have c: "sorted_wrt (<) (compress_list (u # v # zs))" "set (compress_list (u # v # zs)) \<subseteq> set (u # v # zs)"
      by blast+
    ultimately have "\<forall>w\<in>set (compress_list (u # v # zs)). y < w" by (meson less_le_trans subsetD)
    with c False "3.prems"(2) show ?thesis
      by (simp del: compress_list.simps) (meson less_trans order.trans subset_insertI2 subset_insertI)
  qed
qed auto

lemma compress_canonical:
  assumes "sorted xs" "even (length xs)"
  shows "canonical (compress_list xs) \<and> cr_set (compress_list xs) = cr_set xs"
  using compress_even(1) [of xs] compress_cnt(1) [OF assms(2)] compress_strict(1) [OF assms(1)]
  by (auto simp: canonical_def)

subsection \<open>The operations of the record are those of the lists\<close>

definition cr_pts :: "char_range \<Rightarrow> u32 list" where
  "cr_pts cr = take (cr_len cr) (cr_points cr)"

definition cr_wf :: "char_range \<Rightarrow> bool" where
  "cr_wf cr \<longleftrightarrow> length (cr_points cr) = cr_size cr \<and> cr_len cr \<le> cr_size cr"

lemma length_cr_pts: "cr_wf cr \<Longrightarrow> length (cr_pts cr) = cr_len cr"
  by (simp add: cr_wf_def cr_pts_def)

lemma take_update_snoc: "n < length xs \<Longrightarrow> take (Suc n) (xs[n := v]) = take n xs @ [v]"
  by (simp add: take_Suc_conv_app_nth)

lemma drop_update_before: "i < n \<Longrightarrow> drop n (xs[i := v]) = drop n xs"
  by (simp add: drop_update_cancel)

lemma drop2: "i + 1 < len \<Longrightarrow> len \<le> length pt \<Longrightarrow>
  drop i (take len pt) = pt ! i # pt ! (i + 1) # drop (i + 2) (take len pt)"
  by (metis (no_types, lifting) Cons_nth_drop_Suc Suc_eq_plus1 Suc_lessD add_2_eq_Suc' length_take min.absorb2 nth_take)

lemma compress_run_end:
  assumes "j + 1 < len" "len \<le> length pt"
  shows "run_end pt len j + 1 < len \<and> compress_run x (pt ! (j + 1)) (drop (j + 2) (take len pt)) =
    x # pt ! (run_end pt len j + 1) # compress_list (drop (run_end pt len j + 2) (take len pt))"
  using assms
proof (induction pt len j rule: run_end.induct)
  case (1 pt len j)
  consider "len \<le> j + 2" | "len = j + 3" | "j + 3 < len" using "1.prems" by linarith
  then show ?case
  proof cases
    case 3
    then have d: "drop (j + 2) (take len pt) = pt ! (j + 2) # pt ! (j + 3) # drop (j + 4) (take len pt)"
      using drop2 [of "j + 2" len pt] "1.prems" by (simp add: numeral_eq_Suc)
    show ?thesis
    proof (cases "pt ! (j + 1) = pt ! (j + 2)")
      case True
      with 3 "1.IH" "1.prems" d show ?thesis
        by (simp add: run_end.simps [of pt len j] numeral_eq_Suc)
    next
      case False
      with 3 "1.prems" d show ?thesis by (simp add: run_end.simps [of pt len j])
    qed
  next
    case 2
    then have d: "drop (j + 2) (take len pt) = [pt ! (j + 2)]"
      using "1.prems" by (intro nth_equalityI) auto
    moreover have "run_end pt len j = j" using 2 by (subst run_end.simps) simp
    ultimately show ?thesis using "1.prems" by simp
  next
    case 1
    with "1.prems" show ?thesis by (simp add: run_end.simps [of pt len j])
  qed
qed

lemma compress_loop_list:
  assumes "compress_loop pt len i k = (pt', k')" "k \<le> i" "len \<le> length pt" "k \<le> len"
  shows "length pt' = length pt \<and> k' \<le> len \<and> take k' pt' = take k pt @ compress_list (drop i (take len pt))"
  using assms
proof (induction pt len i k rule: compress_loop.induct)
  case (1 pt len i k)
  show ?case
  proof (cases "i + 1 < len")
    case False
    with "1.prems" have "length (drop i (take len pt)) \<le> 1" by simp
    then have "compress_list (drop i (take len pt)) = []"
      by (cases "drop i (take len pt)" rule: compress_list.cases) auto
    with False "1.prems" show ?thesis by (simp add: compress_loop.simps [of pt len i k])
  next
    case True
    note d = drop2 [OF True "1.prems"(3)]
    show ?thesis
    proof (cases "pt ! i = pt ! (i + 1)")
      case eq: True
      from "1.prems"(1) True eq have "compress_loop pt len (i + 2) k = (pt', k')"
        by (simp add: compress_loop.simps [of pt len i k])
      with "1.IH"(1) [OF True eq] "1.prems" d eq show ?thesis by simp
    next
      case False
      let ?j = "run_end pt len i"
      let ?pt = "pt[k := pt ! i, k + 1 := pt ! (?j + 1)]"
      have k: "pt[k := pt ! i] ! (?j + 1) = pt ! (?j + 1)" using run_end_ge [of i pt len] "1.prems" by simp
      from "1.prems"(1) True False have l: "compress_loop ?pt len (?j + 2) (k + 2) = (pt', k')"
        using k by (simp add: compress_loop.simps [of pt len i k] Let_def)
      have "k + 1 < length pt" using True "1.prems" by simp
      then have tk: "take (k + 2) ?pt = take k pt @ [pt ! i, pt ! (?j + 1)]"
        by (simp add: take_update_snoc)
      have dr: "drop (?j + 2) (take len ?pt) = drop (?j + 2) (take len pt)"
        using run_end_ge [of i pt len] "1.prems"(2) by (simp add: drop_take drop_update_before)
      from compress_run_end [OF True "1.prems"(3)]
      have r: "?j + 1 < len" "compress_run (pt ! i) (pt ! (i + 1)) (drop (i + 2) (take len pt)) =
        pt ! i # pt ! (?j + 1) # compress_list (drop (?j + 2) (take len pt))" by auto
      have "length pt' = length ?pt \<and> k' \<le> len \<and> take k' pt' = take (k + 2) ?pt @ compress_list (drop (?j + 2) (take len ?pt))"
        by (rule "1.IH"(2) [OF True False refl refl _ ]) (use k l run_end_ge [of i pt len] r(1) True "1.prems" in auto)
      then show ?thesis unfolding tk dr using r(2) d False by simp
    qed
  qed
qed

lemma cr_compress_list:
  assumes "cr_wf cr"
  shows "cr_wf (cr_compress cr) \<and> cr_pts (cr_compress cr) = compress_list (cr_pts cr) \<and>
    cr_realloc_func (cr_compress cr) = cr_realloc_func cr"
proof -
  obtain pt k where l: "compress_loop (cr_points cr) (cr_len cr) 0 0 = (pt, k)" by fastforce
  from compress_loop_list [OF this] assms show ?thesis
    by (auto simp: cr_compress_def l cr_wf_def cr_pts_def)
qed

lemma cnt_max: "cnt c [UINT32_MAX] = of_bool (c = UINT32_MAX)"
proof (cases "UINT32_MAX \<le> c")
  case True
  with le_uint32_max [of c] have "c = UINT32_MAX" by (rule antisym)
  then show ?thesis by simp
next
  case False
  then have "c \<noteq> UINT32_MAX" by auto
  with False show ?thesis by simp
qed

lemma invert_points:
  assumes "length xs = n" "n + 2 \<le> length p"
  shows "take (Suc (Suc n)) ((splice_at p (Suc 0) xs)[0 := v, Suc n := w]) = v # xs @ [w]"
proof -
  have l: "length (splice_at p (Suc 0) xs) = length p" using assms by (simp add: splice_simps)
  have "take (Suc n) ((splice_at p (Suc 0) xs)[0 := v]) = (take (Suc 0 + length xs) (splice_at p (Suc 0) xs))[0 := v]"
    using assms(1) by (simp add: take_update_swap)
  also have "\<dots> = v # xs" using assms take_splice_at [of "Suc 0" p xs] by (cases p) auto
  finally show ?thesis using l assms by (simp add: take_update_snoc)
qed

lemma next_point_step:
  assumes "next_point a i b j = Some (v, i', j')"
  shows "op_points op (odd i) (odd j) (drop i a) (drop j b) =
      (if op_in op (odd i') (odd j') \<noteq> op_in op (odd i) (odd j) then [v] else []) @
        op_points op (odd i') (odd j') (drop i' a) (drop j' b)"
    "max i' (length a) = max i (length a)" "max j' (length b) = max j (length b)"
proof -
  have a: "i < length a \<Longrightarrow> drop i a = a ! i # drop (Suc i) a" "\<not> i < length a \<Longrightarrow> drop i a = []"
    by (simp_all add: Cons_nth_drop_Suc)
  have b: "j < length b \<Longrightarrow> drop j b = b ! j # drop (Suc j) b" "\<not> j < length b \<Longrightarrow> drop j b = []"
    by (simp_all add: Cons_nth_drop_Suc)
  show "op_points op (odd i) (odd j) (drop i a) (drop j b) =
      (if op_in op (odd i') (odd j') \<noteq> op_in op (odd i) (odd j) then [v] else []) @
        op_points op (odd i') (odd j') (drop i' a) (drop j' b)"
  proof (cases "i < length a"; cases "j < length b")
    assume ij: "i < length a" "j < length b"
    consider "a ! i < b ! j" | "a ! i = b ! j" | "b ! j < a ! i" by fastforce
    then show ?thesis
    proof cases
      case 3
      then have "\<not> a ! i < b ! j" "a ! i \<noteq> b ! j" by auto
      then show ?thesis using assms ij a b by (auto simp: next_point_def simp del: drop_eq_Nil)
    qed (use assms ij a b in \<open>auto simp: next_point_def\<close>)
  qed (use assms a b in \<open>auto simp: next_point_def\<close>)
  show "max i' (length a) = max i (length a)" "max j' (length b) = max j (length b)"
    using assms by (auto simp: next_point_def split: if_splits)
qed

text \<open>
  A \<open>CharRange\<close> whose \<open>realloc_func\<close> keeps the allocator's contract.  Every operation returns 0
  with its result or -1 with a well-formed range.
\<close>

locale char_range_alloc = realloc_contract realloc for realloc :: cr_realloc_fun
begin

definition cr_ok :: "char_range \<Rightarrow> bool" where
  "cr_ok cr \<longleftrightarrow> cr_wf cr \<and> cr_realloc_func cr = realloc"

lemma init_ok: "cr_ok (cr_init realloc)" "cr_pts (cr_init realloc) = []"
  by (simp_all add: cr_ok_def cr_wf_def cr_init_def cr_pts_def)

lemma realloc_ok:
  assumes "cr_ok cr" "cr_realloc cr n = (r, cr')"
  shows "cr_ok cr' \<and> cr_pts cr' = cr_pts cr \<and> cr_len cr' = cr_len cr \<and> (r = 0 \<and> n \<le> cr_size cr' \<or> r = -1)"
  using assms realloc_length [of "cr_points cr"] realloc_keeps [of "cr_points cr" _ _ "cr_len cr"]
  by (auto simp: cr_realloc_def cr_ok_def cr_wf_def cr_pts_def Let_def split: if_splits option.splits)

lemma add_point_ok:
  assumes "cr_ok cr" "cr_add_point cr v = (r, cr')"
  shows "cr_ok cr' \<and> (r = 0 \<and> cr_pts cr' = cr_pts cr @ [v] \<or> r = -1 \<and> cr_pts cr' = cr_pts cr)"
proof -
  obtain q t where qt: "(if cr_len cr \<ge> cr_size cr then cr_realloc cr (cr_len cr + 1) else (0, cr)) = (q, t)"
    by fastforce
  then have t: "cr_ok t \<and> cr_pts t = cr_pts cr \<and> cr_len t = cr_len cr \<and> (q = 0 \<and> cr_len cr < cr_size t \<or> q = -1)"
    using assms(1) realloc_ok [OF assms(1), of "cr_len cr + 1" q t] by (auto split: if_splits)
  show ?thesis
  proof (cases "q = 0")
    case True
    then have "r = 0" "cr' = t\<lparr>cr_points := (cr_points t)[cr_len cr := v], cr_len := cr_len cr + 1\<rparr>"
      using assms(2) qt t by (simp_all add: cr_add_point_def)
    with t True show ?thesis by (auto simp: cr_ok_def cr_wf_def cr_pts_def take_update_snoc)
  next
    case False
    with assms(2) qt t show ?thesis by (simp add: cr_add_point_def)
  qed
qed

lemma add_interval_ok:
  assumes "cr_ok cr" "cr_add_interval cr c1 c2 = (r, cr')"
  shows "cr_ok cr' \<and> (r = 0 \<and> cr_pts cr' = cr_pts cr @ [c1, c2] \<or> r = -1 \<and> cr_pts cr' = cr_pts cr)"
proof -
  obtain q t where qt: "(if cr_len cr + 2 > cr_size cr then cr_realloc cr (cr_len cr + 2) else (0, cr)) = (q, t)"
    by fastforce
  then have t: "cr_ok t \<and> cr_pts t = cr_pts cr \<and> cr_len t = cr_len cr \<and> (q = 0 \<and> cr_len cr + 2 \<le> cr_size t \<or> q = -1)"
    using assms(1) realloc_ok [OF assms(1), of "cr_len cr + 2" q t] by (auto split: if_splits)
  show ?thesis
  proof (cases "q = 0")
    case True
    then have c: "r = 0" "cr' = t\<lparr>cr_points := (cr_points t)[cr_len cr := c1, cr_len cr + 1 := c2], cr_len := cr_len cr + 2\<rparr>"
      using assms(2) qt t by (simp_all add: cr_add_interval_def)
    have "take (cr_len cr + 2) ((cr_points t)[cr_len cr := c1, cr_len cr + 1 := c2]) = take (cr_len cr) (cr_points t) @ [c1, c2]"
      using t True by (simp add: cr_ok_def cr_wf_def take_update_snoc)
    with t True c show ?thesis by (auto simp: cr_ok_def cr_wf_def cr_pts_def)
  next
    case False
    with assms(2) qt t show ?thesis by (simp add: cr_add_interval_def)
  qed
qed

lemma copy_ok:
  assumes "cr_ok cr" "cr_wf cr1" "cr_copy cr cr1 = (r, cr')"
  shows "cr_ok cr' \<and> (r = 0 \<and> cr_pts cr' = cr_pts cr1 \<or> r = -1 \<and> cr_pts cr' = cr_pts cr)"
proof -
  obtain q t where qt: "cr_realloc cr (cr_len cr1) = (q, t)" by fastforce
  from realloc_ok [OF assms(1) qt] assms qt length_cr_pts [OF assms(2)] show ?thesis
    using take_splice_at [of 0 "cr_points t" "cr_pts cr1"]
    by (auto simp: cr_copy_def cr_ok_def cr_wf_def cr_pts_def splice_simps split: if_splits)
qed

lemma op_loop_ok:
  assumes "cr_ok cr" "cr_op_loop cr a i b j op = (r, cr')"
    "odd (cr_len cr) = op_in op (odd i) (odd j)"
  shows "cr_ok cr' \<and> (r = 0 \<and> cr_pts cr' = cr_pts cr @ op_points op (odd i) (odd j) (drop i a) (drop j b) \<and>
      odd (cr_len cr') = op_in op (odd (max i (length a))) (odd (max j (length b))) \<or> r = -1)"
  using assms
proof (induction cr a i b j op rule: cr_op_loop.induct)
  case (1 cr a i b j op)
  show ?case
  proof (cases "next_point a i b j")
    case None
    with "1.prems" show ?thesis
      by (auto simp: cr_op_loop.simps [of cr] next_point_def max_def split: if_splits)
  next
    case (Some t)
    then obtain v i' j' where s: "next_point a i b j = Some (v, i', j')" by (cases t) auto
    then have step: "op_points op (odd i) (odd j) (drop i a) (drop j b) =
      (if op_in op (odd i') (odd j') \<noteq> op_in op (odd i) (odd j) then [v] else []) @
        op_points op (odd i') (odd j') (drop i' a) (drop j' b)"
      "max i' (length a) = max i (length a)" "max j' (length b) = max j (length b)"
      using next_point_step [OF s] by auto
    show ?thesis
    proof (cases "op_in op (odd i') (odd j') \<noteq> odd (cr_len cr)")
      case True
      obtain q t where qt: "cr_add_point cr v = (q, t)" by fastforce
      from add_point_ok [OF "1.prems"(1) qt] have t: "cr_ok t" "q = 0 \<and> cr_pts t = cr_pts cr @ [v] \<or> q = -1"
        by auto
      show ?thesis
      proof (cases "q = 0")
        case q: True
        have "cr_op_loop t a i' b j' op = (r, cr')"
          using "1.prems"(2) s True qt q by (simp add: cr_op_loop.simps [of cr])
        moreover have "length (cr_pts t) = cr_len cr + 1" "length (cr_pts t) = cr_len t"
          using t q "1.prems"(1) length_cr_pts [of cr] length_cr_pts [of t] by (auto simp: cr_ok_def)
        then have "odd (cr_len t) = op_in op (odd i') (odd j')" using True by auto
        ultimately show ?thesis
          using "1.IH"(1) [OF s refl refl True qt [symmetric]] q t step True "1.prems"(3) by auto
      next
        case False
        with "1.prems"(2) s True qt t show ?thesis by (simp add: cr_op_loop.simps [of cr])
      qed
    next
      case False
      then have "cr_op_loop cr a i' b j' op = (r, cr')"
        using "1.prems"(2) s by (simp add: cr_op_loop.simps [of cr])
      then show ?thesis
        using "1.IH"(2) [OF s refl refl False "1.prems"(1)] step False "1.prems"(3) by auto
    qed
  qed
qed

lemma op_ok:
  assumes "cr_ok cr" "cr_pts cr = []" "cr_op cr a b op = (r, cr')"
    "sorted a" "sorted b" "even (length a)" "even (length b)"
  shows "cr_ok cr' \<and> (r = 0 \<and> canonical (cr_pts cr') \<and>
      cr_set (cr_pts cr') = {c. op_in op (c \<in> cr_set a) (c \<in> cr_set b)} \<or> r = -1)"
proof -
  obtain q t where qt: "cr_op_loop cr a 0 b 0 op = (q, t)" by fastforce
  have [simp]: "op_in op False False = False" by (cases op) auto
  have "cr_len cr = 0" using length_cr_pts [of cr] assms(1,2) by (simp add: cr_ok_def)
  then have t: "cr_ok t" "q = 0 \<and> cr_pts t = op_points op False False a b \<and> even (cr_len t) \<or> q = -1"
    using op_loop_ok [OF assms(1) qt] assms(2,6,7) by auto
  show ?thesis
  proof (cases "q = 0")
    case True
    then have c: "r = 0" "cr' = cr_compress t" using assms(3) qt by (auto simp: cr_op_def)
    have "sorted (cr_pts t)" "even (length (cr_pts t))"
      using t True op_points_sorted [OF assms(4,5)] length_cr_pts [of t] by (auto simp: cr_ok_def)
    from compress_canonical [OF this] cr_compress_list [of t] c t True op_points_cnt [OF assms(4,5)]
    show ?thesis by (auto simp: cr_ok_def)
  qed (use t assms(3) qt in \<open>auto simp: cr_op_def\<close>)
qed

lemma union1_ok:
  assumes "cr_ok cr" "canonical (cr_pts cr)" "sorted b" "even (length b)" "cr_union1 cr b = (r, cr')"
  shows "cr_ok cr' \<and> (r = 0 \<and> canonical (cr_pts cr') \<and> cr_set (cr_pts cr') = cr_set (cr_pts cr) \<union> cr_set b \<or> r = -1)"
proof -
  let ?c = "cr\<lparr>cr_len := 0, cr_size := 0, cr_points := []\<rparr>"
  have "cr_ok ?c" "cr_pts ?c = []" using assms(1) by (auto simp: cr_ok_def cr_wf_def cr_pts_def)
  moreover have "cr_op ?c (cr_pts cr) b CR_OP_UNION = (r, cr')"
    using assms(5) unfolding cr_union1_def cr_pts_def .
  moreover have "sorted (cr_pts cr)" "even (length (cr_pts cr))"
    using assms(2) by (auto simp: canonical_def strict_sorted_iff)
  ultimately have "cr_ok cr' \<and> (r = 0 \<and> canonical (cr_pts cr') \<and>
      cr_set (cr_pts cr') = {c. op_in CR_OP_UNION (c \<in> cr_set (cr_pts cr)) (c \<in> cr_set b)} \<or> r = -1)"
    using assms(3,4) by (intro op_ok)
  moreover have "{c. op_in CR_OP_UNION (c \<in> cr_set (cr_pts cr)) (c \<in> cr_set b)} = cr_set (cr_pts cr) \<union> cr_set b"
    by (simp only: op_in.simps Un_def)
  ultimately show ?thesis by (simp only:)
qed

lemma cr_set_interval: "c1 \<le> c2 \<Longrightarrow> cr_set [c1, c2] = {c1..<c2}"
  by (auto split: if_splits)

lemma union_interval_ok:
  assumes "cr_ok cr" "canonical (cr_pts cr)" "c1 \<le> c2" "c2 < UINT32_MAX" "cr_union_interval cr c1 c2 = (r, cr')"
  shows "cr_ok cr' \<and> (r = 0 \<and> canonical (cr_pts cr') \<and> cr_set (cr_pts cr') = cr_set (cr_pts cr) \<union> {c1..c2} \<or> r = -1)"
proof -
  have n: "c2 + 1 \<noteq> 0" using assms(4) by (auto simp: add_eq_0_iff2)
  then have "unat (c2 + 1) = Suc (unat c2)" using unatSuc [of c2] by (simp add: add.commute)
  then have "{c1..<c2 + 1} = {c1..c2}" "c1 \<le> c2 + 1"
    using assms(3) by (auto simp: word_le_nat_alt word_less_nat_alt)
  with union1_ok [of cr "[c1, c2 + 1]" r cr'] cr_set_interval [of c1 "c2 + 1"] assms show ?thesis
    by (simp add: cr_union_interval_def)
qed

lemma invert_ok:
  assumes "cr_ok cr" "sorted (cr_pts cr)" "even (length (cr_pts cr))" "cr_invert cr = (r, cr')"
  shows "cr_ok cr' \<and> (r = 0 \<and> canonical (cr_pts cr') \<and> cr_set (cr_pts cr') = - cr_set (cr_pts cr) - {UINT32_MAX} \<or> r = -1)"
proof -
  obtain q t where qt: "cr_realloc cr (cr_len cr + 2) = (q, t)" by fastforce
  from realloc_ok [OF assms(1) qt] have t: "cr_ok t" "cr_pts t = cr_pts cr" "cr_len t = cr_len cr"
    "q = 0 \<and> cr_len cr + 2 \<le> cr_size t \<or> q = -1" by auto
  show ?thesis
  proof (cases "q = 0")
    case True
    let ?p = "(splice_at (cr_points t) 1 (take (cr_len cr) (cr_points t)))[0 := 0, cr_len cr + 1 := UINT32_MAX]"
    let ?u = "t\<lparr>cr_points := ?p, cr_len := cr_len cr + 2\<rparr>"
    have c: "r = 0" "cr' = cr_compress ?u" using assms(4) qt t True by (simp_all add: cr_invert_def Let_def)
    have l: "length (cr_points t) = cr_size t" "cr_len cr + 2 \<le> cr_size t" "length (cr_pts cr) = cr_len cr"
      using t True assms(1) length_cr_pts [of cr] by (auto simp: cr_ok_def cr_wf_def)
    have tk: "take (cr_len cr) (cr_points t) = cr_pts cr" using t(2,3) by (simp add: cr_pts_def)
    have u: "cr_wf ?u" "cr_pts ?u = 0 # cr_pts cr @ [UINT32_MAX]"
    proof -
      show "cr_wf ?u" using l by (simp add: cr_wf_def splice_simps)
      show "cr_pts ?u = 0 # cr_pts cr @ [UINT32_MAX]"
        unfolding tk [symmetric] cr_pts_def [of ?u] using l by (simp add: invert_points)
    qed
    note ev = assms(3,2)
    have "sorted (cr_pts ?u)" "even (length (cr_pts ?u))" using u(2) ev le_uint32_max by (auto simp: sorted_append)
    from compress_canonical [OF this] have k: "canonical (cr_pts cr')" "cr_set (cr_pts cr') = cr_set (cr_pts ?u)"
      using cr_compress_list [OF u(1)] c(2) by auto
    moreover have "cr_set (cr_pts ?u) = - cr_set (cr_pts cr) - {UINT32_MAX}"
      using max_not_in [OF ev(1)] cnt_max unfolding u(2) by (auto split: if_splits)
    ultimately show ?thesis using c cr_compress_list [OF u(1)] t(1) by (auto simp: cr_ok_def)
  qed (use t assms(4) qt in \<open>auto simp: cr_invert_def\<close>)
qed

end

interpretation cr_libc: char_range_alloc "cr_default_realloc avail junk" for avail junk
  unfolding cr_default_realloc_def by unfold_locales

subsection \<open>Sorting the intervals and merging those that overlap\<close>

lemma of_bool_diff_le: "(of_bool a - of_bool b :: int) \<le> 0 \<longleftrightarrow> \<not> a \<or> b"
  by auto

interpretation point_order: comparator point_cmp
  by unfold_locales (auto simp: point_cmp_def Let_def of_bool_diff_le sgn_if)

lemma point_cmp_le: "point_cmp p q \<le> 0 \<longleftrightarrow> fst p \<le> fst q"
  by (auto simp: point_cmp_def Let_def of_bool_diff_le)

lemma length_pairs [simp]: "length (pairs xs) = length xs div 2"
  by (induction xs rule: pairs.induct) auto

lemma unpairs_pairs [simp]: "even (length xs) \<Longrightarrow> unpairs (pairs xs) = xs"
  by (induction xs rule: pairs.induct) auto

lemma pairs_unpairs [simp]: "pairs (unpairs ps) = ps"
  by (induction ps rule: unpairs.induct) auto

lemma length_unpairs [simp]: "length (unpairs ps) = 2 * length ps"
  by (induction ps rule: unpairs.induct) auto

fun merge_run :: "u32 \<Rightarrow> u32 \<Rightarrow> (u32 \<times> u32) list \<Rightarrow> (u32 \<times> u32) list" where
  "merge_run s e [] = [(s, e)]"
| "merge_run s e ((s1, e1) # ps) =
     (if s1 > e then (s, e) # merge_run s1 e1 ps
      else if e1 \<le> e then merge_run s e ps else merge_run s e1 ps)"

fun merge_list :: "(u32 \<times> u32) list \<Rightarrow> (u32 \<times> u32) list" where
  "merge_list [] = []"
| "merge_list ((s, e) # ps) = merge_run s e ps"

definition covers :: "(u32 \<times> u32) list \<Rightarrow> u32 set" where
  "covers ps = (\<Union>(s, e)\<in>set ps. {s..<e})"

definition separated :: "(u32 \<times> u32) list \<Rightarrow> bool" where
  "separated ps \<longleftrightarrow> sorted_wrt (\<lambda>p q. snd p < fst q) ps \<and> (\<forall>p\<in>set ps. fst p < snd p)"

lemma merge_run_spec:
  assumes "sorted (map fst ps)" "\<forall>p\<in>set ps. s \<le> fst p \<and> fst p < snd p" "s < e"
  shows "covers (merge_run s e ps) = {s..<e} \<union> covers ps \<and> separated (merge_run s e ps) \<and>
    (\<forall>p\<in>set (merge_run s e ps). s \<le> fst p)"
  using assms
proof (induction s e ps rule: merge_run.induct)
  case (1 s e)
  then show ?case by (simp add: covers_def separated_def)
next
  case (2 s e s1 e1 ps)
  have p: "sorted (map fst ps)" "s \<le> s1" "s1 < e1" "\<forall>p\<in>set ps. s \<le> fst p \<and> fst p < snd p"
    "\<forall>p\<in>set ps. s1 \<le> fst p \<and> fst p < snd p"
    using "2.prems" by auto
  have c: "covers ((s1, e1) # ps) = {s1..<e1} \<union> covers ps" by (simp add: covers_def)
  consider "s1 > e" | "s1 \<le> e" "e1 \<le> e" | "s1 \<le> e" "e < e1" by fastforce
  then show ?case
  proof cases
    case 1
    from "2.IH"(1) [OF 1 p(1,5,3)] have i: "covers (merge_run s1 e1 ps) = {s1..<e1} \<union> covers ps"
      "separated (merge_run s1 e1 ps)" "\<forall>p\<in>set (merge_run s1 e1 ps). s1 \<le> fst p" by auto
    have "covers ((s, e) # merge_run s1 e1 ps) = {s..<e} \<union> covers (merge_run s1 e1 ps)" by (simp add: covers_def)
    moreover have "separated ((s, e) # merge_run s1 e1 ps)"
      using i(2,3) 1 "2.prems"(3) by (auto simp: separated_def intro: less_le_trans)
    moreover have "\<forall>p\<in>set ((s, e) # merge_run s1 e1 ps). s \<le> fst p"
      using i(3) p(2) by (auto intro: order_trans)
    ultimately show ?thesis using 1 i(1) c by simp
  next
    case 2
    then have n: "\<not> e < s1" by simp
    have "{s..<e} \<union> ({s1..<e1} \<union> covers ps) = {s..<e} \<union> covers ps" using 2 p(2) by auto
    with "2.IH"(2) [OF n 2(2) p(1,4) "2.prems"(3)] n 2 c show ?thesis by simp
  next
    case 3
    then have n: "\<not> e < s1" "\<not> e1 \<le> e" by simp_all
    have "s < e1" using 3 "2.prems"(3) by simp
    moreover have "{s..<e} \<union> ({s1..<e1} \<union> covers ps) = {s..<e1} \<union> covers ps" using 3 p(2) by auto
    ultimately show ?thesis using "2.IH"(3) [OF n p(1,4)] n c by simp
  qed
qed

lemma separated_canonical:
  assumes "separated ps"
  shows "canonical (unpairs ps) \<and> cr_set (unpairs ps) = covers ps"
proof -
  have "sorted_wrt (<) (unpairs ps) \<and> (\<forall>x. x \<in> set (unpairs ps) \<longrightarrow> (\<exists>p\<in>set ps. fst p \<le> x)) \<and>
    (\<forall>c. odd (cnt c (unpairs ps)) \<longleftrightarrow> c \<in> covers ps)"
    using assms
  proof (induction ps rule: unpairs.induct)
    case (2 x y ps)
    then have s: "separated ps" "x < y" "\<forall>p\<in>set ps. y < fst p" by (auto simp: separated_def)
    note IH = "2.IH" [OF s(1)]
    have gt: "y < z" if "z \<in> set (unpairs ps)" for z
      using IH s(3) that by (meson less_le_trans)
    have "odd (cnt c (unpairs ((x, y) # ps))) \<longleftrightarrow> c \<in> covers ((x, y) # ps)" for c
    proof -
      have o: "odd (cnt c (unpairs ps)) \<longleftrightarrow> c \<in> covers ps" using IH by blast
      have "c \<in> covers ps \<Longrightarrow> y < c" using s(3) by (auto simp: covers_def intro: less_le_trans)
      moreover have "c \<in> covers ((x, y) # ps) \<longleftrightarrow> x \<le> c \<and> c < y \<or> c \<in> covers ps" by (auto simp: covers_def)
      moreover have "c < y \<Longrightarrow> cnt c (unpairs ps) = 0" using gt by (intro cnt_above) (meson less_trans)
      ultimately show ?thesis using s(2) o by (cases "c < y") (auto simp: not_less)
    qed
    moreover have "sorted_wrt (<) (unpairs ((x, y) # ps))" using IH gt s(2) by (auto intro: less_trans)
    moreover have "\<exists>p\<in>set ((x, y) # ps). fst p \<le> z" if "z \<in> set (unpairs ((x, y) # ps))" for z
      using that IH s(2) by (auto simp: less_imp_le)
    ultimately show ?case by blast
  qed (simp_all add: covers_def)
  then show ?thesis by (auto simp: canonical_def)
qed

lemma overlap_end_list:
  assumes "even len" "even i" "i \<le> len" "len \<le> length pt"
  shows "even (snd (overlap_end pt len i e)) \<and> snd (overlap_end pt len i e) \<le> len \<and>
    merge_run s e (pairs (drop i (take len pt))) =
      (s, fst (overlap_end pt len i e)) # merge_list (pairs (drop (snd (overlap_end pt len i e)) (take len pt)))"
  using assms
proof (induction pt len i e rule: overlap_end.induct)
  case (1 pt len i e)
  show ?case
  proof (cases "i < len")
    case False
    then have "overlap_end pt len i e = (e, i)" by (subst overlap_end.simps) simp
    with False "1.prems" show ?thesis by simp
  next
    case True
    then have "i + 1 < len" using "1.prems" by (metis Suc_eq_plus1 Suc_lessI even_Suc)
    from drop2 [OF this "1.prems"(4)]
    have d: "pairs (drop i (take len pt)) = (pt ! i, pt ! (i + 1)) # pairs (drop (i + 2) (take len pt))" by simp
    note n = overlap_end.simps [of pt len i e]
    consider "pt ! i > e" | "\<not> pt ! i > e" "pt ! (i + 1) \<le> e" | "\<not> pt ! i > e" "\<not> pt ! (i + 1) \<le> e" by blast
    then show ?thesis
    proof cases
      case 1
      with d True "1.prems" show ?thesis by (simp add: n)
    next
      case 2
      with "1.IH"(1) [OF True 2] d True "1.prems" \<open>i + 1 < len\<close> show ?thesis by (simp add: n)
    next
      case 3
      with "1.IH"(2) [OF True 3] d True "1.prems" \<open>i + 1 < len\<close> show ?thesis by (simp add: n)
    qed
  qed
qed

lemma overlap_loop_list:
  assumes "overlap_loop pt len i j = (pt', j')" "even len" "even i" "j \<le> i" "len \<le> length pt" "j \<le> len"
  shows "length pt' = length pt \<and> j' \<le> len \<and> take j' pt' = take j pt @ unpairs (merge_list (pairs (drop i (take len pt))))"
  using assms
proof (induction pt len i j rule: overlap_loop.induct)
  case (1 pt len i j)
  show ?case
  proof (cases "i < len")
    case False
    with "1.prems" show ?thesis by (simp add: overlap_loop.simps [of pt len i])
  next
    case True
    then have i1: "i + 1 < len" using "1.prems" by (metis Suc_eq_plus1 Suc_lessI even_Suc)
    let ?r = "overlap_end pt len (i + 2) (pt ! (i + 1))"
    let ?pt = "pt[j := pt ! i, j + 1 := fst ?r]"
    from "1.prems"(1) True have l: "overlap_loop ?pt len (snd ?r) (j + 2) = (pt', j')"
      by (simp add: overlap_loop.simps [of pt len i] Let_def)
    have g: "i + 2 \<le> snd ?r" by (rule overlap_end_ge)
    have e: "even (snd ?r)" "snd ?r \<le> len" "merge_run (pt ! i) (pt ! (i + 1)) (pairs (drop (i + 2) (take len pt))) =
      (pt ! i, fst ?r) # merge_list (pairs (drop (snd ?r) (take len pt)))"
      using overlap_end_list [of len "i + 2" pt "pt ! (i + 1)" "pt ! i"] "1.prems" i1 by auto
    have tk: "take (j + 2) ?pt = take j pt @ [pt ! i, fst ?r]"
      using "1.prems"(4,5) i1 by (simp add: take_update_snoc)
    have dr: "drop (snd ?r) (take len ?pt) = drop (snd ?r) (take len pt)"
      using g "1.prems"(4) by (simp add: drop_take drop_update_before)
    have "length pt' = length ?pt \<and> j' \<le> len \<and>
      take j' pt' = take (j + 2) ?pt @ unpairs (merge_list (pairs (drop (snd ?r) (take len ?pt))))"
      by (rule "1.IH" [OF True refl refl l "1.prems"(2) e(1)]) (use g "1.prems" i1 in auto)
    with tk dr e(3) drop2 [OF i1 "1.prems"(5)] show ?thesis by simp
  qed
qed

lemma sort_and_remove_overlap_ok:
  assumes "cr_wf cr" "even (cr_len cr)" "\<forall>(s, e)\<in>set (pairs (cr_pts cr)). s < e"
  shows "\<exists>cr'. cr_sort_and_remove_overlap cr = Some cr' \<and> cr_wf cr' \<and> canonical (cr_pts cr') \<and>
    cr_set (cr_pts cr') = covers (pairs (cr_pts cr)) \<and> cr_realloc_func cr' = cr_realloc_func cr"
proof -
  let ?n = "cr_len cr div 2" and ?p = "pairs (cr_pts cr)"
  have len: "length ?p = ?n" using length_cr_pts [OF assms(1)] by simp
  from rqsort_perm [of 0 ?n ?p point_cmp] len obtain ps where
    ps: "rqsort point_cmp 0 ?n ?p = Some ps" "perm_in 0 ?n ?p ps" by auto
  have srt: "sorted (map fst ps)"
    using point_order.rqsort_sorted [OF ps(1)] len perm_in_length [OF ps(2)]
    by (auto simp: sorted_in_def point_cmp_le sorted_iff_nth_mono_less)
  have same: "set ps = set ?p" "length ps = ?n"
    using ps(2) len by (auto simp: perm_in_def dest: mset_eq_setD)
  let ?pt = "splice_at (cr_points cr) 0 (unpairs ps)"
  have l: "length ?pt = cr_size cr" "take (cr_len cr) ?pt = unpairs ps"
    using same(2) assms(1,2) take_splice_at [of 0 "cr_points cr" "unpairs ps"]
    by (auto simp: cr_wf_def splice_simps)
  obtain pt j where lp: "overlap_loop ?pt (cr_len cr) 0 0 = (pt, j)" by fastforce
  from overlap_loop_list [OF lp assms(2)] l assms(1)
  have o: "length pt = cr_size cr" "j \<le> cr_len cr" "take j pt = unpairs (merge_list ps)"
    by (auto simp: cr_wf_def)
  have sep: "separated (merge_list ps) \<and> covers (merge_list ps) = covers ?p"
  proof (cases ps)
    case Nil
    with same(1) show ?thesis by (simp add: separated_def covers_def)
  next
    case (Cons p qs)
    have ne: "\<forall>q\<in>set ps. fst q < snd q" using same(1) assms(3) by auto
    have "covers ps = {fst p..<snd p} \<union> covers qs" using Cons by (auto simp: covers_def)
    moreover have "covers ps = covers ?p" by (simp add: covers_def same(1))
    ultimately show ?thesis
      using merge_run_spec [of qs "fst p" "snd p"] srt ne Cons by (cases p) auto
  qed
  let ?cr = "cr\<lparr>cr_points := pt, cr_len := j\<rparr>"
  have "cr_sort_and_remove_overlap cr = Some ?cr"
    using ps(1) lp by (simp add: cr_sort_and_remove_overlap_def cr_pts_def Let_def)
  moreover have "cr_wf ?cr" "cr_pts ?cr = unpairs (merge_list ps)"
    using o assms(1) by (auto simp: cr_wf_def cr_pts_def)
  ultimately show ?thesis using separated_canonical [of "merge_list ps"] sep by auto
qed

end
