(* ===== verification/CaseConv.thy ===== *)
theory CaseConv
  imports UnicodeTables CharRange
begin

unbundle bit_operations_syntax

text \<open>
  libunicode.c: case conversion.  Each entry of \<open>case_conv_table1\<close> describes a run of code points
  (17 bits of first code, 7 bits of length, 4 bits of run type, 4 bits of data, completed by
  \<open>case_conv_table2\<close>); the conversion finds the entry of a code point by binary search and
  computes the result from the run type.  A table read outside of its table is \<open>None\<close>.
\<close>

subsection \<open>Run types and the fields of an entry\<close>

abbreviation (input) RUN_TYPE_U :: u32 where "RUN_TYPE_U \<equiv> 0"
abbreviation (input) RUN_TYPE_L :: u32 where "RUN_TYPE_L \<equiv> 1"
abbreviation (input) RUN_TYPE_UF :: u32 where "RUN_TYPE_UF \<equiv> 2"
abbreviation (input) RUN_TYPE_LF :: u32 where "RUN_TYPE_LF \<equiv> 3"
abbreviation (input) RUN_TYPE_UL :: u32 where "RUN_TYPE_UL \<equiv> 4"
abbreviation (input) RUN_TYPE_LSU :: u32 where "RUN_TYPE_LSU \<equiv> 5"
abbreviation (input) RUN_TYPE_U2L_399_EXT2 :: u32 where "RUN_TYPE_U2L_399_EXT2 \<equiv> 6"
abbreviation (input) RUN_TYPE_UF_D20 :: u32 where "RUN_TYPE_UF_D20 \<equiv> 7"
abbreviation (input) RUN_TYPE_UF_D1_EXT :: u32 where "RUN_TYPE_UF_D1_EXT \<equiv> 8"
abbreviation (input) RUN_TYPE_U_EXT :: u32 where "RUN_TYPE_U_EXT \<equiv> 9"
abbreviation (input) RUN_TYPE_LF_EXT :: u32 where "RUN_TYPE_LF_EXT \<equiv> 10"
abbreviation (input) RUN_TYPE_UF_EXT2 :: u32 where "RUN_TYPE_UF_EXT2 \<equiv> 11"
abbreviation (input) RUN_TYPE_LF_EXT2 :: u32 where "RUN_TYPE_LF_EXT2 \<equiv> 12"
abbreviation (input) RUN_TYPE_UF_EXT3 :: u32 where "RUN_TYPE_UF_EXT3 \<equiv> 13"

definition cc_code :: "u32 \<Rightarrow> u32" where
  "cc_code v = drop_bit (32 - 17) v"

definition cc_len :: "u32 \<Rightarrow> u32" where
  "cc_len v = drop_bit (32 - 17 - 7) v AND 0x7f"

definition cc_type :: "u32 \<Rightarrow> u32" where
  "cc_type v = drop_bit (32 - 17 - 7 - 4) v AND 0xf"

definition cc_data :: "u32 \<Rightarrow> u8 \<Rightarrow> u32" where
  "cc_data v d = push_bit 8 (v AND 0xf) OR ucast d"

text \<open>The binary search in \<open>case_conv_table1\<close>, common to the functions of this file.\<close>

function cc_search :: "u32 \<Rightarrow> int \<Rightarrow> int \<Rightarrow> (nat \<times> u32) option" where
  "cc_search c idx_min idx_max =
     (if idx_min \<le> idx_max then
        let idx = (idx_max + idx_min) div 2;
            v = case_conv_table1 ! nat idx
        in if c < cc_code v then cc_search c idx_min (idx - 1)
           else if c \<ge> cc_code v + cc_len v then cc_search c (idx + 1) idx_max
           else Some (nat idx, v)
      else None)"
  by pat_completeness auto
termination by (relation "measure (\<lambda>(c, lo, hi). nat (hi - lo + 1))") auto

declare cc_search.simps [simp del]

definition cc_find :: "u32 \<Rightarrow> (nat \<times> u32) option" where
  "cc_find c = cc_search c 0 (int (length case_conv_table1) - 1)"

definition ext_at :: "u32 \<Rightarrow> u32 option" where
  "ext_at i = map_option ucast (rd case_conv_ext (unat i))"

subsection \<open>Conversion\<close>

text \<open>
  \<open>conv_type\<close> is 0 (upper), 1 (lower) or 2 (folding); the result is the list \<open>res\<close> of code points.
  The inner calls of \<open>lre_case_conv1\<close> have the conversion type 1, so the recursion stops there.
\<close>

function lre_case_conv :: "u32 \<Rightarrow> nat \<Rightarrow> u32 list option" and
  lre_case_conv_entry :: "u32 \<Rightarrow> nat \<Rightarrow> nat \<Rightarrow> u32 \<Rightarrow> u32 list option" where
  "lre_case_conv c conv_type =
     (if c < 128 then
        if conv_type \<noteq> 0 then Some [if 65 \<le> c \<and> c \<le> 90 then c - 65 + 97 else c]
        else Some [if 97 \<le> c \<and> c \<le> 122 then c - 97 + 65 else c]
      else
        (case cc_find c of
           Some (idx, v) \<Rightarrow> lre_case_conv_entry c conv_type idx v
         | None \<Rightarrow> Some [c]))"
| "lre_case_conv_entry c conv_type idx v =
     do {
       let is_lower = (of_bool (conv_type \<noteq> 0) :: u32);
       let type = cc_type v;
       d \<leftarrow> rd case_conv_table2 idx;
       let data = cc_data v d;
       let code = cc_code v;
       if type = RUN_TYPE_U \<or> type = RUN_TYPE_L \<or> type = RUN_TYPE_UF \<or> type = RUN_TYPE_LF then
         if conv_type = unat (type AND 1) \<or> (type \<ge> RUN_TYPE_UF \<and> conv_type = 2)
         then do { w \<leftarrow> rd case_conv_table1 (unat data); Some [c - code + cc_code w] }
         else Some [c]
       else if type = RUN_TYPE_UL then
         let a = c - code in Some [if a AND 1 \<noteq> 1 - is_lower then c else (a XOR 1) + code]
       else if type = RUN_TYPE_LSU then
         let a = c - code in
         Some [if a = 1 then c + (2 * is_lower - 1)
               else if a = (1 - is_lower) * 2 then c + (2 * is_lower - 1) * 2 else c]
       else if type = RUN_TYPE_U2L_399_EXT2 then
         if is_lower = 0 then do { e \<leftarrow> ext_at (drop_bit 6 data); Some [c - code + e, 0x399] }
         else do { e \<leftarrow> ext_at (data AND 0x3f); Some [c - code + e] }
       else if type = RUN_TYPE_UF_D20 then
         Some [if conv_type = 1 then c else data + of_bool (conv_type = 2) * 0x20]
       else if type = RUN_TYPE_UF_D1_EXT then
         if conv_type = 1 then Some [c]
         else do { e \<leftarrow> ext_at data; Some [e + of_bool (conv_type = 2)] }
       else if type = RUN_TYPE_U_EXT \<or> type = RUN_TYPE_LF_EXT then
         if is_lower \<noteq> type - RUN_TYPE_U_EXT then Some [c]
         else do { e \<leftarrow> ext_at data; Some [e] }
       else if type = RUN_TYPE_LF_EXT2 then
         if is_lower = 0 then Some [c]
         else do { e \<leftarrow> ext_at (drop_bit 6 data); f \<leftarrow> ext_at (data AND 0x3f); Some [c - code + e, f] }
       else if type = RUN_TYPE_UF_EXT2 then
         if conv_type = 1 then Some [c]
         else do {
           e \<leftarrow> ext_at (drop_bit 6 data); f \<leftarrow> ext_at (data AND 0x3f);
           let r0 = c - code + e;
           if conv_type = 2 then
             do { s0 \<leftarrow> lre_case_conv r0 1; s1 \<leftarrow> lre_case_conv f 1; Some [hd s0, hd s1] }
           else Some [r0, f]
         }
       else
         if conv_type = 1 then Some [c]
         else do {
           e \<leftarrow> ext_at (drop_bit 8 data); f \<leftarrow> ext_at (drop_bit 4 data AND 0xf); g \<leftarrow> ext_at (data AND 0xf);
           if conv_type = 2 then
             do { s0 \<leftarrow> lre_case_conv e 1; s1 \<leftarrow> lre_case_conv f 1; s2 \<leftarrow> lre_case_conv g 1;
                  Some [hd s0, hd s1, hd s2] }
           else Some [e, f, g]
         }
     }"
  by pat_completeness auto
termination
  by (relation "measure (\<lambda>x. case x of Inl (c, t) \<Rightarrow> 2 * of_bool (t = 2) + 1
                              | Inr (c, t, i, v) \<Rightarrow> 2 * of_bool (t = 2))") auto

declare lre_case_conv.simps [simp del] lre_case_conv_entry.simps [simp del]

definition lre_case_conv1 :: "u32 \<Rightarrow> nat \<Rightarrow> u32 option" where
  "lre_case_conv1 c conv_type = map_option hd (lre_case_conv c conv_type)"

definition lre_case_folding_entry :: "u32 \<Rightarrow> nat \<Rightarrow> u32 \<Rightarrow> bool \<Rightarrow> u32 option" where
  "lre_case_folding_entry c idx v is_unicode =
     (if is_unicode then
        do {
          res \<leftarrow> lre_case_conv_entry c 2 idx v;
          Some (if length res = 1 then res ! 0
                else if c = 0xfb06 then 0xfb05
                else if c = 0x01fd3 then 0x390
                else if c = 0x01fe3 then 0x3b0 else c)
        }
      else if c < 128 then Some (if 97 \<le> c \<and> c \<le> 122 then c - 97 + 65 else c)
      else
        do {
          res \<leftarrow> lre_case_conv_entry c 0 idx v;
          Some (if length res = 1 \<and> res ! 0 \<ge> 128 then res ! 0 else c)
        })"

definition lre_canonicalize :: "u32 \<Rightarrow> bool \<Rightarrow> u32 option" where
  "lre_canonicalize c is_unicode =
     (if c < 128 then
        if is_unicode then Some (if 65 \<le> c \<and> c \<le> 90 then c - 65 + 97 else c)
        else Some (if 97 \<le> c \<and> c \<le> 122 then c - 97 + 65 else c)
      else
        (case cc_find c of
           Some (idx, v) \<Rightarrow> lre_case_folding_entry c idx v is_unicode
         | None \<Rightarrow> Some c))"

subsection \<open>The ranges of the characters that a conversion changes\<close>

fun add_intervals :: "char_range \<Rightarrow> (u32 \<times> u32) list \<Rightarrow> int \<times> char_range" where
  "add_intervals cr [] = (0, cr)"
| "add_intervals cr ((c1, c2) # ivs) =
     (case cr_add_interval cr c1 c2 of (r, cr) \<Rightarrow> if r \<noteq> 0 then (-1, cr) else add_intervals cr ivs)"

abbreviation (input) CASE_U :: u32 where "CASE_U \<equiv> 1"
abbreviation (input) CASE_L :: u32 where "CASE_L \<equiv> 2"
abbreviation (input) CASE_F :: u32 where "CASE_F \<equiv> 4"

definition MR :: "nat list \<Rightarrow> u32" where
  "MR ts = foldr (\<lambda>t m. push_bit t 1 OR m) ts 0"

definition tab_run_mask :: "u32 list" where
  "tab_run_mask = [MR [0, 2, 4, 5, 6, 7, 8, 9, 11, 13], MR [1, 3, 4, 5, 6, 10, 12],
                   MR [2, 3, 4, 5, 6, 10, 12, 7, 8, 10, 11, 13]]"

definition case1_mask :: "u32 \<Rightarrow> u32" where
  "case1_mask case_mask =
     fold (\<lambda>i m. if drop_bit i case_mask AND 1 \<noteq> 0 then m OR tab_run_mask ! i else m) [0..<3] 0"

text \<open>The intervals that the loop of \<open>unicode_case1\<close> adds for one entry.\<close>

definition case1_intervals :: "u32 \<Rightarrow> u32 \<Rightarrow> u32 \<Rightarrow> (u32 \<times> u32) list" where
  "case1_intervals run_mask case_mask v =
     (let type = cc_type v; code = cc_code v; len = cc_len v;
          both = case_mask AND CASE_U \<noteq> 0 \<and> case_mask AND (CASE_L OR CASE_F) \<noteq> 0 in
      if drop_bit (unat type) run_mask AND 1 = 0 then []
      else if type = RUN_TYPE_UL \<and> \<not> both then
        let code = code + of_bool (case_mask AND CASE_U \<noteq> 0) in
        map (\<lambda>i. (code + of_nat i, code + of_nat i + 1)) (filter even [0..<unat len])
      else if type = RUN_TYPE_LSU \<and> \<not> both then
        (if case_mask AND CASE_U = 0 then [(code, code + 1)] else []) @ [(code + 1, code + 2)] @
        (if case_mask AND CASE_U \<noteq> 0 then [(code + 2, code + 3)] else [])
      else [(code, code + len)])"

definition unicode_case1 :: "char_range \<Rightarrow> u32 \<Rightarrow> int \<times> char_range" where
  "unicode_case1 cr case_mask =
     (if case_mask = 0 then (0, cr)
      else add_intervals cr (concat (map (case1_intervals (case1_mask case_mask) case_mask) case_conv_table1)))"

subsection \<open>The entries of the table, decoded\<close>

text \<open>First code, length, run type and data of every entry, as numbers.\<close>

definition cc_entries :: "(nat \<times> nat \<times> nat \<times> nat) list" where
  "cc_entries = [
    (65, 26, 3, 1), (97, 26, 0, 0), (181, 1, 7, 924), (192, 23, 3, 6), (216, 7, 3, 7), (223, 1, 11, 845),
    (224, 23, 0, 3), (248, 7, 0, 4), (255, 1, 0, 16), (256, 48, 4, 0), (304, 1, 12, 911), (305, 1, 9, 11),
    (306, 6, 4, 0), (313, 16, 4, 0), (329, 1, 11, 1041), (330, 46, 4, 0), (376, 1, 3, 8), (377, 6, 4, 0),
    (383, 1, 7, 83), (384, 1, 0, 74), (385, 1, 3, 81), (386, 4, 4, 0), (390, 1, 3, 82), (391, 2, 4, 0),
    (393, 2, 3, 83), (395, 2, 4, 0), (398, 1, 3, 58), (399, 1, 3, 84), (400, 1, 3, 85), (401, 2, 4, 0),
    (403, 1, 3, 87), (404, 1, 3, 89), (405, 1, 0, 63), (406, 1, 3, 93), (407, 1, 3, 92), (408, 2, 4, 0),
    (410, 1, 0, 70), (412, 1, 3, 97), (413, 1, 3, 99), (414, 1, 0, 66), (415, 1, 3, 100), (416, 6, 4, 0),
    (422, 1, 3, 102), (423, 2, 4, 0), (425, 1, 3, 104), (428, 2, 4, 0), (430, 1, 3, 106), (431, 2, 4, 0),
    (433, 2, 3, 108), (435, 4, 4, 0), (439, 1, 3, 110), (440, 2, 4, 0), (444, 2, 4, 0), (447, 1, 0, 64),
    (452, 3, 5, 0), (455, 3, 5, 0), (458, 3, 5, 0), (461, 16, 4, 0), (477, 1, 0, 26), (478, 18, 4, 0),
    (496, 1, 11, 1171), (497, 3, 5, 0), (500, 2, 4, 0), (502, 1, 3, 32), (503, 1, 3, 53), (504, 40, 4, 0),
    (544, 1, 3, 39), (546, 18, 4, 0), (570, 1, 3, 289), (571, 2, 4, 0), (573, 1, 3, 36), (574, 1, 3, 290),
    (575, 2, 0, 298), (577, 2, 4, 0), (579, 1, 3, 19), (580, 1, 3, 107), (581, 1, 3, 109), (582, 10, 4, 0),
    (592, 1, 0, 294), (593, 1, 0, 292), (594, 1, 0, 295), (595, 1, 0, 20), (596, 1, 0, 22), (598, 2, 0, 24),
    (601, 1, 0, 27), (603, 1, 0, 28), (604, 1, 0, 318), (608, 1, 0, 30), (609, 1, 0, 319), (611, 1, 0, 31),
    (613, 1, 0, 313), (614, 1, 0, 317), (616, 1, 0, 34), (617, 1, 0, 33), (618, 1, 0, 321), (619, 1, 0, 286),
    (620, 1, 0, 320), (623, 1, 0, 37), (625, 1, 0, 293), (626, 1, 0, 38), (629, 1, 0, 40), (637, 1, 0, 288),
    (640, 1, 0, 42), (642, 1, 0, 328), (643, 1, 0, 44), (647, 1, 0, 323), (648, 1, 0, 46), (649, 1, 0, 75),
    (650, 2, 0, 48), (652, 1, 0, 76), (658, 1, 0, 50), (669, 1, 0, 324), (670, 1, 0, 322), (837, 1, 7, 921),
    (880, 4, 4, 0), (886, 2, 4, 0), (891, 3, 0, 149), (895, 1, 3, 143), (902, 1, 3, 125), (904, 3, 3, 126),
    (908, 1, 3, 131), (910, 2, 3, 132), (912, 1, 13, 18), (913, 17, 3, 128), (931, 9, 3, 130), (940, 1, 0, 118),
    (941, 3, 0, 119), (944, 1, 13, 786), (945, 17, 0, 123), (962, 1, 7, 931), (963, 9, 0, 124), (972, 1, 0, 120),
    (973, 2, 0, 121), (975, 1, 3, 138), (976, 1, 7, 914), (977, 1, 7, 920), (981, 1, 7, 934), (982, 1, 7, 928),
    (983, 1, 0, 133), (984, 24, 4, 0), (1008, 1, 7, 922), (1009, 1, 7, 929), (1010, 1, 0, 147), (1011, 1, 0, 117),
    (1012, 1, 10, 51), (1013, 1, 7, 917), (1015, 2, 4, 0), (1017, 1, 3, 142), (1018, 2, 4, 0), (1021, 3, 3, 116),
    (1024, 16, 3, 153), (1040, 32, 3, 152), (1072, 32, 0, 151), (1104, 16, 0, 150), (1120, 34, 4, 0), (1162, 54, 4, 0),
    (1216, 1, 3, 158), (1217, 14, 4, 0), (1231, 1, 0, 156), (1232, 96, 4, 0), (1329, 38, 3, 161), (1377, 38, 0, 160),
    (1415, 1, 11, 1301), (4256, 38, 3, 302), (4295, 1, 3, 303), (4301, 1, 3, 304), (4304, 43, 0, 180), (4349, 3, 0, 181),
    (5024, 80, 1, 335), (5104, 6, 1, 170), (5112, 6, 2, 169), (7296, 1, 7, 1042), (7297, 1, 7, 1044), (7298, 1, 7, 1054),
    (7299, 1, 7, 1057), (7300, 1, 7, 1058), (7301, 1, 7, 1058), (7302, 1, 7, 1066), (7303, 1, 8, 52), (7304, 1, 8, 53),
    (7312, 43, 3, 166), (7357, 3, 3, 167), (7545, 1, 0, 310), (7549, 1, 0, 287), (7566, 1, 0, 329), (7680, 126, 4, 0),
    (7806, 24, 4, 0), (7830, 1, 11, 1431), (7831, 1, 11, 1537), (7832, 1, 11, 1626), (7833, 1, 11, 1754), (7834, 1, 11, 1821),
    (7835, 1, 8, 54), (7838, 1, 3, 5), (7840, 96, 4, 0), (7936, 8, 0, 196), (7944, 8, 3, 195), (7952, 6, 0, 198),
    (7960, 6, 3, 197), (7968, 8, 0, 200), (7976, 8, 3, 199), (7984, 8, 0, 202), (7992, 8, 3, 201), (8000, 6, 0, 204),
    (8008, 6, 3, 203), (8016, 1, 11, 196), (8017, 1, 0, 213), (8018, 1, 13, 837), (8019, 1, 0, 214), (8020, 1, 13, 834),
    (8021, 1, 0, 215), (8022, 1, 13, 838), (8023, 1, 0, 216), (8025, 1, 3, 206), (8027, 1, 3, 208), (8029, 1, 3, 210),
    (8031, 1, 3, 212), (8032, 8, 0, 218), (8040, 8, 3, 217), (8048, 2, 0, 238), (8050, 4, 0, 246), (8054, 2, 0, 254),
    (8056, 2, 0, 270), (8058, 2, 0, 263), (8060, 2, 0, 271), (8064, 8, 11, 1920), (8072, 8, 6, 1951), (8080, 8, 11, 2048),
    (8088, 8, 6, 2081), (8096, 8, 11, 2176), (8104, 8, 6, 2211), (8112, 2, 0, 237), (8114, 1, 11, 2304), (8115, 1, 11, 448),
    (8116, 1, 11, 2368), (8118, 1, 11, 454), (8119, 1, 13, 1888), (8120, 2, 3, 231), (8122, 2, 3, 219), (8124, 1, 6, 486),
    (8126, 1, 7, 921), (8130, 1, 11, 2496), (8131, 1, 11, 512), (8132, 1, 11, 2560), (8134, 1, 11, 518), (8135, 1, 13, 2144),
    (8136, 4, 3, 220), (8140, 1, 6, 553), (8144, 2, 0, 253), (8146, 1, 13, 21), (8147, 1, 13, 18), (8150, 1, 11, 6),
    (8151, 1, 13, 22), (8152, 2, 3, 248), (8154, 2, 3, 221), (8160, 2, 0, 262), (8162, 1, 13, 789), (8163, 1, 13, 786),
    (8164, 1, 11, 2692), (8165, 1, 0, 264), (8166, 1, 11, 198), (8167, 1, 13, 790), (8168, 2, 3, 255), (8170, 2, 3, 223),
    (8172, 1, 3, 259), (8178, 1, 11, 2752), (8179, 1, 11, 576), (8180, 1, 11, 2816), (8182, 1, 11, 582), (8183, 1, 13, 2400),
    (8184, 2, 3, 222), (8186, 2, 3, 224), (8188, 1, 6, 621), (8486, 1, 10, 55), (8490, 1, 10, 56), (8491, 1, 10, 57),
    (8498, 1, 3, 277), (8526, 1, 0, 276), (8544, 16, 3, 279), (8560, 16, 0, 278), (8579, 2, 4, 0), (9398, 26, 3, 282),
    (9424, 26, 0, 281), (11264, 48, 3, 284), (11312, 48, 0, 283), (11360, 2, 4, 0), (11362, 1, 3, 95), (11363, 1, 3, 183),
    (11364, 1, 3, 101), (11365, 1, 0, 68), (11366, 1, 0, 71), (11367, 6, 4, 0), (11373, 1, 3, 79), (11374, 1, 3, 98),
    (11375, 1, 3, 78), (11376, 1, 3, 80), (11378, 2, 4, 0), (11381, 2, 4, 0), (11390, 2, 3, 72), (11392, 100, 4, 0),
    (11499, 4, 4, 0), (11506, 2, 4, 0), (11520, 38, 0, 163), (11559, 1, 0, 164), (11565, 1, 0, 165), (42560, 46, 4, 0),
    (42624, 28, 4, 0), (42786, 14, 4, 0), (42802, 62, 4, 0), (42873, 4, 4, 0), (42877, 1, 3, 182), (42878, 10, 4, 0),
    (42891, 2, 4, 0), (42893, 1, 3, 90), (42896, 4, 4, 0), (42900, 1, 0, 327), (42902, 20, 4, 0), (42922, 1, 3, 91),
    (42923, 1, 3, 86), (42924, 1, 3, 88), (42925, 1, 3, 96), (42926, 1, 3, 94), (42928, 1, 3, 112), (42929, 1, 3, 105),
    (42930, 1, 3, 111), (42931, 1, 3, 334), (42932, 16, 4, 0), (42948, 1, 3, 315), (42949, 1, 3, 103), (42950, 1, 3, 184),
    (42951, 4, 4, 0), (42960, 2, 4, 0), (42966, 4, 4, 0), (42997, 2, 4, 0), (43859, 1, 0, 325), (43888, 80, 2, 168),
    (64256, 1, 11, 650), (64257, 1, 11, 651), (64258, 1, 11, 652), (64259, 1, 13, 2731), (64260, 1, 13, 2732), (64261, 1, 11, 856),
    (64262, 1, 11, 856), (64275, 1, 11, 2991), (64276, 1, 11, 2964), (64277, 1, 11, 2992), (64278, 1, 11, 3183), (64279, 1, 11, 2994),
    (65313, 26, 3, 349), (65345, 26, 0, 348), (66560, 40, 3, 351), (66600, 40, 0, 350), (66736, 36, 3, 353), (66776, 36, 0, 352),
    (66928, 11, 3, 358), (66940, 15, 3, 359), (66956, 7, 3, 360), (66964, 2, 3, 361), (66967, 11, 0, 354), (66979, 15, 0, 355),
    (66995, 7, 0, 356), (67003, 2, 0, 357), (68736, 51, 3, 363), (68800, 51, 0, 362), (71840, 32, 3, 365), (71872, 32, 0, 364),
    (93760, 32, 3, 367), (93792, 32, 0, 366), (125184, 34, 3, 369), (125218, 34, 0, 368)]"

lemma unat_cc_code: "unat (cc_code v) = unat v div 32768"
  by (simp add: cc_code_def unat_drop)

lemma unat_cc_len: "unat (cc_len v) = unat v div 256 mod 128"
proof -
  have "cc_len v = drop_bit 8 v AND mask 7" by (simp add: cc_len_def mask_eq_exp_minus_1)
  then show ?thesis by (simp only: unat_and_mask unat_drop) simp
qed

lemma unat_cc_type: "unat (cc_type v) = unat v div 16 mod 16"
proof -
  have "cc_type v = drop_bit 4 v AND mask 4" by (simp add: cc_type_def mask_eq_exp_minus_1)
  then show ?thesis by (simp only: unat_and_mask unat_drop) simp
qed

lemma unat_cc_data: "unat (cc_data v d) = unat v mod 16 * 256 + unat d"
proof -
  have m: "(v AND 0xf) = v AND mask 4" by (simp add: mask_eq_exp_minus_1)
  have u: "unat (ucast d :: u32) = unat d"
    using unsigned_less [of d, where 'a = nat] by (simp add: unsigned_ucast_eq take_bit_nat_eq_self)
  then have "unat (ucast d :: u32) < 2 ^ 8" using unsigned_less [of d, where 'a = nat] by simp
  moreover have "unat (v AND mask 4) * 2 ^ 8 < 2 ^ 32" unfolding unat_and_mask by simp
  ultimately have "unat (cc_data v d) = unat (v AND mask 4) * 2 ^ 8 + unat (ucast d :: u32)"
    unfolding cc_data_def m by (intro unat_push_or) simp_all
  then show ?thesis unfolding unat_and_mask u by simp
qed

lemma cc_entries_decoded:
  "map (\<lambda>(v, d). (unat v div 32768, unat v div 256 mod 128, unat v div 16 mod 16, unat v mod 16 * 256 + unat d))
     (zip case_conv_table1 case_conv_table2) = cc_entries"
  by (simp add: case_conv_table1_def case_conv_table2_def cc_entries_def)

fun ranges_sorted :: "(nat \<times> nat \<times> nat \<times> nat) list \<Rightarrow> bool" where
  "ranges_sorted ((a, n, _) # (b, m, t) # xs) = (a + n \<le> b \<and> 0 < n \<and> ranges_sorted ((b, m, t) # xs))"
| "ranges_sorted [(a, n, _)] = (0 < n)"
| "ranges_sorted [] = True"

lemma cc_entries_sorted: "ranges_sorted cc_entries"
  by (simp add: cc_entries_def)

lemma cc_entries_targets:
  "list_all (\<lambda>(i, _, _, t, data). if t \<le> 3 then data < 370 \<and> data \<noteq> i else True) (zip [0..<370] cc_entries)"
  by (simp add: cc_entries_def upt_rec)
definition ext_n :: "nat list" where
  "ext_n = map unat case_conv_ext"

definition entry_ok :: "nat \<times> nat \<times> nat \<times> nat \<Rightarrow> bool" where
  "entry_ok e = (case e of (code, len, t, data) \<Rightarrow>
     code + len < 131072 \<and>
     (if t \<le> 3 then True
      else if t = 4 then even len
      else if t = 5 then len = 3
      else if t = 6 then data div 64 < 58 \<and> data mod 64 < 58 \<and> ext_n ! (data mod 64) \<noteq> code
      else if t = 7 then len = 1 \<and> data \<noteq> code \<and> data + 32 \<noteq> code
      else if t = 8 then len = 1 \<and> data < 58 \<and> ext_n ! data \<noteq> code \<and> ext_n ! data + 1 \<noteq> code
      else if t \<le> 10 then len = 1 \<and> data < 58 \<and> ext_n ! data \<noteq> code
      else if t \<le> 12 then data div 64 < 58 \<and> data mod 64 < 58
      else t = 13 \<and> data < 4096))"

lemma ext_n: "ext_n = [0x0399, 0x0308, 0x0301, 0x03a5, 0x0313, 0x0300, 0x0342, 0x0391,
    0x0397, 0x03a9, 0x0046, 0x0049, 0x004c, 0x0053, 0x0069, 0x0307,
    0x02bc, 0x004e, 0x004a, 0x030c, 0x0535, 0x0552, 0x0048, 0x0331,
    0x0054, 0x0057, 0x030a, 0x0059, 0x0041, 0x02be, 0x1f08, 0x1f80,
    0x1f28, 0x1f90, 0x1f68, 0x1fa0, 0x1fba, 0x0386, 0x1fb3, 0x1fca,
    0x0389, 0x1fc3, 0x03a1, 0x1ffa, 0x038f, 0x1ff3, 0x0544, 0x0546,
    0x053b, 0x054e, 0x053d, 0x03b8, 0x0462, 0xa64a, 0x1e60, 0x03c9,
    0x006b, 0x00e5]"
  by (simp add: ext_n_def case_conv_ext_def)

lemma cc_entries_ok: "list_all entry_ok cc_entries"
  by (simp add: cc_entries_def entry_ok_def ext_n)

lemma length_cc [simp]:
  "length case_conv_table1 = 370" "length case_conv_table2 = 370" "length case_conv_ext = 58" "length cc_entries = 370"
  by (simp_all add: case_conv_table1_def case_conv_table2_def case_conv_ext_def cc_entries_def)

text \<open>Code points covered by an entry, and what is known of each entry.\<close>

definition in_entry :: "nat \<Rightarrow> u32 \<Rightarrow> bool" where
  "in_entry i c \<longleftrightarrow> i < 370 \<and> fst (cc_entries ! i) \<le> unat c \<and>
     unat c < fst (cc_entries ! i) + fst (snd (cc_entries ! i))"

lemma cc_entry_nth:
  assumes "i < 370" "cc_entries ! i = (code, len, t, data)"
  shows "unat (cc_code (case_conv_table1 ! i)) = code" "unat (cc_len (case_conv_table1 ! i)) = len"
    "unat (cc_type (case_conv_table1 ! i)) = t"
    "unat (cc_data (case_conv_table1 ! i) (case_conv_table2 ! i)) = data"
  using assms arg_cong [OF cc_entries_decoded, of "\<lambda>xs. xs ! i"]
  by (auto simp: unat_cc_code unat_cc_len unat_cc_type unat_cc_data)

lemma ranges_sorted_nth:
  "ranges_sorted xs \<Longrightarrow> i < j \<Longrightarrow> j < length xs \<Longrightarrow> fst (xs ! i) + fst (snd (xs ! i)) \<le> fst (xs ! j)"
proof (induction xs arbitrary: i j rule: ranges_sorted.induct)
  case (1 a n u b m t xs)
  then show ?case
  proof (cases i)
    case 0
    obtain k where k: "j = Suc k" using 1(3) 0 by (cases j) auto
    show ?thesis
    proof (cases k)
      case (Suc k')
      then have "fst (((b, m, t) # xs) ! 0) + fst (snd (((b, m, t) # xs) ! 0)) \<le> fst (((b, m, t) # xs) ! k)"
        using 1 k by (intro "1.IH") auto
      with 0 k 1(2) show ?thesis by simp
    qed (use 0 k 1(2) in simp)
  next
    case (Suc i')
    with 1 show ?thesis by (cases j) auto
  qed
qed auto

lemma ranges_sorted_pos: "ranges_sorted xs \<Longrightarrow> i < length xs \<Longrightarrow> 0 < fst (snd (xs ! i))"
proof (induction xs arbitrary: i rule: ranges_sorted.induct)
  case (1 a n b m t xs)
  then show ?case by (cases i) auto
qed auto

lemma in_entry_unique:
  assumes "in_entry i c" "in_entry j c"
  shows "i = j"
proof (rule ccontr)
  assume "i \<noteq> j"
  then consider "i < j" | "j < i" by linarith
  then show False
    using ranges_sorted_nth [OF cc_entries_sorted, of i j] ranges_sorted_nth [OF cc_entries_sorted, of j i] assms
    by cases (auto simp: in_entry_def)
qed

lemma entry_ok_nth: "i < 370 \<Longrightarrow> entry_ok (cc_entries ! i)"
  using cc_entries_ok by (simp add: list_all_length)

lemma entry_target:
  assumes "i < 370" "cc_entries ! i = (code, len, t, data)" "t \<le> 3"
  shows "data < 370 \<and> data \<noteq> i"
  using cc_entries_targets [unfolded list_all_length, rule_format, of i] assms by simp

lemma entry_bound: "i < 370 \<Longrightarrow> fst (cc_entries ! i) + fst (snd (cc_entries ! i)) < 131072"
  using entry_ok_nth [of i] by (cases "cc_entries ! i") (simp add: entry_ok_def)

lemma cc_compare:
  assumes "i < 370"
  shows "c < cc_code (case_conv_table1 ! i) \<longleftrightarrow> unat c < fst (cc_entries ! i)"
    "c \<ge> cc_code (case_conv_table1 ! i) + cc_len (case_conv_table1 ! i) \<longleftrightarrow>
     fst (cc_entries ! i) + fst (snd (cc_entries ! i)) \<le> unat c"
proof -
  obtain code len t data where e: "cc_entries ! i = (code, len, t, data)" by (cases "cc_entries ! i") auto
  note d = cc_entry_nth [OF assms e]
  show "c < cc_code (case_conv_table1 ! i) \<longleftrightarrow> unat c < fst (cc_entries ! i)"
    using d e by (simp add: word_less_nat_alt)
  have "unat (cc_code (case_conv_table1 ! i) + cc_len (case_conv_table1 ! i)) = code + len"
    using d entry_bound [OF assms] e by (subst unat_add_lem [THEN iffD1]) auto
  then show "c \<ge> cc_code (case_conv_table1 ! i) + cc_len (case_conv_table1 ! i) \<longleftrightarrow>
     fst (cc_entries ! i) + fst (snd (cc_entries ! i)) \<le> unat c"
    using e by (simp add: word_le_nat_alt)
qed

lemma cc_search_spec:
  assumes "0 \<le> lo" "hi < 370" "\<forall>i. in_entry i c \<longrightarrow> lo \<le> int i \<and> int i \<le> hi"
  shows "case cc_search c lo hi of
      Some (i, v) \<Rightarrow> in_entry i c \<and> v = case_conv_table1 ! i | None \<Rightarrow> \<forall>i. \<not> in_entry i c"
  using assms
proof (induction c lo hi rule: cc_search.induct)
  case (1 c lo hi)
  show ?case
  proof (cases "lo \<le> hi")
    case False
    then have "cc_search c lo hi = None" by (simp add: cc_search.simps)
    with False "1.prems"(3) show ?thesis by auto
  next
    case True
    let ?m = "(hi + lo) div 2"
    have m: "lo \<le> ?m" "?m \<le> hi" "nat ?m < 370" "int (nat ?m) = ?m" using True "1.prems" by auto
    note cmp = cc_compare [OF m(3), of c]
    have other: "in_entry i c \<Longrightarrow> i < nat ?m \<Longrightarrow> unat c < fst (cc_entries ! nat ?m)"
      "in_entry i c \<Longrightarrow> nat ?m < i \<Longrightarrow> fst (cc_entries ! nat ?m) + fst (snd (cc_entries ! nat ?m)) \<le> unat c" for i
      using ranges_sorted_nth [OF cc_entries_sorted, of i "nat ?m"] m(3)
        ranges_sorted_nth [OF cc_entries_sorted, of "nat ?m" i] by (auto simp: in_entry_def)
    consider "c < cc_code (case_conv_table1 ! nat ?m)"
      | "\<not> c < cc_code (case_conv_table1 ! nat ?m)"
        "c \<ge> cc_code (case_conv_table1 ! nat ?m) + cc_len (case_conv_table1 ! nat ?m)"
      | "\<not> c < cc_code (case_conv_table1 ! nat ?m)"
        "\<not> c \<ge> cc_code (case_conv_table1 ! nat ?m) + cc_len (case_conv_table1 ! nat ?m)" by blast
    then show ?thesis
    proof cases
      case 1
      have "\<forall>i. in_entry i c \<longrightarrow> lo \<le> int i \<and> int i \<le> ?m - 1"
      proof (intro allI impI)
        fix i assume i: "in_entry i c"
        have "\<not> nat ?m \<le> i"
          using other(2) [OF i] 1 cmp i ranges_sorted_pos [OF cc_entries_sorted, of "nat ?m"]
          by (cases "i = nat ?m") (auto simp: in_entry_def)
        with i "1.prems"(3) m(4) show "lo \<le> int i \<and> int i \<le> ?m - 1" by auto
      qed
      with "1.IH"(1) [OF True refl refl 1 "1.prems"(1)] "1.prems" m True 1 show ?thesis
        by (simp add: cc_search.simps [of c lo hi] Let_def)
    next
      case 2
      have "\<forall>i. in_entry i c \<longrightarrow> ?m + 1 \<le> int i \<and> int i \<le> hi"
      proof (intro allI impI)
        fix i assume i: "in_entry i c"
        have "\<not> i \<le> nat ?m"
          using other(1) [OF i] 2 cmp i ranges_sorted_pos [OF cc_entries_sorted, of "nat ?m"]
          by (cases "i = nat ?m") (auto simp: in_entry_def)
        with i "1.prems"(3) m(4) show "?m + 1 \<le> int i \<and> int i \<le> hi" by auto
      qed
      with "1.IH"(2) [OF True refl refl 2] "1.prems" m True 2 show ?thesis
        by (simp add: cc_search.simps [of c lo hi] Let_def)
    next
      case 3
      with m cmp have "in_entry (nat ?m) c" by (simp add: in_entry_def)
      with 3 True show ?thesis by (simp add: cc_search.simps [of c lo hi] Let_def)
    qed
  qed
qed

lemma cc_find_Some: "cc_find c = Some (i, v) \<longleftrightarrow> in_entry i c \<and> v = case_conv_table1 ! i"
proof -
  have "\<forall>i. in_entry i c \<longrightarrow> 0 \<le> int i \<and> int i \<le> 369" by (auto simp: in_entry_def)
  with cc_search_spec [of 0 369 c] show ?thesis
    by (auto simp: cc_find_def split: option.splits dest: in_entry_unique)
qed

lemma cc_find_None: "cc_find c = None \<longleftrightarrow> (\<forall>i. \<not> in_entry i c)"
  using cc_find_Some [of c] by (metis not_Some_eq surj_pair)

subsection \<open>What the conversion of a code point of an entry gives\<close>

text \<open>Whether a conversion changes the code point at offset \<open>a\<close> of an entry of run type \<open>t\<close>.\<close>

definition conv_changes :: "nat \<Rightarrow> nat \<Rightarrow> nat \<Rightarrow> bool" where
  "conv_changes conv_type t a \<longleftrightarrow>
     (if t = 0 then conv_type = 0
      else if t = 1 then conv_type = 1
      else if t = 2 then conv_type \<noteq> 1
      else if t = 3 then conv_type \<noteq> 0
      else if t = 4 then odd a = (conv_type = 0)
      else if t = 5 then a = 1 \<or> a = (if conv_type = 0 then 2 else 0)
      else if t = 6 then True
      else if t = 9 then conv_type = 0
      else if t = 10 \<or> t = 12 then conv_type \<noteq> 0
      else conv_type \<noteq> 1)"

lemma ext_at_spec:
  assumes "unat w < 58"
  shows "\<exists>e. ext_at w = Some e \<and> unat e = ext_n ! unat w"
proof -
  have "unat (ucast (case_conv_ext ! unat w) :: u32) = unat (case_conv_ext ! unat w)"
    using unsigned_less [of "case_conv_ext ! unat w", where 'a = nat]
    by (simp add: unsigned_ucast_eq take_bit_nat_eq_self)
  with assms show ?thesis by (simp add: ext_at_def ext_n_def)
qed

lemma ext_n_small: "i < 58 \<Longrightarrow> ext_n ! i < 65536"
  using unsigned_less [of "case_conv_ext ! i", where 'a = nat] by (simp add: ext_n_def)

lemma unat_data_fields:
  "unat (drop_bit 6 w) = unat w div 64" "unat (w AND 0x3f) = unat w mod 64"
  "unat (drop_bit 8 w) = unat w div 256" "unat (drop_bit 4 w AND 0xf) = unat w div 16 mod 16"
  "unat (w AND 0xf) = unat w mod 16" for w :: u32
proof -
  have m: "(0x3f :: u32) = mask 6" "(0xf :: u32) = mask 4" by (simp_all add: mask_eq_exp_minus_1)
  show "unat (w AND 0x3f) = unat w mod 64" "unat (drop_bit 4 w AND 0xf) = unat w div 16 mod 16"
    "unat (w AND 0xf) = unat w mod 16"
    unfolding m by (simp_all only: unat_and_mask unat_drop) simp_all
qed (simp_all add: unat_drop)

lemma entry_fields:
  assumes "i < 370" "cc_entries ! i = (code, len, t, data)"
  shows "rd case_conv_table2 i = Some (case_conv_table2 ! i)"
    "unat (cc_data (case_conv_table1 ! i) (case_conv_table2 ! i)) = data"
    "cc_type (case_conv_table1 ! i) = of_nat t"
    "cc_code (case_conv_table1 ! i) = of_nat code"
    "data < 4096" "code < 131072" "t \<le> 13"
proof -
  note d = cc_entry_nth [OF assms]
  show "cc_type (case_conv_table1 ! i) = of_nat t" "cc_code (case_conv_table1 ! i) = of_nat code"
    unfolding d(1,3) [symmetric] by simp_all
  show "data < 4096" using d(4) unsigned_less [of "case_conv_table2 ! i", where 'a = nat]
    by (auto simp: unat_cc_data)
  show "code < 131072" using entry_bound [OF assms(1)] assms(2) by simp
  show "t \<le> 13" using entry_ok_nth [OF assms(1)] assms(2) by (auto simp: entry_ok_def split: if_splits)
  show "unat (cc_data (case_conv_table1 ! i) (case_conv_table2 ! i)) = data" by (rule d(4))
qed (use assms in simp)

lemma codes_differ:
  assumes "i < 370" "j < 370" "i \<noteq> j"
  shows "cc_code (case_conv_table1 ! i) \<noteq> cc_code (case_conv_table1 ! j)"
proof -
  have "fst (cc_entries ! i) \<noteq> fst (cc_entries ! j)"
    using ranges_sorted_nth [OF cc_entries_sorted, of i j] ranges_sorted_nth [OF cc_entries_sorted, of j i]
      ranges_sorted_pos [OF cc_entries_sorted, of i] ranges_sorted_pos [OF cc_entries_sorted, of j] assms
    by (cases "i < j") auto
  then show ?thesis
    using cc_entry_nth(1) [OF assms(1), of "fst (cc_entries ! i)"] cc_entry_nth(1) [OF assms(2), of "fst (cc_entries ! j)"]
    by (metis prod.collapse)
qed

lemma xor_1_neq: "a XOR 1 \<noteq> (a :: u32)"
proof
  assume "a XOR 1 = a"
  then have "bit (a XOR 1) 0 = bit a 0" by simp
  then show False by (simp add: bit_simps)
qed

lemma and_1_odd: "(a :: u32) AND 1 = of_bool (odd (unat a))"
proof -
  have "unat (a AND mask 1) = unat a mod 2 ^ 1" by (rule unat_and_mask)
  then have "unat (a AND 1) = unat a mod 2" by (simp add: mask_eq_exp_minus_1)
  also have "\<dots> = unat (of_bool (odd (unat a)) :: u32)" by (simp add: mod_2_eq_odd)
  finally show ?thesis by (simp only: word_unat_eq_iff)
qed

lemma conv_entry_step:
  assumes "in_entry i c" "cc_entries ! i = (code, len, t, data)" "conv_type \<le> 2"
    and rec: "conv_type = 2 \<Longrightarrow> \<forall>x. \<exists>r. lre_case_conv x 1 = Some r"
  shows "\<exists>r. lre_case_conv_entry c conv_type i (case_conv_table1 ! i) = Some r \<and> r \<noteq> [] \<and> length r \<le> 3 \<and>
    (r \<noteq> [c] \<longleftrightarrow> conv_changes conv_type t (unat c - code))"
proof -
  have i: "i < 370" "code \<le> unat c" "unat c < code + len" using assms(1,2) by (auto simp: in_entry_def)
  note f = entry_fields [OF i(1) assms(2)]
  note ok = entry_ok_nth [OF i(1), unfolded assms(2) entry_ok_def, simplified]
  note dat = cc_entry_nth(4) [OF i(1) assms(2)]
  let ?v = "case_conv_table1 ! i" and ?d = "cc_data (case_conv_table1 ! i) (case_conv_table2 ! i)"
  have uc: "unat (of_nat code :: u32) = code" using f(6) by (simp add: unat_of_nat take_bit_nat_eq_self)
  have ua: "unat (c - of_nat code) = unat c - code" using i(2) uc by (simp add: unat_sub word_le_nat_alt)
  note S = lre_case_conv_entry.simps [of c _ i ?v] f(1,3,4) Let_def bind_eq_Some_conv
  have n21: "\<not> (2 :: u32) \<le> 1" by (simp add: word_le_nat_alt)
  have ct: "conv_type = 0 \<or> conv_type = 1 \<or> conv_type = 2" using assms(3) by auto
  show ?thesis
  proof (cases "t \<le> 3")
    case True
    then have d: "data < 370" "data \<noteq> i" using entry_target [OF i(1) assms(2)] by auto
    have ne: "cc_code (case_conv_table1 ! data) \<noteq> of_nat code" using codes_differ [OF i(1) d(1)] d(2) f(4) by simp
    consider "t = 0" | "t = 1" | "t = 2" | "t = 3" using True by linarith
    then show ?thesis
      using ct d ne f(2) n21 by cases (auto simp: S conv_changes_def)
  next
    case False
    have "t = 4 \<or> t = 5 \<or> t = 6 \<or> t = 7 \<or> t = 8 \<or> t = 9 \<or> t = 10 \<or> t = 11 \<or> t = 12 \<or> t = 13"
      using False f(7) by presburger
    then consider "t = 4" | "t = 5" | "t = 6" | "t = 7" | "t = 8" | "t = 9" | "t = 10" | "t = 11" | "t = 12" | "t = 13"
      by blast
    then show ?thesis
    proof cases
      case 1
      let ?a = "c - of_nat code"
      have r: "lre_case_conv_entry c conv_type i ?v =
          Some [if ?a AND 1 \<noteq> 1 - of_bool (conv_type \<noteq> 0) then c else (?a XOR 1) + of_nat code]"
        by (simp add: S 1)
      have ne: "(?a XOR 1) + of_nat code \<noteq> c" using xor_1_neq [of ?a] by (metis diff_eq_eq)
      have "?a AND 1 = of_bool (odd (unat c - code))" using and_1_odd [of ?a] ua by simp
      then show ?thesis using ct ne unfolding r by (auto simp: conv_changes_def 1)
    next
      case 2
      have "c - of_nat code = 1 \<longleftrightarrow> unat c - code = 1" "c - of_nat code = 2 \<longleftrightarrow> unat c - code = 2"
        "c - of_nat code = 0 \<longleftrightarrow> unat c - code = 0"
        unfolding ua [symmetric] by (simp_all only: word_unat_eq_iff) simp_all
      then show ?thesis using ct by (auto simp: S 2 conv_changes_def)
    next
      case 3
      then have b: "data div 64 < 58" "data mod 64 < 58" "ext_n ! (data mod 64) \<noteq> code" using ok by auto
      obtain e e' where e: "ext_at (drop_bit 6 ?d) = Some e" "ext_at (?d AND 0x3f) = Some e'" "unat e' = ext_n ! (data mod 64)"
        using ext_at_spec [of "drop_bit 6 ?d"] ext_at_spec [of "?d AND 0x3f"] b f(2) by (auto simp: unat_data_fields)
      then have "e' \<noteq> of_nat code" using b(3) uc by auto
      then show ?thesis using ct e by (auto simp: S 3 conv_changes_def)
    next
      case 4
      then have "len = 1" "data \<noteq> code" "data + 32 \<noteq> code" using ok by auto
      moreover have "unat (?d + 32) = data + 32"
        using f(2,5) by (subst unat_add_lem [THEN iffD1]) auto
      ultimately have "?d \<noteq> c" "?d + 32 \<noteq> c" using i f(2) by auto
      then show ?thesis using ct by (auto simp: S 4 conv_changes_def)
    next
      case 5
      then have b: "len = 1" "data < 58" "ext_n ! data \<noteq> code" "ext_n ! data + 1 \<noteq> code" using ok by auto
      obtain e where e: "ext_at ?d = Some e" "unat e = ext_n ! data"
        using ext_at_spec [of ?d] b f(2) by auto
      have "unat (e + 1) = unat e + 1"
        using ext_n_small [OF b(2)] e(2) by (subst unat_add_lem [THEN iffD1]) auto
      then have "e \<noteq> c" "e + 1 \<noteq> c" using e b i by auto
      then show ?thesis using ct e by (auto simp: S 5 conv_changes_def)
    next
      case 6
      then have b: "len = 1" "data < 58" "ext_n ! data \<noteq> code" using ok by auto
      obtain e where e: "ext_at ?d = Some e" "unat e = ext_n ! data" using ext_at_spec [of ?d] b f(2) by auto
      then have "e \<noteq> c" using b i by auto
      then show ?thesis using ct e by (auto simp: S 6 conv_changes_def)
    next
      case 7
      then have b: "len = 1" "data < 58" "ext_n ! data \<noteq> code" using ok by auto
      obtain e where e: "ext_at ?d = Some e" "unat e = ext_n ! data" using ext_at_spec [of ?d] b f(2) by auto
      then have "e \<noteq> c" using b i by auto
      then show ?thesis using ct e by (auto simp: S 7 conv_changes_def)
    next
      case 8
      then have b: "data div 64 < 58" "data mod 64 < 58" using ok by auto
      obtain e e' where e: "ext_at (drop_bit 6 ?d) = Some e" "ext_at (?d AND 0x3f) = Some e'"
        using ext_at_spec [of "drop_bit 6 ?d"] ext_at_spec [of "?d AND 0x3f"] b f(2) by (auto simp: unat_data_fields)
      consider "conv_type = 1" | "conv_type = 0" | "conv_type = 2" using ct by blast
      then show ?thesis
      proof cases
        case 3
        with rec obtain r r' where "lre_case_conv (c - of_nat code + e) 1 = Some r" "lre_case_conv e' 1 = Some r'" by blast
        with 3 e \<open>t = 11\<close> show ?thesis by (auto simp: S conv_changes_def)
      qed (use e 8 in \<open>auto simp: S conv_changes_def\<close>)
    next
      case 9
      then have b: "data div 64 < 58" "data mod 64 < 58" using ok by auto
      obtain e e' where e: "ext_at (drop_bit 6 ?d) = Some e" "ext_at (?d AND 0x3f) = Some e'"
        using ext_at_spec [of "drop_bit 6 ?d"] ext_at_spec [of "?d AND 0x3f"] b f(2) by (auto simp: unat_data_fields)
      then show ?thesis using ct by (auto simp: S 9 conv_changes_def)
    next
      case 10
      have "data div 256 < 58" "data div 16 mod 16 < 58" "data mod 16 < 58" using f(5) by auto
      then obtain e e' e'' where e: "ext_at (drop_bit 8 ?d) = Some e" "ext_at (drop_bit 4 ?d AND 0xf) = Some e'"
        "ext_at (?d AND 0xf) = Some e''"
        using ext_at_spec [of "drop_bit 8 ?d"] ext_at_spec [of "drop_bit 4 ?d AND 0xf"] ext_at_spec [of "?d AND 0xf"] f(2)
        by (auto simp: unat_data_fields unat_drop)
      consider "conv_type = 1" | "conv_type = 0" | "conv_type = 2" using ct by blast
      then show ?thesis
      proof cases
        case 3
        with rec obtain r r' r'' where "lre_case_conv e 1 = Some r" "lre_case_conv e' 1 = Some r'"
          "lre_case_conv e'' 1 = Some r''" by blast
        with 3 e \<open>t = 13\<close> show ?thesis by (auto simp: S conv_changes_def)
      qed (use e 10 in \<open>auto simp: S conv_changes_def\<close>)
    qed
  qed
qed

lemma lre_case_conv_1_Some: "\<exists>r. lre_case_conv x 1 = Some r"
proof (cases "x < 128 \<or> cc_find x = None")
  case True
  then show ?thesis by (auto simp: lre_case_conv.simps [of x])
next
  case False
  then obtain i v where f: "cc_find x = Some (i, v)" by auto
  then have i: "in_entry i x" "v = case_conv_table1 ! i" by (auto simp: cc_find_Some)
  obtain code len t data where "cc_entries ! i = (code, len, t, data)" by (cases "cc_entries ! i") auto
  from conv_entry_step [OF i(1) this, of 1] False f i(2) show ?thesis
    by (auto simp: lre_case_conv.simps [of x])
qed

lemma conv_entry_spec:
  assumes "in_entry i c" "cc_entries ! i = (code, len, t, data)" "conv_type \<le> 2"
  shows "\<exists>r. lre_case_conv_entry c conv_type i (case_conv_table1 ! i) = Some r \<and> r \<noteq> [] \<and> length r \<le> 3 \<and>
    (r \<noteq> [c] \<longleftrightarrow> conv_changes conv_type t (unat c - code))"
  by (rule conv_entry_step [OF assms]) (blast intro: lre_case_conv_1_Some)

text \<open>The conversion of every code point is defined, and its result fits in \<open>res\<close>.\<close>

lemma lre_case_conv_total:
  assumes "conv_type \<le> 2"
  shows "\<exists>r. lre_case_conv c conv_type = Some r \<and> r \<noteq> [] \<and> length r \<le> 3"
proof (cases "c < 128 \<or> cc_find c = None")
  case True
  then show ?thesis by (auto simp: lre_case_conv.simps [of c])
next
  case False
  then obtain i v where f: "cc_find c = Some (i, v)" by auto
  then have i: "in_entry i c" "v = case_conv_table1 ! i" by (auto simp: cc_find_Some)
  obtain code len t data where "cc_entries ! i = (code, len, t, data)" by (cases "cc_entries ! i") auto
  from conv_entry_spec [OF i(1) this assms] False f i(2) show ?thesis
    by (auto simp: lre_case_conv.simps [of c])
qed

text \<open>
  The characters that a conversion changes: those of the entries whose run type changes them.
\<close>

definition changed_by :: "nat \<Rightarrow> u32 \<Rightarrow> bool" where
  "changed_by conv_type c \<longleftrightarrow> (\<exists>i. in_entry i c \<and>
     (case cc_entries ! i of (code, len, t, data) \<Rightarrow> conv_changes conv_type t (unat c - code)))"

lemma first_entries:
  "cc_entries ! 0 = (65, 26, 3, 1)" "cc_entries ! Suc 0 = (97, 26, 0, 0)" "cc_entries ! 2 = (181, 1, 7, 924)"
  by (simp_all add: cc_entries_def)

lemma in_entry_ascii:
  assumes "c < 128" "in_entry i c"
  shows "i = 0 \<or> i = 1"
proof (rule ccontr)
  assume "\<not> ?thesis"
  then have "i = 2 \<or> 2 < i" by auto
  then have "fst (cc_entries ! 2) \<le> fst (cc_entries ! i)"
    using ranges_sorted_nth [OF cc_entries_sorted, of 2 i] assms(2) by (auto simp: in_entry_def)
  with assms show False by (auto simp: in_entry_def first_entries word_less_nat_alt)
qed

lemma changed_ascii:
  assumes "c < 128" "conv_type \<le> 2"
  shows "changed_by conv_type c \<longleftrightarrow> (if conv_type = 0 then 97 \<le> c \<and> c \<le> 122 else 65 \<le> c \<and> c \<le> 90)"
proof -
  have "changed_by conv_type c \<longleftrightarrow> (in_entry 0 c \<and> conv_type \<noteq> 0) \<or> (in_entry 1 c \<and> conv_type = 0)"
  proof -
    define Q where "Q i \<longleftrightarrow> (case cc_entries ! i of (code, len, t, data) \<Rightarrow> conv_changes conv_type t (unat c - code))" for i
    have "Q 0 \<longleftrightarrow> conv_type \<noteq> 0" "Q 1 \<longleftrightarrow> conv_type = 0"
      by (simp_all add: Q_def first_entries conv_changes_def)
    moreover have "changed_by conv_type c \<longleftrightarrow> (\<exists>i. in_entry i c \<and> Q i)" by (simp add: changed_by_def Q_def)
    ultimately show ?thesis using in_entry_ascii [OF assms(1)] by metis
  qed
  moreover have "in_entry 0 c \<longleftrightarrow> 65 \<le> c \<and> c \<le> 90" "in_entry 1 c \<longleftrightarrow> 97 \<le> c \<and> c \<le> 122"
    by (auto simp: in_entry_def first_entries word_le_nat_alt)
  ultimately show ?thesis by auto
qed

lemma changed_iff:
  assumes "conv_type \<le> 2"
  shows "lre_case_conv c conv_type \<noteq> Some [c] \<longleftrightarrow> changed_by conv_type c"
proof (cases "c < 128")
  case True
  have "c - 97 + 65 \<noteq> c" "c - 65 + 97 \<noteq> c" by (simp_all add: diff_add_eq diff_eq_eq)
  with True show ?thesis
    by (auto simp: lre_case_conv.simps [of c] changed_ascii [OF True assms])
next
  case False
  show ?thesis
  proof (cases "cc_find c")
    case None
    then have "\<forall>i. \<not> in_entry i c" by (simp add: cc_find_None)
    with False None show ?thesis by (auto simp: lre_case_conv.simps [of c] changed_by_def)
  next
    case (Some x)
    then obtain i where f: "cc_find c = Some (i, case_conv_table1 ! i)" "in_entry i c"
      using cc_find_Some [of c] by (cases x) auto
    obtain code len t data where e: "cc_entries ! i = (code, len, t, data)" by (cases "cc_entries ! i") auto
    have "changed_by conv_type c \<longleftrightarrow> conv_changes conv_type t (unat c - code)"
    proof -
      have "in_entry j c \<longleftrightarrow> j = i" for j using f(2) in_entry_unique by blast
      then show ?thesis using e by (simp add: changed_by_def)
    qed
    moreover have "lre_case_conv c conv_type = lre_case_conv_entry c conv_type i (case_conv_table1 ! i)"
      using False f(1) by (simp add: lre_case_conv.simps [of c])
    moreover obtain r where "lre_case_conv_entry c conv_type i (case_conv_table1 ! i) = Some r"
      "r \<noteq> [c] \<longleftrightarrow> conv_changes conv_type t (unat c - code)"
      using conv_entry_spec [OF f(2) e assms] by blast
    ultimately show ?thesis by simp
  qed
qed

subsection \<open>\<open>unicode_case1\<close> computes the set of the changed characters\<close>

definition hits :: "u32 \<Rightarrow> (u32 \<times> u32) list \<Rightarrow> nat" where
  "hits c ivs = length (filter (\<lambda>(s, e). s \<le> c \<and> c < e) ivs)"

lemma unpairs_append [simp]: "unpairs (ps @ qs) = unpairs ps @ unpairs qs"
  by (induction ps rule: unpairs.induct) auto

lemma hits_simps [simp]:
  "hits c [] = 0" "hits c ((s, e) # ivs) = of_bool (s \<le> c \<and> c < e) + hits c ivs"
  "hits c (xs @ ys) = hits c xs + hits c ys"
  by (simp_all add: hits_def)

lemma odd_cnt_hits: "\<forall>(s, e)\<in>set ivs. s \<le> e \<Longrightarrow> odd (cnt c (unpairs ivs)) \<longleftrightarrow> odd (hits c ivs)"
  by (induction ivs rule: unpairs.induct) (auto simp: not_le not_less dest: less_le_trans)

definition case_of_type :: "nat \<Rightarrow> u32" where
  "case_of_type conv_type = (if conv_type = 0 then CASE_U else if conv_type = 1 then CASE_L else CASE_F)"

lemma case1_mask_values: "case1_mask 1 = 0x2bf5" "case1_mask 2 = 0x147a" "case1_mask 4 = 0x3dfc"
  by code_simp+

definition mask_types :: "nat \<Rightarrow> nat set" where
  "mask_types conv_type =
     (if conv_type = 0 then {0, 2, 4, 5, 6, 7, 8, 9, 11, 13}
      else if conv_type = 1 then {1, 3, 4, 5, 6, 10, 12} else {2, 3, 4, 5, 6, 7, 8, 10, 11, 12, 13})"

lemma case1_mask_types:
  assumes "conv_type \<le> 2" "t \<le> 13"
  shows "drop_bit t (case1_mask (case_of_type conv_type)) AND 1 \<noteq> 0 \<longleftrightarrow> t \<in> mask_types conv_type"
proof -
  have "list_all (\<lambda>n. list_all (\<lambda>t. (drop_bit t (case1_mask (case_of_type n)) AND 1 \<noteq> 0) = (t \<in> mask_types n)) [0..<14]) [0..<3]"
    by (simp add: upt_rec case_of_type_def case1_mask_values mask_types_def)
  with assms show ?thesis by (simp add: list_all_iff)
qed

lemma hits_points:
  assumes "a + n < 2 ^ 32"
  shows "hits c (map (\<lambda>i. (of_nat a + of_nat i, of_nat a + of_nat i + 1)) (filter even [0..<n])) =
    of_bool (a \<le> unat c \<and> unat c < a + n \<and> even (unat c - a))"
proof -
  have u: "unat (of_nat a + of_nat i :: u32) = a + i" "unat (of_nat a + of_nat i + 1 :: u32) = a + i + 1" if "i < n" for i
  proof -
    have "of_nat a + of_nat i = (of_nat (a + i) :: u32)" "of_nat a + of_nat i + 1 = (of_nat (a + i + 1) :: u32)" by simp_all
    then show "unat (of_nat a + of_nat i :: u32) = a + i" "unat (of_nat a + of_nat i + 1 :: u32) = a + i + 1"
      using that assms by (simp_all only: unat_of_nat) simp_all
  qed
  have "hits c (map (\<lambda>i. (of_nat a + of_nat i, of_nat a + of_nat i + 1)) (filter even [0..<n])) =
    length (filter (\<lambda>i. even i \<and> a + i = unat c) [0..<n])"
    using u by (auto simp: hits_def filter_map comp_def word_le_nat_alt word_less_nat_alt intro!: arg_cong [where f = length] filter_cong)
  also have "filter (\<lambda>i. even i \<and> a + i = unat c) [0..<n] = filter (\<lambda>i. i = unat c - a) (filter (\<lambda>i. a \<le> unat c \<and> even (unat c - a)) [0..<n])"
  proof -
    have "even i \<and> a + i = unat c \<longleftrightarrow> (a \<le> unat c \<and> even (unat c - a)) \<and> i = unat c - a" for i
      by (metis add_diff_cancel_left' le_add1 le_add_diff_inverse)
    then show ?thesis by simp
  qed
  also have "length \<dots> = of_bool (a \<le> unat c \<and> unat c < a + n \<and> even (unat c - a))"
  proof (cases "a \<le> unat c \<and> even (unat c - a)")
    case True
    have "length (filter (\<lambda>i. i = k) [0..<n]) = of_bool (k < n)" for k
      by (induction n) auto
    from this [of "unat c - a"] True show ?thesis by auto
  qed auto
  finally show ?thesis .
qed

lemma case1_hits:
  assumes "i < 370" "cc_entries ! i = (code, len, t, data)" "conv_type \<le> 2"
  defines "ivs \<equiv> case1_intervals (case1_mask (case_of_type conv_type)) (case_of_type conv_type) (case_conv_table1 ! i)"
  shows "hits c ivs = of_bool (in_entry i c \<and> conv_changes conv_type t (unat c - code))"
    "(\<forall>(s, e)\<in>set ivs. code \<le> unat s \<and> s \<le> e \<and> unat e \<le> code + len) \<and> sorted (unpairs ivs)"
proof -
  note f = entry_fields [OF assms(1,2)]
  note b = entry_bound [OF assms(1)]
  note ok = entry_ok_nth [OF assms(1), unfolded assms(2) entry_ok_def, simplified]
  have ct: "conv_type = 0 \<or> conv_type = 1 \<or> conv_type = 2" using assms(3) by auto
  let ?v = "case_conv_table1 ! i"
  have len: "cc_len ?v = of_nat len" "unat (cc_len ?v) = len"
    using cc_entry_nth(2) [OF assms(1,2)] by (auto simp flip: word_unat_eq_iff)
  have un: "unat (of_nat n :: u32) = n" if "n < 2 ^ 32" for n using that by (simp add: unat_of_nat)
  have cl: "code + len < 131072" using b assms(2) by simp
  have tw: "unat (of_nat t :: u32) = t" using f(7) by (simp add: un)
  have both: "\<not> (case_of_type conv_type AND CASE_U \<noteq> 0 \<and> case_of_type conv_type AND (CASE_L OR CASE_F) \<noteq> 0)"
    "case_of_type conv_type AND CASE_U \<noteq> 0 \<longleftrightarrow> conv_type = 0"
    using ct by (auto simp: case_of_type_def)
  have ivs: "ivs = (if t \<notin> mask_types conv_type then []
      else if t = 4 then map (\<lambda>i. (of_nat (code + of_bool (conv_type = 0)) + of_nat i, of_nat (code + of_bool (conv_type = 0)) + of_nat i + 1)) (filter even [0..<len])
      else if t = 5 then
        (if conv_type \<noteq> 0 then [(of_nat code, of_nat (code + 1))] else []) @ [(of_nat (code + 1), of_nat (code + 2))] @
        (if conv_type = 0 then [(of_nat (code + 2), of_nat (code + 3))] else [])
      else [(of_nat code, of_nat (code + len))])"
  proof -
    have m: "drop_bit t (case1_mask (case_of_type conv_type)) AND 1 = 0 \<longleftrightarrow> t \<notin> mask_types conv_type"
      using case1_mask_types [OF assms(3) f(7)] by blast
    have t4: "(of_nat t :: u32) = 4 \<longleftrightarrow> t = 4" "(of_nat t :: u32) = 5 \<longleftrightarrow> t = 5"
      using tw by (auto simp: word_unat_eq_iff)
    show ?thesis
      using ct unfolding ivs_def case1_intervals_def Let_def f(3) f(4) tw m t4 len(2) both
      by (elim disjE) (simp_all add: len(1) add.assoc case_of_type_def)
  qed
  have inn: "in_entry i c \<longleftrightarrow> code \<le> unat c \<and> unat c < code + len"
    using assms(1,2) by (simp add: in_entry_def)
  show "hits c ivs = of_bool (in_entry i c \<and> conv_changes conv_type t (unat c - code))"
  proof (cases "t = 4")
    case True
    have "hits c ivs = of_bool (code + of_bool (conv_type = 0) \<le> unat c \<and> unat c < code + of_bool (conv_type = 0) + len \<and>
        even (unat c - (code + of_bool (conv_type = 0))))"
      using hits_points [of "code + of_bool (conv_type = 0)" len c] cl True ct
      by (auto simp: ivs mask_types_def)
    also have "\<dots> = of_bool (in_entry i c \<and> conv_changes conv_type t (unat c - code))"
    proof -
      have ev: "even len" using ok True by simp
      have "(code + 1 \<le> u \<and> u < code + 1 + len \<and> even (u - (code + 1))) \<longleftrightarrow> (code \<le> u \<and> u < code + len) \<and> odd (u - code)" for u
        using ev by presburger
      from this [of "unat c"] True inn show ?thesis by (cases "conv_type = 0") (auto simp: conv_changes_def)
    qed
    finally show ?thesis .
  next
    case False
    have lt: "of_nat n \<le> c \<longleftrightarrow> n \<le> unat c" "c < of_nat n \<longleftrightarrow> unat c < n" if "n < 2 ^ 32" for n
      using un [OF that] by (auto simp: word_le_nat_alt word_less_nat_alt)
    have small: "code < 2 ^ 32" "code + 1 < 2 ^ 32" "code + 2 < 2 ^ 32" "code + 3 < 2 ^ 32" "code + len < 2 ^ 32"
      using cl f(6) by auto
    note lts = lt [OF small(1)] lt [OF small(2)] lt [OF small(3)] lt [OF small(4)] lt [OF small(5)]
    show ?thesis
    proof (cases "t = 5")
      case True
      then have "len = 3" using ok by simp
      then have inn': "in_entry i c \<longleftrightarrow> code \<le> unat c \<and> unat c < code + 3" using inn by simp
      have m: "t \<in> mask_types conv_type" using True ct by (auto simp: mask_types_def)
      have h: "hits c ivs = (if conv_type \<noteq> 0 then of_bool (code \<le> unat c \<and> unat c < code + 1) else 0) +
        (of_bool (code + 1 \<le> unat c \<and> unat c < code + 2) +
         (if conv_type = 0 then of_bool (code + 2 \<le> unat c \<and> unat c < code + 3) else 0))"
        using m True unfolding ivs by (simp only: if_True if_False hits_simps lts simp_thms split: if_splits) simp
      consider "unat c < code" | "unat c = code" | "unat c = code + 1" | "unat c = code + 2" | "code + 3 \<le> unat c"
        by linarith
      then show ?thesis unfolding h inn' conv_changes_def using True by cases auto
    next
      case f: False
      have ch: "t \<in> mask_types conv_type \<longleftrightarrow> conv_changes conv_type t (unat c - code)"
      proof -
        have "t = 0 \<or> t = 1 \<or> t = 2 \<or> t = 3 \<or> t = 6 \<or> t = 7 \<or> t = 8 \<or> t = 9 \<or> t = 10 \<or> t = 11 \<or> t = 12 \<or> t = 13"
          using False f \<open>t \<le> 13\<close> by presburger
        then show ?thesis using ct by (elim disjE) (simp_all add: mask_types_def conv_changes_def)
      qed
      have "hits c ivs = of_bool (t \<in> mask_types conv_type \<and> code \<le> unat c \<and> unat c < code + len)"
        unfolding ivs using False f by (simp only: hits_simps lts if_False split: if_splits) simp
      then show ?thesis unfolding ch inn by (simp add: conj_commute)
    qed
  qed
  show "(\<forall>(s, e)\<in>set ivs. code \<le> unat s \<and> s \<le> e \<and> unat e \<le> code + len) \<and> sorted (unpairs ivs)"
  proof (cases "t = 4")
    case True
    then have ev: "even len" using ok by simp
    define a where "a = code + of_bool (conv_type = 0)"
    have iv: "ivs = map (\<lambda>i. (of_nat (a + i), of_nat (a + i + 1))) (filter even [0..<len])"
      using True ct by (auto simp: ivs mask_types_def a_def algebra_simps)
    have lim: "a + i + 1 \<le> code + len" if "i < len" "even i" for i
      using that ev by (auto simp: a_def elim!: evenE)
    have u: "unat (of_nat (a + i) :: u32) = a + i" "unat (of_nat (a + i + 1) :: u32) = a + i + 1" if "i < len" "even i" for i
      using lim [OF that] cl by (simp_all only: unat_of_nat) simp_all
    have "sorted_wrt (\<lambda>i j. a + i + 1 < a + j) (filter even [0..<len])"
    proof (rule sorted_wrt_mono_rel [of _ "(<)"])
      show "sorted_wrt (<) (filter even [0..<len])" by (simp add: sorted_wrt_filter)
      fix x y assume "x \<in> set (filter even [0..<len])" "y \<in> set (filter even [0..<len])" "x < y"
      then have "even x" "even y" "x < y" by auto
      then show "a + x + 1 < a + y" by presburger
    qed
    then have "separated ivs"
      unfolding separated_def iv sorted_wrt_map
      using u by (auto simp: word_less_nat_alt simp del: of_nat_add of_nat_Suc elim!: sorted_wrt_mono_rel [rotated])
    then have "sorted (unpairs ivs)"
      using separated_canonical [of ivs] by (auto simp: canonical_def strict_sorted_iff)
    moreover have "\<forall>(s, e)\<in>set ivs. code \<le> unat s \<and> s \<le> e \<and> unat e \<le> code + len"
      using u lim unfolding iv by (auto simp: a_def word_le_nat_alt simp del: of_nat_add of_nat_Suc)
    ultimately show ?thesis by blast
  next
    case False
    have le: "(of_nat m :: u32) \<le> of_nat n \<longleftrightarrow> m \<le> n" if "m < 2 ^ 32" "n < 2 ^ 32" for m n
      using that un by (simp add: word_le_nat_alt)
    show ?thesis
    proof (cases "t = 5")
      case True
      then have "len = 3" using ok by simp
      with True cl show ?thesis unfolding ivs
        by (simp add: le un del: of_nat_add of_nat_Suc)
    next
      case f: False
      with False cl show ?thesis unfolding ivs
        by (simp add: le un del: of_nat_add of_nat_Suc)
    qed
  qed
qed

definition case1_points :: "nat \<Rightarrow> (u32 \<times> u32) list" where
  "case1_points conv_type =
     concat (map (case1_intervals (case1_mask (case_of_type conv_type)) (case_of_type conv_type)) case_conv_table1)"

lemma hits_concat: "hits c (concat xss) = sum_list (map (hits c) xss)"
  by (induction xss) auto

lemma sum_one:
  assumes "\<And>i j. i < n \<Longrightarrow> j < n \<Longrightarrow> P i \<Longrightarrow> P j \<Longrightarrow> i = j"
  shows "sum_list (map (\<lambda>i. of_bool (P i)) [0..<n]) = (of_bool (\<exists>i<n. P i) :: nat)"
  using assms
proof (induction n)
  case (Suc n)
  have IH: "sum_list (map (\<lambda>i. of_bool (P i)) [0..<n]) = (of_bool (\<exists>i<n. P i) :: nat)"
    by (rule Suc.IH) (use Suc.prems in simp)
  have "P n \<Longrightarrow> \<not> (\<exists>i<n. P i)" using Suc.prems by (metis less_irrefl less_SucI lessI)
  then show ?case using IH by (auto simp: less_Suc_eq)
qed simp

definition entry_changes :: "nat \<Rightarrow> u32 \<Rightarrow> nat \<Rightarrow> bool" where
  "entry_changes conv_type c i \<longleftrightarrow> in_entry i c \<and>
     (case cc_entries ! i of (code, len, t, data) \<Rightarrow> conv_changes conv_type t (unat c - code))"

text \<open>What is added entry by entry: the points are in order, and a code point is hit at most once.\<close>

lemma entry_points_hits:
  assumes "\<And>i. i < 370 \<Longrightarrow> hits c (f (case_conv_table1 ! i)) = of_bool (P i)" "\<And>i. P i \<Longrightarrow> in_entry i c"
  shows "hits c (concat (map f case_conv_table1)) = of_bool (\<exists>i<370. P i)"
proof -
  have "hits c (concat (map f case_conv_table1)) = sum_list (map (\<lambda>i. hits c (f (case_conv_table1 ! i))) [0..<370])"
    unfolding hits_concat map_map comp_def
    by (rule arg_cong [where f = sum_list]) (rule nth_equalityI, simp_all)
  also have "map (\<lambda>i. hits c (f (case_conv_table1 ! i))) [0..<370] = map (\<lambda>i. of_bool (P i)) [0..<370]"
    by (rule map_cong [OF refl]) (simp add: assms(1))
  also have "sum_list \<dots> = of_bool (\<exists>i<370. P i)"
    by (rule sum_one) (use assms(2) in_entry_unique in blast)
  finally show ?thesis .
qed

lemma entry_points_ordered:
  assumes "\<And>i. i < 370 \<Longrightarrow> (\<forall>(s, e)\<in>set (f (case_conv_table1 ! i)). fst (cc_entries ! i) \<le> unat s \<and> s \<le> e \<and>
      unat e \<le> fst (cc_entries ! i) + fst (snd (cc_entries ! i))) \<and> sorted (unpairs (f (case_conv_table1 ! i)))"
  shows "(\<forall>(s, e)\<in>set (concat (map f case_conv_table1)). s \<le> e) \<and> sorted (unpairs (concat (map f case_conv_table1)))"
proof -
  note ok = assms
  have mem: "x \<in> set (unpairs ps) \<Longrightarrow> \<exists>(s, e)\<in>set ps. x = s \<or> x = e" for x ps
    by (induction ps rule: unpairs.induct) auto
  have "n \<le> 370 \<Longrightarrow> (\<forall>(s, e)\<in>set (concat (map f (take n case_conv_table1))). s \<le> e) \<and>
      sorted (unpairs (concat (map f (take n case_conv_table1)))) \<and>
      (\<forall>x\<in>set (unpairs (concat (map f (take n case_conv_table1)))). n = 0 \<or> unat x \<le> fst (cc_entries ! (n - 1)) + fst (snd (cc_entries ! (n - 1))))" for n
  proof (induction n)
    case (Suc n)
    then have n: "n < 370" by simp
    note IH = Suc.IH [OF less_imp_le [OF n]]
    have tk: "concat (map f (take (Suc n) case_conv_table1)) = concat (map f (take n case_conv_table1)) @ f (case_conv_table1 ! n)"
      using n by (simp add: take_Suc_conv_app_nth)
    have new: "fst (cc_entries ! n) \<le> unat x \<and> unat x \<le> fst (cc_entries ! n) + fst (snd (cc_entries ! n))"
      if "x \<in> set (unpairs (f (case_conv_table1 ! n)))" for x
      using mem [OF that] ok [OF n] by (fastforce simp: word_le_nat_alt)
    have old: "unat x \<le> fst (cc_entries ! n)"
      if "x \<in> set (unpairs (concat (map f (take n case_conv_table1))))" for x
    proof (cases n)
      case 0
      with that show ?thesis by simp
    next
      case (Suc m)
      with IH that have "unat x \<le> fst (cc_entries ! m) + fst (snd (cc_entries ! m))" by auto
      also have "\<dots> \<le> fst (cc_entries ! n)"
        using ranges_sorted_nth [OF cc_entries_sorted, of m n] Suc n by simp
      finally show ?thesis .
    qed
    have "x \<le> y" if "x \<in> set (unpairs (concat (map f (take n case_conv_table1))))" "y \<in> set (unpairs (f (case_conv_table1 ! n)))" for x y
      using old [OF that(1)] new [OF that(2)] by (simp add: word_le_nat_alt)
    then have "sorted (unpairs (concat (map f (take (Suc n) case_conv_table1))))"
      unfolding tk using IH ok [OF n] by (auto simp: sorted_append)
    moreover have "\<forall>(s, e)\<in>set (concat (map f (take (Suc n) case_conv_table1))). s \<le> e"
      unfolding tk using IH ok [OF n] by auto
    moreover have "\<forall>x\<in>set (unpairs (concat (map f (take (Suc n) case_conv_table1)))). unat x \<le> fst (cc_entries ! n) + fst (snd (cc_entries ! n))"
      unfolding tk using old new by (fastforce intro: le_add1 order_trans)
    ultimately show ?case by simp
  qed simp
  from this [of 370] show ?thesis by simp
qed

lemma case1_points_hits:
  assumes "conv_type \<le> 2"
  shows "hits c (case1_points conv_type) = of_bool (changed_by conv_type c)"
proof -
  let ?f = "case1_intervals (case1_mask (case_of_type conv_type)) (case_of_type conv_type)"
  have "hits c (?f (case_conv_table1 ! i)) = of_bool (entry_changes conv_type c i)" if i: "i < 370" for i
  proof -
    obtain code len t data where e: "cc_entries ! i = (code, len, t, data)" by (cases "cc_entries ! i") auto
    from case1_hits(1) [OF i e assms, of c] e show ?thesis by (simp add: entry_changes_def)
  qed
  then have "hits c (case1_points conv_type) = of_bool (\<exists>i<370. entry_changes conv_type c i)"
    unfolding case1_points_def by (intro entry_points_hits) (auto simp: entry_changes_def)
  also have "(\<exists>i<370. entry_changes conv_type c i) = changed_by conv_type c"
    by (auto simp: entry_changes_def changed_by_def in_entry_def)
  finally show ?thesis .
qed

lemma case1_points_ordered:
  assumes "conv_type \<le> 2"
  shows "(\<forall>(s, e)\<in>set (case1_points conv_type). s \<le> e) \<and> sorted (unpairs (case1_points conv_type))"
  unfolding case1_points_def
proof (rule entry_points_ordered)
  fix i :: nat assume "i < 370"
  then show "(\<forall>(s, e)\<in>set (case1_intervals (case1_mask (case_of_type conv_type)) (case_of_type conv_type) (case_conv_table1 ! i)).
      fst (cc_entries ! i) \<le> unat s \<and> s \<le> e \<and> unat e \<le> fst (cc_entries ! i) + fst (snd (cc_entries ! i))) \<and>
    sorted (unpairs (case1_intervals (case1_mask (case_of_type conv_type)) (case_of_type conv_type) (case_conv_table1 ! i)))"
    using case1_hits(2) [OF _ _ assms, of i] by (cases "cc_entries ! i") auto
qed

text \<open>With all three bits of the mask the ranges are the entries, the code points that some conversion changes.\<close>

lemma case1_mask_all: "case1_mask 7 = 0x3fff"
  by code_simp

lemma entry_changed:
  assumes "i < 370" "cc_entries ! i = (code, len, t, data)" "in_entry i c"
  shows "\<exists>conv_type\<le>2. conv_changes conv_type t (unat c - code)"
proof -
  have "t = 5 \<Longrightarrow> unat c - code < 3"
    using entry_ok_nth [OF assms(1)] assms by (auto simp: entry_ok_def in_entry_def)
  then have "conv_changes 0 t (unat c - code) \<or> conv_changes 1 t (unat c - code) \<or> conv_changes 2 t (unat c - code)"
    by (auto simp: conv_changes_def)
  then show ?thesis by (auto intro: exI [of _ 0] exI [of _ 1] exI [of _ 2])
qed

lemma case1_all_intervals:
  assumes "i < 370" "cc_entries ! i = (code, len, t, data)"
  shows "case1_intervals (case1_mask 7) 7 (case_conv_table1 ! i) = [(of_nat code, of_nat code + of_nat len)]"
proof -
  note f = entry_fields [OF assms] and d = cc_entry_nth [OF assms]
  have "list_all (\<lambda>t. drop_bit t (0x3fff :: u32) AND 1 \<noteq> 0) [0..<14]" by code_simp
  then have "drop_bit t (0x3fff :: u32) AND 1 \<noteq> 0" using f(7) by (simp add: list_all_iff)
  moreover have "unat (cc_type (case_conv_table1 ! i)) = t" using d by simp
  moreover have "cc_len (case_conv_table1 ! i) = of_nat len" using d(2) by auto
  moreover have "(7 :: u32) AND CASE_U \<noteq> 0 \<and> 7 AND (CASE_L OR CASE_F) \<noteq> (0 :: u32)" by code_simp
  ultimately show ?thesis unfolding case1_intervals_def case1_mask_all f(4) Let_def by simp
qed

lemma case1_all_points:
  defines "ps \<equiv> concat (map (case1_intervals (case1_mask 7) 7) case_conv_table1)"
  shows "sorted (unpairs ps)" "cr_set (unpairs ps) = {c. \<exists>conv_type\<le>2. lre_case_conv c conv_type \<noteq> Some [c]}"
proof -
  have iv: "case1_intervals (case1_mask 7) 7 (case_conv_table1 ! i) =
      [(of_nat (fst (cc_entries ! i)), of_nat (fst (cc_entries ! i)) + of_nat (fst (snd (cc_entries ! i))))] \<and>
    unat (of_nat (fst (cc_entries ! i)) :: u32) = fst (cc_entries ! i) \<and>
    unat (of_nat (fst (cc_entries ! i)) + of_nat (fst (snd (cc_entries ! i))) :: u32) = fst (cc_entries ! i) + fst (snd (cc_entries ! i))"
    if "i < 370" for i
  proof -
    obtain code len t data where e: "cc_entries ! i = (code, len, t, data)" by (cases "cc_entries ! i") auto
    have "of_nat code + of_nat len = (of_nat (code + len) :: u32)" by simp
    then show ?thesis using case1_all_intervals [OF that e] entry_bound [OF that] e
      by (simp add: unat_of_nat take_bit_nat_eq_self del: of_nat_add)
  qed
  have o: "(\<forall>(s, e)\<in>set ps. s \<le> e) \<and> sorted (unpairs ps)"
    unfolding ps_def by (rule entry_points_ordered) (use iv in \<open>auto simp: word_le_nat_alt\<close>)
  then show "sorted (unpairs ps)" by simp
  have "hits c ps = of_bool (\<exists>i<370. in_entry i c)" for c
    unfolding ps_def by (rule entry_points_hits) (use iv in \<open>auto simp: in_entry_def word_le_nat_alt word_less_nat_alt\<close>)
  moreover have "(\<exists>i<370. in_entry i c) \<longleftrightarrow> (\<exists>conv_type\<le>2. lre_case_conv c conv_type \<noteq> Some [c])" for c
  proof
    assume "\<exists>i<370. in_entry i c"
    then obtain i where i: "i < 370" "in_entry i c" by blast
    obtain code len t data where e: "cc_entries ! i = (code, len, t, data)" by (cases "cc_entries ! i") auto
    from entry_changed [OF i(1) e i(2)] obtain conv_type where ct: "conv_type \<le> 2" "conv_changes conv_type t (unat c - code)"
      by blast
    have "changed_by conv_type c" unfolding changed_by_def by (rule exI [of _ i]) (use i(2) e ct in simp)
    with ct(1) show "\<exists>conv_type\<le>2. lre_case_conv c conv_type \<noteq> Some [c]" using changed_iff by blast
  next
    assume "\<exists>conv_type\<le>2. lre_case_conv c conv_type \<noteq> Some [c]"
    then obtain conv_type where "conv_type \<le> 2" "changed_by conv_type c" using changed_iff by blast
    then show "\<exists>i<370. in_entry i c" by (auto simp: changed_by_def in_entry_def)
  qed
  ultimately have "odd (cnt c (unpairs ps)) \<longleftrightarrow> (\<exists>conv_type\<le>2. lre_case_conv c conv_type \<noteq> Some [c])" for c
    using odd_cnt_hits [of ps c] o by auto
  then show "cr_set (unpairs ps) = {c. \<exists>conv_type\<le>2. lre_case_conv c conv_type \<noteq> Some [c]}" by auto
qed

context char_range_alloc begin

lemma add_intervals_ok:
  assumes "cr_ok cr" "add_intervals cr ivs = (r, cr')"
  shows "cr_ok cr' \<and> (r = 0 \<and> cr_pts cr' = cr_pts cr @ unpairs ivs \<or> r = -1)"
  using assms
proof (induction cr ivs rule: add_intervals.induct)
  case (2 cr c1 c2 ivs)
  obtain q t where qt: "cr_add_interval cr c1 c2 = (q, t)" by fastforce
  from add_interval_ok [OF "2.prems"(1) qt] 2 qt show ?case
    by (cases "q = 0") auto
qed simp

lemma unicode_case1_ok:
  assumes "cr_ok cr" "cr_pts cr = []" "conv_type \<le> 2" "unicode_case1 cr (case_of_type conv_type) = (r, cr')"
  shows "cr_ok cr' \<and> (r = 0 \<and> sorted (cr_pts cr') \<and> even (length (cr_pts cr')) \<and>
      cr_set (cr_pts cr') = {c. lre_case_conv c conv_type \<noteq> Some [c]} \<or> r = -1)"
proof -
  have "case_of_type conv_type \<noteq> 0" by (simp add: case_of_type_def)
  then have "add_intervals cr (case1_points conv_type) = (r, cr')"
    using assms(4) by (simp add: unicode_case1_def case1_points_def)
  from add_intervals_ok [OF assms(1) this] have
    c: "cr_ok cr' \<and> (r = 0 \<and> cr_pts cr' = unpairs (case1_points conv_type) \<or> r = -1)" using assms(2) by simp
  have "cr_set (unpairs (case1_points conv_type)) = {c. lre_case_conv c conv_type \<noteq> Some [c]}"
    using case1_points_ordered [OF assms(3)] case1_points_hits [OF assms(3)] changed_iff [OF assms(3)]
    by (auto simp: odd_cnt_hits)
  with c case1_points_ordered [OF assms(3)] show ?thesis by auto
qed

end

text \<open>Canonicalization for regular expressions.\<close>

lemma lre_canonicalize_total: "\<exists>d. lre_canonicalize c u = Some d"
proof (cases "c < 128 \<or> cc_find c = None")
  case True
  then show ?thesis by (auto simp: lre_canonicalize_def)
next
  case False
  then obtain i v where f: "cc_find c = Some (i, v)" by auto
  then have i: "in_entry i c" "v = case_conv_table1 ! i" by (auto simp: cc_find_Some)
  obtain code len t data where e: "cc_entries ! i = (code, len, t, data)" by (cases "cc_entries ! i") auto
  from conv_entry_spec [OF i(1) e, of 0] conv_entry_spec [OF i(1) e, of 2] False f i(2) show ?thesis
    by (auto simp: lre_canonicalize_def lre_case_folding_entry_def)
qed

text \<open>
  The rule of the language for patterns without the \<open>u\<close> flag: upper case by the full conversion,
  when it is a single code point and does not turn a character outside of ASCII into an ASCII one.
\<close>

definition canonicalize_spec :: "u32 \<Rightarrow> u32 \<Rightarrow> bool" where
  "canonicalize_spec c d \<longleftrightarrow>
     (case lre_case_conv c 0 of
        Some [u] \<Rightarrow> d = (if c \<ge> 128 \<and> u < 128 then c else u)
      | Some _ \<Rightarrow> d = c
      | None \<Rightarrow> False)"

lemma lre_canonicalize_legacy: "lre_canonicalize c False = Some d \<longleftrightarrow> canonicalize_spec c d"
proof (cases "c < 128 \<or> cc_find c = None")
  case True
  then show ?thesis by (auto simp: lre_canonicalize_def canonicalize_spec_def lre_case_conv.simps [of c])
next
  case False
  then obtain i v where f: "cc_find c = Some (i, v)" by auto
  then have i: "in_entry i c" "v = case_conv_table1 ! i" by (auto simp: cc_find_Some)
  obtain code len t data where e: "cc_entries ! i = (code, len, t, data)" by (cases "cc_entries ! i") auto
  from conv_entry_spec [OF i(1) e, of 0] obtain r where
    r: "lre_case_conv_entry c 0 i v = Some r" "r \<noteq> []" using i(2) by auto
  then consider u where "r = [u]" | u w us where "r = u # w # us" by (cases r rule: remdups_adj.cases) auto
  then show ?thesis
    using r f False
    by cases (auto simp: lre_canonicalize_def canonicalize_spec_def lre_case_conv.simps [of c]
        lre_case_folding_entry_def not_le not_less)
qed

end
