(* ===== verification/UniTable.thy ===== *)
theory UniTable
  imports CaseConv
begin

text \<open>
  libunicode.c: the run-length tables of the character classes.  A table is a list of bytes
  that stand for alternating runs of absent and present code points; an index gives, for every
  block of 32 bytes, where the decoding can start.  A pointer into a table is the rest of it.
  \<open>lre_is_in_table\<close> (through the index) and \<open>unicode_prop1\<close> (the whole table, as a range) read
  the same format; both are shown to denote the same set.
\<close>

unbundle bit_operations_syntax

subsection \<open>The search in the index\<close>

definition get_le24 :: "u8 list \<Rightarrow> nat \<Rightarrow> u32 option" where
  "get_le24 t p =
     do {
       a \<leftarrow> rd t p;
       b \<leftarrow> rd t (p + 1);
       c \<leftarrow> rd t (p + 2);
       Some ((ucast a OR push_bit 8 (ucast b)) OR push_bit 16 (ucast c))
     }"

abbreviation (input) UNICODE_INDEX_BLOCK_LEN :: nat where "UNICODE_INDEX_BLOCK_LEN \<equiv> 32"

function index_search :: "u32 \<Rightarrow> u8 list \<Rightarrow> nat \<Rightarrow> nat \<Rightarrow> nat option" where
  "index_search c index_table idx_min idx_max =
     (if idx_max - idx_min > 1 then
        let idx = (idx_max + idx_min) div 2 in
        case get_le24 index_table (idx * 3) of
          None \<Rightarrow> None
        | Some v \<Rightarrow>
            if c < v AND 0x1fffff then index_search c index_table idx_min idx
            else index_search c index_table idx idx_max
      else Some idx_min)"
  by pat_completeness auto
termination by (relation "measure (\<lambda>(c, t, lo, hi). hi - lo)") auto

declare index_search.simps [simp del]

text \<open>The result \<open>Some None\<close> is the C result -1; otherwise the pair of \<open>*pcode\<close> and the position.\<close>

definition get_index_pos :: "u32 \<Rightarrow> u8 list \<Rightarrow> nat \<Rightarrow> (u32 \<times> nat) option option" where
  "get_index_pos c index_table index_table_len =
     do {
       v \<leftarrow> get_le24 index_table 0;
       if c < v AND 0x1fffff then Some (Some (0, 0))
       else do {
         code \<leftarrow> get_le24 index_table ((index_table_len - 1) * 3);
         if c \<ge> code then Some None
         else do {
           idx_min \<leftarrow> index_search c index_table 0 (index_table_len - 1);
           v \<leftarrow> get_le24 index_table (idx_min * 3);
           Some (Some (v AND 0x1fffff, (idx_min + 1) * UNICODE_INDEX_BLOCK_LEN + unat (drop_bit 21 v)))
         }
       }
     }"

subsection \<open>The runs of a table\<close>

text \<open>A run whose first byte \<open>b\<close> is at least 64: its length and the rest of the table.\<close>

definition read_run :: "u8 \<Rightarrow> u8 list \<Rightarrow> (u32 \<times> u8 list) option" where
  "read_run b p =
     (if b \<ge> 0x80 then Some (ucast b - 0x80 + 1, p)
      else if b < 0x60 then
        (case p of
           p0 # p \<Rightarrow> Some ((push_bit 8 (ucast b - 0x40) OR ucast p0) + 1, p)
         | _ \<Rightarrow> None)
      else
        (case p of
           p0 # p1 # p \<Rightarrow> Some ((push_bit 16 (ucast b - 0x60) OR push_bit 8 (ucast p0) OR ucast p1) + 1, p)
         | _ \<Rightarrow> None))"

lemma read_run_length: "read_run b p = Some (n, q) \<Longrightarrow> length q \<le> length p"
  by (auto simp: read_run_def split: if_splits list.splits)

function in_table_loop :: "u32 \<Rightarrow> u8 list \<Rightarrow> u32 \<Rightarrow> bool \<Rightarrow> bool option" where
  "in_table_loop c [] code on = None"
| "in_table_loop c (b # p) code on =
     (if b < 64 then
        let code = code + (ucast (drop_bit 3 b) + 1) in
        if c < code then Some on
        else
          let on = (\<not> on); code = code + (ucast (b AND 7) + 1) in
          if c < code then Some on else in_table_loop c p code (\<not> on)
      else
        (case read_run b p of
           None \<Rightarrow> None
         | Some (n, p) \<Rightarrow> let code = code + n in if c < code then Some on else in_table_loop c p code (\<not> on)))"
  by pat_completeness auto
termination
  by (relation "measure (\<lambda>(c, p, code, on). length p)") (auto dest: read_run_length)

declare in_table_loop.simps [simp del]

definition lre_is_in_table :: "u32 \<Rightarrow> u8 list \<Rightarrow> u8 list \<Rightarrow> nat \<Rightarrow> bool option" where
  "lre_is_in_table c table index_table index_table_len =
     do {
       pos \<leftarrow> get_index_pos c index_table index_table_len;
       case pos of
         None \<Rightarrow> Some False
       | Some (code, pos) \<Rightarrow> if pos \<le> length table then in_table_loop c (drop pos table) code False else None
     }"

definition lre_is_cased :: "u32 \<Rightarrow> bool option" where
  "lre_is_cased c =
     (if cc_find c \<noteq> None then Some True
      else lre_is_in_table c unicode_prop_Cased1_table unicode_prop_Cased1_index
             (length unicode_prop_Cased1_index div 3))"

definition lre_is_case_ignorable :: "u32 \<Rightarrow> bool option" where
  "lre_is_case_ignorable c =
     lre_is_in_table c unicode_prop_Case_Ignorable_table unicode_prop_Case_Ignorable_index
       (length unicode_prop_Case_Ignorable_index div 3)"

definition lre_is_id_start :: "u32 \<Rightarrow> bool option" where
  "lre_is_id_start c =
     lre_is_in_table c unicode_prop_ID_Start_table unicode_prop_ID_Start_index
       (length unicode_prop_ID_Start_index div 3)"

definition lre_is_id_continue :: "u32 \<Rightarrow> bool option" where
  "lre_is_id_continue c =
     do {
       s \<leftarrow> lre_is_id_start c;
       if s then Some True
       else lre_is_in_table c unicode_prop_ID_Continue1_table unicode_prop_ID_Continue1_index
              (length unicode_prop_ID_Continue1_index div 3)
     }"

text \<open>The loop of \<open>unicode_prop1\<close>, on the rest of the table.\<close>

definition add_if :: "bool \<Rightarrow> char_range \<Rightarrow> u32 \<Rightarrow> u32 \<Rightarrow> int \<times> char_range" where
  "add_if on cr c0 c = (if on then cr_add_interval cr c0 c else (0, cr))"

function prop1_loop :: "char_range \<Rightarrow> u8 list \<Rightarrow> u32 \<Rightarrow> bool \<Rightarrow> (int \<times> char_range) option" where
  "prop1_loop cr [] c on = Some (0, cr)"
| "prop1_loop cr (b # p) c0 on =
     (if b < 64 then
        let c = c0 + (ucast (drop_bit 3 b) + 1) in
        case add_if on cr c0 c of (r, cr) \<Rightarrow>
          if r \<noteq> 0 then Some (-1, cr)
          else
            let on = (\<not> on); c0 = c; c = c + (ucast (b AND 7) + 1) in
            case add_if on cr c0 c of (r, cr) \<Rightarrow>
              if r \<noteq> 0 then Some (-1, cr) else prop1_loop cr p c (\<not> on)
      else
        (case read_run b p of
           None \<Rightarrow> None
         | Some (n, p) \<Rightarrow>
             let c = c0 + n in
             case add_if on cr c0 c of (r, cr) \<Rightarrow>
               if r \<noteq> 0 then Some (-1, cr) else prop1_loop cr p c (\<not> on)))"
  by pat_completeness auto
termination
  by (relation "measure (\<lambda>(cr, p, c, on). length p)") (auto dest: read_run_length)

declare prop1_loop.simps [simp del]

subsection \<open>The set a table stands for\<close>

function table_runs :: "u8 list \<Rightarrow> u32 list option" where
  "table_runs [] = Some []"
| "table_runs (b # p) =
     (if b < 64 then
        do { rs \<leftarrow> table_runs p; Some ((ucast (drop_bit 3 b) + 1) # (ucast (b AND 7) + 1) # rs) }
      else
        (case read_run b p of
           None \<Rightarrow> None
         | Some (n, p) \<Rightarrow> do { rs \<leftarrow> table_runs p; Some (n # rs) }))"
  by pat_completeness auto
termination
  by (relation "measure length") (auto dest: read_run_length)

declare table_runs.simps(2) [simp del]

text \<open>The intervals of the runs that are present.\<close>

fun run_ivs :: "u32 \<Rightarrow> bool \<Rightarrow> u32 list \<Rightarrow> (u32 \<times> u32) list" where
  "run_ivs code on [] = []"
| "run_ivs code on (n # rs) = (if on then [(code, code + n)] else []) @ run_ivs (code + n) (\<not> on) rs"

definition table_set :: "u8 list \<Rightarrow> u32 set" where
  "table_set t = cr_set (unpairs (run_ivs 0 False (the (table_runs t))))"

fun find_run :: "u32 \<Rightarrow> u32 \<Rightarrow> bool \<Rightarrow> u32 list \<Rightarrow> bool option" where
  "find_run c code on [] = None"
| "find_run c code on (n # rs) = (if c < code + n then Some on else find_run c (code + n) (\<not> on) rs)"

lemma in_table_loop_runs: "table_runs p = Some rs \<Longrightarrow> in_table_loop c p code on = find_run c code on rs"
proof (induction c p code on arbitrary: rs rule: in_table_loop.induct)
  case (2 c b p code on)
  show ?case
  proof (cases "b < 64")
    case True
    with "2.prems" obtain rs' where "table_runs p = Some rs'"
      "rs = (ucast (drop_bit 3 b) + 1) # (ucast (b AND 7) + 1) # rs'"
      by (auto simp: table_runs.simps(2) split: Option.bind_splits)
    with "2.IH"(1) [OF True refl _ refl refl] True show ?thesis
      by (auto simp: in_table_loop.simps Let_def)
  next
    case False
    with "2.prems" obtain n q rs' where q: "read_run b p = Some (n, q)" "table_runs q = Some rs'" "rs = n # rs'"
      by (auto simp: table_runs.simps(2) split: Option.bind_splits option.splits)
    from "2.IH"(2) [OF False q(1) refl refl _ q(2)] q False show ?thesis
      by (simp add: in_table_loop.simps Let_def)
  qed
qed (simp add: in_table_loop.simps)

lemma prop1_loop_runs: "table_runs p = Some rs \<Longrightarrow> prop1_loop cr p c on = Some (add_intervals cr (run_ivs c on rs))"
proof (induction cr p c on arbitrary: rs rule: prop1_loop.induct)
  case (2 cr b p c on)
  show ?case
  proof (cases "b < 64")
    case True
    with "2.prems" obtain rs' where rs: "table_runs p = Some rs'"
      "rs = (ucast (drop_bit 3 b) + 1) # (ucast (b AND 7) + 1) # rs'"
      by (auto simp: table_runs.simps(2) split: Option.bind_splits)
    show ?thesis
    proof (cases on)
      case b: True
      obtain r t where "cr_add_interval cr c (c + (ucast (drop_bit 3 b) + 1)) = (r, t)" by fastforce
      with "2.IH"(1) [OF True refl _ _ refl refl refl, of r t 0 t] True b rs show ?thesis
        by (auto simp: prop1_loop.simps Let_def add_if_def)
    next
      case b: False
      obtain r t where "cr_add_interval cr (c + (ucast (drop_bit 3 b) + 1))
        (c + (ucast (drop_bit 3 b) + 1) + (ucast (b AND 7) + 1)) = (r, t)" by fastforce
      with "2.IH"(1) [OF True refl _ _ refl refl refl, of 0 cr r t] True b rs show ?thesis
        by (auto simp: prop1_loop.simps Let_def add_if_def)
    qed
  next
    case False
    with "2.prems" obtain n q rs' where q: "read_run b p = Some (n, q)" "table_runs q = Some rs'" "rs = n # rs'"
      by (auto simp: table_runs.simps(2) split: Option.bind_splits option.splits)
    obtain r t where "cr_add_interval cr c (c + n) = (r, t)" by fastforce
    with "2.IH"(2) [OF False q(1) refl refl] q False show ?thesis
      by (auto simp: prop1_loop.simps Let_def add_if_def)
  qed
qed (simp add: prop1_loop.simps)

lemma run_ivs_ge:
  assumes "unat code + sum_list (map unat rs) < 2 ^ 32"
  shows "(\<forall>x\<in>set (unpairs (run_ivs code on rs)). code \<le> x) \<and> sorted (unpairs (run_ivs code on rs))"
  using assms
proof (induction code on rs rule: run_ivs.induct)
  case (2 code on n rs)
  then have u: "unat (code + n) = unat code + unat n"
    by (subst unat_add_lem [THEN iffD1]) auto
  with 2 have IH: "\<forall>x\<in>set (unpairs (run_ivs (code + n) (\<not> on) rs)). code + n \<le> x"
    "sorted (unpairs (run_ivs (code + n) (\<not> on) rs))" by simp_all
  have "code \<le> code + n" using u by (simp add: word_le_nat_alt)
  with IH show ?case by (auto intro: order_trans)
qed simp

lemma run_ivs_cnt:
  assumes "unat code + sum_list (map unat rs) < 2 ^ 32" "code \<le> c"
  shows "odd (cnt c (unpairs (run_ivs code on rs))) \<longleftrightarrow> find_run c code on rs = Some True"
  using assms
proof (induction code on rs rule: run_ivs.induct)
  case (2 code on n rs)
  then have u: "unat (code + n) = unat code + unat n"
    by (subst unat_add_lem [THEN iffD1]) auto
  then have b: "unat (code + n) + sum_list (map unat rs) < 2 ^ 32" using 2 by simp
  show ?case
  proof (cases "c < code + n")
    case True
    have "\<forall>x\<in>set (unpairs (run_ivs (code + n) (\<not> on) rs)). c < x"
      using run_ivs_ge [OF b, of "\<not> on"] True by (meson less_le_trans)
    then have "cnt c (unpairs (run_ivs (code + n) (\<not> on) rs)) = 0" by (intro cnt_above) blast
    moreover have "\<not> code + n \<le> c" using True by (simp add: not_le)
    ultimately show ?thesis using True 2 by simp
  next
    case False
    with 2 b have "odd (cnt c (unpairs (run_ivs (code + n) (\<not> on) rs))) \<longleftrightarrow>
      find_run c (code + n) (\<not> on) rs = Some True" by simp
    moreover have "\<not> c < code + n" "code + n \<le> c" using False by (simp_all add: not_less)
    ultimately show ?thesis using 2 by simp
  qed
qed simp

lemma find_run_None:
  assumes "unat code + sum_list (map unat rs) < 2 ^ 32" "code \<le> c"
  shows "find_run c code on rs = None \<longleftrightarrow> unat code + sum_list (map unat rs) \<le> unat c"
  using assms
proof (induction c code on rs rule: find_run.induct)
  case (2 c code on n rs)
  then have u: "unat (code + n) = unat code + unat n"
    by (subst unat_add_lem [THEN iffD1]) auto
  with 2 show ?case by (auto simp: word_less_nat_alt word_le_nat_alt)
qed (simp add: word_le_nat_alt)

subsection \<open>Checks of a table, on numbers\<close>

text \<open>
  One byte group of a table: the code points it stands for, whether the membership is the
  opposite after it, the bytes it has after the first, and the rest.
\<close>

definition run_step :: "nat \<Rightarrow> nat list \<Rightarrow> (nat \<times> bool \<times> nat \<times> nat list) option" where
  "run_step b p =
     (if b < 64 then Some (b div 8 + b mod 8 + 2, False, 0, p)
      else if 128 \<le> b then Some (b - 127, True, 0, p)
      else if b < 96 then
        (case p of p0 # p \<Rightarrow> Some ((b - 64) * 256 + p0 + 1, True, 1, p) | _ \<Rightarrow> None)
      else
        (case p of p0 # p1 # p \<Rightarrow> Some ((b - 96) * 65536 + p0 * 256 + p1 + 1, True, 2, p) | _ \<Rightarrow> None))"

lemma run_step_length: "run_step b p = Some (d, t, k, q) \<Longrightarrow> length q \<le> length p"
  by (auto simp: run_step_def split: if_splits list.splits)

function runs_total :: "nat list \<Rightarrow> nat \<Rightarrow> nat option" where
  "runs_total [] n = Some n"
| "runs_total (b # p) n =
     (case run_step b p of None \<Rightarrow> None | Some (d, t, k, q) \<Rightarrow> runs_total q (n + d))"
  by pat_completeness auto
termination by (relation "measure (\<lambda>(p, n). length p)") (auto dest: run_step_length)

text \<open>The entries of an index but the last are positions where a group starts with the bit clear.\<close>

fun pop_entry :: "(nat \<times> nat) list \<Rightarrow> nat \<Rightarrow> nat \<Rightarrow> bool \<Rightarrow> (nat \<times> nat) list option" where
  "pop_entry ((c, q) # e # es) pos code on =
     (if q = pos then if c = code \<and> \<not> on then Some (e # es) else None else Some ((c, q) # e # es))"
| "pop_entry [e] pos code on = Some [e]"
| "pop_entry [] pos code on = None"

function index_check :: "(nat \<times> nat) list \<Rightarrow> nat \<Rightarrow> nat \<Rightarrow> bool \<Rightarrow> nat list \<Rightarrow> bool" where
  "index_check es pos code on [] = (case es of [e] \<Rightarrow> fst e = code | _ \<Rightarrow> False)"
| "index_check es pos code on (b # p) =
     (case pop_entry es pos code on of
        None \<Rightarrow> False
      | Some es \<Rightarrow>
          (case run_step b p of
             None \<Rightarrow> False
           | Some (d, t, k, q) \<Rightarrow> index_check es (pos + 1 + k) (code + d) (on \<noteq> t) q))"
  by pat_completeness auto
termination by (relation "measure (\<lambda>(es, pos, code, on, p). length p)") (auto dest: run_step_length)

fun index_entries :: "nat \<Rightarrow> nat list \<Rightarrow> (nat \<times> nat) list" where
  "index_entries k (a # b # c # r) =
     ((a + b * 256 + c * 65536) mod 2097152, (k + 1) * 32 + (a + b * 256 + c * 65536) div 2097152) #
     index_entries (k + 1) r"
| "index_entries k _ = []"

lemma unat_ucast_u8: "unat (ucast (v :: u8) :: u32) = unat v"
  using unsigned_less [of v, where 'a = nat]
  by (simp add: unsigned_ucast_eq take_bit_nat_eq_self)

lemma read_run_step:
  assumes "\<not> b < 64" "run_step (unat b) (map unat p) = Some (d, t, k, q)"
  shows "\<exists>n. read_run b p = Some (n, drop k p) \<and> q = map unat (drop k p) \<and> k \<le> length p \<and> unat n = d \<and> t"
proof -
  have b: "64 \<le> unat b" "unat b < 256" using assms(1) unsigned_less [of b, where 'a = nat] by (simp_all add: word_less_nat_alt)
  have w: "(0x80 \<le> b) = (128 \<le> unat b)" "(b < 0x60) = (unat b < 96)" "(b < 64) = (unat b < 64)"
    by (simp_all add: word_le_nat_alt word_less_nat_alt)
  have sub: "unat (ucast b - m :: u32) = unat b - unat m" if "unat m \<le> unat b" for m :: u32
    using that by (simp add: unat_sub unat_ucast_u8 word_le_nat_alt)
  consider "128 \<le> unat b" | "unat b < 96" | "96 \<le> unat b" "unat b < 128" using b by linarith
  then show ?thesis
  proof cases
    case 1
    have "unat (ucast b - 0x80 + 1 :: u32) = unat b - 127"
      using 1 b sub [of "127"] by simp
    with 1 assms w show ?thesis by (auto simp: read_run_def run_step_def)
  next
    case 2
    obtain p0 p' where p: "p = p0 # p'" using assms 2 b by (auto simp: run_step_def split: list.splits)
    have "unat p0 < 256" using unsigned_less [of p0, where 'a = nat] by simp
    then have "unat (push_bit 8 (ucast b - 0x40) OR ucast p0 :: u32) = (unat b - 64) * 256 + unat p0"
      using b 2 sub [of "0x40"] by (subst unat_push_or) (simp_all add: unat_ucast_u8)
    then have "unat ((push_bit 8 (ucast b - 0x40) OR ucast p0) + 1 :: u32) = (unat b - 64) * 256 + unat p0 + 1"
      using b 2 \<open>unat p0 < 256\<close> by (simp add: unat_word_ariths)
    with 2 b p assms w show ?thesis by (auto simp: read_run_def run_step_def)
  next
    case 3
    obtain p0 p1 p' where p: "p = p0 # p1 # p'" using assms 3 b by (auto simp: run_step_def split: list.splits)
    have p8: "unat p0 < 256" "unat p1 < 256" using unsigned_less [of p0, where 'a = nat] unsigned_less [of p1, where 'a = nat] by simp_all
    have i: "unat (push_bit 8 (ucast p0) OR ucast p1 :: u32) = unat p0 * 256 + unat p1"
      using p8 by (subst unat_push_or) (simp_all add: unat_ucast_u8)
    have "unat (push_bit 16 (ucast b - 0x60) OR (push_bit 8 (ucast p0) OR ucast p1) :: u32) =
      (unat b - 96) * 65536 + (unat p0 * 256 + unat p1)"
      using b 3 p8 sub [of "0x60"] by (subst unat_push_or) (simp_all add: i)
    then have "unat ((push_bit 16 (ucast b - 0x60) OR push_bit 8 (ucast p0) OR ucast p1) + 1 :: u32) =
      (unat b - 96) * 65536 + unat p0 * 256 + unat p1 + 1"
      using b 3 p8 by (simp add: unat_word_ariths or.assoc)
    with 3 b p assms w show ?thesis by (auto simp: read_run_def run_step_def)
  qed
qed

lemma small_run:
  assumes "b < (64 :: u8)"
  shows "unat (ucast (drop_bit 3 b) + 1 :: u32) = unat b div 8 + 1"
    "unat (ucast (b AND 7) + 1 :: u32) = unat b mod 8 + 1" "unat b < 64"
proof -
  show b: "unat b < 64" using assms by (simp add: word_less_nat_alt)
  have "unat (b AND mask 3) = unat b mod 8" by (simp add: unat_and_mask)
  then have m: "unat (b AND 7) = unat b mod 8" by (simp add: mask_eq_exp_minus_1)
  show "unat (ucast (drop_bit 3 b) + 1 :: u32) = unat b div 8 + 1"
    using b by (simp add: unat_word_ariths unat_ucast_u8 unat_drop)
  show "unat (ucast (b AND 7) + 1 :: u32) = unat b mod 8 + 1"
    using b by (simp add: unat_word_ariths unat_ucast_u8 m)
qed

lemma group_runs:
  assumes "run_step (unat b) (map unat p) = Some (d, t, k, q)"
  obtains rs where "q = map unat (drop k p)" "k \<le> length p" "sum_list (map unat rs) = d"
    "table_runs (b # p) = map_option ((@) rs) (table_runs (drop k p))"
    "\<And>c code on. unat code + d < 2 ^ 32 \<Longrightarrow> unat code + d \<le> unat c \<Longrightarrow>
       in_table_loop c (b # p) code on = in_table_loop c (drop k p) (code + of_nat d) (on \<noteq> t)"
proof (cases "b < 64")
  case True
  let ?m = "ucast (drop_bit 3 b) + 1 :: u32" and ?n = "ucast (b AND 7) + 1 :: u32"
  note s = small_run [OF True]
  have st: "d = unat b div 8 + unat b mod 8 + 2" "\<not> t" "k = 0" "q = map unat p"
    using assms s(3) by (auto simp: run_step_def)
  have "?m + ?n = of_nat (unat ?m + unat ?n)" by (simp only: of_nat_add) simp
  also have "unat ?m + unat ?n = d" unfolding s(1,2) st by simp
  finally have d: "?m + ?n = of_nat d" .
  have loop: "in_table_loop c (b # p) code on = in_table_loop c p (code + of_nat d) on"
    if c: "unat code + d < 2 ^ 32" "unat code + d \<le> unat c" for c code on
  proof -
    have "unat (code + ?m) = unat code + unat ?m"
      using c s st by (subst unat_add_lem [THEN iffD1]) simp_all
    moreover have "unat (code + ?m + ?n) = unat code + unat ?m + unat ?n"
      using c s st calculation by (subst unat_add_lem [THEN iffD1]) simp_all
    ultimately have "\<not> c < code + ?m" "\<not> c < code + ?m + ?n"
      using c s st by (simp_all add: word_less_nat_alt)
    with True show ?thesis by (simp add: in_table_loop.simps Let_def add.assoc flip: d)
  qed
  show thesis
    by (rule that [of "[?m, ?n]"])
       (use st s loop True in \<open>auto simp: table_runs.simps(2) map_option_case split: option.splits\<close>)
next
  case False
  from read_run_step [OF this assms] obtain n where
    r: "read_run b p = Some (n, drop k p)" "q = map unat (drop k p)" "k \<le> length p" "unat n = d" t by blast
  have loop: "in_table_loop c (b # p) code on = in_table_loop c (drop k p) (code + of_nat d) (on \<noteq> t)"
    if c: "unat code + d < 2 ^ 32" "unat code + d \<le> unat c" for c code on
  proof -
    have "unat (code + n) = unat code + unat n" using c r by (subst unat_add_lem [THEN iffD1]) simp_all
    then have "\<not> c < code + n" using c r by (simp add: word_less_nat_alt)
    moreover have "n = of_nat d" using r(4) by auto
    ultimately show ?thesis using r False by (simp add: in_table_loop.simps Let_def)
  qed
  show thesis
    by (rule that [of "[n]"]) (use r loop False in \<open>auto simp: table_runs.simps(2) map_option_case split: option.splits\<close>)
qed

lemma runs_total_runs:
  "runs_total (map unat p) m = Some N \<Longrightarrow> \<exists>rs. table_runs p = Some rs \<and> m + sum_list (map unat rs) = N"
proof (induction p arbitrary: m rule: length_induct)
  case (1 p)
  show ?case
  proof (cases p)
    case (Cons b p')
    with "1.prems" obtain d t k q where st: "run_step (unat b) (map unat p') = Some (d, t, k, q)"
      "runs_total q (m + d) = Some N" by (auto split: option.splits)
    from group_runs [OF st(1)] obtain rs where rs: "q = map unat (drop k p')" "sum_list (map unat rs) = d"
      "table_runs (b # p') = map_option ((@) rs) (table_runs (drop k p'))" by metis
    have "length (drop k p') < length p" using Cons by simp
    with 1(1) st(2) rs(1) obtain rs' where "table_runs (drop k p') = Some rs'" "m + d + sum_list (map unat rs') = N" by blast
    with rs Cons show ?thesis by auto
  qed (use 1 in simp)
qed

lemma index_check_sound:
  assumes "index_check es pos code on (map unat p)" "table_runs p = Some rs" "code + sum_list (map unat rs) < 2 ^ 32"
  shows "es \<noteq> [] \<and> fst (last es) = code + sum_list (map unat rs) \<and>
    (\<forall>(ck, pk)\<in>set (butlast es). code \<le> ck \<and> ck \<le> code + sum_list (map unat rs) \<and> pos \<le> pk \<and> pk - pos \<le> length p \<and>
       (\<forall>c. ck \<le> unat c \<longrightarrow> in_table_loop c p (of_nat code) on = in_table_loop c (drop (pk - pos) p) (of_nat ck) False))"
  using assms
proof (induction p arbitrary: es pos code on rs rule: length_induct)
  case (1 p)
  show ?case
  proof (cases p)
    case Nil
    with "1.prems" show ?thesis by (auto split: list.splits)
  next
    case (Cons b p')
    with "1.prems" obtain d t k q where st: "run_step (unat b) (map unat p') = Some (d, t, k, q)"
      by (auto split: option.splits)
    obtain rs0 where g: "q = map unat (drop k p')" "k \<le> length p'" "sum_list (map unat rs0) = d"
      "table_runs (b # p') = map_option ((@) rs0) (table_runs (drop k p'))"
      "\<And>c code on. unat code + d < 2 ^ 32 \<Longrightarrow> unat code + d \<le> unat c \<Longrightarrow>
         in_table_loop c (b # p') code on = in_table_loop c (drop k p') (code + of_nat d) (on \<noteq> t)"
      using group_runs [OF st] by metis
    from g(4) "1.prems"(2) Cons obtain rs1 where rs1: "table_runs (drop k p') = Some rs1" "rs = rs0 @ rs1" by auto
    have l: "length (drop k p') < length p" using Cons by simp
    have bound: "code + d + sum_list (map unat rs1) < 2 ^ 32" using "1.prems"(3) rs1 g(3) by simp
    then have cu: "unat (of_nat code :: u32) = code" "unat (of_nat code :: u32) + d < 2 ^ 32"
      by (simp_all add: unat_of_nat take_bit_nat_eq_self)
    from "1.prems"(1) st Cons obtain e es' where es: "es = e # es'" by (cases es) auto
    define hit where "hit \<longleftrightarrow> es' \<noteq> [] \<and> snd e = pos"
    define fs where "fs = (if hit then es' else es)"
    have chk: "index_check fs (pos + 1 + k) (code + d) (on \<noteq> t) (map unat (drop k p'))"
      and h: "hit \<longrightarrow> fst e = code \<and> \<not> on"
      using "1.prems"(1) st Cons es g(1)
      by (cases e; cases es'; auto simp: hit_def fs_def split: if_splits)+
    from 1(1) [rule_format, OF l chk rs1(1) bound]
    have IH: "fs \<noteq> []" "fst (last fs) = code + d + sum_list (map unat rs1)"
      "\<And>ck pk. (ck, pk) \<in> set (butlast fs) \<Longrightarrow> code + d \<le> ck \<and> ck \<le> code + d + sum_list (map unat rs1) \<and> pos + 1 + k \<le> pk \<and> pk - (pos + 1 + k) \<le> length (drop k p') \<and>
        (\<forall>c. ck \<le> unat c \<longrightarrow> in_table_loop c (drop k p') (of_nat (code + d)) (on \<noteq> t) =
          in_table_loop c (drop (pk - (pos + 1 + k)) (drop k p')) (of_nat ck) False)" by auto
    have rest: "code \<le> ck \<and> ck \<le> code + sum_list (map unat rs) \<and> pos \<le> pk \<and> pk - pos \<le> length p \<and>
       (\<forall>c. ck \<le> unat c \<longrightarrow> in_table_loop c p (of_nat code) on = in_table_loop c (drop (pk - pos) p) (of_nat ck) False)"
      if m: "(ck, pk) \<in> set (butlast fs)" for ck pk
    proof -
      from IH(3) [OF m] have i: "code + d \<le> ck" "pos + 1 + k \<le> pk" "pk - (pos + 1 + k) \<le> length p' - k" by auto
      have "drop (pk - (pos + 1 + k)) (drop k p') = drop (pk - pos) p"
        using i(2) Cons by (simp add: Suc_diff_le [symmetric] drop_Cons')
      with IH(3) [OF m] i g(2,3) rs1(2) cu show ?thesis
        by (auto simp: Cons g(5))
    qed
    have last: "last es = last fs" using IH(1) es by (auto simp: fs_def hit_def)
    have "(ck, pk) \<in> set (butlast es) \<Longrightarrow> (ck, pk) \<in> set (butlast fs) \<or> hit \<and> ck = code \<and> pk = pos" for ck pk
      using es h by (auto simp: fs_def hit_def split: if_splits)
    with rest h last IH rs1 g(3) es show ?thesis by (fastforce split: prod.splits)
  qed
qed

subsection \<open>The index leads to the right place\<close>

lemma length_index_entries: "length (index_entries k xs) = length xs div 3"
  by (induction k xs rule: index_entries.induct) auto

lemma nth_index_entries:
  assumes "i < length xs div 3"
  shows "index_entries k xs ! i =
    (let v = xs ! (i * 3) + xs ! (i * 3 + 1) * 256 + xs ! (i * 3 + 2) * 65536
     in (v mod 2097152, (k + i + 1) * 32 + v div 2097152))"
  using assms
proof (induction k xs arbitrary: i rule: index_entries.induct)
  case (1 k a b c r)
  then show ?case by (cases i) (auto simp: Let_def)
qed auto

lemma get_le24_entry:
  assumes "i < length t div 3"
  obtains v where "get_le24 t (i * 3) = Some v"
    "index_entries 0 (map unat t) ! i = (unat (v AND 0x1fffff), (i + 1) * 32 + unat (drop_bit 21 v))"
    "unat v = unat (v AND 0x1fffff) + unat (drop_bit 21 v) * 2097152"
proof -
  have l: "i * 3 < length t" "i * 3 + 1 < length t" "i * 3 + 2 < length t" using assms by linarith+
  let ?a = "t ! (i * 3)" and ?b = "t ! (i * 3 + 1)" and ?c = "t ! (i * 3 + 2)"
  let ?v = "(ucast ?a OR push_bit 8 (ucast ?b)) OR push_bit 16 (ucast ?c) :: u32"
  have b: "unat ?a < 256" "unat ?b < 256" "unat ?c < 256"
    using unsigned_less [of ?a, where 'a = nat] unsigned_less [of ?b, where 'a = nat]
      unsigned_less [of ?c, where 'a = nat] by simp_all
  have "unat (push_bit 8 (ucast ?b) OR ucast ?a :: u32) = unat ?b * 256 + unat ?a"
    using b by (subst unat_push_or) (simp_all add: unat_ucast_u8)
  then have "unat (push_bit 16 (ucast ?c) OR (push_bit 8 (ucast ?b) OR ucast ?a) :: u32) =
    unat ?c * 65536 + (unat ?b * 256 + unat ?a)"
    using b by (subst unat_push_or) (simp_all add: unat_ucast_u8)
  then have v: "unat ?v = unat ?a + unat ?b * 256 + unat ?c * 65536"
    by (simp add: or.commute or.left_commute)
  have m: "unat (?v AND 0x1fffff) = unat ?v mod 2097152"
    using unat_and_mask [of ?v 21] by (simp add: mask_eq_exp_minus_1)
  have d: "unat (drop_bit 21 ?v) = unat ?v div 2097152"
    using unat_drop [of 21 ?v] by simp
  show thesis
  proof (rule that)
    show "get_le24 t (i * 3) = Some ?v" using l by (simp add: get_le24_def)
    show "index_entries 0 (map unat t) ! i = (unat (?v AND 0x1fffff), (i + 1) * 32 + unat (drop_bit 21 ?v))"
      using assms l unfolding m d v by (simp add: nth_index_entries Let_def)
    show "unat ?v = unat (?v AND 0x1fffff) + unat (drop_bit 21 ?v) * 2097152"
      unfolding m d by simp
  qed
qed

lemma index_search_spec:
  assumes "lo < hi" "hi \<le> length t div 3" "fst (index_entries 0 (map unat t) ! lo) \<le> unat c"
  shows "\<exists>r. index_search c t lo hi = Some r \<and> lo \<le> r \<and> r < hi \<and> fst (index_entries 0 (map unat t) ! r) \<le> unat c"
  using assms
proof (induction c t lo hi rule: index_search.induct)
  case (1 c t lo hi)
  show ?case
  proof (cases "hi - lo > 1")
    case True
    let ?m = "(hi + lo) div 2"
    have m: "lo < ?m" "?m < hi" using True by simp_all
    with "1.prems" have "?m < length t div 3" by simp
    then obtain v where v: "get_le24 t (?m * 3) = Some v"
      "index_entries 0 (map unat t) ! ?m = (unat (v AND 0x1fffff), (?m + 1) * 32 + unat (drop_bit 21 v))"
      by (rule get_le24_entry)
    show ?thesis
    proof (cases "c < v AND 0x1fffff")
      case less: True
      from "1.IH"(1) [OF True refl v(1) less m(1)] "1.prems" m obtain r where
        "index_search c t lo ?m = Some r" "lo \<le> r" "r < ?m" "fst (index_entries 0 (map unat t) ! r) \<le> unat c" by auto
      with less True v m show ?thesis by (auto simp: index_search.simps [of c t lo hi] Let_def)
    next
      case False
      then have "fst (index_entries 0 (map unat t) ! ?m) \<le> unat c"
        unfolding v(2) by (simp add: not_less word_le_nat_alt)
      from "1.IH"(2) [OF True refl v(1) False m(2) "1.prems"(2) this] obtain r where
        "index_search c t ?m hi = Some r" "?m \<le> r" "r < hi" "fst (index_entries 0 (map unat t) ! r) \<le> unat c" by blast
      with False True v m show ?thesis by (auto simp: index_search.simps [of c t lo hi] Let_def)
    qed
  next
    case False
    with "1.prems" show ?thesis by (simp add: index_search.simps)
  qed
qed

text \<open>The check of a table and its index, and what it guarantees.\<close>

definition table_ok :: "u8 list \<Rightarrow> u8 list \<Rightarrow> bool" where
  "table_ok t idx \<longleftrightarrow>
     (let es = index_entries 0 (map unat idx) in
      (case runs_total (map unat t) 0 of None \<Rightarrow> False | Some n \<Rightarrow> n < 2 ^ 32) \<and>
      index_check es 0 0 False (map unat t) \<and> snd (last es) = length es * 32)"

lemma is_in_table_ok:
  assumes "table_ok t idx"
  shows "lre_is_in_table c t idx (length idx div 3) = Some (c \<in> table_set t)"
proof -
  let ?es = "index_entries 0 (map unat idx)" and ?n = "length idx div 3"
  from assms obtain N where N: "runs_total (map unat t) 0 = Some N" "N < 2 ^ 32"
    by (auto simp: table_ok_def Let_def split: option.splits)
  from runs_total_runs [OF N(1)] obtain rs where rs: "table_runs t = Some rs" "sum_list (map unat rs) = N" by auto
  have chk: "index_check ?es 0 0 False (map unat t)" "snd (last ?es) = length ?es * 32"
    using assms by (simp_all add: table_ok_def Let_def)
  have b: "unat (0 :: u32) + sum_list (map unat rs) < 2 ^ 32" using rs N by simp
  from index_check_sound [OF chk(1) rs(1)] b
  have es: "?es \<noteq> []" "fst (last ?es) = N"
    "\<And>e. e \<in> set (butlast ?es) \<Longrightarrow> fst e \<le> N \<and> snd e \<le> length t \<and>
       (\<forall>c. fst e \<le> unat c \<longrightarrow> in_table_loop c t 0 False = in_table_loop c (drop (snd e) t) (of_nat (fst e)) False)"
    using rs(2) by auto
  have n: "0 < ?n" "length ?es = ?n" using es(1) length_index_entries [of 0 "map unat idx"] by (auto simp flip: length_greater_0_conv)
  have mem: "c \<in> table_set t \<longleftrightarrow> find_run c 0 False rs = Some True"
    using run_ivs_cnt [OF b] rs(1) by (simp add: table_set_def)
  have loop: "in_table_loop c t 0 False = find_run c 0 False rs" using rs(1) by (rule in_table_loop_runs)
  have lastn: "last ?es = ?es ! (?n - 1)" using es(1) n(2) by (simp add: last_conv_nth)
  obtain v0 where v0: "get_le24 idx (0 * 3) = Some v0" "?es ! 0 = (unat (v0 AND 0x1fffff), (0 + 1) * 32 + unat (drop_bit 21 v0))"
    using get_le24_entry [OF n(1)] by metis
  obtain vl where vl: "get_le24 idx ((?n - 1) * 3) = Some vl"
    "?es ! (?n - 1) = (unat (vl AND 0x1fffff), (?n - 1 + 1) * 32 + unat (drop_bit 21 vl))"
    "unat vl = unat (vl AND 0x1fffff) + unat (drop_bit 21 vl) * 2097152"
    using get_le24_entry [of "?n - 1" idx] n(1) by (metis diff_less zero_less_one)
  have "unat (drop_bit 21 vl) = 0" using chk(2) n vl(2) unfolding lastn by simp
  then have vN: "unat vl = N" using vl es(2) unfolding lastn by simp
  consider "c < v0 AND 0x1fffff" | "\<not> c < v0 AND 0x1fffff" "c \<ge> vl" | "\<not> c < v0 AND 0x1fffff" "\<not> c \<ge> vl" by blast
  then show ?thesis
  proof cases
    case 1
    have "fst (?es ! 0) \<le> N"
    proof (cases "?n = 1")
      case True
      then show ?thesis using es(2) lastn by simp
    next
      case False
      then have "?es ! 0 \<in> set (butlast ?es)" using n by (auto simp: nth_butlast [symmetric])
      with es(3) show ?thesis by blast
    qed
    with 1 v0 have "unat c < N" by (simp add: word_less_nat_alt)
    with find_run_None [OF b, of c False] rs(2) obtain x where "find_run c 0 False rs = Some x" by fastforce
    with 1 v0 mem loop show ?thesis by (simp add: lre_is_in_table_def get_index_pos_def)
  next
    case 2
    then have "find_run c 0 False rs = None" using find_run_None [OF b, of c] rs(2) vN by (simp add: word_le_nat_alt)
    with 2 v0 vl mem show ?thesis by (simp add: lre_is_in_table_def get_index_pos_def)
  next
    case 3
    then have "?n \<noteq> 1" using v0 vl vN es(2) lastn by (auto simp: word_le_nat_alt word_less_nat_alt)
    with n have "0 < ?n - 1" by simp
    from index_search_spec [OF this _ , of idx c] 3 v0 obtain r where
      r: "index_search c idx 0 (?n - 1) = Some r" "r < ?n - 1" "fst (?es ! r) \<le> unat c"
      by (auto simp: word_less_nat_alt)
    then have "r < ?n" by simp
    then obtain v where v: "get_le24 idx (r * 3) = Some v" "?es ! r = (unat (v AND 0x1fffff), (r + 1) * 32 + unat (drop_bit 21 v))"
      by (rule get_le24_entry)
    have "?es ! r \<in> set (butlast ?es)" using r(2) n(2) by (auto simp: nth_butlast [symmetric])
    from es(3) [OF this] r(3) v(2) have
      "(r + 1) * 32 + unat (drop_bit 21 v) \<le> length t"
      "in_table_loop c (drop ((r + 1) * 32 + unat (drop_bit 21 v)) t) (v AND 0x1fffff) False = find_run c 0 False rs"
      using loop by auto
    moreover obtain x where "find_run c 0 False rs = Some x"
      using find_run_None [OF b, of c False] rs(2) vN 3 by (fastforce simp: word_le_nat_alt)
    ultimately show ?thesis using 3 v0 vl r(1) v(1) mem by (simp add: lre_is_in_table_def get_index_pos_def)
  qed
qed

text \<open>Rules that evaluate the checks on a concrete table.\<close>

lemma runs_total_eval:
  "runs_total [] n = Some n"
  "b < 64 \<Longrightarrow> runs_total (b # p) n = runs_total p (n + (b div 8 + b mod 8 + 2))"
  "128 \<le> b \<Longrightarrow> runs_total (b # p) n = runs_total p (n + (b - 127))"
  "64 \<le> b \<Longrightarrow> b < 96 \<Longrightarrow> runs_total (b # p0 # p) n = runs_total p (n + ((b - 64) * 256 + p0 + 1))"
  "96 \<le> b \<Longrightarrow> b < 128 \<Longrightarrow>
     runs_total (b # p0 # p1 # p) n = runs_total p (n + ((b - 96) * 65536 + p0 * 256 + p1 + 1))"
  by (simp_all add: run_step_def)

definition index_go ::
  "(nat \<times> nat) list option \<Rightarrow> nat \<Rightarrow> nat \<Rightarrow> bool \<Rightarrow> nat list \<Rightarrow> bool" where
  "index_go es pos code on p =
     (case p of
        [] \<Rightarrow> False
      | b # p \<Rightarrow>
          (case es of
             None \<Rightarrow> False
           | Some es \<Rightarrow>
               (case run_step b p of
                  None \<Rightarrow> False
                | Some (d, t, k, q) \<Rightarrow> index_check es (pos + 1 + k) (code + d) (on \<noteq> t) q)))"

lemma index_check_eval:
  "index_check [e] pos code on [] = (fst e = code)"
  "index_check es pos code on (b # p) = index_go (pop_entry es pos code on) pos code on (b # p)"
  "b < 64 \<Longrightarrow> index_go (Some es) pos code on (b # p) =
     index_check es (pos + 1) (code + (b div 8 + b mod 8 + 2)) on p"
  "128 \<le> b \<Longrightarrow> index_go (Some es) pos code on (b # p) = index_check es (pos + 1) (code + (b - 127)) (\<not> on) p"
  "64 \<le> b \<Longrightarrow> b < 96 \<Longrightarrow> index_go (Some es) pos code on (b # p0 # p) =
     index_check es (pos + 2) (code + ((b - 64) * 256 + p0 + 1)) (\<not> on) p"
  "96 \<le> b \<Longrightarrow> b < 128 \<Longrightarrow> index_go (Some es) pos code on (b # p0 # p1 # p) =
     index_check es (pos + 3) (code + ((b - 96) * 65536 + p0 * 256 + p1 + 1)) (\<not> on) p"
  by (simp_all add: index_go_def run_step_def numeral_3_eq_3)

lemmas table_eval = runs_total_eval index_check_eval

declare runs_total.simps(2) [simp del] index_check.simps [simp del]

lemma table_okI:
  assumes "map unat t = bs" "map unat idx = is" "index_entries 0 is = es" "runs_total bs 0 = Some n" "n < 2 ^ 32"
    "index_check es 0 0 False bs" "snd (last es) = length es * 32"
  shows "table_ok t idx"
  using assms by (simp add: table_ok_def Let_def)

lemma Cased1_ok: "table_ok unicode_prop_Cased1_table unicode_prop_Cased1_index"
  by (rule table_okI, (simp add: unicode_prop_Cased1_table_def unicode_prop_Cased1_index_def table_eval)+)

lemma Case_Ignorable_ok: "table_ok unicode_prop_Case_Ignorable_table unicode_prop_Case_Ignorable_index"
  by (rule table_okI, (simp add: unicode_prop_Case_Ignorable_table_def unicode_prop_Case_Ignorable_index_def table_eval)+)

lemma ID_Start_ok: "table_ok unicode_prop_ID_Start_table unicode_prop_ID_Start_index"
  by (rule table_okI, (simp add: unicode_prop_ID_Start_table_def unicode_prop_ID_Start_index_def table_eval)+)

lemma ID_Continue1_ok: "table_ok unicode_prop_ID_Continue1_table unicode_prop_ID_Continue1_index"
  by (rule table_okI, (simp add: unicode_prop_ID_Continue1_table_def unicode_prop_ID_Continue1_index_def table_eval)+)

lemmas class_lookup_ok = Cased1_ok [THEN is_in_table_ok] Case_Ignorable_ok [THEN is_in_table_ok]
  ID_Start_ok [THEN is_in_table_ok] ID_Continue1_ok [THEN is_in_table_ok]

lemma is_cased_ok: "lre_is_cased c = Some (cc_find c \<noteq> None \<or> c \<in> table_set unicode_prop_Cased1_table)"
  by (simp add: lre_is_cased_def class_lookup_ok)

lemma is_case_ignorable_ok: "lre_is_case_ignorable c = Some (c \<in> table_set unicode_prop_Case_Ignorable_table)"
  by (simp add: lre_is_case_ignorable_def class_lookup_ok)

lemma is_id_start_ok: "lre_is_id_start c = Some (c \<in> table_set unicode_prop_ID_Start_table)"
  by (simp add: lre_is_id_start_def class_lookup_ok)

lemma is_id_continue_ok: "lre_is_id_continue c =
    Some (c \<in> table_set unicode_prop_ID_Start_table \<or> c \<in> table_set unicode_prop_ID_Continue1_table)"
  by (simp add: lre_is_id_continue_def is_id_start_ok class_lookup_ok)

end
