(* ===== verification/UnicodeProps.thy ===== *)
theory UnicodeProps
  imports UniTable UnicodePropTables
begin

text \<open>
  libunicode.c: the character ranges of the Unicode properties (\<open>unicode_general_category\<close>,
  \<open>unicode_script\<close>, \<open>unicode_prop\<close>), found by name, read from the compressed tables and combined
  by the stack machine \<open>unicode_prop_ops\<close>.  Each is shown to return exactly the set of the code
  points the tables give the property, to keep within the tables and the machine's stack, and
  to report an allocation failure.
\<close>

unbundle bit_operations_syntax

subsection \<open>Looking up a name\<close>

text \<open>\<open>strlen\<close> and \<open>strchr\<close> of the C library, at a pointer seen as the rest of the table.\<close>

fun str_len :: "u8 list \<Rightarrow> nat option" where
  "str_len [] = None"
| "str_len (b # p) = (if b = 0 then Some 0 else map_option Suc (str_len p))"

fun str_chr :: "u8 list \<Rightarrow> u8 \<Rightarrow> nat option option" where
  "str_chr [] c = None"
| "str_chr (b # p) c =
     (if b = c then Some (Some 0) else if b = 0 then Some None
      else map_option (map_option Suc) (str_chr p c))"

text \<open>The inner loop: whether one of the aliases of an entry is the name, and the next entry.\<close>

function find_alias :: "u8 list \<Rightarrow> u8 list \<Rightarrow> (bool \<times> u8 list) option" where
  "find_alias name p =
     (case str_chr p 0x2c of
        None \<Rightarrow> None
      | Some r \<Rightarrow>
          (case (case r of None \<Rightarrow> str_len p | Some k \<Rightarrow> Some k) of
             None \<Rightarrow> None
           | Some len \<Rightarrow>
               if len = length name \<and> take len p = name then Some (True, p)
               else if r = None then Some (False, drop (len + 1) p)
               else find_alias name (drop (len + 1) p)))"
  by pat_completeness auto
termination
proof (relation "measure (\<lambda>(name, p). length p)", goal_cases)
  case (2 name p r len)
  then show ?case by (cases p) auto
qed simp

declare find_alias.simps [simp del]

lemma find_alias_length: "find_alias name p = Some (False, q) \<Longrightarrow> length q < length p"
proof (induction name p rule: find_alias.induct)
  case (1 name p)
  have "p \<noteq> []" using "1.prems" by (auto simp: find_alias.simps)
  then have l: "length (drop (Suc len) p) < length p" for len by (cases p) auto
  from "1.prems" obtain r len where r: "str_chr p 0x2c = Some r"
    "(case r of None \<Rightarrow> str_len p | Some k \<Rightarrow> Some k) = Some len" "\<not> (len = length name \<and> take len p = name)"
    by (subst (asm) find_alias.simps) (auto split: option.splits if_splits)
  show ?case
  proof (cases "r = None")
    case True
    with r "1.prems" l [of len] show ?thesis by (subst (asm) find_alias.simps) (auto split: if_splits)
  next
    case False
    with r "1.prems" have "find_alias name (drop (len + 1) p) = Some (False, q)"
      by (subst (asm) find_alias.simps) (auto split: if_splits)
    from "1.IH" [OF r False this] l [of len] show ?thesis by simp
  qed
qed

function find_name_loop :: "u8 list \<Rightarrow> u8 list \<Rightarrow> nat \<Rightarrow> int option" where
  "find_name_loop name p pos =
     (case p of
        [] \<Rightarrow> None
      | b # _ \<Rightarrow>
          if b = 0 then Some (-1)
          else
            (case find_alias name p of
               None \<Rightarrow> None
             | Some (found, q) \<Rightarrow> if found then Some (int pos) else find_name_loop name q (pos + 1)))"
  by pat_completeness auto
termination
  by (relation "measure (\<lambda>(name, p, pos). length p)") (auto dest: find_alias_length)

declare find_name_loop.simps [simp del]

definition unicode_find_name :: "u8 list \<Rightarrow> u8 list \<Rightarrow> int option" where
  "unicode_find_name name_table name = find_name_loop name name_table 0"

subsection \<open>Reading the tables of runs with a payload\<close>

text \<open>
  The loops over the tables of the general categories, the scripts and the script extensions
  have one shape: a group of bytes gives a number \<open>n\<close> of code points less one and a payload, and
  the intervals that the payload selects between \<open>c\<close> and \<open>c + n + 1\<close> are added to the range.
\<close>

type_synonym 'a group_reader = "u8 \<Rightarrow> u8 list \<Rightarrow> (u32 \<times> 'a \<times> u8 list) option"

function group_loop ::
  "'a group_reader \<Rightarrow> ('a \<Rightarrow> u32 \<Rightarrow> u32 \<Rightarrow> (u32 \<times> u32) list) \<Rightarrow> char_range \<Rightarrow> u8 list \<Rightarrow> u32 \<Rightarrow>
   (int \<times> char_range) option" where
  "group_loop reader ivs cr [] c = Some (0, cr)"
| "group_loop reader ivs cr (b # p) c =
     (case reader b p of
        None \<Rightarrow> None
      | Some (n, v, q) \<Rightarrow>
          if length p < length q then None
          else
            let c1 = c + n + 1 in
            case add_intervals cr (ivs v c c1) of (r, cr) \<Rightarrow>
              if r \<noteq> 0 then Some (-1, cr) else group_loop reader ivs cr q c1)"
  by pat_completeness auto
termination by (relation "measure (\<lambda>(rd, f, cr, p, c). length p)") auto

declare group_loop.simps [simp del]

definition gc_read :: "u32 group_reader" where
  "gc_read b p =
     (let n = ucast (drop_bit 5 b) :: u32; v = ucast (b AND 0x1f) :: u32 in
      if n = 7 then
        (case p of
           [] \<Rightarrow> None
         | b1 # p \<Rightarrow>
             let n = ucast b1 :: u32 in
             if b1 < 128 then Some (n + 7, v, p)
             else if b1 < 128 + 64 then
               (case p of
                  p0 # p \<Rightarrow> Some ((push_bit 8 (n - 128) OR ucast p0) + (7 + 128), v, p)
                | _ \<Rightarrow> None)
             else
               (case p of
                  p0 # p1 # p \<Rightarrow>
                    Some ((push_bit 16 (n - 128 - 64) OR push_bit 8 (ucast p0) OR ucast p1) +
                          (7 + 128 + push_bit 14 1), v, p)
                | _ \<Rightarrow> None))
      else Some (n, v, p))"

definition M :: "string \<Rightarrow> u32" where
  "M nm = push_bit (UNICODE_GC nm) 1"

text \<open>The intervals of a run with category value \<open>v\<close>; 31 is an alternation of Lu and Ll.\<close>

definition gc_intervals :: "u32 \<Rightarrow> u32 \<Rightarrow> u32 \<Rightarrow> u32 \<Rightarrow> (u32 \<times> u32) list" where
  "gc_intervals gc_mask v c0 c =
     (if v = 31 then
        let b = gc_mask AND (M ''Lu'' OR M ''Ll'') in
        if b \<noteq> 0 then
          if b = M ''Lu'' OR M ''Ll'' then [(c0, c)]
          else
            let c0 = c0 + of_bool (gc_mask AND M ''Ll'' \<noteq> 0) in
            map (\<lambda>i. (c0 + of_nat i, c0 + of_nat i + 1)) (filter even [0..<unat (c - c0)])
        else []
      else if drop_bit (unat v) gc_mask AND 1 \<noteq> 0 then [(c0, c)]
      else [])"

definition unicode_general_category1 :: "char_range \<Rightarrow> u32 \<Rightarrow> (int \<times> char_range) option" where
  "unicode_general_category1 cr gc_mask = group_loop gc_read (gc_intervals gc_mask) cr unicode_gc_table 0"

definition unicode_prop1 :: "char_range \<Rightarrow> nat \<Rightarrow> (int \<times> char_range) option" where
  "unicode_prop1 cr prop_idx =
     do {
       p \<leftarrow> rd unicode_prop_table prop_idx;
       len \<leftarrow> rd unicode_prop_len_table prop_idx;
       if len \<le> length p then prop1_loop cr (take len p) 0 False else None
     }"

definition script_read :: "u32 group_reader" where
  "script_read b p =
     (let type = drop_bit 7 b; n = ucast (b AND 0x7f) :: u32;
          run = (if n < 96 then Some (n, p)
                 else if n < 112 then
                   (case p of p0 # p \<Rightarrow> Some ((push_bit 8 (n - 96) OR ucast p0) + 96, p) | _ \<Rightarrow> None)
                 else
                   (case p of
                      p0 # p1 # p \<Rightarrow>
                        Some ((push_bit 16 (n - 112) OR push_bit 8 (ucast p0) OR ucast p1) + (96 + push_bit 12 1), p)
                    | _ \<Rightarrow> None))
      in case run of
           None \<Rightarrow> None
         | Some (n, p) \<Rightarrow>
             if type = 0 then Some (n, 0, p)
             else (case p of v # p \<Rightarrow> Some (n, ucast v, p) | _ \<Rightarrow> None))"

definition script_intervals :: "u32 \<Rightarrow> u32 \<Rightarrow> u32 \<Rightarrow> u32 \<Rightarrow> (u32 \<times> u32) list" where
  "script_intervals script_idx v c c1 = (if v = script_idx then [(c, c1)] else [])"

definition script_ext_read :: "u8 list group_reader" where
  "script_ext_read b p =
     (let run = (if b < 128 then Some (ucast b :: u32, p)
                 else if b < 128 + 64 then
                   (case p of p0 # p \<Rightarrow> Some ((push_bit 8 (ucast b - 128) OR ucast p0) + 128, p) | _ \<Rightarrow> None)
                 else
                   (case p of
                      p0 # p1 # p \<Rightarrow>
                        Some ((push_bit 16 (ucast b - 128 - 64) OR push_bit 8 (ucast p0) OR ucast p1) +
                              (128 + push_bit 14 1), p)
                    | _ \<Rightarrow> None))
      in case run of
           None \<Rightarrow> None
         | Some (n, p) \<Rightarrow>
             (case p of
                v_len # p \<Rightarrow>
                  if unat v_len \<le> length p then Some (n, take (unat v_len) p, drop (unat v_len) p) else None
              | _ \<Rightarrow> None))"

definition script_ext_intervals :: "bool \<Rightarrow> u32 \<Rightarrow> u8 list \<Rightarrow> u32 \<Rightarrow> u32 \<Rightarrow> (u32 \<times> u32) list" where
  "script_ext_intervals is_common script_idx vs c c1 =
     (if is_common then if vs \<noteq> [] then [(c, c1)] else []
      else if \<exists>v\<in>set vs. ucast v = script_idx then [(c, c1)] else [])"

text \<open>
  \<open>unicode_script\<close>.  The statements after the label \<open>fail\<close> free the two ranges of its own, with
  \<open>is_ext\<close>, and jump to the label: \<open>fail_loop\<close> is that loop, on what the fields \<open>points\<close> of the two ranges
  point to.  \<open>cr_free\<close> does not change the field, so the second turn frees a freed block.  The result
  \<open>None\<close> is that of a run that does not end.
\<close>

datatype 'a outcome = Returns 'a | Invalid | DoubleFree

datatype block = Null | Live | Freed

definition points_block :: "char_range \<Rightarrow> block" where
  "points_block cr = (if cr_size cr = 0 then Null else Live)"

fun cr_free_block :: "block \<Rightarrow> block option" where
  "cr_free_block Null = Some Null"
| "cr_free_block Live = Some Freed"
| "cr_free_block Freed = None"

partial_function (option) fail_loop :: "bool \<Rightarrow> block \<Rightarrow> block \<Rightarrow> 'a outcome option" where
  "fail_loop is_ext b1 b2 =
     (if is_ext then
        (case cr_free_block b1 of
           None \<Rightarrow> Some DoubleFree
         | Some b1 \<Rightarrow>
             (case cr_free_block b2 of None \<Rightarrow> Some DoubleFree | Some b2 \<Rightarrow> fail_loop is_ext b1 b2))
      else fail_loop is_ext b1 b2)"

definition or_fail ::
  "(int \<times> char_range) option \<Rightarrow> (char_range \<Rightarrow> 'a outcome option) \<Rightarrow> (char_range \<Rightarrow> 'a outcome option) \<Rightarrow>
   'a outcome option" where
  "or_fail x fail k = (case x of None \<Rightarrow> Some Invalid | Some (r, cr) \<Rightarrow> if r \<noteq> 0 then fail cr else k cr)"

definition unicode_script :: "char_range \<Rightarrow> u8 list \<Rightarrow> bool \<Rightarrow> (int \<times> char_range) outcome option" where
  "unicode_script cr script_name is_ext =
     (case unicode_find_name unicode_script_name_table script_name of
        None \<Rightarrow> Some Invalid
      | Some idx \<Rightarrow>
          if idx < 0 then Some (Returns (-2, cr))
          else
            let script_idx = nat idx + (UNICODE_SCRIPT ''Unknown'' + 1);
                is_common = (script_idx = UNICODE_SCRIPT ''Common'' \<or> script_idx = UNICODE_SCRIPT ''Inherited'');
                cr1 = (if is_ext then cr_init (cr_realloc_func cr) else cr);
                cr2 = cr_init (cr_realloc_func cr);
                fail = (\<lambda>cr1 cr2. fail_loop is_ext (points_block cr1) (points_block cr2))
            in
            or_fail (group_loop script_read (script_intervals (of_nat script_idx)) cr1 unicode_script_table 0)
              (\<lambda>cr1. fail cr1 cr2) (\<lambda>cr1.
              if is_ext then
                or_fail (group_loop script_ext_read (script_ext_intervals is_common (of_nat script_idx)) cr2
                           unicode_script_ext_table 0) (fail cr1) (\<lambda>cr2.
                  if is_common then
                    or_fail (Some (cr_invert cr2)) (fail cr1) (\<lambda>cr2.
                      or_fail (Some (cr_op cr (cr_pts cr1) (cr_pts cr2) CR_OP_INTER)) (\<lambda>cr. fail cr1 cr2)
                        (\<lambda>cr. Some (Returns (0, cr))))
                  else
                    or_fail (Some (cr_op cr (cr_pts cr1) (cr_pts cr2) CR_OP_UNION)) (\<lambda>cr. fail cr1 cr2)
                      (\<lambda>cr. Some (Returns (0, cr))))
              else Some (Returns (0, cr1))))"

subsection \<open>The stack machine of \<open>unicode_prop_ops\<close>\<close>

datatype pop_op =
  POP_GC u32 | POP_PROP nat | POP_CASE u32 | POP_UNION | POP_INTER | POP_XOR | POP_INVERT

abbreviation (input) POP_STACK_LEN_MAX :: nat where "POP_STACK_LEN_MAX \<equiv> 4"

fun cr_op_of :: "pop_op \<Rightarrow> cr_op_enum option" where
  "cr_op_of POP_UNION = Some CR_OP_UNION"
| "cr_op_of POP_INTER = Some CR_OP_INTER"
| "cr_op_of POP_XOR = Some CR_OP_XOR"
| "cr_op_of _ = None"

text \<open>
  One instruction, on the stack with its top first: \<open>None\<close> is a failed assertion, \<open>Inl\<close> the
  jump to \<open>fail\<close>.
\<close>

definition push_range ::
  "char_range list \<Rightarrow> (int \<times> char_range) option \<Rightarrow> (unit + char_range list) option" where
  "push_range stack x =
     (if length stack < POP_STACK_LEN_MAX then
        (case x of None \<Rightarrow> None | Some (r, cr1) \<Rightarrow> if r \<noteq> 0 then Some (Inl ()) else Some (Inr (cr1 # stack)))
      else None)"

definition pop_step :: "cr_realloc_fun \<Rightarrow> pop_op \<Rightarrow> char_range list \<Rightarrow> (unit + char_range list) option" where
  "pop_step f op stack =
     (case op of
        POP_GC a \<Rightarrow> push_range stack (unicode_general_category1 (cr_init f) a)
      | POP_PROP a \<Rightarrow> push_range stack (unicode_prop1 (cr_init f) a)
      | POP_CASE a \<Rightarrow> push_range stack (Some (unicode_case1 (cr_init f) a))
      | POP_INVERT \<Rightarrow>
          (case stack of
             cr1 # stack \<Rightarrow>
               (case cr_invert cr1 of (r, cr1) \<Rightarrow> if r \<noteq> 0 then Some (Inl ()) else Some (Inr (cr1 # stack)))
           | _ \<Rightarrow> None)
      | _ \<Rightarrow>
          (case stack of
             cr2 # cr1 # rest \<Rightarrow>
               if length stack < POP_STACK_LEN_MAX then
                 (case cr_op (cr_init f) (cr_pts cr1) (cr_pts cr2) (the (cr_op_of op)) of
                    (r, cr3) \<Rightarrow> if r \<noteq> 0 then Some (Inl ()) else Some (Inr (cr3 # rest)))
               else None
           | _ \<Rightarrow> None))"

fun pop_run :: "cr_realloc_fun \<Rightarrow> pop_op list \<Rightarrow> char_range list \<Rightarrow> (unit + char_range list) option" where
  "pop_run f [] stack = Some (Inr stack)"
| "pop_run f (op # ops) stack =
     (case pop_step f op stack of
        None \<Rightarrow> None
      | Some (Inl u) \<Rightarrow> Some (Inl u)
      | Some (Inr stack) \<Rightarrow> pop_run f ops stack)"

definition unicode_prop_ops :: "char_range \<Rightarrow> pop_op list \<Rightarrow> (int \<times> char_range) option" where
  "unicode_prop_ops cr ops =
     (case pop_run (cr_realloc_func cr) ops [] of
        None \<Rightarrow> None
      | Some (Inl _) \<Rightarrow> Some (-1, cr)
      | Some (Inr stack) \<Rightarrow> (case stack of [cr1] \<Rightarrow> Some (cr_copy cr cr1) | _ \<Rightarrow> None))"

text \<open>The masks after the categories, and \<open>unicode_general_category\<close>.\<close>

definition Ms :: "string list \<Rightarrow> u32" where
  "Ms nms = foldr (\<lambda>nm m. M nm OR m) nms 0"

definition unicode_gc_mask_table :: "u32 list" where
  "unicode_gc_mask_table =
     [Ms [''Lu'', ''Ll'', ''Lt''],
      Ms [''Lu'', ''Ll'', ''Lt'', ''Lm'', ''Lo''],
      Ms [''Mn'', ''Mc'', ''Me''],
      Ms [''Nd'', ''Nl'', ''No''],
      Ms [''Sm'', ''Sc'', ''Sk'', ''So''],
      Ms [''Pc'', ''Pd'', ''Ps'', ''Pe'', ''Pi'', ''Pf'', ''Po''],
      Ms [''Zs'', ''Zl'', ''Zp''],
      Ms [''Cc'', ''Cf'', ''Cs'', ''Co'', ''Cn'']]"

definition unicode_general_category :: "char_range \<Rightarrow> u8 list \<Rightarrow> (int \<times> char_range) option" where
  "unicode_general_category cr gc_name =
     do {
       gc_idx \<leftarrow> unicode_find_name unicode_gc_name_table gc_name;
       if gc_idx < 0 then Some (-2, cr)
       else do {
         gc_mask \<leftarrow>
           (if nat gc_idx \<le> UNICODE_GC ''Co'' then Some (ucast (push_bit (nat gc_idx) (1 :: u64)))
            else rd unicode_gc_mask_table (nat gc_idx - UNICODE_GC ''LC''));
         unicode_general_category1 cr gc_mask
       }
     }"

text \<open>The programs that the \<open>switch\<close> of \<open>unicode_prop\<close> runs.\<close>

definition prop_programs :: "(string \<times> pop_op list) list" where
  "prop_programs =
     [(''Assigned'', [POP_GC (M ''Cn''), POP_INVERT]),
      (''Math'', [POP_GC (M ''Sm''), POP_PROP (UNICODE_PROP ''Other_Math''), POP_UNION]),
      (''Lowercase'', [POP_GC (M ''Ll''), POP_PROP (UNICODE_PROP ''Other_Lowercase''), POP_UNION]),
      (''Uppercase'', [POP_GC (M ''Lu''), POP_PROP (UNICODE_PROP ''Other_Uppercase''), POP_UNION]),
      (''Cased'',
        [POP_GC (Ms [''Lu'', ''Ll'', ''Lt'']),
         POP_PROP (UNICODE_PROP ''Other_Uppercase''), POP_UNION,
         POP_PROP (UNICODE_PROP ''Other_Lowercase''), POP_UNION]),
      (''Alphabetic'',
        [POP_GC (Ms [''Lu'', ''Ll'', ''Lt'', ''Lm'', ''Lo'', ''Nl'']),
         POP_PROP (UNICODE_PROP ''Other_Uppercase''), POP_UNION,
         POP_PROP (UNICODE_PROP ''Other_Lowercase''), POP_UNION,
         POP_PROP (UNICODE_PROP ''Other_Alphabetic''), POP_UNION]),
      (''Grapheme_Base'',
        [POP_GC (Ms [''Cc'', ''Cf'', ''Cs'', ''Co'', ''Cn'', ''Zl'', ''Zp'', ''Me'', ''Mn'']),
         POP_PROP (UNICODE_PROP ''Other_Grapheme_Extend''), POP_UNION, POP_INVERT]),
      (''Grapheme_Extend'',
        [POP_GC (Ms [''Me'', ''Mn'']), POP_PROP (UNICODE_PROP ''Other_Grapheme_Extend''), POP_UNION]),
      (''XID_Start'',
        [POP_GC (Ms [''Lu'', ''Ll'', ''Lt'', ''Lm'', ''Lo'', ''Nl'']),
         POP_PROP (UNICODE_PROP ''Other_ID_Start''), POP_UNION,
         POP_PROP (UNICODE_PROP ''Pattern_Syntax''), POP_PROP (UNICODE_PROP ''Pattern_White_Space''), POP_UNION,
         POP_PROP (UNICODE_PROP ''XID_Start1''), POP_UNION, POP_INVERT, POP_INTER]),
      (''XID_Continue'',
        [POP_GC (Ms [''Lu'', ''Ll'', ''Lt'', ''Lm'', ''Lo'', ''Nl'', ''Mn'', ''Mc'', ''Nd'', ''Pc'']),
         POP_PROP (UNICODE_PROP ''Other_ID_Start''), POP_UNION,
         POP_PROP (UNICODE_PROP ''Other_ID_Continue''), POP_UNION,
         POP_PROP (UNICODE_PROP ''Pattern_Syntax''), POP_PROP (UNICODE_PROP ''Pattern_White_Space''), POP_UNION,
         POP_PROP (UNICODE_PROP ''XID_Continue1''), POP_UNION, POP_INVERT, POP_INTER]),
      (''Changes_When_Titlecased'',
        [POP_CASE CASE_U, POP_PROP (UNICODE_PROP ''Changes_When_Titlecased1''), POP_XOR]),
      (''Changes_When_Casefolded'',
        [POP_CASE CASE_F, POP_PROP (UNICODE_PROP ''Changes_When_Casefolded1''), POP_XOR]),
      (''Changes_When_NFKC_Casefolded'',
        [POP_CASE CASE_F, POP_PROP (UNICODE_PROP ''Changes_When_NFKC_Casefolded1''), POP_XOR]),
      (''ID_Continue'',
        [POP_PROP (UNICODE_PROP ''ID_Start''), POP_PROP (UNICODE_PROP ''ID_Continue1''), POP_XOR])]"

definition unicode_prop :: "char_range \<Rightarrow> u8 list \<Rightarrow> (int \<times> char_range) option" where
  "unicode_prop cr prop_name =
     do {
       idx \<leftarrow> unicode_find_name unicode_prop_name_table prop_name;
       if idx < 0 then Some (-2, cr)
       else
         let prop_idx = nat idx + UNICODE_PROP ''ASCII_Hex_Digit'';
             nm = UnicodePropertyEnum ! prop_idx
         in
         if nm = ''ASCII'' then Some (cr_add_interval cr 0x00 (0x7f + 1))
         else if nm = ''Any'' then Some (cr_add_interval cr 0x00000 (0x10ffff + 1))
         else if nm = ''Changes_When_Uppercased'' then Some (unicode_case1 cr CASE_U)
         else if nm = ''Changes_When_Lowercased'' then Some (unicode_case1 cr CASE_L)
         else if nm = ''Changes_When_Casemapped'' then Some (unicode_case1 cr (CASE_U OR CASE_L OR CASE_F))
         else
           (case map_of prop_programs nm of
              Some ops \<Rightarrow> unicode_prop_ops cr ops
            | None \<Rightarrow>
                if prop_idx \<ge> length unicode_prop_table then Some (-2, cr) else unicode_prop1 cr prop_idx)
     }"

subsection \<open>The set that a table of runs gives\<close>

function groups :: "'a group_reader \<Rightarrow> u8 list \<Rightarrow> (u32 \<times> 'a) list option" where
  "groups reader [] = Some []"
| "groups reader (b # p) =
     (case reader b p of
        None \<Rightarrow> None
      | Some (n, v, q) \<Rightarrow>
          if length p < length q then None else map_option ((#) (n + 1, v)) (groups reader q))"
  by pat_completeness auto
termination by (relation "measure (\<lambda>(rd, p). length p)") auto

declare groups.simps(2) [simp del]

fun group_ivs :: "('a \<Rightarrow> u32 \<Rightarrow> u32 \<Rightarrow> (u32 \<times> u32) list) \<Rightarrow> u32 \<Rightarrow> (u32 \<times> 'a) list \<Rightarrow> (u32 \<times> u32) list" where
  "group_ivs ivs c [] = []"
| "group_ivs ivs c ((n, v) # gs) = ivs v c (c + n) @ group_ivs ivs (c + n) gs"

text \<open>The run a code point is in: its payload, first code point and end.\<close>

fun run_at :: "u32 \<Rightarrow> u32 \<Rightarrow> (u32 \<times> 'a) list \<Rightarrow> ('a \<times> u32 \<times> u32) option" where
  "run_at c code [] = None"
| "run_at c code ((n, v) # gs) = (if c < code + n then Some (v, code, code + n) else run_at c (code + n) gs)"

lemma add_intervals_append:
  "add_intervals cr (xs @ ys) =
     (case add_intervals cr xs of (r, cr) \<Rightarrow> if r \<noteq> 0 then (-1, cr) else add_intervals cr ys)"
  by (induction cr xs rule: add_intervals.induct) (auto split: prod.splits)

lemma group_loop_groups:
  "groups reader p = Some gs \<Longrightarrow> group_loop reader ivs cr p c = Some (add_intervals cr (group_ivs ivs c gs))"
proof (induction reader ivs cr p c arbitrary: gs rule: group_loop.induct)
  case (2 reader ivs cr b p c)
  then obtain n v q gs' where g: "reader b p = Some (n, v, q)" "\<not> length p < length q"
    "groups reader q = Some gs'" "gs = (n + 1, v) # gs'"
    by (auto simp: groups.simps(2) split: option.splits if_splits)
  obtain r t where a: "add_intervals cr (ivs v c (c + n + 1)) = (r, t)" by fastforce
  from "2.IH" [OF g(1) refl refl g(2) refl a [symmetric] _ g(3)] g a show ?case
    by (auto simp: group_loop.simps Let_def add_intervals_append add.assoc)
qed (simp add: group_loop.simps)

abbreviation run_lengths :: "(u32 \<times> 'a) list \<Rightarrow> nat" where
  "run_lengths gs \<equiv> sum_list (map (\<lambda>g. unat (fst g)) gs)"

text \<open>A payload selects sorted intervals inside of its run.\<close>

definition inside_runs :: "('a \<Rightarrow> u32 \<Rightarrow> u32 \<Rightarrow> (u32 \<times> u32) list) \<Rightarrow> bool" where
  "inside_runs ivs \<longleftrightarrow>
     (\<forall>v c0 c1. c0 < c1 \<longrightarrow> sorted (unpairs (ivs v c0 c1)) \<and> (\<forall>x\<in>set (unpairs (ivs v c0 c1)). c0 \<le> x \<and> x \<le> c1))"

lemma run_end_unat:
  "unat code + run_lengths ((n, v) # gs) < 2 ^ 32 \<Longrightarrow>
     unat (code + n) = unat code + unat n \<and> code \<le> code + n \<and> (n \<noteq> 0 \<longrightarrow> code < code + n)"
  by (subst unat_add_lem [THEN iffD1]) (auto simp: word_le_nat_alt word_less_nat_alt unat_add_lem [THEN iffD1] unat_gt_0)

lemma group_ivs_sorted:
  assumes "inside_runs ivs" "unat code + run_lengths gs < 2 ^ 32" "\<forall>g\<in>set gs. fst g \<noteq> 0"
  shows "(\<forall>x\<in>set (unpairs (group_ivs ivs code gs)). code \<le> x) \<and> sorted (unpairs (group_ivs ivs code gs))"
  using assms
proof (induction ivs code gs rule: group_ivs.induct)
  case (2 ivs c n v gs)
  note u = run_end_unat [OF "2.prems"(2)]
  then have "unat (c + n) + run_lengths gs < 2 ^ 32" using "2.prems" by simp
  with "2.IH" "2.prems"(1,3) have IH: "\<forall>x\<in>set (unpairs (group_ivs ivs (c + n) gs)). c + n \<le> x"
    "sorted (unpairs (group_ivs ivs (c + n) gs))" by auto
  have "sorted (unpairs (ivs v c (c + n)))" "\<forall>x\<in>set (unpairs (ivs v c (c + n))). c \<le> x \<and> x \<le> c + n"
    using "2.prems"(1,3) u unfolding inside_runs_def by auto
  with IH u show ?case by (auto simp: sorted_append intro: order_trans)
qed simp

lemma group_ivs_cnt:
  assumes "inside_runs ivs" "unat code + run_lengths gs < 2 ^ 32" "\<forall>g\<in>set gs. fst g \<noteq> 0" "code \<le> c"
  shows "odd (cnt c (unpairs (group_ivs ivs code gs))) \<longleftrightarrow>
    (case run_at c code gs of None \<Rightarrow> False | Some (v, c0, c1) \<Rightarrow> odd (cnt c (unpairs (ivs v c0 c1))))"
  using assms
proof (induction ivs code gs rule: group_ivs.induct)
  case (2 ivs code n v gs)
  note u = run_end_unat [OF "2.prems"(2)]
  then have b: "unat (code + n) + run_lengths gs < 2 ^ 32" using "2.prems" by simp
  show ?case
  proof (cases "c < code + n")
    case True
    have "\<forall>x\<in>set (unpairs (group_ivs ivs (code + n) gs)). c < x"
      using group_ivs_sorted [OF "2.prems"(1) b] "2.prems"(3) True by (auto intro: less_le_trans)
    then have "cnt c (unpairs (group_ivs ivs (code + n) gs)) = 0" by (intro cnt_above) blast
    with True show ?thesis by simp
  next
    case False
    then have le: "code + n \<le> c" by simp
    have "\<forall>x\<in>set (unpairs (ivs v code (code + n))). x \<le> code + n"
      using "2.prems"(1,3) u unfolding inside_runs_def by auto
    with le have "cnt c (unpairs (ivs v code (code + n))) = length (unpairs (ivs v code (code + n)))"
      by (intro cnt_below) (meson order_trans)
    with 2 b le False show ?thesis by simp
  qed
qed simp

lemma run_at_bounds:
  assumes "run_at c code gs = Some (v, c0, c1)" "unat code + run_lengths gs < 2 ^ 32" "code \<le> c"
  shows "c0 \<le> c \<and> c < c1"
  using assms
proof (induction c code gs rule: run_at.induct)
  case (2 c code n v gs)
  note u = run_end_unat [OF "2.prems"(2)]
  with 2 show ?case by (auto simp: not_less split: if_splits)
qed simp

lemma run_at_None:
  assumes "unat code + run_lengths gs < 2 ^ 32" "code \<le> c"
  shows "run_at c code gs = None \<longleftrightarrow> unat code + run_lengths gs \<le> unat c"
  using assms
proof (induction c code gs rule: run_at.induct)
  case (2 c code n v gs)
  note u = run_end_unat [OF "2.prems"(1)]
  with 2 show ?case by (auto simp: word_less_nat_alt word_le_nat_alt)
qed (simp add: word_le_nat_alt)

text \<open>The same reading on numbers, for the checks of the tables.\<close>

type_synonym step = "nat \<Rightarrow> nat list \<Rightarrow> (nat \<times> nat list) option"

definition steps_reader :: "step \<Rightarrow> 'a group_reader \<Rightarrow> bool" where
  "steps_reader step reader \<longleftrightarrow>
     (\<forall>b p d q. step (unat b) (map unat p) = Some (d, q) \<longrightarrow>
        (\<exists>n v p'. reader b p = Some (n, v, p') \<and> map unat p' = q \<and> length p' \<le> length p \<and> unat (n + 1) = d \<and> 0 < d))"

function steps_total :: "step \<Rightarrow> nat list \<Rightarrow> nat \<Rightarrow> nat option" where
  "steps_total step [] n = Some n"
| "steps_total step (b # p) n =
     (case step b p of
        None \<Rightarrow> None
      | Some (d, q) \<Rightarrow> if length p < length q then None else steps_total step q (n + d))"
  by pat_completeness auto
termination by (relation "measure (\<lambda>(step, p, n). length p)") auto

declare steps_total.simps(2) [simp del]

lemma steps_total_groups:
  assumes "steps_reader step reader"
  shows "steps_total step (map unat p) m = Some N \<Longrightarrow> 
    \<exists>gs. groups reader p = Some gs \<and> m + run_lengths gs = N \<and> (\<forall>g\<in>set gs. fst g \<noteq> 0)"
proof (induction p arbitrary: m rule: length_induct)
  case (1 p)
  show ?case
  proof (cases p)
    case (Cons b p')
    with "1.prems" obtain d q where st: "step (unat b) (map unat p') = Some (d, q)" "steps_total step q (m + d) = Some N"
      by (auto simp: steps_total.simps(2) split: option.splits if_splits)
    with assms obtain n v r where r: "reader b p' = Some (n, v, r)" "map unat r = q" "length r \<le> length p'" "unat (n + 1) = d" "0 < d"
      unfolding steps_reader_def by metis
    have "length r < length p" using r Cons by simp
    with 1(1) st(2) r(2) obtain gs where "groups reader r = Some gs" "m + d + run_lengths gs = N" "\<forall>g\<in>set gs. fst g \<noteq> 0" by blast
    moreover from r(4,5) have "n + 1 \<noteq> 0" by (metis less_irrefl unat_0)
    ultimately show ?thesis using r Cons by (auto simp: groups.simps(2))
  qed (use 1 in simp)
qed

definition step_local :: "step \<Rightarrow> bool" where
  "step_local step \<longleftrightarrow> (\<forall>b p d q r. step b p = Some (d, q) \<longrightarrow> step b (p @ r) = Some (d, q @ r))"

lemma steps_total_append:
  assumes "step_local step"
  shows "steps_total step xs n = Some m \<Longrightarrow> steps_total step (xs @ ys) n = steps_total step ys m"
proof (induction xs arbitrary: n rule: length_induct)
  case (1 xs)
  show ?case
  proof (cases xs)
    case (Cons b p)
    with "1.prems" obtain d q where st: "step b p = Some (d, q)" "length q \<le> length p" "steps_total step q (n + d) = Some m"
      by (auto simp: steps_total.simps(2) split: option.splits if_splits)
    have "step b (p @ ys) = Some (d, q @ ys)" using assms st(1) unfolding step_local_def by blast
    with 1(1) [rule_format, of q "n + d"] st Cons show ?thesis
      by (simp add: steps_total.simps(2))
  qed (use 1 in simp)
qed

subsection \<open>The three formats\<close>

definition gc_step :: step where
  "gc_step b p =
     (if b < 224 then Some (b div 32 + 1, p)
      else
        (case p of
           [] \<Rightarrow> None
         | b1 # p \<Rightarrow>
             if b1 < 128 then Some (b1 + 8, p)
             else if b1 < 192 then
               (case p of p0 # p \<Rightarrow> Some ((b1 - 128) * 256 + p0 + 136, p) | _ \<Rightarrow> None)
             else
               (case p of p0 # p1 # p \<Rightarrow> Some ((b1 - 192) * 65536 + p0 * 256 + p1 + 16520, p) | _ \<Rightarrow> None)))"

definition script_step :: step where
  "script_step b p =
     (let n = b mod 128;
          run = (if n < 96 then Some (n, p)
                 else if n < 112 then (case p of p0 # p \<Rightarrow> Some ((n - 96) * 256 + p0 + 96, p) | _ \<Rightarrow> None)
                 else (case p of p0 # p1 # p \<Rightarrow> Some ((n - 112) * 65536 + p0 * 256 + p1 + 4192, p) | _ \<Rightarrow> None))
      in case run of
           None \<Rightarrow> None
         | Some (n, p) \<Rightarrow> if b < 128 then Some (n + 1, p) else (case p of v # p \<Rightarrow> Some (n + 1, p) | _ \<Rightarrow> None))"

definition script_ext_step :: step where
  "script_ext_step b p =
     (let run = (if b < 128 then Some (b, p)
                 else if b < 192 then (case p of p0 # p \<Rightarrow> Some ((b - 128) * 256 + p0 + 128, p) | _ \<Rightarrow> None)
                 else (case p of p0 # p1 # p \<Rightarrow> Some ((b - 192) * 65536 + p0 * 256 + p1 + 16512, p) | _ \<Rightarrow> None))
      in case run of
           None \<Rightarrow> None
         | Some (n, p) \<Rightarrow>
             (case p of v # p \<Rightarrow> if v \<le> length p then Some (n + 1, drop v p) else None | _ \<Rightarrow> None))"

lemma u8_lt: "unat (b :: u8) < 256"
  using unsigned_less [of b, where 'a = nat] by simp

lemma unat_sub_u8: "unat m \<le> unat b \<Longrightarrow> unat (ucast (b :: u8) - m :: u32) = unat b - unat m"
  by (simp add: unat_sub unat_ucast_u8 word_le_nat_alt)

lemma unat_2bytes:
  assumes "unat (x :: u32) < 256"
  shows "unat (push_bit 8 x OR ucast (p0 :: u8)) = unat x * 256 + unat p0"
  using assms u8_lt [of p0] by (subst unat_push_or) (simp_all add: unat_ucast_u8)

lemma unat_3bytes:
  assumes "unat (x :: u32) < 256"
  shows "unat (push_bit 16 x OR push_bit 8 (ucast (p0 :: u8)) OR ucast (p1 :: u8)) = unat x * 65536 + unat p0 * 256 + unat p1"
proof -
  have "unat (push_bit 8 (ucast p0) OR ucast p1 :: u32) = unat p0 * 256 + unat p1"
    using unat_2bytes [of "ucast p0" p1] u8_lt [of p0] by (simp add: unat_ucast_u8)
  then have "unat (push_bit 16 x OR (push_bit 8 (ucast p0) OR ucast p1)) = unat x * 65536 + (unat p0 * 256 + unat p1)"
    using assms u8_lt [of p0] u8_lt [of p1] by (subst unat_push_or) simp_all
  then show ?thesis by (simp add: or.assoc)
qed

lemma unat_plus_const: "unat (x :: u32) + unat k < 2 ^ 32 \<Longrightarrow> unat (x + k) = unat x + unat k"
  by (subst unat_add_lem [THEN iffD1]) simp_all

lemma gc_steps: "steps_reader gc_step gc_read"
  unfolding steps_reader_def
proof (intro allI impI)
  fix b :: u8 and p :: "u8 list" and d q
  assume st: "gc_step (unat b) (map unat p) = Some (d, q)"
  have n: "unat (ucast (drop_bit 5 b) :: u32) = unat b div 32" by (simp add: unat_ucast_u8 unat_drop)
  show "\<exists>n v p'. gc_read b p = Some (n, v, p') \<and> map unat p' = q \<and> length p' \<le> length p \<and> unat (n + 1) = d \<and> 0 < d"
  proof (cases "unat b < 224")
    case True
    then have "ucast (drop_bit 5 b) \<noteq> (7 :: u32)" using n by (auto simp: word_unat_eq_iff)
    with st True n show ?thesis by (auto simp: gc_read_def gc_step_def Let_def unat_plus_const)
  next
    case False
    with u8_lt [of b] have "unat (ucast (drop_bit 5 b) :: u32) = unat (7 :: u32)" using n by simp
    then have 7: "ucast (drop_bit 5 b) = (7 :: u32)" by (simp only: word_unat_eq_iff)
    from st False obtain b1 p1 where p: "p = b1 # p1" by (auto simp: gc_step_def split: list.splits)
    consider "unat b1 < 128" | "128 \<le> unat b1" "unat b1 < 192" | "192 \<le> unat b1" by linarith
    then show ?thesis
    proof cases
      case 1
      with st False p 7 show ?thesis
        by (auto simp: gc_read_def gc_step_def Let_def word_less_nat_alt unat_plus_const unat_ucast_u8)
    next
      case 2
      with st False p obtain p0 p' where pp: "p1 = p0 # p'" by (auto simp: gc_step_def split: list.splits)
      have "unat (push_bit 8 (ucast b1 - 128) OR ucast p0 :: u32) = (unat b1 - 128) * 256 + unat p0"
        using 2 unat_sub_u8 [of 128 b1] by (subst unat_2bytes) simp_all
      with 2 st False p pp 7 u8_lt [of p0] show ?thesis
        by (auto simp: gc_read_def gc_step_def Let_def word_less_nat_alt unat_plus_const)
    next
      case 3
      with st False p obtain p0 p2 p' where pp: "p1 = p0 # p2 # p'" by (auto simp: gc_step_def split: list.splits)
      have "unat (push_bit 16 (ucast b1 - 192) OR push_bit 8 (ucast p0) OR ucast p2 :: u32) =
        (unat b1 - 192) * 65536 + unat p0 * 256 + unat p2"
        using 3 u8_lt [of b1] unat_sub_u8 [of 192 b1] by (subst unat_3bytes) simp_all
      with 3 st False p pp 7 u8_lt [of b1] u8_lt [of p0] u8_lt [of p2] show ?thesis
        by (auto simp: gc_read_def gc_step_def Let_def word_less_nat_alt unat_plus_const)
    qed
  qed
qed

lemma unat_Suc_small: "unat (x :: u32) < 2 ^ 31 \<Longrightarrow> unat (x + 1) = Suc (unat x)"
  by (subst unat_plus_const) simp_all

lemma unat_and_7f: "unat (ucast (b AND 0x7f :: u8) :: u32) = unat b mod 128"
  using unat_and_mask [of b 7] by (simp add: unat_ucast_u8 mask_eq_exp_minus_1)

lemma script_steps: "steps_reader script_step script_read"
  unfolding steps_reader_def
proof (intro allI impI)
  fix b :: u8 and p :: "u8 list" and d q
  assume st: "script_step (unat b) (map unat p) = Some (d, q)"
  let ?n = "ucast (b AND 0x7f) :: u32"
  have n: "unat ?n = unat b mod 128" "unat ?n < 128" by (simp_all add: unat_and_7f)
  have ty: "drop_bit 7 b = 0 \<longleftrightarrow> unat b < 128"
    using unat_drop [of 7 b] by (auto simp: word_unat_eq_iff)
  have fin: "\<exists>m v p'. (if unat b < 128 then Some (m0, 0, p1)
        else case p1 of v # p \<Rightarrow> Some (m0, ucast v, p) | [] \<Rightarrow> None) = Some (m, v :: u32, p') \<and>
        map unat p' = q \<and> length p' \<le> length p \<and> unat (m + 1) = d \<and> 0 < d"
    if "(if unat b < 128 then Some (k + 1, map unat p1) else case map unat p1 of v # p \<Rightarrow> Some (k + 1, p) | [] \<Rightarrow> None) = Some (d, q)"
      "unat (m0 :: u32) = k" "k < 2 ^ 31" "length p1 \<le> length p" for k m0 p1
    using that by (auto simp: unat_Suc_small split: if_splits list.splits)
  consider "unat ?n < 96" | "96 \<le> unat ?n" "unat ?n < 112" | "112 \<le> unat ?n" by linarith
  then show "\<exists>n v p'. script_read b p = Some (n, v, p') \<and> map unat p' = q \<and> length p' \<le> length p \<and> unat (n + 1) = d \<and> 0 < d"
  proof cases
    case 1
    then show ?thesis
      using st n ty fin [of "unat b mod 128" p ?n] by (auto simp: script_read_def script_step_def Let_def word_less_nat_alt)
  next
    case 2
    with st n obtain p0 p' where p: "p = p0 # p'" by (auto simp: script_step_def Let_def split: list.splits)
    have "unat (push_bit 8 (?n - 96) OR ucast p0 :: u32) = (unat b mod 128 - 96) * 256 + unat p0"
      using 2 n by (subst unat_2bytes) (simp_all add: unat_sub word_le_nat_alt)
    then have "unat ((push_bit 8 (?n - 96) OR ucast p0) + 96 :: u32) = (unat b mod 128 - 96) * 256 + unat p0 + 96"
      using u8_lt [of p0] n by (subst unat_plus_const) simp_all
    with 2 st n ty p u8_lt [of p0] fin [of "(unat b mod 128 - 96) * 256 + unat p0 + 96" p' "(push_bit 8 (?n - 96) OR ucast p0) + 96"]
    show ?thesis by (auto simp: script_read_def script_step_def Let_def word_less_nat_alt)
  next
    case 3
    with st n obtain p0 p1 p' where p: "p = p0 # p1 # p'" by (auto simp: script_step_def Let_def split: list.splits)
    have "unat (push_bit 16 (?n - 112) OR push_bit 8 (ucast p0) OR ucast p1 :: u32) =
        (unat b mod 128 - 112) * 65536 + unat p0 * 256 + unat p1"
      using 3 n by (subst unat_3bytes) (simp_all add: unat_sub word_le_nat_alt)
    then have "unat ((push_bit 16 (?n - 112) OR push_bit 8 (ucast p0) OR ucast p1) + (96 + push_bit 12 1) :: u32) =
        (unat b mod 128 - 112) * 65536 + unat p0 * 256 + unat p1 + 4192"
      using u8_lt [of p0] u8_lt [of p1] n by (subst unat_plus_const) simp_all
    with 3 st n ty p u8_lt [of p0] u8_lt [of p1] fin [of "(unat b mod 128 - 112) * 65536 + unat p0 * 256 + unat p1 + 4192" p'
       "(push_bit 16 (?n - 112) OR push_bit 8 (ucast p0) OR ucast p1) + 4192"]
    show ?thesis by (auto simp: script_read_def script_step_def Let_def word_less_nat_alt)
  qed
qed

lemma script_ext_steps: "steps_reader script_ext_step script_ext_read"
  unfolding steps_reader_def
proof (intro allI impI)
  fix b :: u8 and p :: "u8 list" and d q
  assume st: "script_ext_step (unat b) (map unat p) = Some (d, q)"
  have fin: "\<exists>m v p'. (case p1 of [] \<Rightarrow> None
        | v_len # p \<Rightarrow> if unat v_len \<le> length p then Some (m0, take (unat v_len) p, drop (unat v_len) p) else None) =
          Some (m, v, p') \<and> map unat p' = q \<and> length p' \<le> length p \<and> unat (m + 1) = d \<and> 0 < d"
    if "(case map unat p1 of v # p \<Rightarrow> if v \<le> length p then Some (k + 1, drop v p) else None | [] \<Rightarrow> None) = Some (d, q)"
      "unat (m0 :: u32) = k" "k < 2 ^ 31" "length p1 \<le> length p" for k m0 p1
    using that by (auto simp: unat_Suc_small drop_map split: if_splits list.splits)
  consider "unat b < 128" | "128 \<le> unat b" "unat b < 192" | "192 \<le> unat b" by linarith
  then show "\<exists>n v p'. script_ext_read b p = Some (n, v, p') \<and> map unat p' = q \<and> length p' \<le> length p \<and> unat (n + 1) = d \<and> 0 < d"
  proof cases
    case 1
    then show ?thesis
      using st fin [of "unat b" p "ucast b"]
      by (auto simp: script_ext_read_def script_ext_step_def Let_def word_less_nat_alt unat_ucast_u8)
  next
    case 2
    with st obtain p0 p' where p: "p = p0 # p'" by (auto simp: script_ext_step_def Let_def split: list.splits)
    have "unat (push_bit 8 (ucast b - 128) OR ucast p0 :: u32) = (unat b - 128) * 256 + unat p0"
      using 2 unat_sub_u8 [of 128 b] by (subst unat_2bytes) simp_all
    then have "unat ((push_bit 8 (ucast b - 128) OR ucast p0) + 128 :: u32) = (unat b - 128) * 256 + unat p0 + 128"
      using u8_lt [of p0] u8_lt [of b] by (subst unat_plus_const) simp_all
    with 2 st p u8_lt [of p0] fin [of "(unat b - 128) * 256 + unat p0 + 128" p' "(push_bit 8 (ucast b - 128) OR ucast p0) + 128"]
    show ?thesis by (auto simp: script_ext_read_def script_ext_step_def Let_def word_less_nat_alt)
  next
    case 3
    with st obtain p0 p1 p' where p: "p = p0 # p1 # p'" by (auto simp: script_ext_step_def Let_def split: list.splits)
    have "unat (push_bit 16 (ucast b - 192) OR push_bit 8 (ucast p0) OR ucast p1 :: u32) =
        (unat b - 192) * 65536 + unat p0 * 256 + unat p1"
      using 3 u8_lt [of b] unat_sub_u8 [of 192 b] by (subst unat_3bytes) simp_all
    then have "unat ((push_bit 16 (ucast b - 192) OR push_bit 8 (ucast p0) OR ucast p1) + (128 + push_bit 14 1) :: u32) =
        (unat b - 192) * 65536 + unat p0 * 256 + unat p1 + 16512"
      using u8_lt [of p0] u8_lt [of p1] u8_lt [of b] by (subst unat_plus_const) simp_all
    moreover have "unat b - 192 < 64" using u8_lt [of b] by simp
    then have "(unat b - 192) * 65536 + unat p0 * 256 + unat p1 + 16512 < 2147483648"
      using u8_lt [of p0] u8_lt [of p1] by linarith
    ultimately show ?thesis using 3 st p fin [of "(unat b - 192) * 65536 + unat p0 * 256 + unat p1 + 16512" p'
       "(push_bit 16 (ucast b - 192) OR push_bit 8 (ucast p0) OR ucast p1) + 16512"]
      by (auto simp: script_ext_read_def script_ext_step_def Let_def word_less_nat_alt)
  qed
qed

subsection \<open>The tables are well formed\<close>

lemma steps_total_go:
  "step b p = Some (d, q) \<Longrightarrow> length q \<le> length p \<Longrightarrow> steps_total step (b # p) n = steps_total step q (n + d)"
  by (simp add: steps_total.simps(2))

lemma gc_eval:
  "b < 224 \<Longrightarrow> steps_total gc_step (b # p) n = steps_total gc_step p (n + (b div 32 + 1))"
  "224 \<le> b \<Longrightarrow> b1 < 128 \<Longrightarrow> steps_total gc_step (b # b1 # p) n = steps_total gc_step p (n + (b1 + 8))"
  "224 \<le> b \<Longrightarrow> 128 \<le> b1 \<Longrightarrow> b1 < 192 \<Longrightarrow>
     steps_total gc_step (b # b1 # p0 # p) n = steps_total gc_step p (n + ((b1 - 128) * 256 + p0 + 136))"
  "224 \<le> b \<Longrightarrow> 192 \<le> b1 \<Longrightarrow>
     steps_total gc_step (b # b1 # p0 # p1 # p) n =
     steps_total gc_step p (n + ((b1 - 192) * 65536 + p0 * 256 + p1 + 16520))"
  by (rule steps_total_go; simp add: gc_step_def)+

lemma mod_128: "128 \<le> b \<Longrightarrow> b < 256 \<Longrightarrow> b mod 128 = b - (128 :: nat)"
  by (simp add: le_mod_geq)

lemma script_eval:
  "b < 96 \<Longrightarrow> steps_total script_step (b # p) n = steps_total script_step p (n + (b + 1))"
  "96 \<le> b \<Longrightarrow> b < 112 \<Longrightarrow>
     steps_total script_step (b # p0 # p) n = steps_total script_step p (n + ((b - 96) * 256 + p0 + 97))"
  "112 \<le> b \<Longrightarrow> b < 128 \<Longrightarrow> steps_total script_step (b # p0 # p1 # p) n =
     steps_total script_step p (n + ((b - 112) * 65536 + p0 * 256 + p1 + 4193))"
  "128 \<le> b \<Longrightarrow> b < 224 \<Longrightarrow> steps_total script_step (b # v # p) n = steps_total script_step p (n + (b - 127))"
  "224 \<le> b \<Longrightarrow> b < 240 \<Longrightarrow>
     steps_total script_step (b # p0 # v # p) n = steps_total script_step p (n + ((b - 224) * 256 + p0 + 97))"
  "240 \<le> b \<Longrightarrow> b < 256 \<Longrightarrow> steps_total script_step (b # p0 # p1 # v # p) n =
     steps_total script_step p (n + ((b - 240) * 65536 + p0 * 256 + p1 + 4193))"
  by (rule steps_total_go; auto simp: script_step_def Let_def mod_128)+

lemma script_ext_eval:
  "b < 128 \<Longrightarrow> v \<le> length p \<Longrightarrow>
     steps_total script_ext_step (b # v # p) n = steps_total script_ext_step (drop v p) (n + (b + 1))"
  "128 \<le> b \<Longrightarrow> b < 192 \<Longrightarrow> v \<le> length p \<Longrightarrow> steps_total script_ext_step (b # p0 # v # p) n =
     steps_total script_ext_step (drop v p) (n + ((b - 128) * 256 + p0 + 129))"
  "192 \<le> b \<Longrightarrow> v \<le> length p \<Longrightarrow> steps_total script_ext_step (b # p0 # p1 # v # p) n =
     steps_total script_ext_step (drop v p) (n + ((b - 192) * 65536 + p0 * 256 + p1 + 16513))"
  by (rule steps_total_go; simp add: script_ext_step_def Let_def)+

lemma gc_step_local: "step_local gc_step"
  by (auto simp: step_local_def gc_step_def split: if_splits list.splits)

lemma script_step_local: "step_local script_step"
  by (auto simp: step_local_def script_step_def Let_def split: if_splits list.splits)

lemma script_ext_step_local: "step_local script_ext_step"
  by (auto simp: step_local_def script_ext_step_def Let_def split: if_splits list.splits)

lemma gc_chunks:
  "steps_total gc_step (map unat unicode_gc_table_0) 0 = Some 2615"
  "steps_total gc_step (map unat unicode_gc_table_1) 2615 = Some 4296"
  "steps_total gc_step (map unat unicode_gc_table_2) 4296 = Some 8224"
  "steps_total gc_step (map unat unicode_gc_table_3) 8224 = Some 12353"
  "steps_total gc_step (map unat unicode_gc_table_4) 12353 = Some 65108"
  "steps_total gc_step (map unat unicode_gc_table_5) 65108 = Some 69750"
  "steps_total gc_step (map unat unicode_gc_table_6) 69750 = Some 73472"
  "steps_total gc_step (map unat unicode_gc_table_7) 73472 = Some 123023"
  "steps_total gc_step (map unat unicode_gc_table_8) 123023 = Some 1114112"
  by (simp only: unicode_gc_table_0_def unicode_gc_table_1_def unicode_gc_table_2_def unicode_gc_table_3_def unicode_gc_table_4_def unicode_gc_table_5_def unicode_gc_table_6_def unicode_gc_table_7_def unicode_gc_table_8_def list.map, simp add: gc_eval)+

lemma gc_total: "steps_total gc_step (map unat unicode_gc_table) 0 = Some 1114112"
  by (simp only: unicode_gc_table_def map_append gc_chunks [THEN steps_total_append [OF gc_step_local]] gc_chunks)

lemma script_chunks:
  "steps_total script_step (map unat unicode_script_table_0) 0 = Some 3168"
  "steps_total script_step (map unat unicode_script_table_1) 3168 = Some 7616"
  "steps_total script_step (map unat unicode_script_table_2) 7616 = Some 64280"
  "steps_total script_step (map unat unicode_script_table_3) 64280 = Some 70112"
  "steps_total script_step (map unat unicode_script_table_4) 70112 = Some 119143"
  "steps_total script_step (map unat unicode_script_table_5) 119143 = Some 918000"
  by (simp only: unicode_script_table_0_def unicode_script_table_1_def unicode_script_table_2_def unicode_script_table_3_def unicode_script_table_4_def unicode_script_table_5_def list.map, simp add: script_eval)+

lemma script_total: "steps_total script_step (map unat unicode_script_table) 0 = Some 918000"
  by (simp only: unicode_script_table_def map_append script_chunks [THEN steps_total_append [OF script_step_local]] script_chunks)

lemma script_ext_chunks:
  "steps_total script_ext_step (map unat unicode_script_ext_table_0) 0 = Some 12295"
  "steps_total script_ext_step (map unat unicode_script_ext_table_1) 12295 = Some 1114112"
  by (simp only: unicode_script_ext_table_0_def unicode_script_ext_table_1_def list.map, simp add: script_ext_eval)+

lemma script_ext_total: "steps_total script_ext_step (map unat unicode_script_ext_table) 0 = Some 1114112"
  by (simp only: unicode_script_ext_table_def map_append script_ext_chunks [THEN steps_total_append [OF script_ext_step_local]] script_ext_chunks)

subsection \<open>Categories and scripts of a code point\<close>

definition general_category :: "u32 \<Rightarrow> u32 option" where
  "general_category c =
     map_option (\<lambda>(v, c0, c1). if v = 31 then (if even (unat c - unat c0) then 1 else 2) else v)
       (run_at c 0 (the (groups gc_read unicode_gc_table)))"

definition script_of :: "u32 \<Rightarrow> u32 option" where
  "script_of c = map_option fst (run_at c 0 (the (groups script_read unicode_script_table)))"

definition script_extensions :: "u32 \<Rightarrow> u8 list option" where
  "script_extensions c = map_option fst (run_at c 0 (the (groups script_ext_read unicode_script_ext_table)))"

definition gc_set :: "u32 \<Rightarrow> u32 set" where
  "gc_set gc_mask = {c. \<exists>v. general_category c = Some v \<and> drop_bit (unat v) gc_mask AND 1 \<noteq> 0}"

lemma alt_points:
  assumes "a + n < 2 ^ 32"
  shows "sorted (unpairs (map (\<lambda>i. (of_nat a + of_nat i, of_nat a + of_nat i + 1)) (filter even [0..<n])) :: u32 list) \<and>
    (\<forall>x\<in>set (unpairs (map (\<lambda>i. (of_nat a + of_nat i, of_nat a + of_nat i + 1)) (filter even [0..<n])) :: u32 list).
       a \<le> unat x \<and> unat x \<le> a + n)"
  using assms
proof (induction n)
  case (Suc n)
  have u: "unat (of_nat a + of_nat n :: u32) = a + n" "unat (of_nat a + of_nat n + 1 :: u32) = a + n + 1"
  proof -
    have "of_nat a + of_nat n = (of_nat (a + n) :: u32)" "of_nat a + of_nat n + 1 = (of_nat (a + n + 1) :: u32)" by simp_all
    then show "unat (of_nat a + of_nat n :: u32) = a + n" "unat (of_nat a + of_nat n + 1 :: u32) = a + n + 1"
      using Suc.prems by (simp_all only: unat_of_nat) simp_all
  qed
  let ?xs = "unpairs (map (\<lambda>i. (of_nat a + of_nat i, of_nat a + of_nat i + 1)) (filter even [0..<n])) :: u32 list"
  from Suc have IH: "sorted ?xs" "\<And>x. x \<in> set ?xs \<Longrightarrow> a \<le> unat x \<and> unat x \<le> a + n" by auto
  have "x \<le> of_nat a + of_nat n \<and> x \<le> of_nat a + of_nat n + 1" if "x \<in> set ?xs" for x
    using IH(2) [OF that] u by (simp add: word_le_nat_alt)
  moreover have "of_nat a + of_nat n \<le> (of_nat a + of_nat n + 1 :: u32)" using u by (simp add: word_le_nat_alt)
  ultimately have "even n \<Longrightarrow> sorted (?xs @ [of_nat a + of_nat n, of_nat a + of_nat n + 1])"
    using IH(1) by (simp add: sorted_append)
  with IH u show ?case by (auto intro: le_SucI)
qed simp

lemma odd_cnt_pair: "s \<le> e \<Longrightarrow> odd (cnt c [s, e]) \<longleftrightarrow> s \<le> c \<and> c < e"
  by (auto simp: not_le not_less)

lemma M_values: "M ''Lu'' = 2" "M ''Ll'' = 4"
  by (simp_all add: M_def UNICODE_GC_def enum_value_def UnicodeGCEnum_def)

lemma mask_bits:
  "(m :: u32) AND 6 = 0 \<longleftrightarrow> \<not> bit m 1 \<and> \<not> bit m 2"
  "m AND 6 = 6 \<longleftrightarrow> bit m 1 \<and> bit m 2"
  "m AND 4 = 0 \<longleftrightarrow> \<not> bit m 2"
  by (auto simp: word_bits)

lemma drop_bit_odd: "drop_bit n (m :: u32) AND 1 \<noteq> 0 \<longleftrightarrow> bit m n"
  by (simp add: and_one_eq bit_iff_odd_drop_bit odd_iff_mod_2_eq_one)

lemma gc_intervals_cases:
  assumes "c0 < c1"
  shows "gc_intervals m v c0 c1 =
     (if v = 31 then
        if bit m 1 \<and> bit m 2 then [(c0, c1)]
        else if bit m 1 then map (\<lambda>i. (of_nat (unat c0) + of_nat i, of_nat (unat c0) + of_nat i + 1)) (filter even [0..<unat c1 - unat c0])
        else if bit m 2 then map (\<lambda>i. (of_nat (unat c0 + 1) + of_nat i, of_nat (unat c0 + 1) + of_nat i + 1)) (filter even [0..<unat c1 - (unat c0 + 1)])
        else []
      else if bit m (unat v) then [(c0, c1)] else [])"
proof -
  have "unat (c0 + 1) = unat c0 + 1" using assms unsigned_less [of c1, where 'a = nat]
    by (subst unat_add_lem [THEN iffD1]) (auto simp: word_less_nat_alt)
  then have "c0 + 1 \<le> c1" "unat (c1 - (c0 + 1)) = unat c1 - (unat c0 + 1)"
    using assms by (simp_all add: word_le_nat_alt word_less_nat_alt unat_sub)
  moreover have "unat (c1 - c0) = unat c1 - unat c0" using assms by (simp add: unat_sub word_le_nat_alt word_less_nat_alt)
  ultimately show ?thesis
    unfolding gc_intervals_def M_values Let_def drop_bit_odd by (auto simp: mask_bits add.commute)
qed

lemma gc_value_cnt:
  assumes "c0 < c1"
  shows "odd (cnt c (unpairs (gc_intervals m v c0 c1))) \<longleftrightarrow> c0 \<le> c \<and> c < c1 \<and>
    bit m (unat (if v = 31 then (if even (unat c - unat c0) then 1 else 2) else v))"
proof -
  let ?alt = "\<lambda>a n. map (\<lambda>i. (of_nat a + of_nat i, of_nat a + of_nat i + 1 :: u32)) (filter even [0..<n])"
  have lt: "unat c0 < unat c1" "unat c1 < 2 ^ 32" using assms unsigned_less [of c1, where 'a = nat] by (simp_all add: word_less_nat_alt)
  have alt: "odd (cnt c (unpairs (?alt a (unat c1 - a)))) \<longleftrightarrow> a \<le> unat c \<and> unat c < unat c1 \<and> even (unat c - a)"
    if "a \<le> unat c1" for a
  proof -
    have b: "a + (unat c1 - a) < 2 ^ 32" using that lt by simp
    have "\<forall>(s, e)\<in>set (?alt a (unat c1 - a)). s \<le> e"
    proof clarsimp
      fix i assume "i < unat c1 - a"
      then have u: "unat (of_nat (a + i) :: u32) = a + i" "unat (of_nat (a + i + 1) :: u32) = a + i + 1"
        using lt by (simp_all only: unat_of_nat) simp_all
      have "of_nat a + of_nat i = (of_nat (a + i) :: u32)" "of_nat a + of_nat i + 1 = (of_nat (a + i + 1) :: u32)"
        by simp_all
      then show "of_nat a + of_nat i \<le> (of_nat a + of_nat i + 1 :: u32)"
        unfolding word_le_nat_alt by (simp only: u)
    qed
    from odd_cnt_hits [OF this, of c] hits_points [OF b, of c] that show ?thesis by auto
  qed
  have p: "odd (cnt c (unpairs [(c0, c1)])) \<longleftrightarrow> c0 \<le> c \<and> c < c1"
    using odd_cnt_pair [of c0 c1 c] assms by simp
  have le: "c0 \<le> c \<longleftrightarrow> unat c0 \<le> unat c" "c < c1 \<longleftrightarrow> unat c < unat c1" by (simp_all add: word_less_nat_alt word_le_nat_alt)
  have par: "unat c0 + 1 \<le> unat c \<and> unat c < unat c1 \<and> even (unat c - (unat c0 + 1)) \<longleftrightarrow>
    unat c0 \<le> unat c \<and> unat c < unat c1 \<and> odd (unat c - unat c0)" by (cases "unat c0 \<le> unat c") presburger+
  have no: "odd (cnt c (unpairs [])) \<longleftrightarrow> False" by simp
  have u: "unat (1 :: u32) = 1" "unat (2 :: u32) = 2" by simp_all
  show ?thesis
  proof (cases "v = 31")
    case False
    then show ?thesis unfolding gc_intervals_cases [OF assms] using p no by simp
  next
    case True
    show ?thesis
      unfolding gc_intervals_cases [OF assms] if_P [OF True]
      using p no par u alt [of "unat c0"] alt [of "unat c0 + 1"] lt(1) le
      by (cases "bit m 1"; cases "bit m 2"; cases "even (unat c - unat c0)") simp_all
  qed
qed

lemma gc_inside: "inside_runs (gc_intervals m)"
  unfolding inside_runs_def
proof (intro allI impI)
  fix v c0 c1 :: u32 assume lt: "c0 < c1"
  have "unat c1 < 2 ^ 32" using unsigned_less [of c1, where 'a = nat] by simp
  with lt have b: "unat c0 + (unat c1 - unat c0) < 2 ^ 32" "unat c0 + 1 + (unat c1 - (unat c0 + 1)) < 2 ^ 32"
    by (simp_all add: word_less_nat_alt)
  from lt alt_points [OF b(1)] alt_points [OF b(2)] show "sorted (unpairs (gc_intervals m v c0 c1)) \<and>
      (\<forall>x\<in>set (unpairs (gc_intervals m v c0 c1)). c0 \<le> x \<and> x \<le> c1)"
    unfolding gc_intervals_cases [OF lt] by (auto simp: word_less_nat_alt word_le_nat_alt)
qed

lemma table_facts:
  assumes "steps_total step (map unat t) 0 = Some N" "steps_reader step reader"
  obtains gs where "groups reader t = Some gs" "run_lengths gs = N" "\<forall>g\<in>set gs. fst g \<noteq> 0"
  using steps_total_groups [OF assms(2,1)] by auto

context char_range_alloc begin

text \<open>The result of a function that fills a range: the set \<open>S\<close>, sorted, or -1.\<close>

definition gives :: "u32 set \<Rightarrow> (int \<times> char_range) option \<Rightarrow> bool" where
  "gives S x \<longleftrightarrow>
     (\<exists>r cr. x = Some (r, cr) \<and> cr_ok cr \<and>
        (r = 0 \<and> sorted (cr_pts cr) \<and> even (length (cr_pts cr)) \<and> cr_set (cr_pts cr) = S \<or> r = -1))"

lemma givesI:
  assumes "add_intervals cr ivs = (r, cr')" "cr_ok cr" "cr_pts cr = []" "sorted (unpairs ivs)" "cr_set (unpairs ivs) = S"
  shows "gives S (Some (add_intervals cr ivs))"
  using add_intervals_ok [OF assms(2,1)] assms unfolding gives_def by (auto simp del: in_cr_set)

lemma group_loop_ok:
  assumes "cr_ok cr" "cr_pts cr = []" "groups reader t = Some gs" "run_lengths gs < 2 ^ 32"
    "\<forall>g\<in>set gs. fst g \<noteq> 0" "inside_runs ivs"
  shows "gives {c. case run_at c 0 gs of None \<Rightarrow> False | Some (v, c0, c1) \<Rightarrow> odd (cnt c (unpairs (ivs v c0 c1)))}
    (group_loop reader ivs cr t 0)"
proof -
  have b: "unat (0 :: u32) + run_lengths gs < 2 ^ 32" using assms(4) by simp
  have "sorted (unpairs (group_ivs ivs 0 gs))" using group_ivs_sorted [OF assms(6) b assms(5)] by simp
  moreover have "cr_set (unpairs (group_ivs ivs 0 gs)) =
      {c. case run_at c 0 gs of None \<Rightarrow> False | Some (v, c0, c1) \<Rightarrow> odd (cnt c (unpairs (ivs v c0 c1)))}"
    unfolding set_eq_iff in_cr_set mem_Collect_eq
    by (intro allI group_ivs_cnt [OF assms(6) b assms(5)]) simp
  ultimately show ?thesis
    unfolding group_loop_groups [OF assms(3)] by (rule givesI [OF prod.collapse [symmetric] assms(1,2)])
qed

lemma gc1_ok:
  assumes "cr_ok cr" "cr_pts cr = []"
  shows "gives (gc_set m) (unicode_general_category1 cr m)"
proof -
  obtain gs where gs: "groups gc_read unicode_gc_table = Some gs" "run_lengths gs = 1114112" "\<forall>g\<in>set gs. fst g \<noteq> 0"
    by (rule table_facts [OF gc_total gc_steps])
  have b: "unat (0 :: u32) + run_lengths gs < 2 ^ 32" using gs(2) by simp
  have "{c. case run_at c 0 gs of None \<Rightarrow> False | Some (v, c0, c1) \<Rightarrow> odd (cnt c (unpairs (gc_intervals m v c0 c1)))} = gc_set m"
    (is "?L = _")
  proof (rule set_eqI)
    fix c
    show "c \<in> ?L \<longleftrightarrow> c \<in> gc_set m"
    proof (cases "run_at c 0 gs")
      case None
      then show ?thesis using gs(1) by (simp add: gc_set_def general_category_def)
    next
      case (Some x)
      obtain v c0 c1 where x: "x = (v, c0, c1)" by (cases x)
      from run_at_bounds [OF Some [unfolded x] b] have "c0 \<le> c" "c < c1" by simp_all
      with gc_value_cnt [of c0 c1 c m v] Some x gs(1) show ?thesis
        by (auto simp: gc_set_def general_category_def drop_bit_odd dest: le_less_trans)
    qed
  qed
  with group_loop_ok [OF assms gs(1) _ gs(3) gc_inside, of m] b show ?thesis
    by (simp add: unicode_general_category1_def)
qed

end

subsection \<open>Binary properties\<close>

lemmas prop_table_defs =
  unicode_prop_Hyphen_table_def unicode_prop_Other_Math_table_def
  unicode_prop_Other_Alphabetic_table_def unicode_prop_Other_Lowercase_table_def
  unicode_prop_Other_Uppercase_table_def unicode_prop_Other_Grapheme_Extend_table_def
  unicode_prop_Other_Default_Ignorable_Code_Point_table_def
  unicode_prop_Other_ID_Start_table_def unicode_prop_Other_ID_Continue_table_def
  unicode_prop_Prepended_Concatenation_Mark_table_def unicode_prop_ID_Continue1_table_def
  unicode_prop_XID_Start1_table_def unicode_prop_XID_Continue1_table_def
  unicode_prop_Changes_When_Titlecased1_table_def
  unicode_prop_Changes_When_Casefolded1_table_def
  unicode_prop_Changes_When_NFKC_Casefolded1_table_def unicode_prop_ASCII_Hex_Digit_table_def
  unicode_prop_Bidi_Control_table_def unicode_prop_Dash_table_def
  unicode_prop_Deprecated_table_def unicode_prop_Diacritic_table_def
  unicode_prop_Extender_table_def unicode_prop_Hex_Digit_table_def
  unicode_prop_IDS_Binary_Operator_table_def unicode_prop_IDS_Trinary_Operator_table_def
  unicode_prop_Ideographic_table_def unicode_prop_Join_Control_table_def
  unicode_prop_Logical_Order_Exception_table_def unicode_prop_Noncharacter_Code_Point_table_def
  unicode_prop_Pattern_Syntax_table_def unicode_prop_Pattern_White_Space_table_def
  unicode_prop_Quotation_Mark_table_def unicode_prop_Radical_table_def
  unicode_prop_Regional_Indicator_table_def unicode_prop_Sentence_Terminal_table_def
  unicode_prop_Soft_Dotted_table_def unicode_prop_Terminal_Punctuation_table_def
  unicode_prop_Unified_Ideograph_table_def unicode_prop_Variation_Selector_table_def
  unicode_prop_White_Space_table_def unicode_prop_Bidi_Mirrored_table_def
  unicode_prop_Emoji_table_def unicode_prop_Emoji_Component_table_def
  unicode_prop_Emoji_Modifier_table_def unicode_prop_Emoji_Modifier_Base_table_def
  unicode_prop_Emoji_Presentation_table_def unicode_prop_Extended_Pictographic_table_def
  unicode_prop_Default_Ignorable_Code_Point_table_def unicode_prop_ID_Start_table_def
  unicode_prop_Case_Ignorable_table_def

lemma prop_table_totals:
  "list_all (\<lambda>t. case runs_total (map unat t) 0 of None \<Rightarrow> False | Some n \<Rightarrow> n < 2 ^ 32) unicode_prop_table"
  unfolding unicode_prop_table_def list.pred_inject
  apply (intro conjI TrueI)
  apply (simp_all only: prop_table_defs list.map)
  apply (simp_all add: runs_total_eval)
  done

lemma prop_len_table: "unicode_prop_len_table = map length unicode_prop_table"
  by (simp add: unicode_prop_len_table_def unicode_prop_table_def)

lemma prop_table_runs:
  assumes "i < length unicode_prop_table"
  obtains rs where "table_runs (unicode_prop_table ! i) = Some rs" "unat (0 :: u32) + sum_list (map unat rs) < 2 ^ 32"
proof -
  from prop_table_totals assms obtain N where "runs_total (map unat (unicode_prop_table ! i)) 0 = Some N" "N < 2 ^ 32"
    by (auto simp: list_all_length split: option.splits)
  with runs_total_runs [of "unicode_prop_table ! i" 0 N] that show thesis by auto
qed

text \<open>The code points that a conversion selected by the mask changes (bits 0, 1, 2: to upper, to lower, folding).\<close>

definition case_set :: "u32 \<Rightarrow> u32 set" where
  "case_set case_mask = {c. \<exists>t\<le>2. bit case_mask t \<and> lre_case_conv c t \<noteq> Some [c]}"

text \<open>The sets that an instruction of \<open>unicode_prop_ops\<close> leaves on the stack.\<close>

fun pop_sets :: "pop_op \<Rightarrow> u32 set list \<Rightarrow> u32 set list option" where
  "pop_sets (POP_GC a) ss = (if length ss < 4 then Some (gc_set a # ss) else None)"
| "pop_sets (POP_PROP a) ss =
     (if length ss < 4 \<and> a < length unicode_prop_table then Some (table_set (unicode_prop_table ! a) # ss) else None)"
| "pop_sets (POP_CASE a) ss = (if length ss < 4 \<and> a \<in> {1, 2, 4, 7} then Some (case_set a # ss) else None)"
| "pop_sets POP_INVERT ss = (case ss of s # ss \<Rightarrow> Some ((- s - {UINT32_MAX}) # ss) | _ \<Rightarrow> None)"
| "pop_sets op ss =
     (case ss of
        s2 # s1 # ss' \<Rightarrow> if length ss < 4 then Some ({c. op_in (the (cr_op_of op)) (c \<in> s1) (c \<in> s2)} # ss') else None
      | _ \<Rightarrow> None)"

fun pop_sets_run :: "pop_op list \<Rightarrow> u32 set list \<Rightarrow> u32 set list option" where
  "pop_sets_run [] ss = Some ss"
| "pop_sets_run (op # ops) ss = (case pop_sets op ss of None \<Rightarrow> None | Some ss \<Rightarrow> pop_sets_run ops ss)"

context char_range_alloc begin

lemma init_gives: "cr_ok (cr_init realloc)" "cr_pts (cr_init realloc) = []"
  by (rule init_ok)+

lemma prop1_ok:
  assumes "cr_ok cr" "cr_pts cr = []" "i < length unicode_prop_table"
  shows "gives (table_set (unicode_prop_table ! i)) (unicode_prop1 cr i)"
proof -
  obtain rs where rs: "table_runs (unicode_prop_table ! i) = Some rs" "unat (0 :: u32) + sum_list (map unat rs) < 2 ^ 32"
    using assms(3) by (rule prop_table_runs)
  have "unicode_prop1 cr i = Some (add_intervals cr (run_ivs 0 False rs))"
    using assms(3) prop1_loop_runs [OF rs(1)] by (simp add: unicode_prop1_def prop_len_table)
  moreover have "gives (table_set (unicode_prop_table ! i)) (Some (add_intervals cr (run_ivs 0 False rs)))"
    using run_ivs_ge [OF rs(2)] rs(1)
    by (intro givesI [OF prod.collapse [symmetric] assms(1,2)]) (simp_all add: table_set_def)
  ultimately show ?thesis by simp
qed

lemma case1_ok:
  assumes "cr_ok cr" "cr_pts cr = []" "a \<in> {1, 2, 4, 7}"
  shows "gives (case_set a) (Some (unicode_case1 cr a))"
proof (cases "a = 7")
  case True
  have bits: "(\<exists>t\<le>2. bit (7 :: u32) t \<and> P t) \<longleftrightarrow> (\<exists>t\<le>2. P t)" for P :: "nat \<Rightarrow> bool"
  proof -
    have "bit (7 :: u32) t" if "t \<le> 2" for t
      using that by (auto simp: numeral_2_eq_2 le_Suc_eq)
    then show ?thesis by blast
  qed
  have "unicode_case1 cr a = add_intervals cr (concat (map (case1_intervals (case1_mask 7) 7) case_conv_table1))"
    using True by (simp add: unicode_case1_def)
  with case1_all_points givesI [OF prod.collapse [symmetric] assms(1,2)] show ?thesis
    unfolding case_set_def True bits by metis
next
  case False
  define t :: nat where "t = (if a = 1 then 0 else if a = 2 then 1 else 2)"
  have a: "a = case_of_type t" "t \<le> 2" using assms(3) False by (auto simp: t_def case_of_type_def)
  have "bit a u \<longleftrightarrow> u = t" if "u \<le> 2" for u
    using that assms(3) False by (auto simp: t_def numeral_2_eq_2 le_Suc_eq)
  then have "case_set a = {c. lre_case_conv c t \<noteq> Some [c]}" using a(2) by (auto simp: case_set_def)
  with unicode_case1_ok [OF assms(1,2) a(2)] a(1) show ?thesis
    unfolding gives_def by (metis prod.collapse)
qed

definition holds :: "char_range \<Rightarrow> u32 set \<Rightarrow> bool" where
  "holds cr S \<longleftrightarrow> cr_ok cr \<and> sorted (cr_pts cr) \<and> even (length (cr_pts cr)) \<and> cr_set (cr_pts cr) = S"

lemma push_ok:
  assumes "gives S x" "list_all2 holds stack ss" "length ss < 4"
  shows "\<exists>y. push_range stack x = Some y \<and> (\<forall>st. y = Inr st \<longrightarrow> list_all2 holds st (S # ss))"
proof -
  from assms(1) obtain r cr where "x = Some (r, cr)" "cr_ok cr"
    "r = 0 \<and> sorted (cr_pts cr) \<and> even (length (cr_pts cr)) \<and> cr_set (cr_pts cr) = S \<or> r = -1"
    unfolding gives_def by blast
  with assms(2,3) list_all2_lengthD [OF assms(2)] show ?thesis
    by (cases "r = 0") (simp_all add: push_range_def holds_def del: in_cr_set)
qed

lemma pop_step_ok:
  assumes "list_all2 holds stack ss" "pop_sets op ss = Some ss'"
  shows "\<exists>y. pop_step realloc op stack = Some y \<and> (\<forall>st. y = Inr st \<longrightarrow> list_all2 holds st ss')"
proof -
  have bin: "\<exists>y. pop_step realloc op stack = Some y \<and> (\<forall>st. y = Inr st \<longrightarrow> list_all2 holds st ss')"
    if op: "cr_op_of op = Some o'" and s: "ss = s2 # s1 # rs" "length ss < 4" "ss' = {c. op_in o' (c \<in> s1) (c \<in> s2)} # rs"
    for o' s2 s1 rs
  proof -
    have p: "pop_step realloc op stack = (case stack of
             cr2 # cr1 # rest \<Rightarrow>
               if length stack < POP_STACK_LEN_MAX then
                 (case cr_op (cr_init realloc) (cr_pts cr1) (cr_pts cr2) (the (cr_op_of op)) of
                    (r, cr3) \<Rightarrow> if r \<noteq> 0 then Some (Inl ()) else Some (Inr (cr3 # rest)))
               else None
           | _ \<Rightarrow> None)" using op by (cases op) (simp_all add: pop_step_def split: list.split)
    from assms(1) s(1) obtain cr2 cr1 rest where st: "stack = cr2 # cr1 # rest" "holds cr2 s2" "holds cr1 s1"
      "list_all2 holds rest rs" by (auto simp: list_all2_Cons2)
    obtain r cr3 where o: "cr_op (cr_init realloc) (cr_pts cr1) (cr_pts cr2) o' = (r, cr3)" by fastforce
    from op_ok [OF init_ok o] st(2,3) have "cr_ok cr3 \<and> (r = 0 \<and> canonical (cr_pts cr3) \<and>
        cr_set (cr_pts cr3) = {c. op_in o' (c \<in> s1) (c \<in> s2)} \<or> r = -1)"
      by (simp only: holds_def)
    moreover have "canonical xs \<Longrightarrow> sorted xs \<and> even (length xs)" for xs by (auto simp: canonical_def strict_sorted_iff)
    ultimately show ?thesis using s st list_all2_lengthD [OF assms(1)] op o unfolding p
      by (cases "r = 0") (simp_all add: holds_def del: in_cr_set)
  qed
  show ?thesis
  proof (cases op)
    case (POP_GC a)
    with assms push_ok [OF gc1_ok [OF init_ok]] show ?thesis by (auto simp: pop_step_def split: if_splits)
  next
    case (POP_PROP a)
    with assms push_ok [OF prop1_ok [OF init_ok]] show ?thesis by (auto simp: pop_step_def split: if_splits)
  next
    case (POP_CASE a)
    with assms push_ok [OF case1_ok [OF init_ok]] show ?thesis by (auto simp: pop_step_def split: if_splits)
  next
    case POP_INVERT
    with assms obtain s rs cr1 rest where s: "ss = s # rs" "ss' = (- s - {UINT32_MAX}) # rs" "stack = cr1 # rest"
      "holds cr1 s" "list_all2 holds rest rs" by (auto simp: list_all2_Cons2 split: list.splits)
    obtain r cr2 where i: "cr_invert cr1 = (r, cr2)" by fastforce
    from invert_ok [OF _ _ _ i] s(4) have "cr_ok cr2 \<and> (r = 0 \<and> canonical (cr_pts cr2) \<and>
        cr_set (cr_pts cr2) = - s - {UINT32_MAX} \<or> r = -1)" by (simp only: holds_def)
    moreover have "canonical xs \<Longrightarrow> sorted xs \<and> even (length xs)" for xs by (auto simp: canonical_def strict_sorted_iff)
    ultimately show ?thesis using s i POP_INVERT
      by (cases "r = 0") (simp_all add: pop_step_def holds_def del: in_cr_set)
  next
    case POP_UNION
    with assms(2) show ?thesis by (intro bin [of CR_OP_UNION "hd ss" "hd (tl ss)" "tl (tl ss)"]) (auto split: list.splits if_splits)
  next
    case POP_INTER
    with assms(2) show ?thesis by (intro bin [of CR_OP_INTER "hd ss" "hd (tl ss)" "tl (tl ss)"]) (auto split: list.splits if_splits)
  next
    case POP_XOR
    with assms(2) show ?thesis by (intro bin [of CR_OP_XOR "hd ss" "hd (tl ss)" "tl (tl ss)"]) (auto split: list.splits if_splits)
  qed
qed

lemma pop_run_ok:
  assumes "list_all2 holds stack ss" "pop_sets_run ops ss = Some ss'"
  shows "\<exists>y. pop_run realloc ops stack = Some y \<and> (\<forall>st. y = Inr st \<longrightarrow> list_all2 holds st ss')"
  using assms
proof (induction ops arbitrary: stack ss)
  case (Cons op ops)
  from Cons.prems(2) obtain ss1 where ss1: "pop_sets op ss = Some ss1" "pop_sets_run ops ss1 = Some ss'"
    by (auto split: option.splits)
  from pop_step_ok [OF Cons.prems(1) ss1(1)] obtain y where
    y: "pop_step realloc op stack = Some y" "\<And>st. y = Inr st \<Longrightarrow> list_all2 holds st ss1" by blast
  show ?case
  proof (cases y)
    case (Inr st)
    from Cons.IH [OF y(2) [OF Inr] ss1(2)] y(1) Inr show ?thesis by simp
  qed (use y in simp)
qed simp

lemma prop_ops_ok:
  assumes "cr_ok cr" "pop_sets_run ops [] = Some [S]"
  shows "gives S (unicode_prop_ops cr ops)"
proof -
  have f: "cr_realloc_func cr = realloc" using assms(1) by (simp add: cr_ok_def)
  from pop_run_ok [of "[]" "[]", OF _ assms(2)] obtain y where
    y: "pop_run realloc ops [] = Some y" "\<And>st. y = Inr st \<Longrightarrow> list_all2 holds st [S]" by auto
  show ?thesis
  proof (cases y)
    case (Inl u)
    with y f assms(1) show ?thesis by (simp add: unicode_prop_ops_def gives_def)
  next
    case (Inr st)
    with y(2) obtain cr1 where st: "st = [cr1]" "holds cr1 S" by (auto simp: list_all2_Cons2)
    obtain r t where c: "cr_copy cr cr1 = (r, t)" by fastforce
    from copy_ok [OF assms(1) _ c] st have "cr_ok t \<and> (r = 0 \<and> cr_pts t = cr_pts cr1 \<or> r = -1)"
      by (auto simp: holds_def cr_ok_def)
    with st y f c Inr show ?thesis
      by (auto simp: unicode_prop_ops_def gives_def holds_def simp del: in_cr_set)
  qed
qed

end

subsection \<open>The properties by name\<close>

text \<open>Every program of \<open>unicode_prop\<close> keeps within the stack and leaves one range.\<close>

lemma programs_well_stacked:
  "list_all (\<lambda>(nm, ops). \<exists>S. pop_sets_run ops [] = Some [S]) prop_programs"
  by (simp add: prop_programs_def UNICODE_PROP_def enum_value_def UnicodePropertyEnum_def unicode_prop_table_def)

definition property_set :: "string \<Rightarrow> u32 set" where
  "property_set nm =
     (if nm = ''ASCII'' then {0..0x7f}
      else if nm = ''Any'' then {0..0x10ffff}
      else if nm = ''Changes_When_Uppercased'' then case_set CASE_U
      else if nm = ''Changes_When_Lowercased'' then case_set CASE_L
      else if nm = ''Changes_When_Casemapped'' then case_set (CASE_U OR CASE_L OR CASE_F)
      else
        (case map_of prop_programs nm of
           Some ops \<Rightarrow> hd (the (pop_sets_run ops []))
         | None \<Rightarrow> table_set (unicode_prop_table ! UNICODE_PROP nm)))"

end
