(* ===== verification/UnicodeByName.thy ===== *)
theory UnicodeByName
  imports UnicodeProps
begin

text \<open>
  libunicode.c: \<open>unicode_prop\<close>, \<open>unicode_general_category\<close> and \<open>unicode_script\<close> for a name.  A
  name is found by its position among the aliases of the tables of names, and the range that
  is filled is the set that \<open>property_set\<close>, \<open>category_members\<close> and \<open>script_set\<close> give it.
\<close>

unbundle bit_operations_syntax

text \<open>What \<open>unicode_find_name\<close> computes: the position of the first entry that has the name among its aliases.\<close>

function aliases :: "u8 list \<Rightarrow> u8 list list" where
  "aliases e =
     takeWhile (\<lambda>b. b \<noteq> 0x2c) e # (case dropWhile (\<lambda>b. b \<noteq> 0x2c) e of [] \<Rightarrow> [] | _ # e' \<Rightarrow> aliases e')"
  by pat_completeness auto
termination
proof (relation "measure length", goal_cases)
  case (2 e x e')
  then have "length (x # e') \<le> length e" by (metis length_dropWhile_le)
  then show ?case by simp
qed simp

declare aliases.simps [simp del]

definition first_index :: "('a \<Rightarrow> bool) \<Rightarrow> 'a list \<Rightarrow> int" where
  "first_index P xs = (if \<exists>x\<in>set xs. P x then int (length (takeWhile (\<lambda>x. \<not> P x) xs)) else -1)"

lemma str_len_entry: "0 \<notin> set e \<Longrightarrow> str_len (e @ 0 # rest) = Some (length e)"
  by (induction e) auto

lemma str_chr_entry:
  "0 \<notin> set e \<Longrightarrow> c \<noteq> 0 \<Longrightarrow>
   str_chr (e @ 0 # rest) c = Some (if c \<in> set e then Some (length (takeWhile (\<lambda>b. b \<noteq> c) e)) else None)"
  by (induction e) auto

lemma find_alias_entry:
  assumes "0 \<notin> set e"
  shows "\<exists>q. find_alias name (e @ 0 # rest) = Some (name \<in> set (aliases e), q) \<and>
    (name \<notin> set (aliases e) \<longrightarrow> q = rest)"
  using assms
proof (induction e rule: aliases.induct)
  case (1 e)
  let ?w = "takeWhile (\<lambda>b. b \<noteq> 0x2c) e"
  have chr: "str_chr (e @ 0 # rest) 0x2c = Some (if 0x2c \<in> set e then Some (length ?w) else None)"
    using str_chr_entry [OF "1.prems", of "0x2c"] by simp
  show ?case
  proof (cases "dropWhile (\<lambda>b. b \<noteq> 0x2c) e")
    case Nil
    then have no: "0x2c \<notin> set e" "?w = e" by (auto simp: dropWhile_eq_Nil_conv takeWhile_eq_all_conv)
    then have al: "aliases e = [e]" by (subst aliases.simps) (simp only: Nil no list.case)
    have "find_alias name (e @ 0 # rest) = (if e = name then Some (True, e @ 0 # rest) else Some (False, rest))"
      using chr no str_len_entry [OF "1.prems"] by (subst find_alias.simps) auto
    then show ?thesis using al by auto
  next
    case (Cons x e')
    define w where "w = ?w"
    have e: "e = w @ 0x2c # e'" using Cons takeWhile_dropWhile_id [of "\<lambda>b. b \<noteq> 0x2c" e] hd_dropWhile [of "\<lambda>b. b \<noteq> 0x2c" e]
      unfolding w_def by (metis list.distinct(1) list.sel(1))
    then have yes: "0x2c \<in> set e" by simp
    have app: "e @ 0 # rest = (w @ [0x2c]) @ e' @ 0 # rest" using e by simp
    have tk: "take (length ?w) (e @ 0 # rest) = ?w" unfolding app w_def [symmetric] by simp
    have "drop (length (w @ [0x2c])) (e @ 0 # rest) = e' @ 0 # rest" unfolding app by (rule append_eq_conv_conj [THEN iffD1, THEN conjunct2, symmetric]) simp
    then have dr: "drop (length ?w + 1) (e @ 0 # rest) = e' @ 0 # rest" by (simp add: w_def)
    have al: "aliases e = ?w # aliases e'" using Cons by (simp add: aliases.simps [of e])
    have "0 \<notin> set e'" using "1.prems" e by simp
    from "1.IH" [OF Cons this] obtain q where
      q: "find_alias name (e' @ 0 # rest) = Some (name \<in> set (aliases e'), q)" "name \<notin> set (aliases e') \<longrightarrow> q = rest" by blast
    have "find_alias name (e @ 0 # rest) =
      (if ?w = name then Some (True, e @ 0 # rest) else find_alias name (e' @ 0 # rest))"
      using chr yes tk dr by (subst find_alias.simps) auto
    then show ?thesis using al q by auto
  qed
qed

lemma find_name_loop_entries:
  assumes "\<forall>e\<in>set es. e \<noteq> [] \<and> 0 \<notin> set e"
  shows "find_name_loop name (concat (map (\<lambda>e. e @ [0]) es) @ [0]) pos =
    Some (if \<exists>e\<in>set es. name \<in> set (aliases e)
          then int pos + first_index (\<lambda>e. name \<in> set (aliases e)) es else -1)"
  using assms
proof (induction es arbitrary: pos)
  case (Cons e es)
  let ?rest = "concat (map (\<lambda>e. e @ [0]) es) @ [0 :: u8]"
  obtain b e0 where b: "e = b # e0" "b \<noteq> 0" using Cons.prems by (cases e) auto
  obtain q where q: "find_alias name (e @ 0 # ?rest) = Some (name \<in> set (aliases e), q)" "name \<notin> set (aliases e) \<longrightarrow> q = ?rest"
    using find_alias_entry [of e name ?rest] Cons.prems by auto
  have "find_name_loop name (e @ 0 # ?rest) pos =
      (if name \<in> set (aliases e) then Some (int pos) else find_name_loop name ?rest (pos + 1))"
    using q b by (subst find_name_loop.simps) auto
  with Cons show ?case by (auto simp: first_index_def)
qed (simp add: find_name_loop.simps)

lemma find_name_spec:
  assumes "\<forall>nm\<in>set names. nm \<noteq> [] \<and> 0 \<notin> set (c_bytes nm)"
  shows "unicode_find_name (name_bytes names) name = Some (first_index (\<lambda>nm. name \<in> set (aliases (c_bytes nm))) names)"
proof -
  have "\<forall>e\<in>set (map c_bytes names). e \<noteq> [] \<and> 0 \<notin> set e" using assms by (auto simp: c_bytes_def)
  from find_name_loop_entries [OF this, of name 0] show ?thesis
    by (simp add: unicode_find_name_def name_bytes_def first_index_def comp_def takeWhile_map)
qed

lemma first_index_cases:
  "first_index P xs = -1 \<and> (\<forall>x\<in>set xs. \<not> P x) \<or>
   (\<exists>i<length xs. first_index P xs = int i \<and> P (xs ! i))"
proof (cases "\<exists>x\<in>set xs. P x")
  case True
  then have "length (takeWhile (\<lambda>x. \<not> P x) xs) < length xs"
    by (metis le_neq_implies_less length_takeWhile_le order_refl take_all takeWhile_eq_take takeWhile_eq_all_conv)
  moreover from this have "P (xs ! length (takeWhile (\<lambda>x. \<not> P x) xs))" by (metis nth_length_takeWhile)
  ultimately show ?thesis using True by (auto simp: first_index_def)
qed (simp add: first_index_def)

abbreviation named :: "u8 list \<Rightarrow> string \<Rightarrow> bool" where
  "named name nm \<equiv> name \<in> set (aliases (c_bytes nm))"

definition valid_names :: "string list \<Rightarrow> bool" where
  "valid_names names \<longleftrightarrow> list_all (\<lambda>nm. nm \<noteq> [] \<and> list_all (\<lambda>c. of_char c \<noteq> (0 :: u8)) nm) names"

lemma find_valid_name:
  assumes "valid_names names"
  shows "unicode_find_name (name_bytes names) name = Some (first_index (named name) names)"
  using assms by (intro find_name_spec) (auto simp: valid_names_def list_all_iff c_bytes_def)

lemma name_tables_valid: "valid_names unicode_prop_names" "valid_names unicode_gc_names" "valid_names unicode_script_names"
  by (simp_all add: valid_names_def unicode_prop_names_def unicode_gc_names_def unicode_script_names_def)

lemma enum_value_nth: "distinct names \<Longrightarrow> i < length names \<Longrightarrow> enum_value names (names ! i) = i"
proof (induction names arbitrary: i)
  case (Cons n names)
  then show ?case by (cases i) (auto simp: enum_value_def)
qed simp

lemma enums_distinct: "distinct UnicodePropertyEnum" "distinct UnicodeGCEnum"
  by (simp_all add: UnicodePropertyEnum_def UnicodeGCEnum_def)

lemma enum_lengths: "length UnicodePropertyEnum = 71" "length UnicodeGCEnum = 39"
  by (simp_all add: UnicodePropertyEnum_def UnicodeGCEnum_def)

lemma prop_indexes:
  "length unicode_prop_names = 53" "UNICODE_PROP ''ASCII_Hex_Digit'' = 16" "length unicode_prop_table = 50"
  by (simp_all add: unicode_prop_names_def UNICODE_PROP_def enum_value_def UnicodePropertyEnum_def unicode_prop_table_def)

definition special_properties :: "string list" where
  "special_properties =
     [''ASCII'', ''Any'', ''Changes_When_Uppercased'', ''Changes_When_Lowercased'', ''Changes_When_Casemapped'']"

lemma derived_properties:
  "list_all (\<lambda>nm. nm \<in> set special_properties \<or> nm \<in> set (map fst prop_programs)) (take 19 (drop 50 UnicodePropertyEnum))"
  by (simp add: UnicodePropertyEnum_def special_properties_def prop_programs_def)

context char_range_alloc begin

lemma interval_gives:
  assumes "cr_ok cr" "cr_pts cr = []" "a < b"
  shows "gives {a..<b} (Some (cr_add_interval cr a b))"
proof -
  obtain r t where t: "cr_add_interval cr a b = (r, t)" by fastforce
  have "cr_set [a, b] = {a..<b}"
    unfolding set_eq_iff in_cr_set atLeastLessThan_iff using odd_cnt_pair [of a b] assms(3) by simp
  then have "sorted [a, b] \<and> even (length [a, b]) \<and> cr_set [a, b] = {a..<b}" using assms(3) by simp
  with add_interval_ok [OF assms(1) t] t assms(2) show ?thesis
    unfolding gives_def by (metis append_Nil)
qed

lemma unicode_prop_ok:
  assumes "cr_ok cr" "cr_pts cr = []" "first_index (named name) unicode_prop_names = i"
  shows "if i < 0 then unicode_prop cr name = Some (-2, cr)
    else gives (property_set (UnicodePropertyEnum ! (nat i + 16))) (unicode_prop cr name)"
proof (cases "i < 0")
  case True
  then show ?thesis
    using find_valid_name [OF name_tables_valid(1), of name] assms(3) by (simp add: unicode_prop_def unicode_prop_name_table_def)
next
  case False
  with first_index_cases [of "named name" unicode_prop_names] assms(3) prop_indexes(1)
  have i: "nat i < 53" "0 \<le> i" by auto
  let ?nm = "UnicodePropertyEnum ! (nat i + 16)"
  have nm: "UNICODE_PROP ?nm = nat i + 16"
    using enum_value_nth [OF enums_distinct(1), of "nat i + 16"] i(1) by (simp add: UNICODE_PROP_def enum_lengths)
  have nm2: "?nm \<in> set special_properties \<or> ?nm \<in> set (map fst prop_programs)" if "\<not> nat i + 16 < 50"
  proof -
    have "take 19 (drop 50 UnicodePropertyEnum) ! (nat i - 34) = ?nm" "nat i - 34 < length (take 19 (drop 50 UnicodePropertyEnum))"
      using that i(1) by (simp_all add: enum_lengths add.commute)
    with derived_properties show ?thesis by (metis list_all_length)
  qed
  have u: "unicode_prop cr name =
     (if ?nm = ''ASCII'' then Some (cr_add_interval cr 0x00 (0x7f + 1))
      else if ?nm = ''Any'' then Some (cr_add_interval cr 0x00000 (0x10ffff + 1))
      else if ?nm = ''Changes_When_Uppercased'' then Some (unicode_case1 cr CASE_U)
      else if ?nm = ''Changes_When_Lowercased'' then Some (unicode_case1 cr CASE_L)
      else if ?nm = ''Changes_When_Casemapped'' then Some (unicode_case1 cr (CASE_U OR CASE_L OR CASE_F))
      else
        (case map_of prop_programs ?nm of
           Some ops \<Rightarrow> unicode_prop_ops cr ops
         | None \<Rightarrow>
             if nat i + 16 \<ge> 50 then Some (-2, cr) else unicode_prop1 cr (nat i + 16)))"
    using find_valid_name [OF name_tables_valid(1), of name] assms(3) i
    by (simp add: unicode_prop_def unicode_prop_name_table_def prop_indexes(2,3) Let_def)
  have ranges: "{0..0x7f} = {0..<0x7f + 1 :: u32}" "{0..0x10ffff} = {0..<0x10ffff + 1 :: u32}"
    by (auto simp: word_le_nat_alt word_less_nat_alt)
  have "CASE_U OR CASE_L OR CASE_F = (7 :: u32)" by simp
  note c = case1_ok [OF assms(1,2)]
  show ?thesis
  proof (cases "?nm \<in> set special_properties")
    case True
    then consider "?nm = ''ASCII''" | "?nm = ''Any''" | "?nm = ''Changes_When_Uppercased''"
      | "?nm = ''Changes_When_Lowercased''" | "?nm = ''Changes_When_Casemapped''"
      by (auto simp: special_properties_def)
    then show ?thesis
      using \<open>\<not> i < 0\<close> c interval_gives [OF assms(1,2)] unfolding u property_set_def by cases (simp_all add: ranges)
  next
    case False
    show ?thesis
    proof (cases "map_of prop_programs ?nm")
      case None
      then have "nat i + 16 < 50" using nm2 False by (auto simp: map_of_eq_None_iff)
      with prop1_ok [OF assms(1,2), of "nat i + 16"] None False \<open>\<not> i < 0\<close> show ?thesis
        unfolding u property_set_def nm by (simp add: prop_indexes(3) special_properties_def)
    next
      case (Some ops)
      then have "(?nm, ops) \<in> set prop_programs" by (rule map_of_SomeD)
      with programs_well_stacked obtain S where S: "pop_sets_run ops [] = Some [S]" by (auto simp: list_all_iff)
      with prop_ops_ok [OF assms(1) S] Some False \<open>\<not> i < 0\<close> show ?thesis
        unfolding u property_set_def by (simp add: special_properties_def)
    qed
  qed
qed

end

text \<open>General categories by name: the categories that an entry of the name table stands for.\<close>

definition category_members :: "nat \<Rightarrow> string list" where
  "category_members i =
     (if i < 30 then [UnicodeGCEnum ! i]
      else [[''Lu'', ''Ll'', ''Lt''], [''Lu'', ''Ll'', ''Lt'', ''Lm'', ''Lo''], [''Mn'', ''Mc'', ''Me''], [''Nd'', ''Nl'', ''No''],
            [''Sm'', ''Sc'', ''Sk'', ''So''], [''Pc'', ''Pd'', ''Ps'', ''Pe'', ''Pi'', ''Pf'', ''Po''],
            [''Zs'', ''Zl'', ''Zp''], [''Cc'', ''Cf'', ''Cs'', ''Co'', ''Cn'']] ! (i - 30))"

lemma bit_M: "bit (M nm) k \<longleftrightarrow> k = UNICODE_GC nm \<and> k < 32"
  by (auto simp: M_def bit_simps)

lemma bit_Ms: "bit (Ms nms) k \<longleftrightarrow> k < 32 \<and> (\<exists>nm\<in>set nms. k = UNICODE_GC nm)"
  by (induction nms) (auto simp: Ms_def bit_simps bit_M)

lemma gc_set_Ms:
  "gc_set (Ms nms) =
     {c. \<exists>nm\<in>set nms. UNICODE_GC nm < 32 \<and> general_category c = Some (of_nat (UNICODE_GC nm))}"
proof -
  have "bit (Ms nms) (unat v) \<longleftrightarrow> (\<exists>nm\<in>set nms. UNICODE_GC nm < 32 \<and> v = of_nat (UNICODE_GC nm))" for v :: u32
  proof -
    have "unat v = k \<longleftrightarrow> v = of_nat k" if "k < 32" for k
      using that by (auto simp: unat_of_nat take_bit_nat_eq_self)
    then show ?thesis unfolding bit_Ms by (metis (no_types, lifting))
  qed
  then show ?thesis unfolding gc_set_def drop_bit_odd by auto
qed

lemma category_masks:
  "UNICODE_GC ''Co'' = 29" "UNICODE_GC ''LC'' = 30" "length unicode_gc_names = 38"
  by (simp_all add: UnicodeGCEnum_def UNICODE_GC_def enum_value_def unicode_gc_names_def)

lemma category_mask_table: "unicode_gc_mask_table = map (\<lambda>i. Ms (category_members i)) [30..<38]"
  by (simp add: unicode_gc_mask_table_def category_members_def)

context char_range_alloc begin

lemma unicode_general_category_ok:
  assumes "cr_ok cr" "cr_pts cr = []" "first_index (named name) unicode_gc_names = i"
  shows "if i < 0 then unicode_general_category cr name = Some (-2, cr)
    else gives (gc_set (Ms (category_members (nat i)))) (unicode_general_category cr name)"
proof -
  have f: "unicode_find_name unicode_gc_name_table name = Some i"
    using find_valid_name [OF name_tables_valid(2), of name] assms(3) by (simp add: unicode_gc_name_table_def)
  show ?thesis
  proof (cases "i < 0")
    case False
    with first_index_cases [of "named name" unicode_gc_names] assms(3) category_masks(3)
    have i: "nat i < 38" "0 \<le> i" by auto
    have m: "Ms (category_members (nat i)) = ucast (push_bit (nat i) (1 :: u64))" if "nat i < 30"
    proof -
      have "UNICODE_GC (UnicodeGCEnum ! nat i) = nat i"
        using enum_value_nth [OF enums_distinct(2), of "nat i"] i(1) by (simp add: UNICODE_GC_def enum_lengths)
      with that show ?thesis by (auto intro!: bit_word_eqI simp: bit_Ms category_members_def bit_simps)
    qed
    have "(if nat i \<le> UNICODE_GC ''Co'' then Some (ucast (push_bit (nat i) (1 :: u64)))
            else rd unicode_gc_mask_table (nat i - UNICODE_GC ''LC'')) = Some (Ms (category_members (nat i)))"
      using m i(1) by (auto simp: category_masks(1,2) category_mask_table less_Suc_eq_le rd_def simp del: upt_rec_numeral)
    with f False gc1_ok [OF assms(1,2)] show ?thesis by (simp add: unicode_general_category_def)
  qed (use f in \<open>simp add: unicode_general_category_def\<close>)
qed

end

text \<open>
  Scripts: the code points of a script, and those that have it among their script extensions
  (for Common and Inherited: that have no extensions).
\<close>

definition script_set :: "nat \<Rightarrow> bool \<Rightarrow> u32 set" where
  "script_set s is_ext =
     (let S = {c. script_of c = Some (of_nat s)};
          X = {c. \<exists>vs. script_extensions c = Some vs \<and> (\<exists>v\<in>set vs. ucast v = (of_nat s :: u32))};
          N = {c. \<exists>vs. script_extensions c = Some vs \<and> vs \<noteq> []} in
      if \<not> is_ext then S
      else if s = UNICODE_SCRIPT ''Common'' \<or> s = UNICODE_SCRIPT ''Inherited'' then S - N - {UINT32_MAX}
      else S \<union> X)"

lemma single_inside: "\<forall>v c0 c1. ivs v c0 c1 = [] \<or> ivs v c0 c1 = [(c0, c1)] \<Longrightarrow> inside_runs ivs"
  unfolding inside_runs_def
proof (intro allI impI)
  fix v c0 c1 assume "\<forall>v c0 c1. ivs v c0 c1 = [] \<or> ivs v c0 c1 = [(c0, c1)]" "c0 < (c1 :: u32)"
  then have "ivs v c0 c1 = [] \<or> ivs v c0 c1 = [(c0, c1)]" "c0 \<le> c1" by auto
  then show "sorted (unpairs (ivs v c0 c1)) \<and> (\<forall>x\<in>set (unpairs (ivs v c0 c1)). c0 \<le> x \<and> x \<le> c1)"
    by auto
qed

lemma script_inside: "inside_runs (script_intervals s)" "inside_runs (script_ext_intervals common s)"
  by (rule single_inside, simp add: script_intervals_def script_ext_intervals_def)+

lemma run_set:
  assumes "unat (0 :: u32) + run_lengths gs < 2 ^ 32"
    and "\<And>v c0 c1. ivs v c0 c1 = (if P v then [(c0, c1)] else [])"
  shows "{c. case run_at c 0 gs of None \<Rightarrow> False | Some (v, c0, c1) \<Rightarrow> odd (cnt c (unpairs (ivs v c0 c1)))} =
    {c. \<exists>v. map_option fst (run_at c 0 gs) = Some v \<and> P v}"
proof (rule Collect_cong)
  fix c
  show "(case run_at c 0 gs of None \<Rightarrow> False | Some (v, c0, c1) \<Rightarrow> odd (cnt c (unpairs (ivs v c0 c1)))) \<longleftrightarrow>
    (\<exists>v. map_option fst (run_at c 0 gs) = Some v \<and> P v)"
  proof (cases "run_at c 0 gs")
    case (Some x)
    obtain v c0 c1 where x: "x = (v, c0, c1)" by (cases x)
    from run_at_bounds [OF Some [unfolded x] assms(1)] have "c0 \<le> c" "c < c1" by simp_all
    then have "odd (cnt c (unpairs [(c0, c1)]))" by (simp add: odd_cnt_pair not_le)
    with Some x show ?thesis by (simp add: assms(2))
  qed simp
qed

context char_range_alloc begin

lemma script_loop_gives:
  assumes "cr_ok cr" "cr_pts cr = []"
  shows "gives {c. script_of c = Some s} (group_loop script_read (script_intervals s) cr unicode_script_table 0)"
proof -
  obtain gs where gs: "groups script_read unicode_script_table = Some gs" "run_lengths gs = 918000" "\<forall>g\<in>set gs. fst g \<noteq> 0"
    by (rule table_facts [OF script_total script_steps])
  have b: "unat (0 :: u32) + run_lengths gs < 2 ^ 32" using gs(2) by simp
  have "{c. script_of c = Some s} = {c. \<exists>v. map_option fst (run_at c 0 gs) = Some v \<and> v = s}"
    using gs(1) by (auto simp: script_of_def)
  with group_loop_ok [OF assms gs(1) _ gs(3) script_inside(1), of s] b
    run_set [OF b, of "script_intervals s" "\<lambda>v. v = s"]
  show ?thesis by (simp add: script_intervals_def)
qed

lemma script_ext_loop_gives:
  assumes "cr_ok cr" "cr_pts cr = []"
  shows "gives {c. \<exists>vs. script_extensions c = Some vs \<and> (if common then vs \<noteq> [] else \<exists>v\<in>set vs. ucast v = s)}
    (group_loop script_ext_read (script_ext_intervals common s) cr unicode_script_ext_table 0)"
proof -
  obtain gs where gs: "groups script_ext_read unicode_script_ext_table = Some gs" "run_lengths gs = 1114112" "\<forall>g\<in>set gs. fst g \<noteq> 0"
    by (rule table_facts [OF script_ext_total script_ext_steps])
  have b: "unat (0 :: u32) + run_lengths gs < 2 ^ 32" using gs(2) by simp
  have "script_ext_intervals common s vs c0 c1 =
      (if (if common then vs \<noteq> [] else \<exists>v\<in>set vs. ucast v = s) then [(c0, c1)] else [])" for vs c0 c1
    by (simp add: script_ext_intervals_def)
  from run_set [OF b this] group_loop_ok [OF assms gs(1) _ gs(3) script_inside(2), of common s] b gs(1)
  show ?thesis by (simp add: script_extensions_def)
qed

end

end
