(* ===== verification/RegexpCanon.thy ===== *)
theory RegexpCanon
  imports CaseConv
begin


text \<open>
  libunicode.c: \<open>cr_regexp_canonicalize\<close>, the canonicalization of a character class of a
  case-insensitive regular expression.  With an allocator that does not fail, the new range is
  the image of the old one under \<open>lre_canonicalize\<close>, the function the matcher applies to the
  characters of the subject.
\<close>

unbundle bit_operations_syntax

subsection \<open>The code\<close>

text \<open>The \<open>for(;;)\<close> that advances \<open>idx\<close> to the entry of \<open>c\<close>; \<open>None\<close> is the failed assertion.\<close>

function scan_idx :: "u32 \<Rightarrow> nat \<Rightarrow> nat option" where
  "scan_idx c idx =
     (if idx < length case_conv_table1 then
        let v = case_conv_table1 ! idx; code = cc_code v; len = cc_len v in
        if c \<ge> code \<and> c < code + len then Some idx else scan_idx c (idx + 1)
      else None)"
  by pat_completeness auto
termination by (relation "measure (\<lambda>(c, idx). length case_conv_table1 - idx)") auto

declare scan_idx.simps [simp del]

text \<open>The variables of the loop: \<open>idx\<close>, \<open>d_start\<close>, \<open>d_end\<close> and \<open>cr_result\<close>.\<close>

type_synonym canon_state = "nat \<times> u32 \<times> u32 \<times> char_range"

definition canon_char :: "bool \<Rightarrow> u32 \<Rightarrow> canon_state \<Rightarrow> canon_state option" where
  "canon_char is_unicode c st =
     (case st of (idx, d_start, d_end, cr_result) \<Rightarrow>
        do {
          idx \<leftarrow> scan_idx c idx;
          d \<leftarrow> lre_case_folding_entry c idx (case_conv_table1 ! idx) is_unicode;
          Some (if d_start = -1 then (idx, d, d + 1, cr_result)
                else if d_end = d then (idx, d_start, d_end + 1, cr_result)
                else (idx, d, d + 1, snd (cr_add_interval cr_result d_start d_end)))
        })"

function canon_run :: "bool \<Rightarrow> u32 \<Rightarrow> u32 \<Rightarrow> canon_state \<Rightarrow> canon_state option" where
  "canon_run is_unicode c e st =
     (if c < e then
        (case canon_char is_unicode c st of
           None \<Rightarrow> None
         | Some st \<Rightarrow> canon_run is_unicode (c + 1) e st)
      else Some st)"
  by pat_completeness auto
termination
proof (relation "measure (\<lambda>(u, c, e, st). unat e - unat c)", goal_cases)
  case (2 u c e st st')
  then have "unat (c + 1) = unat c + 1" "unat c < unat e"
    using unsigned_less [of e, where 'a = nat]
    by (simp_all add: word_less_nat_alt unat_add_lem [THEN iffD1])
  then show ?case by simp
qed simp

declare canon_run.simps [simp del]

fun canon_points :: "bool \<Rightarrow> u32 list \<Rightarrow> canon_state \<Rightarrow> canon_state option" where
  "canon_points is_unicode [] st = Some st"
| "canon_points is_unicode [s] st = None"
| "canon_points is_unicode (s # e # pts) st =
     (case canon_run is_unicode s e st of None \<Rightarrow> None | Some st \<Rightarrow> canon_points is_unicode pts st)"

definition cr_regexp_canonicalize :: "char_range \<Rightarrow> bool \<Rightarrow> (int \<times> char_range) option" where
  "cr_regexp_canonicalize cr is_unicode =
     (let f = cr_realloc_func cr in
      case unicode_case1 (cr_init f) (if is_unicode then CASE_F else CASE_U) of (r, cr_mask) \<Rightarrow>
      if r \<noteq> 0 then Some (-1, cr) else
      case cr_op (cr_init f) (cr_pts cr_mask) (cr_pts cr) CR_OP_INTER of (r, cr_inter) \<Rightarrow>
      if r \<noteq> 0 then Some (-1, cr) else
      case cr_invert cr_mask of (r, cr_mask) \<Rightarrow>
      if r \<noteq> 0 then Some (-1, cr) else
      case cr_op (cr_init f) (cr_pts cr_mask) (cr_pts cr) CR_OP_INTER of (r, cr_sub) \<Rightarrow>
      if r \<noteq> 0 then Some (-1, cr) else
      do {
        st \<leftarrow> canon_points is_unicode (cr_pts cr_inter) (0, -1, -1, cr_init f);
        case st of (idx, d_start, d_end, cr_result) \<Rightarrow>
        (case (if d_start \<noteq> -1 then cr_add_interval cr_result d_start d_end else (0, cr_result)) of (r, cr_result) \<Rightarrow>
         if r \<noteq> 0 then Some (-1, cr)
         else do {
           cr_result \<leftarrow> cr_sort_and_remove_overlap cr_result;
           case cr_op (cr\<lparr>cr_len := 0\<rparr>) (cr_pts cr_result) (cr_pts cr_sub) CR_OP_UNION of
             (r, cr) \<Rightarrow> Some (if r \<noteq> 0 then -1 else 0, cr)
         })
      })"

subsection \<open>Results of the conversions are small\<close>

lemma unat_plus_le: "unat (x + y) \<le> unat x + unat (y :: u32)"
  unfolding unat_word_ariths by simp

lemma ext_at_small: "ext_at w = Some e \<Longrightarrow> unat e < 65536"
  using unsigned_less [of "case_conv_ext ! unat w", where 'a = nat]
  by (auto simp: ext_at_def rd_def unsigned_ucast_eq take_bit_nat_eq_self split: if_splits)

lemma cc_code_small: "unat (cc_code v) < 131072"
  using unsigned_less [of v, where 'a = nat] by (simp add: unat_cc_code less_mult_imp_div_less)

lemma unat_xor_1: "unat ((a :: u32) XOR 1) \<le> unat a + 1"
proof -
  have "unat (a XOR 1) = unat a XOR unat (1 :: u32)" by (rule unsigned_xor_eq)
  also have "\<dots> = unat a XOR 1" by simp
  also have "\<dots> \<le> unat a + 1" by (simp only: xor_one_eq) auto
  finally show ?thesis .
qed

lemma conv_entry_small:
  assumes "in_entry i c" "conv_type \<le> 2" "lre_case_conv_entry c conv_type i (case_conv_table1 ! i) = Some [x]"
  shows "unat x < 2 ^ 18"
proof -
  obtain code len t data where e: "cc_entries ! i = (code, len, t, data)" by (cases "cc_entries ! i") auto
  have i: "i < 370" "code \<le> unat c" "unat c < code + len" using assms(1) e by (auto simp: in_entry_def)
  note f = entry_fields [OF i(1) e]
  note ok = entry_ok_nth [OF i(1), unfolded e entry_ok_def, simplified]
  let ?v = "case_conv_table1 ! i" and ?d = "cc_data (case_conv_table1 ! i) (case_conv_table2 ! i)"
  have uc: "unat (of_nat code :: u32) = code" using f(6) by (simp add: unat_of_nat take_bit_nat_eq_self)
  have ua: "unat (c - of_nat code) = unat c - code" using i(2) uc by (simp add: unat_sub word_le_nat_alt)
  have c: "unat c < 131072" using entry_bound [OF i(1)] e i by simp
  have add: "unat (c - of_nat code + y) < 2 ^ 18" if "unat y < 131072" for y
    using unat_plus_le [of "c - of_nat code" y] ua c that by simp
  note S = lre_case_conv_entry.simps [of c _ i ?v] f(1,3,4) Let_def bind_eq_Some_conv
  have n21: "\<not> (2 :: u32) \<le> 1" by (simp add: word_le_nat_alt)
  have ct: "conv_type = 0 \<or> conv_type = 1 \<or> conv_type = 2" using assms(2) by auto
  have "t = 0 \<or> t = 1 \<or> t = 2 \<or> t = 3 \<or> t = 4 \<or> t = 5 \<or> t = 6 \<or> t = 7 \<or> t = 8 \<or> t = 9 \<or> t = 10 \<or> t = 11 \<or> t = 12 \<or> t = 13"
    using f(7) by presburger
  then consider "t \<le> 3" | "t = 4" | "t = 5" | "t = 6" | "t = 7" | "t = 8" | "9 \<le> t" by linarith
  then show ?thesis
  proof cases
    case 1
    then have d: "data < 370" using entry_target [OF i(1) e] by auto
    consider "t = 0" | "t = 1" | "t = 2" | "t = 3" using 1 by linarith
    then have "x = c \<or> x = c - of_nat code + cc_code (case_conv_table1 ! data)"
      using ct d f(2) n21 assms(3) by cases (auto simp: S split: if_splits)
    with add [OF cc_code_small] c show ?thesis by auto
  next
    case 2
    then have "x = c \<or> x = ((c - of_nat code) XOR 1) + of_nat code"
      using ct assms(3) by (auto simp: S split: if_splits)
    moreover have "unat (((c - of_nat code) XOR 1) + of_nat code) < 2 ^ 18"
      using unat_plus_le [of "(c - of_nat code) XOR 1" "of_nat code"] unat_xor_1 [of "c - of_nat code"] ua uc c i(2) by simp
    ultimately show ?thesis using c by auto
  next
    case 3
    have "c - of_nat code = 1 \<longleftrightarrow> unat c - code = 1" "c - of_nat code = 2 \<longleftrightarrow> unat c - code = 2"
      "c - of_nat code = 0 \<longleftrightarrow> unat c - code = 0"
      unfolding ua [symmetric] by (simp_all only: word_unat_eq_iff) simp_all
    then have "x = c \<or> x = c + 1 \<or> x = c + 2 \<or> (x = c - 1 \<and> 1 \<le> unat c) \<or> (x = c - 2 \<and> 2 \<le> unat c)"
      using ct assms(3) by (auto simp: S 3 split: if_splits)
    moreover have "unat (c + 1) < 2 ^ 18" "unat (c + 2) < 2 ^ 18"
      using unat_plus_le [of c 1] unat_plus_le [of c 2] c by simp_all
    moreover have "1 \<le> unat c \<Longrightarrow> unat (c - 1) < 2 ^ 18" "2 \<le> unat c \<Longrightarrow> unat (c - 2) < 2 ^ 18"
      using c by (simp_all add: unat_sub word_le_nat_alt)
    ultimately show ?thesis using c by auto
  next
    case 4
    then obtain y where "x = c - of_nat code + y" "unat y < 65536"
      using ct assms(3) by (auto simp: S split: if_splits dest: ext_at_small)
    then show ?thesis using add [of y] by simp
  next
    case 5
    then have "x = c \<or> x = ?d \<or> x = ?d + 32" using ct assms(3) by (auto simp: S split: if_splits)
    moreover have "unat (?d + 32) < 2 ^ 18" using unat_plus_le [of ?d 32] f(2,5) by simp
    ultimately show ?thesis using c f(2,5) by auto
  next
    case 6
    then have "x = c \<or> (\<exists>y. unat y < 65536 \<and> (x = y \<or> x = y + 1))"
      using ct assms(3) by (auto simp: S split: if_splits dest: ext_at_small)
    moreover have "unat y < 65536 \<Longrightarrow> unat (y + 1) < 2 ^ 18" for y :: u32 using unat_plus_le [of y 1] by simp
    ultimately show ?thesis using c by auto
  next
    case 7
    then have "t = 9 \<or> t = 10 \<or> t = 11 \<or> t = 12 \<or> t = 13" using f(7) by presburger
    then have "x = c \<or> unat x < 65536"
      using ct assms(3) by (elim disjE; auto simp: S split: if_splits dest: ext_at_small)
    then show ?thesis using c by auto
  qed
qed

lemma folding_entry:
  assumes "in_entry i c"
  shows "\<exists>d. lre_case_folding_entry c i (case_conv_table1 ! i) u = Some d \<and> unat d < 2 ^ 18"
proof -
  obtain code len t data where e: "cc_entries ! i = (code, len, t, data)" by (cases "cc_entries ! i") auto
  have c: "unat c < 2 ^ 18" using assms entry_bound [of i] by (auto simp: in_entry_def)
  have low: "97 \<le> c \<Longrightarrow> unat (c - 97 + 65) < 2 ^ 18"
    using unat_plus_le [of "c - 97" 65] c by (simp add: unat_sub word_le_nat_alt)
  have "\<exists>r. lre_case_conv_entry c ct i (case_conv_table1 ! i) = Some r \<and> r \<noteq> [] \<and> (\<forall>x. r = [x] \<longrightarrow> unat x < 2 ^ 18)"
    if "ct \<le> 2" for ct
    using conv_entry_spec [OF assms e that] conv_entry_small [OF assms that] by blast
  from this [of 0] this [of 2] show ?thesis
    using c low by (cases u) (auto simp: lre_case_folding_entry_def length_Suc_conv)
qed

subsection \<open>Advancing in the table\<close>

lemma table_entry_at:
  assumes "idx < 370"
  shows "c \<ge> cc_code (case_conv_table1 ! idx) \<and>
    c < cc_code (case_conv_table1 ! idx) + cc_len (case_conv_table1 ! idx) \<longleftrightarrow> in_entry idx c"
  using cc_compare [OF assms, of c] assms by (auto simp: in_entry_def not_le not_less)

lemma scan_idx_found:
  assumes "in_entry j c" "idx \<le> j"
  shows "scan_idx c idx = Some j"
  using assms(2)
proof (induction "j - idx" arbitrary: idx)
  case 0
  then show ?case using assms(1) table_entry_at [of j c]
    by (subst scan_idx.simps) (auto simp: Let_def length_cc in_entry_def)
next
  case (Suc k)
  then have idx: "idx < j" "idx < 370" using assms(1) by (auto simp: in_entry_def)
  then have "\<not> in_entry idx c" using in_entry_unique [OF assms(1)] by blast
  moreover have "scan_idx c (idx + 1) = Some j" using Suc.hyps(1) [of "idx + 1"] Suc.hyps(2) idx by simp
  ultimately show ?case using table_entry_at [OF idx(2), of c] idx
    by (subst scan_idx.simps) (auto simp: Let_def)
qed

lemma entries_ascend: "in_entry i c \<Longrightarrow> in_entry j c' \<Longrightarrow> c \<le> c' \<Longrightarrow> i \<le> j"
proof (rule ccontr)
  assume a: "in_entry i c" "in_entry j c'" "c \<le> c'" "\<not> i \<le> j"
  then show False
    using ranges_sorted_nth [OF cc_entries_sorted, of j i] by (auto simp: in_entry_def word_le_nat_alt)
qed

subsection \<open>The loop collects the image\<close>

lemma covers_simps [simp]:
  "covers [] = {}" "covers (ps @ qs) = covers ps \<union> covers qs" "covers [(s, e)] = {s..<e}"
  by (auto simp: covers_def)

definition current :: "u32 \<Rightarrow> u32 \<Rightarrow> (u32 \<times> u32) list" where
  "current d_start d_end = (if d_start = -1 then [] else [(d_start, d_end)])"

text \<open>The characters with an entry, and what the loop adds for one of them.\<close>

definition folded :: "bool \<Rightarrow> u32 \<Rightarrow> u32" where
  "folded u c = the (lre_case_folding_entry c (fst (the (cc_find c))) (case_conv_table1 ! fst (the (cc_find c))) u)"

definition has_entry :: "u32 \<Rightarrow> bool" where
  "has_entry c \<longleftrightarrow> (\<exists>i. in_entry i c)"

definition before :: "nat \<Rightarrow> u32 \<Rightarrow> bool" where
  "before idx c \<longleftrightarrow> (\<forall>c' j. c \<le> c' \<longrightarrow> in_entry j c' \<longrightarrow> idx \<le> j)"

context char_range_alloc begin

text \<open>The state after some characters: the intervals so far are not empty, and cover \<open>S\<close>.\<close>

definition canon_inv :: "canon_state \<Rightarrow> u32 set \<Rightarrow> bool" where
  "canon_inv st S \<longleftrightarrow>
     (case st of (idx, d_start, d_end, res) \<Rightarrow>
        cr_ok res \<and> even (length (cr_pts res)) \<and>
        (d_start \<noteq> -1 \<longrightarrow> d_start < d_end \<and> unat d_end \<le> 2 ^ 18) \<and>
        (\<forall>(s, e)\<in>set (pairs (cr_pts res)). s < e) \<and>
        covers (pairs (cr_pts res)) \<union> covers (current d_start d_end) = S)"

lemma add_interval_total:
  assumes "\<And>b n. realloc b n \<noteq> None" "cr_ok cr"
  shows "fst (cr_add_interval cr a b) = 0"
  using assms by (auto simp: cr_add_interval_def cr_realloc_def cr_ok_def Let_def simp del: not_None_eq split: option.splits)

lemma pairs_append: "even (length xs) \<Longrightarrow> pairs (xs @ ys) = pairs xs @ pairs ys"
  by (induction xs rule: pairs.induct) auto

lemma small_succ:
  assumes "unat (d :: u32) < 2 ^ 18"
  shows "unat (d + 1) = unat d + 1" "d \<noteq> -1" "d < d + 1" "{d..<d + 1} = {d}"
proof -
  show u: "unat (d + 1) = unat d + 1" using assms by (subst unat_add_lem [THEN iffD1]) auto
  show "d \<noteq> -1"
  proof
    assume "d = -1"
    then have "unat (d + 1) = 0" by simp
    with u show False by simp
  qed
  show "d < d + 1" using u by (simp add: word_less_nat_alt)
  show "{d..<d + 1} = {d}" using u by (auto simp: word_less_nat_alt word_le_nat_alt word_unat_eq_iff)
qed

lemma canon_char_inv:
  assumes "\<And>b n. realloc b n \<noteq> None" "canon_inv (idx, ds, de, res) S" "in_entry j c" "idx \<le> j"
    "lre_case_folding_entry c j (case_conv_table1 ! j) u = Some d" "unat d < 2 ^ 18"
  obtains st where "canon_char u c (idx, ds, de, res) = Some (j, st)" "canon_inv (j, st) (insert d S)"
proof -
  note d = small_succ [OF assms(6)]
  have inv: "cr_ok res" "even (length (cr_pts res))" "ds \<noteq> -1 \<Longrightarrow> ds < de \<and> unat de \<le> 2 ^ 18"
    "\<forall>(s, e)\<in>set (pairs (cr_pts res)). s < e" "covers (pairs (cr_pts res)) \<union> covers (current ds de) = S"
    using assms(2) by (auto simp: canon_inv_def)
  have sc: "scan_idx c idx = Some j" using assms(3,4) by (rule scan_idx_found)
  have one: "covers (current d (d + 1)) = {d}" using d by (simp add: current_def)
  consider "ds = -1" | "ds \<noteq> -1" "de = d" | "ds \<noteq> -1" "de \<noteq> d" by blast
  then show thesis
  proof cases
    case 1
    show thesis
    proof (rule that [of "(d, d + 1, res)"])
      show "canon_char u c (idx, ds, de, res) = Some (j, d, d + 1, res)"
        using 1 sc assms(5) by (simp add: canon_char_def)
      have "covers (pairs (cr_pts res)) = S" using inv(5) 1 by (simp add: current_def)
      then show "canon_inv (j, d, d + 1, res) (insert d S)"
        using inv one d assms(6) by (simp add: canon_inv_def)
    qed
  next
    case 2
    show thesis
    proof (rule that [of "(ds, d + 1, res)"])
      show "canon_char u c (idx, ds, de, res) = Some (j, ds, d + 1, res)"
        using 2 sc assms(5) by (simp add: canon_char_def)
      have "{ds..<d + 1} = insert d {ds..<d}" using inv(3) [OF 2(1)] 2(2) d(1)
        by (auto simp: word_less_nat_alt word_le_nat_alt word_unat_eq_iff)
      then have "covers (current ds (d + 1)) = insert d (covers (current ds de))" using 2 by (simp add: current_def)
      moreover have "ds < d + 1" using inv(3) [OF 2(1)] 2(2) d(3) by (metis less_trans)
      ultimately show "canon_inv (j, ds, d + 1, res) (insert d S)"
        using inv d(1) 2 assms(6) by (auto simp: canon_inv_def)
    qed
  next
    case 3
    obtain res' where a: "cr_add_interval res ds de = (0, res')"
      using add_interval_total [OF assms(1) inv(1), of ds de] by (metis prod.collapse)
    from add_interval_ok [OF inv(1) a] have r: "cr_ok res'" "cr_pts res' = cr_pts res @ [ds, de]" by auto
    then have p: "pairs (cr_pts res') = pairs (cr_pts res) @ [(ds, de)]" using inv(2) by (simp add: pairs_append)
    show thesis
    proof (rule that [of "(d, d + 1, res')"])
      show "canon_char u c (idx, ds, de, res) = Some (j, d, d + 1, res')"
        using 3 sc assms(5) a by (simp add: canon_char_def)
      have "covers (pairs (cr_pts res')) = S" using inv(5) 3 p by (simp add: current_def)
      then show "canon_inv (j, d, d + 1, res') (insert d S)"
        using inv r p one d assms(6) 3 by (auto simp: canon_inv_def)
    qed
  qed
qed

lemma canon_run_inv:
  assumes "\<And>b n. realloc b n \<noteq> None" "canon_inv st S" "before (fst st) c" "\<forall>x. c \<le> x \<and> x < e \<longrightarrow> has_entry x"
  shows "\<exists>st'. canon_run u c e st = Some st' \<and> canon_inv st' (S \<union> folded u ` {c..<e}) \<and> before (fst st') (max c e)"
  using assms(2-)
proof (induction u c e st arbitrary: S rule: canon_run.induct)
  case (1 u c e st)
  show ?case
  proof (cases "c < e")
    case True
    obtain idx ds de res where st: "st = (idx, ds, de, res)" by (cases st)
    from "1.prems"(3) True obtain j where j: "in_entry j c" by (auto simp: has_entry_def)
    have idx: "idx \<le> j" using "1.prems"(2) j unfolding before_def st by auto
    from folding_entry [OF j, of u] obtain d where d: "lre_case_folding_entry c j (case_conv_table1 ! j) u = Some d" "unat d < 2 ^ 18"
      by blast
    have fd: "folded u c = d" using j d(1) cc_find_Some [of c j "case_conv_table1 ! j"] by (simp add: folded_def)
    from canon_char_inv [OF assms(1) "1.prems"(1) [unfolded st] j idx d] obtain st1 where
      s1: "canon_char u c st = Some (j, st1)" "canon_inv (j, st1) (insert d S)" unfolding st by blast
    have u1: "unat (c + 1) = unat c + 1" using True unsigned_less [of e, where 'a = nat]
      by (subst unat_add_lem [THEN iffD1]) (auto simp: word_less_nat_alt)
    have "before (fst (j, st1)) (c + 1)"
      unfolding before_def
    proof (intro allI impI)
      fix c' k assume "c + 1 \<le> c'" "in_entry k c'"
      moreover from this u1 have "c \<le> c'" by (simp add: word_le_nat_alt)
      ultimately show "fst (j, st1) \<le> k" using entries_ascend [OF j] by simp
    qed
    moreover have "\<forall>x. c + 1 \<le> x \<and> x < e \<longrightarrow> has_entry x"
      using "1.prems"(3) u1 by (auto simp: word_le_nat_alt)
    ultimately obtain st' where st': "canon_run u (c + 1) e (j, st1) = Some st'"
      "canon_inv st' (insert d S \<union> folded u ` {c + 1..<e})" "before (fst st') (max (c + 1) e)"
      using "1.IH" [OF True s1(1) s1(2)] by blast
    have "{c..<e} = insert c {c + 1..<e}" using True u1 by (auto simp: word_less_nat_alt word_le_nat_alt word_unat_eq_iff)
    then have "insert d S \<union> folded u ` {c + 1..<e} = S \<union> folded u ` {c..<e}" using fd by auto
    moreover have "max (c + 1) e = max c e" using True u1 by (auto simp: max_def word_less_nat_alt word_le_nat_alt)
    ultimately show ?thesis using st' True s1(1) by (simp add: canon_run.simps [of u c e st])
  next
    case False
    have "canon_run u c e st = Some st" by (subst canon_run.simps) (simp only: False if_False)
    moreover have "max c e = c" "{c..<e} = {}" using False by (simp_all add: max_def not_less)
    ultimately show ?thesis using "1.prems" by simp
  qed
qed

lemma before_mono: "before idx c \<Longrightarrow> c \<le> c' \<Longrightarrow> before idx c'"
  by (auto simp: before_def intro: order_trans)

lemma canon_points_inv:
  assumes "\<And>b n. realloc b n \<noteq> None" "canon_inv st S" "sorted pts" "even (length pts)"
    "pts \<noteq> [] \<Longrightarrow> before (fst st) (hd pts)" "\<forall>x\<in>covers (pairs pts). has_entry x"
  shows "\<exists>st'. canon_points u pts st = Some st' \<and> canon_inv st' (S \<union> folded u ` covers (pairs pts))"
  using assms(2-)
proof (induction u pts st arbitrary: S rule: canon_points.induct)
  case (3 u s e pts st)
  have cov: "covers (pairs (s # e # pts)) = {s..<e} \<union> covers (pairs pts)" by (auto simp: covers_def)
  have "s \<le> e" using "3.prems"(2) by simp
  from canon_run_inv [OF assms(1) "3.prems"(1), of s e u] "3.prems"(4,5) cov obtain st1 where
    s1: "canon_run u s e st = Some st1" "canon_inv st1 (S \<union> folded u ` {s..<e})" "before (fst st1) (max s e)" by auto
  have "before (fst st1) (hd pts)" if "pts \<noteq> []"
    using s1(3) \<open>s \<le> e\<close> that "3.prems"(2) by (cases pts) (auto simp: max_def intro: before_mono)
  with "3.IH" [OF s1(1,2)] "3.prems" cov obtain st' where "canon_points u pts st1 = Some st'"
    "canon_inv st' (S \<union> folded u ` {s..<e} \<union> folded u ` covers (pairs pts))" by auto
  with s1(1) show ?case unfolding cov image_Un by (simp add: Un_assoc)
qed simp_all

subsection \<open>The allocations do not fail\<close>

lemma fst_zero: "fst x = (0 :: int) \<Longrightarrow> \<exists>y. x = (0, y)"
  by (cases x) simp

lemma realloc_total: "(\<And>b n. realloc b n \<noteq> None) \<Longrightarrow> cr_ok cr \<Longrightarrow> fst (cr_realloc cr n) = 0"
  by (auto simp: cr_realloc_def cr_ok_def Let_def simp del: not_None_eq split: option.splits)

lemma add_intervals_total:
  assumes "\<And>b n. realloc b n \<noteq> None" "cr_ok cr"
  shows "fst (add_intervals cr ivs) = 0"
  using assms(2)
proof (induction cr ivs rule: add_intervals.induct)
  case (2 cr a b ivs)
  obtain t where t: "cr_add_interval cr a b = (0, t)"
    using add_interval_total [OF assms(1) 2(2), of a b] by (metis prod.collapse)
  from add_interval_ok [OF 2(2) t] 2(1) t show ?case by simp
qed simp

lemma op_loop_total:
  assumes "\<And>b n. realloc b n \<noteq> None" "cr_ok cr"
  shows "fst (cr_op_loop cr a i b j op) = 0"
  using assms(2)
proof (induction cr a i b j op rule: cr_op_loop.induct)
  case (1 cr a i b j op)
  show ?case
  proof (cases "next_point a i b j")
    case None
    then show ?thesis by (simp add: cr_op_loop.simps [of cr])
  next
    case (Some x)
    obtain v i' j' where x: "x = (v, i', j')" by (cases x)
    show ?thesis
    proof (cases "op_in op (odd i') (odd j') \<noteq> odd (cr_len cr)")
      case True
      obtain t0 where "cr_realloc cr (cr_len cr + 1) = (0, t0)"
        using fst_zero [OF realloc_total [OF assms(1) "1.prems"]] by blast
      then obtain t where t: "cr_add_point cr v = (0, t)" by (cases "cr_len cr \<ge> cr_size cr") (simp_all add: cr_add_point_def)
      from add_point_ok [OF "1.prems" t] have "cr_ok t" by simp
      with "1.IH"(1) [OF Some, of v "(i', j')" i' j' 0 t] show ?thesis
        using Some x True t by (simp add: cr_op_loop.simps [of cr])
    next
      case False
      with "1.IH"(2) [OF Some, of v "(i', j')" i' j'] "1.prems" Some x show ?thesis by (simp add: cr_op_loop.simps [of cr])
    qed
  qed
qed

lemma op_total:
  assumes "\<And>b n. realloc b n \<noteq> None" "cr_ok cr"
  shows "fst (cr_op cr a b op) = 0"
  using fst_zero [OF op_loop_total [OF assms, of a 0 b 0 op]] by (auto simp: cr_op_def)

lemma invert_total:
  assumes "\<And>b n. realloc b n \<noteq> None" "cr_ok cr"
  shows "fst (cr_invert cr) = 0"
  using fst_zero [OF realloc_total [OF assms, of "cr_len cr + 2"]] by (auto simp: cr_invert_def Let_def)

lemma case1_total:
  assumes "\<And>b n. realloc b n \<noteq> None" "cr_ok cr"
  shows "fst (unicode_case1 cr m) = 0"
  using add_intervals_total [OF assms] by (simp add: unicode_case1_def)

end

subsection \<open>The conversion of the characters of the mask, and of the others\<close>

lemma separated_pairs: "sorted_wrt (<) pts \<Longrightarrow> even (length pts) \<Longrightarrow> separated (pairs pts) \<and> fst ` set (pairs pts) \<subseteq> set pts"
  by (induction pts rule: pairs.induct) (auto simp: separated_def)

lemma canonical_covers: "canonical pts \<Longrightarrow> covers (pairs pts) = cr_set pts"
  using separated_canonical [of "pairs pts"] separated_pairs [of pts] by (simp add: canonical_def)

lemma changed_has_entry:
  assumes "conv_type \<le> 2" "lre_case_conv c conv_type \<noteq> Some [c]"
  shows "has_entry c"
  using assms changed_iff [OF assms(1)] by (auto simp: changed_by_def has_entry_def)

lemma folding_ascii:
  assumes "c < 128" "in_entry i c"
  shows "lre_case_folding_entry c i (case_conv_table1 ! i) u = lre_canonicalize c u"
proof (cases u)
  case True
  obtain code len t data where e: "cc_entries ! i = (code, len, t, data)" by (cases "cc_entries ! i") auto
  have i: "i < 370" using assms(2) by (simp add: in_entry_def)
  note f = entry_fields [OF i e]
  consider "i = 0" "65 \<le> c" "c \<le> 90" | "i = 1" "97 \<le> c" "c \<le> 122"
    using in_entry_ascii [OF assms] assms(2) by (auto simp: in_entry_def first_entries word_le_nat_alt)
  then show ?thesis
  proof cases
    case 1
    then have "code = 65" "t = 3" "data = 1" using e by (simp_all add: first_entries)
    moreover have "cc_code (case_conv_table1 ! Suc 0) = 97" by code_simp
    ultimately show ?thesis using True 1 f assms(1)
      by (simp add: lre_case_folding_entry_def lre_case_conv_entry.simps lre_canonicalize_def)
  next
    case 2
    then have "code = 97" "t = 0" "data = 0" using e by (simp_all add: first_entries)
    moreover have "\<not> c \<le> 90" using 2 by (auto simp: word_le_nat_alt)
    ultimately show ?thesis using True 2 f assms(1)
      by (simp add: lre_case_folding_entry_def lre_case_conv_entry.simps lre_canonicalize_def)
  qed
next
  case False
  with assms(1) show ?thesis by (simp add: lre_case_folding_entry_def lre_canonicalize_def)
qed

lemma folded_canonicalize:
  assumes "has_entry c"
  shows "lre_canonicalize c u = Some (folded u c)"
proof -
  obtain i where i: "in_entry i c" using assms by (auto simp: has_entry_def)
  then have f: "cc_find c = Some (i, case_conv_table1 ! i)" by (simp add: cc_find_Some)
  obtain d where d: "lre_case_folding_entry c i (case_conv_table1 ! i) u = Some d" using folding_entry [OF i] by blast
  show ?thesis
  proof (cases "c < 128")
    case True
    then show ?thesis using folding_ascii [OF True i] d f by (simp add: folded_def)
  next
    case False
    then show ?thesis using d f by (simp add: folded_def lre_canonicalize_def)
  qed
qed

lemma canonicalize_unchanged:
  assumes "lre_case_conv c (if u then 2 else 0) = Some [c]"
  shows "lre_canonicalize c u = Some c"
proof -
  have n: "\<not> changed_by (if u then 2 else 0) c" using assms changed_iff [of "if u then 2 else 0" c] by auto
  show ?thesis
  proof (cases "c < 128")
    case True
    then show ?thesis using n changed_ascii [OF True] by (auto simp: lre_canonicalize_def split: if_splits)
  next
    case False
    show ?thesis
    proof (cases "cc_find c")
      case None
      with False show ?thesis by (simp add: lre_canonicalize_def)
    next
      case (Some x)
      then obtain i v where x: "cc_find c = Some (i, v)" by (cases x) auto
      with False assms show ?thesis
        by (cases u) (auto simp: lre_canonicalize_def lre_case_folding_entry_def lre_case_conv.simps [of c])
    qed
  qed
qed

context char_range_alloc begin

theorem regexp_canonicalize_ok:
  assumes "\<And>b n. realloc b n \<noteq> None" "cr_ok cr" "sorted (cr_pts cr)" "even (length (cr_pts cr))"
  shows "\<exists>cr'. cr_regexp_canonicalize cr u = Some (0, cr') \<and> cr_ok cr' \<and> canonical (cr_pts cr') \<and>
    cr_set (cr_pts cr') = (\<lambda>c. the (lre_canonicalize c u)) ` cr_set (cr_pts cr)"
proof -
  define ct where "ct = (if u then 2 else 0 :: nat)"
  define changed where "changed = {c. lre_case_conv c ct \<noteq> Some [c]}"
  have ct: "ct \<le> 2" "(if u then CASE_F else CASE_U) = case_of_type ct" by (auto simp: ct_def case_of_type_def)
  have f: "cr_realloc_func cr = realloc" using assms(2) by (simp add: cr_ok_def)
  note init = init_ok
  obtain m where m: "unicode_case1 (cr_init realloc) (case_of_type ct) = (0, m)"
    using fst_zero [OF case1_total [OF assms(1) init(1)]] by blast
  from unicode_case1_ok [OF init ct(1) m] have mask: "cr_ok m" "sorted (cr_pts m)" "even (length (cr_pts m))"
    "cr_set (cr_pts m) = changed" by (auto simp: changed_def)
  obtain ci where ci: "cr_op (cr_init realloc) (cr_pts m) (cr_pts cr) CR_OP_INTER = (0, ci)"
    using fst_zero [OF op_total [OF assms(1) init(1)]] by blast
  from op_ok [OF init ci mask(2) assms(3) mask(3) assms(4)] have inter: "cr_ok ci" "canonical (cr_pts ci)"
    "cr_set (cr_pts ci) = {c. op_in CR_OP_INTER (c \<in> cr_set (cr_pts m)) (c \<in> cr_set (cr_pts cr))}" by (auto simp del: in_cr_set)
  then have iset: "cr_set (cr_pts ci) = changed \<inter> cr_set (cr_pts cr)" unfolding mask(4) by (auto simp del: in_cr_set)
  obtain mi where mi: "cr_invert m = (0, mi)" using fst_zero [OF invert_total [OF assms(1) mask(1)]] by blast
  from invert_ok [OF mask(1-3) mi] have inv: "canonical (cr_pts mi)" "cr_set (cr_pts mi) = - changed - {UINT32_MAX}"
    unfolding mask(4) by auto
  then have inv': "sorted (cr_pts mi)" "even (length (cr_pts mi))" by (auto simp: canonical_def strict_sorted_imp_sorted)
  obtain cs where cs: "cr_op (cr_init realloc) (cr_pts mi) (cr_pts cr) CR_OP_INTER = (0, cs)"
    using fst_zero [OF op_total [OF assms(1) init(1)]] by blast
  from op_ok [OF init cs inv'(1) assms(3) inv'(2) assms(4)] have sub: "canonical (cr_pts cs)"
    "cr_set (cr_pts cs) = {c. op_in CR_OP_INTER (c \<in> cr_set (cr_pts mi)) (c \<in> cr_set (cr_pts cr))}" by (auto simp del: in_cr_set)
  then have sset: "cr_set (cr_pts cs) = cr_set (cr_pts cr) - changed"
    unfolding inv(2) using max_not_in [OF assms(4)] by (auto simp del: in_cr_set)
  have entries: "\<forall>x\<in>covers (pairs (cr_pts ci)). has_entry x"
    unfolding canonical_covers [OF inter(2)] iset changed_def using changed_has_entry [OF ct(1)] by blast
  have start: "canon_inv (0, -1, -1, cr_init realloc) {}" using init by (simp add: canon_inv_def current_def)
  have si: "sorted (cr_pts ci)" "even (length (cr_pts ci))"
    using inter(2) by (auto simp: canonical_def strict_sorted_imp_sorted)
  obtain idx ds de cres where st: "canon_points u (cr_pts ci) (0, -1, -1, cr_init realloc) = Some (idx, ds, de, cres)"
    "canon_inv (idx, ds, de, cres) (folded u ` cr_set (cr_pts ci))"
    using canon_points_inv [OF assms(1) start si _ entries, of u] canonical_covers [OF inter(2)]
    by (auto simp: before_def simp del: in_cr_set)
  have "\<exists>res. (if ds \<noteq> -1 then cr_add_interval cres ds de else (0, cres)) = (0, res) \<and> cr_ok res \<and> even (cr_len res) \<and>
    (\<forall>(s, e)\<in>set (pairs (cr_pts res)). s < e) \<and> covers (pairs (cr_pts res)) = folded u ` cr_set (cr_pts ci)"
  proof (cases "ds = -1")
    case True
    have "length (cr_pts cres) = cr_len cres" using st(2) by (auto simp: canon_inv_def cr_ok_def length_cr_pts)
    then show ?thesis using True st(2) by (auto simp: canon_inv_def current_def simp del: in_cr_set)
  next
    case False
    have ok: "cr_ok cres" using st(2) by (simp add: canon_inv_def)
    obtain res where a: "cr_add_interval cres ds de = (0, res)"
      using fst_zero [OF add_interval_total [OF assms(1) ok]] by blast
    from add_interval_ok [OF ok a] have r: "cr_ok res" "cr_pts res = cr_pts cres @ [ds, de]" by auto
    have "length (cr_pts res) = cr_len res" using r(1) by (simp add: cr_ok_def length_cr_pts)
    moreover have "even (length (cr_pts cres))" using st(2) by (simp add: canon_inv_def)
    ultimately have "even (cr_len res)" using r(2) by (metis even_Suc length_append length_Cons list.size(3) add_Suc_right add_0_right)
    moreover have "pairs (cr_pts res) = pairs (cr_pts cres) @ [(ds, de)]"
      using r(2) st(2) by (auto simp: canon_inv_def pairs_append)
    ultimately show ?thesis using False a r(1) st(2) by (auto simp: canon_inv_def current_def simp del: in_cr_set)
  qed
  then obtain res where res: "(if ds \<noteq> -1 then cr_add_interval cres ds de else (0, cres)) = (0, res)" "cr_ok res" "even (cr_len res)"
    "\<forall>(s, e)\<in>set (pairs (cr_pts res)). s < e" "covers (pairs (cr_pts res)) = folded u ` cr_set (cr_pts ci)" by blast
  from sort_and_remove_overlap_ok [OF _ res(3,4)] res(2) obtain so where so: "cr_sort_and_remove_overlap res = Some so"
    "canonical (cr_pts so)" "cr_set (cr_pts so) = folded u ` cr_set (cr_pts ci)" unfolding res(5) [symmetric] cr_ok_def by blast
  have e: "cr_ok (cr\<lparr>cr_len := 0\<rparr>)" "cr_pts (cr\<lparr>cr_len := 0\<rparr>) = []"
    using assms(2) by (auto simp: cr_ok_def cr_wf_def cr_pts_def)
  obtain cr' where cr': "cr_op (cr\<lparr>cr_len := 0\<rparr>) (cr_pts so) (cr_pts cs) CR_OP_UNION = (0, cr')"
    using fst_zero [OF op_total [OF assms(1) e(1)]] by blast
  have srt: "sorted (cr_pts so)" "even (length (cr_pts so))" "sorted (cr_pts cs)" "even (length (cr_pts cs))"
    using so(2) sub(1) by (auto simp: canonical_def strict_sorted_imp_sorted)
  from op_ok [OF e cr' srt(1,3,2,4)] have fin: "cr_ok cr'" "canonical (cr_pts cr')"
    "cr_set (cr_pts cr') = {c. op_in CR_OP_UNION (c \<in> cr_set (cr_pts so)) (c \<in> cr_set (cr_pts cs))}" by (auto simp del: in_cr_set)
  have "cr_set (cr_pts cr') = folded u ` (changed \<inter> cr_set (cr_pts cr)) \<union> (cr_set (cr_pts cr) - changed)"
    unfolding fin(3) so(3) iset sset by (auto simp del: in_cr_set)
  also have "folded u ` (changed \<inter> cr_set (cr_pts cr)) = (\<lambda>c. the (lre_canonicalize c u)) ` (changed \<inter> cr_set (cr_pts cr))"
    by (rule image_cong [OF refl]) (use folded_canonicalize changed_has_entry [OF ct(1)] in \<open>auto simp: changed_def simp del: in_cr_set\<close>)
  also have "cr_set (cr_pts cr) - changed = (\<lambda>c. the (lre_canonicalize c u)) ` (cr_set (cr_pts cr) - changed)"
  proof -
    have "the (lre_canonicalize c u) = c" if "c \<notin> changed" for c
      using that canonicalize_unchanged [of c u] by (simp add: changed_def ct_def)
    then show ?thesis by force
  qed
  finally have "cr_set (cr_pts cr') = (\<lambda>c. the (lre_canonicalize c u)) ` cr_set (cr_pts cr)" by (auto simp del: in_cr_set)
  moreover have "cr_regexp_canonicalize cr u = Some (0, cr')"
    unfolding cr_regexp_canonicalize_def Let_def f ct(2) m prod.case ci mi cs st(1)
    using res(1) so(1) cr' by (simp split: if_splits)
  ultimately show ?thesis using fin by blast
qed

end

end
