(* ===== verification/UnicodeAlloc.thy ===== *)
theory UnicodeAlloc
  imports UnicodeByName RegexpCanon
begin

text \<open>
  The error results of the functions of libunicode.c that fill a range: they fail only when an
  allocation fails, and \<open>unicode_script\<close>, whose error path jumps to itself, then does not return: it
  runs forever, or frees a block a second time.
\<close>

unbundle bit_operations_syntax

definition fills :: "cr_realloc_fun \<Rightarrow> u32 set \<Rightarrow> (int \<times> char_range) option \<Rightarrow> bool" where
  "fills f S x \<longleftrightarrow>
     (\<exists>r cr. x = Some (r, cr) \<and> cr_wf cr \<and>
        (r = 0 \<and> sorted (cr_pts cr) \<and> even (length (cr_pts cr)) \<and> cr_set (cr_pts cr) = S \<or>
         r = -1 \<and> (\<exists>b n. f b n = None)))"

lemma fillsD:
  assumes "fills f S (Some x)" "\<And>b n. f b n \<noteq> None"
  shows "fst x = 0 \<and> cr_set (cr_pts (snd x)) = S"
proof -
  have "\<not> (\<exists>b n. f b n = None)" using assms(2) by simp
  with assms(1) show ?thesis unfolding fills_def by (cases x) (auto simp del: in_cr_set not_None_eq)
qed

context char_range_alloc begin

lemma fillsI:
  assumes "gives S x" "\<And>r cr. (\<And>b n. realloc b n \<noteq> None) \<Longrightarrow> x = Some (r, cr) \<Longrightarrow> r = 0"
  shows "fills realloc S x"
proof -
  obtain r cr where x: "x = Some (r, cr)" "cr_ok cr"
    "r = 0 \<and> sorted (cr_pts cr) \<and> even (length (cr_pts cr)) \<and> cr_set (cr_pts cr) = S \<or> r = -1"
    using assms(1) unfolding gives_def by blast
  have "r = 0 \<or> (\<exists>b n. realloc b n = None)"
  proof (rule disjCI)
    assume that: "\<not> (\<exists>b n. realloc b n = None)"
    show "r = 0"
    proof (rule assms(2) [OF _ x(1)])
      show "realloc b n \<noteq> None" for b n using that by simp
    qed
  qed
  moreover have "cr_wf cr" using x(2) by (simp add: cr_ok_def)
  ultimately show ?thesis using x(1,3) unfolding fills_def by (cases "r = 0") (simp_all del: in_cr_set not_None_eq)
qed

lemma copy_total:
  assumes "\<And>b n. realloc b n \<noteq> None" "cr_ok cr"
  shows "fst (cr_copy cr cr1) = 0"
  using fst_zero [OF realloc_total [OF assms, of "cr_len cr1"]] by (auto simp: cr_copy_def)

lemma group_loop_total:
  assumes "\<And>b n. realloc b n \<noteq> None" "cr_ok cr" "group_loop reader ivs cr t c = Some (r, cr')"
  shows "r = 0"
  using assms(2,3)
proof (induction reader ivs cr t c rule: group_loop.induct)
  case (2 reader ivs cr b p c)
  obtain n v q where rd: "reader b p = Some (n, v, q)" "\<not> length p < length q"
    using "2.prems"(2) by (auto simp: group_loop.simps split: option.splits if_splits)
  let ?c1 = "c + n + 1"
  obtain t where t: "add_intervals cr (ivs v c ?c1) = (0, t)"
    using fst_zero [OF add_intervals_total [OF assms(1) "2.prems"(1)]] by blast
  then have "cr_ok t" using add_intervals_ok [OF "2.prems"(1) t] by blast
  moreover have "group_loop reader ivs t q ?c1 = Some (r, cr')"
    using "2.prems"(2) rd t by (simp add: group_loop.simps Let_def)
  ultimately show ?case using "2.IH" [OF rd(1) refl refl rd(2) refl t [symmetric]] by simp
qed (simp add: group_loop.simps)

lemma gc1_total:
  assumes "\<And>b n. realloc b n \<noteq> None" "cr_ok cr" "unicode_general_category1 cr m = Some (r, cr')"
  shows "r = 0"
  using group_loop_total [OF assms(1,2)] assms(3) by (simp add: unicode_general_category1_def)

lemma prop1_total:
  assumes "\<And>b n. realloc b n \<noteq> None" "cr_ok cr" "i < length unicode_prop_table" "unicode_prop1 cr i = Some (r, cr')"
  shows "r = 0"
proof -
  obtain rs where rs: "table_runs (unicode_prop_table ! i) = Some rs" "unat (0 :: u32) + sum_list (map unat rs) < 2 ^ 32"
    using assms(3) by (rule prop_table_runs)
  have "unicode_prop1 cr i = Some (add_intervals cr (run_ivs 0 False rs))"
    using assms(3) prop1_loop_runs [OF rs(1)] by (simp add: unicode_prop1_def prop_len_table)
  then show ?thesis using assms(4) add_intervals_total [OF assms(1,2), of "run_ivs 0 False rs"]
    by (metis fst_conv option.inject)
qed

lemma push_total:
  assumes "\<And>r cr. x = Some (r, cr) \<Longrightarrow> r = 0"
  shows "push_range stack x \<noteq> Some (Inl ())"
  using assms by (auto simp: push_range_def split: option.splits prod.splits)

lemma pop_step_total:
  assumes "\<And>b n. realloc b n \<noteq> None" "list_all2 holds stack ss" "pop_sets op ss = Some ss'"
  shows "pop_step realloc op stack \<noteq> Some (Inl ())"
proof -
  have inv: "cr_invert x \<noteq> (r, y)" if "holds x s" "r \<noteq> 0" for x s r y
    using invert_total [OF assms(1), of x] that by (auto simp: holds_def simp del: in_cr_set)
  have op0: "cr_op (cr_init realloc) a b o' \<noteq> (r, y)" if "r \<noteq> 0" for a b o' r y
    using op_total [OF assms(1) init_ok(1), of a b o'] that by auto
  show ?thesis
  proof (cases op)
    case (POP_GC a)
    then show ?thesis using push_total gc1_total [OF assms(1) init_ok(1)] by (simp add: pop_step_def)
  next
    case (POP_PROP a)
    moreover have "a < length unicode_prop_table" using assms(3) POP_PROP by (simp split: if_splits)
    ultimately show ?thesis using push_total prop1_total [OF assms(1) init_ok(1)] by (simp add: pop_step_def)
  next
    case (POP_CASE a)
    have "push_range stack (Some (unicode_case1 (cr_init realloc) a)) \<noteq> Some (Inl ())"
      using case1_total [OF assms(1) init_ok(1), of a] by (intro push_total) simp
    then show ?thesis using POP_CASE by (simp add: pop_step_def)
  next
    case POP_INVERT
    then show ?thesis using assms(2) inv by (cases stack) (auto simp: pop_step_def list_all2_Cons1 split: prod.splits)
  qed (use op0 in \<open>auto simp: pop_step_def split: list.splits prod.splits if_splits\<close>)
qed

lemma pop_run_total:
  assumes "\<And>b n. realloc b n \<noteq> None" "list_all2 holds stack ss" "pop_sets_run ops ss = Some ss'"
  shows "pop_run realloc ops stack \<noteq> Some (Inl ())"
  using assms(2,3)
proof (induction ops arbitrary: stack ss)
  case (Cons op ops)
  from Cons.prems(2) obtain ss1 where ss1: "pop_sets op ss = Some ss1" "pop_sets_run ops ss1 = Some ss'"
    by (auto split: option.splits)
  obtain y where y: "pop_step realloc op stack = Some y" "\<And>st. y = Inr st \<Longrightarrow> list_all2 holds st ss1"
    using pop_step_ok [OF Cons.prems(1) ss1(1)] by blast
  then obtain st where "y = Inr st" using pop_step_total [OF assms(1) Cons.prems(1) ss1(1)] by (cases y) auto
  with y Cons.IH [OF _ ss1(2)] show ?case by simp
qed simp

lemma prop_ops_total:
  assumes "\<And>b n. realloc b n \<noteq> None" "cr_ok cr" "pop_sets_run ops [] = Some [S]" "unicode_prop_ops cr ops = Some (r, cr')"
  shows "r = 0"
proof -
  have f: "cr_realloc_func cr = realloc" using assms(2) by (simp add: cr_ok_def)
  obtain y where y: "pop_run realloc ops [] = Some y" "\<And>st. y = Inr st \<Longrightarrow> list_all2 holds st [S]"
    using pop_run_ok [of "[]" "[]", OF _ assms(3)] by auto
  then obtain st where "y = Inr st" using pop_run_total [OF assms(1) _ assms(3), of "[]"] by (cases y) auto
  moreover then obtain cr1 where "st = [cr1]" using y(2) by (auto simp: list_all2_Cons2)
  ultimately show ?thesis using assms(4) y(1) f copy_total [OF assms(1,2), of cr1] by (simp add: unicode_prop_ops_def)
qed

lemma unicode_prop_total:
  assumes "\<And>b n. realloc b n \<noteq> None" "cr_ok cr" "unicode_prop cr name = Some (r, cr')"
  shows "r = 0 \<or> r = -2"
proof -
  obtain idx where idx: "unicode_find_name unicode_prop_name_table name = Some idx" "\<not> idx < 0 \<or> r = -2"
    using assms(3) by (cases "unicode_find_name unicode_prop_name_table name") (auto simp: unicode_prop_def split: if_splits)
  let ?nm = "UnicodePropertyEnum ! (nat idx + UNICODE_PROP ''ASCII_Hex_Digit'')"
  have iv: "fst (cr_add_interval cr a b) = 0" for a b by (rule add_interval_total [OF assms(1,2)])
  have cs: "unicode_case1 cr m = (q, t) \<Longrightarrow> q = 0" for m q t using case1_total [OF assms(1,2), of m] by simp
  show ?thesis
  proof (cases "idx < 0 \<or> ?nm \<in> set special_properties")
    case True
    then show ?thesis
      using assms(3) idx iv [of 0 "0x7f + 1"] iv [of 0 "0x10ffff + 1"] cs
      by (auto simp: unicode_prop_def special_properties_def Let_def)
  next
    case False
    show ?thesis
    proof (cases "map_of prop_programs ?nm")
      case None
      then have "r = -2 \<or> nat idx + UNICODE_PROP ''ASCII_Hex_Digit'' < length unicode_prop_table \<and>
          unicode_prop1 cr (nat idx + UNICODE_PROP ''ASCII_Hex_Digit'') = Some (r, cr')"
        using assms(3) idx(1) False by (auto simp: unicode_prop_def special_properties_def Let_def split: if_splits)
      then show ?thesis using prop1_total [OF assms(1,2)] by blast
    next
      case (Some ops)
      then have "(?nm, ops) \<in> set prop_programs" by (rule map_of_SomeD)
      then obtain S where "pop_sets_run ops [] = Some [S]" using programs_well_stacked by (auto simp: list_all_iff)
      moreover have "unicode_prop_ops cr ops = Some (r, cr')"
        using assms(3) idx(1) False Some by (auto simp: unicode_prop_def special_properties_def Let_def split: if_splits)
      ultimately show ?thesis using prop_ops_total [OF assms(1,2)] by blast
    qed
  qed
qed

lemma unicode_prop_fills:
  assumes "cr_ok cr" "cr_pts cr = []"
  shows "let i = first_index (named name) unicode_prop_names in
    if i < 0 then unicode_prop cr name = Some (-2, cr)
    else fills realloc (property_set (UnicodePropertyEnum ! (nat i + 16))) (unicode_prop cr name)"
proof -
  have "r = 0" if g: "gives S (unicode_prop cr name)" and t: "\<And>b n. realloc b n \<noteq> None" "unicode_prop cr name = Some (r, cr')" for S r cr'
    using unicode_prop_total [OF t(1) assms(1) t(2)] g t(2) unfolding gives_def by force
  then show ?thesis using unicode_prop_ok [OF assms refl, of name] by (auto simp: Let_def intro!: fillsI)
qed

lemma case1_fills:
  assumes "cr_ok cr" "cr_pts cr = []" "conv_type \<le> 2"
  shows "fills realloc {c. lre_case_conv c conv_type \<noteq> Some [c]} (Some (unicode_case1 cr (case_of_type conv_type)))"
proof (rule fillsI)
  obtain r t where u: "unicode_case1 cr (case_of_type conv_type) = (r, t)" by fastforce
  from unicode_case1_ok [OF assms u]
  show "gives {c. lre_case_conv c conv_type \<noteq> Some [c]} (Some (unicode_case1 cr (case_of_type conv_type)))"
    unfolding gives_def u by blast
  fix r t assume "\<And>b n. realloc b n \<noteq> None" "Some (unicode_case1 cr (case_of_type conv_type)) = Some (r, t)"
  then show "r = 0" using case1_total [OF _ assms(1), of "case_of_type conv_type"] by simp
qed

lemma unicode_general_category_fills:
  assumes "cr_ok cr" "cr_pts cr = []"
  shows "let i = first_index (named name) unicode_gc_names in
    if i < 0 then unicode_general_category cr name = Some (-2, cr)
    else fills realloc (gc_set (Ms (category_members (nat i)))) (unicode_general_category cr name)"
proof -
  have "r = 0" if g: "gives S (unicode_general_category cr name)" and t: "\<And>b n. realloc b n \<noteq> None"
    and u: "unicode_general_category cr name = Some (r, cr')" for S r cr'
  proof -
    have "r = -2 \<or> (\<exists>m. unicode_general_category1 cr m = Some (r, cr'))"
      using u by (auto simp: unicode_general_category_def bind_eq_Some_conv split: if_splits)
    then have "r = 0 \<or> r = -2" using gc1_total [OF t assms(1)] by blast
    then show ?thesis using g u unfolding gives_def by force
  qed
  then show ?thesis using unicode_general_category_ok [OF assms refl, of name] by (auto simp: Let_def intro!: fillsI)
qed

end

subsection \<open>The error path of \<open>unicode_script\<close>\<close>

lemma fail_loop_result:
  "fail_loop is_ext b1 b2 = Some y \<Longrightarrow> is_ext \<and> (b1 \<noteq> Null \<or> b2 \<noteq> Null) \<and> y = DoubleFree"
proof (rule fail_loop.raw_induct [where P = "\<lambda>is_ext b1 b2 y. is_ext \<and> (b1 \<noteq> Null \<or> b2 \<noteq> Null) \<and> y = DoubleFree"])
  fix loop :: "bool \<Rightarrow> block \<Rightarrow> block \<Rightarrow> 'a outcome option" and e c1 c2 z
  assume h: "\<And>e c1 c2 z. loop e c1 c2 = Some z \<Longrightarrow> e \<and> (c1 \<noteq> Null \<or> c2 \<noteq> Null) \<and> z = DoubleFree"
    and r: "(if e then case cr_free_block c1 of None \<Rightarrow> Some DoubleFree
               | Some b1 \<Rightarrow> (case cr_free_block c2 of None \<Rightarrow> Some DoubleFree | Some b2 \<Rightarrow> loop e b1 b2)
             else loop e c1 c2) = Some z"
  show "e \<and> (c1 \<noteq> Null \<or> c2 \<noteq> Null) \<and> z = DoubleFree"
    by (cases e; cases c1; cases c2) (use r h in \<open>fastforce dest: h\<close>)+
qed

lemma cr_free_block_simps [simp]:
  "cr_free_block b = None \<longleftrightarrow> b = Freed" "cr_free_block b = Some b' \<longleftrightarrow> b \<noteq> Freed \<and> b' = (if b = Null then Null else Freed)"
  by (cases b; auto)+

lemma fail_loop_live: "b1 \<noteq> Null \<or> b2 \<noteq> Null \<Longrightarrow> fail_loop True b1 b2 = Some DoubleFree"
  by (cases b1; cases b2; subst fail_loop.simps; simp; subst fail_loop.simps; simp)

lemma fail_loop_eq:
  "fail_loop is_ext b1 b2 = (if is_ext \<and> (b1 \<noteq> Null \<or> b2 \<noteq> Null) then Some DoubleFree else None)"
proof (cases "is_ext \<and> (b1 \<noteq> Null \<or> b2 \<noteq> Null)")
  case False
  then show ?thesis using fail_loop_result [of is_ext b1 b2] by (cases "fail_loop is_ext b1 b2 :: 'a outcome option") auto
qed (auto simp: fail_loop_live)

text \<open>A run of \<open>unicode_script\<close> succeeds, or an allocation fails and it does not return.\<close>

definition no_return :: "bool \<Rightarrow> 'a outcome option \<Rightarrow> bool" where
  "no_return is_ext y \<longleftrightarrow> y = None \<or> is_ext \<and> y = Some DoubleFree"

lemma fail_loop_no_return: "no_return is_ext (fail_loop is_ext b1 b2)"
  by (simp add: no_return_def fail_loop_eq)

definition script_result :: "cr_realloc_fun \<Rightarrow> bool \<Rightarrow> (char_range \<Rightarrow> bool) \<Rightarrow> (int \<times> char_range) outcome option \<Rightarrow> bool" where
  "script_result f is_ext Q y \<longleftrightarrow>
     no_return is_ext y \<and> (\<exists>b n. f b n = None) \<or> (\<exists>t. y = Some (Returns (0, t)) \<and> Q t)"

lemma script_result_done: "Q t \<Longrightarrow> script_result f is_ext Q (Some (Returns (0, t)))"
  unfolding script_result_def by blast

context char_range_alloc begin

lemma or_fail_result:
  assumes "gives S x" "\<And>r cr. (\<And>b n. realloc b n \<noteq> None) \<Longrightarrow> x = Some (r, cr) \<Longrightarrow> r = 0"
    and "\<And>cr. no_return is_ext (fail cr)" "\<And>cr. holds cr S \<Longrightarrow> script_result realloc is_ext Q (k cr)"
  shows "script_result realloc is_ext Q (or_fail x fail k)"
proof -
  obtain r cr where x: "x = Some (r, cr)"
    "r = 0 \<and> holds cr S \<or> r = -1"
    using assms(1) unfolding gives_def holds_def by blast
  show ?thesis
  proof (cases "r = 0")
    case True
    then show ?thesis using x assms(4) [of cr] by (simp add: or_fail_def)
  next
    case False
    then have "\<exists>b n. realloc b n = None" using assms(2) [OF _ x(1)] by (metis not_None_eq)
    then show ?thesis using x(1) False assms(3) by (simp add: or_fail_def script_result_def)
  qed
qed

lemma invert_gives:
  assumes "holds cr A"
  shows "gives (- A - {UINT32_MAX}) (Some (cr_invert cr))"
proof -
  obtain r t where i: "cr_invert cr = (r, t)" by fastforce
  have c: "cr_ok cr" "sorted (cr_pts cr)" "even (length (cr_pts cr))" "cr_set (cr_pts cr) = A"
    using assms by (simp_all add: holds_def del: in_cr_set)
  from invert_ok [OF c(1-3) i] c(4) show ?thesis
    by (auto simp: gives_def i canonical_def strict_sorted_iff simp del: in_cr_set)
qed

lemma op_gives:
  assumes "cr_ok cr" "cr_pts cr = []" "holds a A" "holds b B"
  shows "gives {c. op_in op (c \<in> A) (c \<in> B)} (Some (cr_op cr (cr_pts a) (cr_pts b) op))"
proof -
  obtain r t where o: "cr_op cr (cr_pts a) (cr_pts b) op = (r, t)" by fastforce
  from op_ok [OF assms(1,2) o] assms(3,4) have "cr_ok t \<and> (r = 0 \<and> canonical (cr_pts t) \<and>
      cr_set (cr_pts t) = {c. op_in op (c \<in> A) (c \<in> B)} \<or> r = -1)" by (simp only: holds_def)
  then show ?thesis by (auto simp: gives_def o canonical_def strict_sorted_iff simp del: in_cr_set)
qed

lemma op_total0: "(\<And>b n. realloc b n \<noteq> None) \<Longrightarrow> cr_ok cr \<Longrightarrow> Some (cr_op cr a b o') = Some (r, t) \<Longrightarrow> r = 0"
  using fst_zero [OF op_total [of cr a b o']] by auto

lemma invert_total0: "(\<And>b n. realloc b n \<noteq> None) \<Longrightarrow> cr_ok cr \<Longrightarrow> Some (cr_invert cr) = Some (r, t) \<Longrightarrow> r = 0"
  using fst_zero [OF invert_total [of cr]] by auto

lemma op_result:
  assumes "cr_ok cr" "cr_pts cr = []" "holds a A" "holds b B" "{c. op_in op (c \<in> A) (c \<in> B)} = S"
  shows "script_result realloc is_ext (\<lambda>t. holds t S)
    (or_fail (Some (cr_op cr (cr_pts a) (cr_pts b) op)) (\<lambda>cr. fail_loop is_ext b1 b2) (\<lambda>cr. Some (Returns (0, cr))))"
proof (rule or_fail_result [OF op_gives [OF assms(1-4), of op, unfolded assms(5)] _ fail_loop_no_return script_result_done])
  fix r t assume t: "\<And>b n. realloc b n \<noteq> None" "Some (cr_op cr (cr_pts a) (cr_pts b) op) = Some (r, t)"
  show "r = 0" by (rule op_total0 [OF t(1) assms(1) t(2)])
qed

lemma unicode_script_result:
  assumes "cr_ok cr" "cr_pts cr = []" "first_index (named name) unicode_script_names = i" "0 \<le> i"
  shows "script_result realloc is_ext (\<lambda>t. holds t (script_set (nat i + 1) is_ext)) (unicode_script cr name is_ext)"
proof -
  have f: "unicode_find_name unicode_script_name_table name = Some i"
    using find_valid_name [OF name_tables_valid(3), of name] assms(3) by (simp add: unicode_script_name_table_def)
  have rf: "cr_realloc_func cr = realloc" using assms(1) by (simp add: cr_ok_def)
  have un: "UNICODE_SCRIPT ''Unknown'' = 0" by (simp add: UNICODE_SCRIPT_def enum_value_def UnicodeScriptEnum_def)
  let ?s = "nat i + 1"
  let ?c = "?s = UNICODE_SCRIPT ''Common'' \<or> ?s = UNICODE_SCRIPT ''Inherited''"
  define cr1 where "cr1 = (if is_ext then cr_init realloc else cr)"
  have cr1: "cr_ok cr1" "cr_pts cr1 = []" using assms(1,2) init_ok by (simp_all add: cr1_def)
  define K3 where "K3 c1 c2 = (if ?c then
      or_fail (Some (cr_invert c2)) (\<lambda>c2. fail_loop is_ext (points_block c1) (points_block c2)) (\<lambda>c2.
        or_fail (Some (cr_op cr (cr_pts c1) (cr_pts c2) CR_OP_INTER))
          (\<lambda>cr. fail_loop is_ext (points_block c1) (points_block c2)) (\<lambda>cr. Some (Returns (0 :: int, cr))))
    else or_fail (Some (cr_op cr (cr_pts c1) (cr_pts c2) CR_OP_UNION))
        (\<lambda>cr. fail_loop is_ext (points_block c1) (points_block c2)) (\<lambda>cr. Some (Returns (0, cr))))" for c1 c2
  define K2 where "K2 c1 = (if is_ext then
      or_fail (group_loop script_ext_read (script_ext_intervals ?c (of_nat ?s)) (cr_init realloc) unicode_script_ext_table 0)
        (\<lambda>c2. fail_loop is_ext (points_block c1) (points_block c2)) (K3 c1)
    else Some (Returns (0, c1)))" for c1
  have u: "unicode_script cr name is_ext =
      or_fail (group_loop script_read (script_intervals (of_nat ?s)) cr1 unicode_script_table 0)
        (\<lambda>c1. fail_loop is_ext (points_block c1) (points_block (cr_init realloc))) K2"
    using f assms(4) rf by (simp add: unicode_script_def Let_def un cr1_def K2_def [abs_def] K3_def [abs_def])
  let ?A = "{c. script_of c = Some (of_nat ?s :: u32)}"
  let ?B = "{c. \<exists>vs. script_extensions c = Some vs \<and> (if ?c then vs \<noteq> [] else \<exists>v\<in>set vs. ucast v = (of_nat ?s :: u32))}"
  have k3: "script_result realloc is_ext (\<lambda>t. holds t (script_set ?s is_ext)) (K3 c1 c2)"
    if h: "holds c1 ?A" "holds c2 ?B" and ext: is_ext for c1 c2
  proof (cases ?c)
    case True
    have "script_result realloc is_ext (\<lambda>t. holds t (script_set ?s is_ext))
        (or_fail (Some (cr_invert c2)) (\<lambda>c2. fail_loop is_ext (points_block c1) (points_block c2)) (\<lambda>c2.
          or_fail (Some (cr_op cr (cr_pts c1) (cr_pts c2) CR_OP_INTER))
            (\<lambda>cr. fail_loop is_ext (points_block c1) (points_block c2)) (\<lambda>cr. Some (Returns (0 :: int, cr)))))"
    proof (rule or_fail_result [OF invert_gives [OF h(2)] invert_total0 fail_loop_no_return])
      show "cr_ok c2" using h(2) by (simp add: holds_def)
      fix c3 assume "holds c3 (- ?B - {UINT32_MAX})"
      show "script_result realloc is_ext (\<lambda>t. holds t (script_set ?s is_ext))
        (or_fail (Some (cr_op cr (cr_pts c1) (cr_pts c3) CR_OP_INTER))
            (\<lambda>cr. fail_loop is_ext (points_block c1) (points_block c3)) (\<lambda>cr. Some (Returns (0 :: int, cr))))"
        by (rule op_result [OF assms(1,2) h(1) \<open>holds c3 _\<close>]) (use True ext in \<open>auto simp: script_set_def Let_def\<close>)
    qed
    then show ?thesis unfolding K3_def if_P [OF True] .
  next
    case False
    show ?thesis unfolding K3_def if_not_P [OF False]
      by (rule op_result [OF assms(1,2) h]) (use False ext in \<open>auto simp: script_set_def Let_def\<close>)
  qed
  have k2: "script_result realloc is_ext (\<lambda>t. holds t (script_set ?s is_ext)) (K2 c1)" if h: "holds c1 ?A" for c1
  proof (cases is_ext)
    case True
    show ?thesis unfolding K2_def if_P [OF True]
      by (rule or_fail_result [OF script_ext_loop_gives [OF init_ok] group_loop_total [OF _ init_ok(1)] fail_loop_no_return k3 [OF h _ True]])
  next
    case False
    then show ?thesis using h by (simp add: K2_def script_result_def script_set_def)
  qed
  show ?thesis unfolding u
    by (rule or_fail_result [OF script_loop_gives [OF cr1] group_loop_total [OF _ cr1(1)] fail_loop_no_return k2])
qed

lemma unicode_script_fills:
  assumes "cr_ok cr" "cr_pts cr = []"
  shows "let i = first_index (named name) unicode_script_names in
    if i < 0 then unicode_script cr name is_ext = Some (Returns (-2, cr))
    else (\<exists>t. unicode_script cr name is_ext = Some (Returns (0, t)) \<and> cr_wf t \<and> sorted (cr_pts t) \<and>
         even (length (cr_pts t)) \<and> cr_set (cr_pts t) = script_set (nat i + 1) is_ext) \<or>
      (\<exists>b n. realloc b n = None) \<and>
        (unicode_script cr name is_ext = None \<or> is_ext \<and> unicode_script cr name is_ext = Some DoubleFree)"
proof (cases "first_index (named name) unicode_script_names < 0")
  case True
  have "unicode_find_name unicode_script_name_table name = Some (first_index (named name) unicode_script_names)"
    using find_valid_name [OF name_tables_valid(3), of name] by (simp add: unicode_script_name_table_def)
  then show ?thesis using True by (simp add: unicode_script_def)
next
  case False
  then show ?thesis using unicode_script_result [OF assms refl, of name is_ext]
    by (auto simp: Let_def script_result_def no_return_def holds_def cr_ok_def simp del: in_cr_set)
qed

end

text \<open>With no memory, the lookup of a script that has code points does not return.\<close>

lemma group_loop_no_memory:
  assumes "\<And>b n. cr_realloc_func cr b n = None" "cr_size cr = 0" "cr_len cr = 0" "group_loop reader ivs cr t c = Some (r, cr')"
  shows "cr' = cr"
  using assms
proof (induction reader ivs cr t c rule: group_loop.induct)
  case (2 reader ivs cr b p c)
  obtain n v q where rd: "reader b p = Some (n, v, q)" "\<not> length p < length q"
    using "2.prems"(4) by (auto simp: group_loop.simps split: option.splits if_splits)
  have add: "cr_add_interval cr x y = (-1, cr)" for x y
    using "2.prems"(1-3) by (simp add: cr_add_interval_def cr_realloc_def)
  let ?c1 = "c + n + 1"
  show ?case
  proof (cases "ivs v c ?c1")
    case Nil
    with 2 rd show ?thesis by (simp add: group_loop.simps Let_def)
  next
    case (Cons iv ivs')
    with "2.prems"(4) rd show ?thesis by (cases iv) (simp add: group_loop.simps Let_def add)
  qed
qed (simp add: group_loop.simps)

context char_range_alloc begin

lemma loop_no_memory:
  assumes "\<And>b n. realloc b n = None" "gives S (group_loop reader ivs (cr_init realloc) t c)"
  shows "\<exists>r. group_loop reader ivs (cr_init realloc) t c = Some (r, cr_init realloc) \<and> (r = 0 \<longrightarrow> S = {})"
proof -
  obtain r cr where g: "group_loop reader ivs (cr_init realloc) t c = Some (r, cr)" "r = 0 \<Longrightarrow> cr_set (cr_pts cr) = S"
    using assms(2) unfolding gives_def by force
  have cr: "cr = cr_init realloc"
    by (rule group_loop_no_memory [OF _ _ _ g(1)]) (simp_all add: cr_init_def assms(1))
  have "cr_set [] = {}" by auto
  with g(2) cr have "r = 0 \<Longrightarrow> S = {}" by (simp add: init_ok del: in_cr_set)
  with g(1) cr show ?thesis by blast
qed

lemma script_no_memory:
  assumes "\<And>b n. realloc b n = None" "0 \<le> first_index (named name) unicode_script_names"
    "script_set (nat (first_index (named name) unicode_script_names) + 1) is_ext \<noteq> {}"
  shows "unicode_script (cr_init realloc) name is_ext = None"
proof -
  define i where "i = first_index (named name) unicode_script_names"
  have f: "unicode_find_name unicode_script_name_table name = Some i"
    using find_valid_name [OF name_tables_valid(3), of name] by (simp add: unicode_script_name_table_def i_def)
  have un: "UNICODE_SCRIPT ''Unknown'' = 0" by (simp add: UNICODE_SCRIPT_def enum_value_def UnicodeScriptEnum_def)
  let ?s = "nat i + 1"
  let ?c = "?s = UNICODE_SCRIPT ''Common'' \<or> ?s = UNICODE_SCRIPT ''Inherited''"
  have null: "fail_loop e (points_block (cr_init realloc)) (points_block (cr_init realloc)) = None" for e
    by (simp add: points_block_def cr_init_def fail_loop_eq)
  have rf: "cr_realloc_func (cr_init realloc) = realloc" by (simp add: cr_init_def)
  have inv: "cr_invert (cr_init realloc) = (-1, cr_init realloc)"
    by (simp add: cr_invert_def cr_realloc_def cr_init_def assms(1))
  obtain r1 where r1: "group_loop script_read (script_intervals (of_nat ?s)) (cr_init realloc) unicode_script_table 0 = Some (r1, cr_init realloc)"
    "r1 = 0 \<Longrightarrow> {c. script_of c = Some (of_nat ?s :: u32)} = {}"
    using loop_no_memory [OF assms(1) script_loop_gives [OF init_ok, of "of_nat ?s"]] by blast
  obtain r2 where r2: "group_loop script_ext_read (script_ext_intervals ?c (of_nat ?s)) (cr_init realloc) unicode_script_ext_table 0 = Some (r2, cr_init realloc)"
    "r2 = 0 \<Longrightarrow> {c. \<exists>vs. script_extensions c = Some vs \<and> (if ?c then vs \<noteq> [] else \<exists>v\<in>set vs. ucast v = (of_nat ?s :: u32))} = {}"
    using loop_no_memory [OF assms(1) script_ext_loop_gives [OF init_ok, of ?c "of_nat ?s"]] by blast
  have e: "r1 = 0 \<Longrightarrow> is_ext \<and> (\<not> ?c \<longrightarrow> r2 \<noteq> 0)"
    using r1(2) r2(2) assms(3) unfolding i_def [symmetric] script_set_def Let_def by (auto split: if_splits)
  have "unicode_script (cr_init realloc) name is_ext =
      or_fail (Some (r1, cr_init realloc)) (\<lambda>c1. fail_loop is_ext (points_block c1) (points_block (cr_init realloc)))
       (\<lambda>c1. if is_ext then or_fail (Some (r2, cr_init realloc)) (\<lambda>c2. fail_loop is_ext (points_block c1) (points_block c2))
          (\<lambda>c2. if ?c then or_fail (Some (cr_invert c2)) (\<lambda>c2. fail_loop is_ext (points_block c1) (points_block c2)) (\<lambda>c2.
               or_fail (Some (cr_op (cr_init realloc) (cr_pts c1) (cr_pts c2) CR_OP_INTER))
                 (\<lambda>cr. fail_loop is_ext (points_block c1) (points_block c2)) (\<lambda>cr. Some (Returns (0, cr))))
             else or_fail (Some (cr_op (cr_init realloc) (cr_pts c1) (cr_pts c2) CR_OP_UNION))
                 (\<lambda>cr. fail_loop is_ext (points_block c1) (points_block c2)) (\<lambda>cr. Some (Returns (0, cr))))
        else Some (Returns (0, c1)))"
    using f assms(2) unfolding i_def [symmetric] r1(1) [symmetric] r2(1) [symmetric]
    by (simp add: unicode_script_def Let_def un rf)
  then show ?thesis using e null inv by (cases "r1 = 0"; cases "r2 = 0") (simp_all add: or_fail_def)
qed

end

lemma script_Common: "script_set 25 False \<noteq> {}"
proof -
  obtain gs where gs: "groups script_read unicode_script_table = Some gs"
    by (rule table_facts [OF script_total script_steps])
  obtain rest where t: "unicode_script_table = 0xc0 # 0x19 # rest"
  proof
    show "unicode_script_table = 0xc0 # 0x19 # drop 2 unicode_script_table"
      unfolding unicode_script_table_def unicode_script_table_0_def by simp
  qed
  have r: "script_read 0xc0 (0x19 # rest) = Some (64, 25, rest)" by (simp add: script_read_def)
  obtain gs' where "gs = (65, 25) # gs'"
    using gs unfolding t by (auto simp: groups.simps(2) r split: option.splits)
  then have "script_of 0 = Some 25" using gs by (simp add: script_of_def)
  then show ?thesis by (auto simp: script_set_def)
qed

text \<open>An allocator that has memory for every request.\<close>

definition unbounded_realloc :: cr_realloc_fun where
  "unbounded_realloc pt n = Some (take n pt @ replicate (n - length pt) 0)"

lemma unbounded_total: "unbounded_realloc pt n \<noteq> None"
  by (simp add: unbounded_realloc_def)

interpretation cr_unbounded: char_range_alloc unbounded_realloc
  by unfold_locales (auto simp: unbounded_realloc_def min_def)

subsection \<open>Categories partition the code points\<close>

lemma gc_read_value: "gc_read b p = Some (n, v, q) \<Longrightarrow> unat v < 32"
proof -
  assume "gc_read b p = Some (n, v, q)"
  then have "v = ucast (b AND 0x1f)" by (auto simp: gc_read_def Let_def split: if_splits list.splits)
  moreover have "unat (b AND 0x1f) < 32" using word_and_le1 [of b "0x1f"] by (simp add: word_le_nat_alt)
  ultimately show ?thesis by (simp add: unsigned_ucast_eq take_bit_nat_eq_self)
qed

lemma gc_groups_value: "groups gc_read t = Some gs \<Longrightarrow> \<forall>g\<in>set gs. unat (snd g) < 32"
proof (induction "gc_read" t arbitrary: gs rule: groups.induct)
  case (2 b p)
  from "2.prems" obtain n v q gs' where g: "gc_read b p = Some (n, v, q)" "\<not> length p < length q"
    "groups gc_read q = Some gs'" "gs = (n + 1, v) # gs'"
    by (auto simp: groups.simps(2) split: option.splits if_splits)
  with "2.hyps" [OF g(1) refl refl g(2)] gc_read_value [OF g(1)] show ?case by simp
qed simp

lemma run_at_value: "run_at c c0 gs = Some (v, x, y) \<Longrightarrow> \<exists>n. (n, v) \<in> set gs"
  by (induction c c0 gs rule: run_at.induct) (auto simp: Let_def split: if_splits)

lemma general_category_range: "(\<exists>v. general_category c = Some v) \<longleftrightarrow> c < 0x110000"
proof -
  obtain gs where gs: "groups gc_read unicode_gc_table = Some gs" "run_lengths gs = 1114112"
    by (rule table_facts [OF gc_total gc_steps])
  have "unat (0 :: u32) + run_lengths gs < 2 ^ 32" using gs(2) by simp
  from run_at_None [OF this, of c] have "run_at c 0 gs = None \<longleftrightarrow> 1114112 \<le> unat c" using gs(2) by simp
  moreover have "c < 0x110000 \<longleftrightarrow> \<not> 1114112 \<le> unat c" by (simp add: word_less_nat_alt not_le)
  ultimately show ?thesis using gs(1) by (cases "run_at c 0 gs") (auto simp: general_category_def)
qed

lemma general_category_small:
  assumes "general_category c = Some v"
  shows "unat v < 32"
proof -
  obtain gs where gs: "groups gc_read unicode_gc_table = Some gs"
    by (rule table_facts [OF gc_total gc_steps])
  then obtain w c0 c1 where r: "run_at c 0 gs = Some (w, c0, c1)" "v = w \<or> v = 1 \<or> v = 2"
    using assms by (auto simp: general_category_def split: if_splits)
  from run_at_value [OF r(1)] gc_groups_value [OF gs] have "unat w < 32" by auto
  then show ?thesis using r(2) by auto
qed

lemma gc_set_complement:
  "gc_set m \<inter> gc_set (NOT m) = {}" "gc_set m \<union> gc_set (NOT m) = {..<0x110000}"
proof -
  have b: "bit (NOT m) (unat v) \<longleftrightarrow> \<not> bit m (unat v)" if "general_category c = Some v" for c v
    using general_category_small [OF that] by (simp add: bit_not_iff)
  then show "gc_set m \<inter> gc_set (NOT m) = {}" by (auto simp: gc_set_def drop_bit_odd)
  show "gc_set m \<union> gc_set (NOT m) = {..<0x110000}"
    using b general_category_range by (auto simp: gc_set_def drop_bit_odd) blast
qed

end
