(* ===== verification/LimbArith.thy ===== *)
theory LimbArith
  imports Prelude "HOL-Library.Monad_Syntax"
begin

text \<open>
  libbf.c: the operations on arrays of 64-bit limbs, least significant limb first.  The pointer and
  the size that a function gets are a list and the number of the limbs it uses; \<open>None\<close> is an
  access outside of the array.  A result array is returned; where the code works in place, the
  list that is passed and the one that is returned are the array before and after.
\<close>

unbundle bit_operations_syntax

type_synonym limb = "64 word"
type_synonym dlimb = "128 word"

abbreviation (input) LIMB_BITS :: nat where "LIMB_BITS \<equiv> 64"

subsection \<open>Addition and subtraction\<close>

fun mp_add :: "limb list \<Rightarrow> limb list \<Rightarrow> nat \<Rightarrow> limb \<Rightarrow> (limb list \<times> limb) option" where
  "mp_add op1 op2 0 k = Some ([], k)"
| "mp_add (v # op1) (w # op2) (Suc n) k =
     (let a = v + w; k1 = a < v; a = a + k; k = of_bool (a < k \<or> k1) in
      do { (res, k) \<leftarrow> mp_add op1 op2 n k; Some (a # res, k) })"
| "mp_add op1 op2 (Suc n) k = None"

fun mp_add_ui :: "limb list \<Rightarrow> limb \<Rightarrow> nat \<Rightarrow> (limb list \<times> limb) option" where
  "mp_add_ui tab k 0 = Some (tab, k)"
| "mp_add_ui tab k (Suc n) =
     (if k = 0 then Some (tab, k)
      else case tab of
        [] \<Rightarrow> None
      | x # tab \<Rightarrow>
          let a = x + k; k = of_bool (a < k) in
          do { (tab, k) \<leftarrow> mp_add_ui tab k n; Some (a # tab, k) })"

fun mp_sub :: "limb list \<Rightarrow> limb list \<Rightarrow> nat \<Rightarrow> limb \<Rightarrow> (limb list \<times> limb) option" where
  "mp_sub op1 op2 0 k = Some ([], k)"
| "mp_sub (v # op1) (w # op2) (Suc n) k =
     (let a = v - w; k1 = a > v; v = a - k; k = of_bool (v > a \<or> k1) in
      do { (res, k) \<leftarrow> mp_sub op1 op2 n k; Some (v # res, k) })"
| "mp_sub op1 op2 (Suc n) k = None"

fun mp_neg :: "limb list \<Rightarrow> nat \<Rightarrow> limb \<Rightarrow> (limb list \<times> limb) option" where
  "mp_neg op2 0 k = Some ([], k)"
| "mp_neg (w # op2) (Suc n) k =
     (let v = 0; a = v - w; k1 = a > v; v = a - k; k = of_bool (v > a \<or> k1) in
      do { (res, k) \<leftarrow> mp_neg op2 n k; Some (v # res, k) })"
| "mp_neg [] (Suc n) k = None"

fun mp_sub_ui :: "limb list \<Rightarrow> limb \<Rightarrow> nat \<Rightarrow> (limb list \<times> limb) option" where
  "mp_sub_ui tab k 0 = Some (tab, k)"
| "mp_sub_ui (v # tab) k (Suc n) =
     (let a = v - k; k = of_bool (a > v) in
      if k = 0 then Some (a # tab, k)
      else do { (tab, k) \<leftarrow> mp_sub_ui tab k n; Some (a # tab, k) })"
| "mp_sub_ui [] k (Suc n) = None"

subsection \<open>Shift, comparison, test for zero\<close>

fun mp_shr_loop :: "limb list \<Rightarrow> nat \<Rightarrow> nat \<Rightarrow> limb \<Rightarrow> (limb list \<times> limb) option" where
  "mp_shr_loop tab 0 shift l = Some ([], l)"
| "mp_shr_loop tab (Suc i) shift l =
     do {
       a \<leftarrow> rd tab i;
       (low, l') \<leftarrow> mp_shr_loop tab i shift a;
       Some (low @ [drop_bit shift a OR push_bit (LIMB_BITS - shift) l], l')
     }"

definition mp_shr :: "limb list \<Rightarrow> nat \<Rightarrow> nat \<Rightarrow> limb \<Rightarrow> (limb list \<times> limb) option" where
  "mp_shr tab n shift high =
     (if 1 \<le> shift \<and> shift < LIMB_BITS then
        do { (r, l) \<leftarrow> mp_shr_loop tab n shift high; Some (r, l AND (push_bit shift 1 - 1)) }
      else None)"

fun mp_cmp :: "limb list \<Rightarrow> limb list \<Rightarrow> nat \<Rightarrow> int option" where
  "mp_cmp taba tabb 0 = Some 0"
| "mp_cmp taba tabb (Suc i) =
     do {
       a \<leftarrow> rd taba i;
       b \<leftarrow> rd tabb i;
       if a \<noteq> b then (if a < b then Some (-1) else Some 1) else mp_cmp taba tabb i
     }"

fun mp_scan_nz :: "limb list \<Rightarrow> nat \<Rightarrow> bool option" where
  "mp_scan_nz tab 0 = Some False"
| "mp_scan_nz (x # tab) (Suc n) = (if x \<noteq> 0 then Some True else mp_scan_nz tab n)"
| "mp_scan_nz [] (Suc n) = None"

subsection \<open>Multiplication\<close>

fun mp_mul1 :: "limb list \<Rightarrow> nat \<Rightarrow> limb \<Rightarrow> limb \<Rightarrow> (limb list \<times> limb) option" where
  "mp_mul1 taba 0 b l = Some ([], l)"
| "mp_mul1 (x # taba) (Suc n) b l =
     (let t = ucast x * ucast b + ucast l :: dlimb in
      do { (tabr, l) \<leftarrow> mp_mul1 taba n b (ucast (drop_bit LIMB_BITS t)); Some (ucast t # tabr, l) })"
| "mp_mul1 [] (Suc n) b l = None"

fun add_mul1_loop :: "limb list \<Rightarrow> limb list \<Rightarrow> nat \<Rightarrow> limb \<Rightarrow> limb \<Rightarrow> (limb list \<times> limb) option" where
  "add_mul1_loop tabr taba 0 b l = Some (tabr, l)"
| "add_mul1_loop (y # tabr) (x # taba) (Suc n) b l =
     (let t = ucast x * ucast b + ucast l + ucast y :: dlimb in
      do { (tabr, l) \<leftarrow> add_mul1_loop tabr taba n b (ucast (drop_bit LIMB_BITS t)); Some (ucast t # tabr, l) })"
| "add_mul1_loop tabr taba (Suc n) b l = None"

definition mp_add_mul1 :: "limb list \<Rightarrow> limb list \<Rightarrow> nat \<Rightarrow> limb \<Rightarrow> (limb list \<times> limb) option" where
  "mp_add_mul1 tabr taba n b = add_mul1_loop tabr taba n b 0"

fun sub_mul1_loop :: "limb list \<Rightarrow> limb list \<Rightarrow> nat \<Rightarrow> limb \<Rightarrow> limb \<Rightarrow> (limb list \<times> limb) option" where
  "sub_mul1_loop tabr taba 0 b l = Some (tabr, l)"
| "sub_mul1_loop (y # tabr) (x # taba) (Suc n) b l =
     (let t = ucast y - ucast x * ucast b - ucast l :: dlimb in
      do { (tabr, l) \<leftarrow> sub_mul1_loop tabr taba n b (- ucast (drop_bit LIMB_BITS t)); Some (ucast t # tabr, l) })"
| "sub_mul1_loop tabr taba (Suc n) b l = None"

definition mp_sub_mul1 :: "limb list \<Rightarrow> limb list \<Rightarrow> nat \<Rightarrow> limb \<Rightarrow> (limb list \<times> limb) option" where
  "mp_sub_mul1 tabr taba n b = sub_mul1_loop tabr taba n b 0"

definition wr :: "'a list \<Rightarrow> nat \<Rightarrow> 'a \<Rightarrow> 'a list option" where
  "wr xs i x = (if i < length xs then Some (xs[i := x]) else None)"

text \<open>The rows of the multiplication from \<open>i\<close> on; a call on \<open>result + i\<close> leaves the limbs below alone.\<close>

fun mul_rows :: "limb list \<Rightarrow> limb list \<Rightarrow> nat \<Rightarrow> limb list \<Rightarrow> nat \<Rightarrow> nat \<Rightarrow> limb list option" where
  "mul_rows result op1 op1_size op2 i 0 = Some result"
| "mul_rows result op1 op1_size op2 i (Suc k) =
     do {
       b \<leftarrow> rd op2 i;
       (high, r) \<leftarrow> mp_add_mul1 (drop i result) op1 op1_size b;
       result \<leftarrow> wr (take i result @ high) (i + op1_size) r;
       mul_rows result op1 op1_size op2 (Suc i) k
     }"

definition mp_mul_basecase :: "limb list \<Rightarrow> limb list \<Rightarrow> nat \<Rightarrow> limb list \<Rightarrow> nat \<Rightarrow> limb list option" where
  "mp_mul_basecase result op1 op1_size op2 op2_size =
     do {
       b \<leftarrow> rd op2 0;
       (low, l) \<leftarrow> mp_mul1 op1 op1_size b 0;
       result \<leftarrow> wr (low @ drop op1_size result) op1_size l;
       mul_rows result op1 op1_size op2 1 (op2_size - 1)
     }"

subsection \<open>Values\<close>

abbreviation B64 :: int where "B64 \<equiv> 18446744073709551616"

fun mpv :: "limb list \<Rightarrow> int" where
  "mpv [] = 0"
| "mpv (x # xs) = uint x + B64 * mpv xs"

lemma mpv_nonneg [simp]: "0 \<le> mpv xs"
  by (induction xs) simp_all

lemma uint_lt_B64: "uint (x :: limb) < B64"
  using uint_lt2p [of x] by simp

lemma mpv_less: "mpv xs < B64 ^ length xs"
proof (induction xs)
  case (Cons x xs)
  have "B64 * (mpv xs + 1) \<le> B64 * B64 ^ length xs" using Cons by (intro mult_left_mono) simp_all
  then show ?case using uint_lt_B64 [of x] by simp
qed simp

lemma mpv_append: "mpv (xs @ ys) = mpv xs + B64 ^ length xs * mpv ys"
  by (induction xs) (simp_all add: algebra_simps)

lemma mpv_take_drop: "n \<le> length xs \<Longrightarrow> mpv xs = mpv (take n xs) + B64 ^ n * mpv (drop n xs)"
  using mpv_append [of "take n xs" "drop n xs"] by (simp add: min_def)

lemma mpv_take_Suc: "n < length xs \<Longrightarrow> mpv (take (Suc n) xs) = mpv (take n xs) + B64 ^ n * uint (xs ! n)"
  by (simp add: take_Suc_conv_app_nth mpv_append min_def)

text \<open>One step with a carry or a borrow.\<close>

lemma add_step:
  fixes v w k :: limb
  assumes "k \<le> 1"
  shows "uint (v + w + k) + B64 * uint (of_bool (v + w + k < k \<or> v + w < v) :: limb) = uint v + uint w + uint k"
proof -
  define V where "V = uint v"
  define W where "W = uint w"
  define K where "K = uint k"
  have "K \<le> 1" using assms by (simp add: word_le_def K_def)
  moreover have "0 \<le> V" "V < B64" "0 \<le> W" "W < B64" "0 \<le> K"
    by (simp_all add: V_def W_def K_def uint_lt_B64)
  ultimately show ?thesis
    by (auto simp: word_less_def uint_plus_if' V_def [symmetric] W_def [symmetric] K_def [symmetric])
qed

lemma sub_step:
  fixes v w k :: limb
  assumes "k \<le> 1"
  shows "uint (v - w - k) - B64 * uint (of_bool (v - w < v - w - k \<or> v < v - w) :: limb) = uint v - uint w - uint k"
proof -
  define V where "V = uint v"
  define W where "W = uint w"
  define K where "K = uint k"
  have "K \<le> 1" using assms by (simp add: word_le_def K_def)
  moreover have "0 \<le> V" "V < B64" "0 \<le> W" "W < B64" "0 \<le> K"
    by (simp_all add: V_def W_def K_def uint_lt_B64)
  ultimately show ?thesis
    by (auto simp: word_less_def uint_sub_if' V_def [symmetric] W_def [symmetric] K_def [symmetric])
qed

lemma of_bool_le_1 [simp]: "(of_bool b :: limb) \<le> 1"
  by (cases b) simp_all

lemma mp_add_ok:
  assumes "n \<le> length op1" "n \<le> length op2" "k \<le> 1"
  shows "\<exists>res k'. mp_add op1 op2 n k = Some (res, k') \<and> length res = n \<and> k' \<le> 1 \<and>
    mpv res + B64 ^ n * uint k' = mpv (take n op1) + mpv (take n op2) + uint k"
  using assms
proof (induction op1 op2 n k rule: mp_add.induct)
  case (2 v op1 w op2 n k)
  define k0 where "k0 = (of_bool (v + w + k < k \<or> v + w < v) :: limb)"
  have st: "uint (v + w + k) + B64 * uint k0 = uint v + uint w + uint k" unfolding k0_def by (rule add_step [OF 2(4)])
  from 2(1) [OF refl refl refl refl] 2(2-4) obtain res k' where r: "mp_add op1 op2 n k0 = Some (res, k')" "length res = n" "k' \<le> 1"
    "mpv res + B64 ^ n * uint k' = mpv (take n op1) + mpv (take n op2) + uint k0"
    unfolding k0_def by (auto simp: Let_def)
  have "mpv ((v + w + k) # res) + B64 ^ Suc n * uint k' = uint (v + w + k) + B64 * (mpv res + B64 ^ n * uint k')"
    by (simp add: algebra_simps)
  also have "\<dots> = uint (v + w + k) + B64 * uint k0 + B64 * (mpv (take n op1) + mpv (take n op2))"
    unfolding r(4) by (simp add: algebra_simps)
  also have "\<dots> = mpv (take (Suc n) (v # op1)) + mpv (take (Suc n) (w # op2)) + uint k"
    using st by (simp add: algebra_simps del: add.assoc)
  finally show ?case using r(1-3) by (simp add: Let_def k0_def)
qed auto

lemma mp_sub_ok:
  assumes "n \<le> length op1" "n \<le> length op2" "k \<le> 1"
  shows "\<exists>res k'. mp_sub op1 op2 n k = Some (res, k') \<and> length res = n \<and> k' \<le> 1 \<and>
    mpv res - B64 ^ n * uint k' = mpv (take n op1) - mpv (take n op2) - uint k"
  using assms
proof (induction op1 op2 n k rule: mp_sub.induct)
  case (2 v op1 w op2 n k)
  define k0 where "k0 = (of_bool (v - w < v - w - k \<or> v < v - w) :: limb)"
  have st: "uint (v - w - k) - B64 * uint k0 = uint v - uint w - uint k" unfolding k0_def by (rule sub_step [OF 2(4)])
  from 2(1) [OF refl refl refl refl] 2(2-4) obtain res k' where r: "mp_sub op1 op2 n k0 = Some (res, k')" "length res = n" "k' \<le> 1"
    "mpv res - B64 ^ n * uint k' = mpv (take n op1) - mpv (take n op2) - uint k0"
    unfolding k0_def by (auto simp: Let_def)
  have "mpv ((v - w - k) # res) - B64 ^ Suc n * uint k' = uint (v - w - k) + B64 * (mpv res - B64 ^ n * uint k')"
    by (simp add: algebra_simps)
  also have "\<dots> = uint (v - w - k) - B64 * uint k0 + B64 * (mpv (take n op1) - mpv (take n op2))"
    unfolding r(4) by (simp add: algebra_simps)
  also have "\<dots> = mpv (take (Suc n) (v # op1)) - mpv (take (Suc n) (w # op2)) - uint k"
    using st by (simp add: algebra_simps del: add.assoc)
  finally show ?case using r(1-3) by (simp add: Let_def k0_def)
qed auto

lemma mp_add_ui_ok:
  assumes "n \<le> length tab"
  shows "\<exists>res k'. mp_add_ui tab k n = Some (res, k') \<and> length res = length tab \<and> drop n res = drop n tab \<and>
    mpv (take n res) + B64 ^ n * uint k' = mpv (take n tab) + uint k \<and> (0 < n \<longrightarrow> k' \<le> 1)"
  using assms
proof (induction tab k n rule: mp_add_ui.induct)
  case (2 tab k n)
  show ?case
  proof (cases "k = 0")
    case False
    then obtain x t where t: "tab = x # t" using 2(2) by (cases tab) auto
    define k0 where "k0 = (of_bool (x + k < k) :: limb)"
    have st: "uint (x + k) + B64 * uint k0 = uint x + uint k"
      using add_step [of 0 k x] by (simp add: k0_def add.commute)
    from 2(1) [OF False t refl refl] 2(2) t obtain res k' where r: "mp_add_ui t k0 n = Some (res, k')" "length res = length t"
      "drop n res = drop n t" "mpv (take n res) + B64 ^ n * uint k' = mpv (take n t) + uint k0" "0 < n \<longrightarrow> k' \<le> 1"
      unfolding k0_def by auto
    have "mp_add_ui tab k (Suc n) = Some ((x + k) # res, k')" using False t r(1) by (simp add: k0_def Let_def)
    moreover have "B64 * (mpv (take n res) + B64 ^ n * uint k') = B64 * (mpv (take n t) + uint k0)" by (simp only: r(4))
    then have "mpv (take (Suc n) ((x + k) # res)) + B64 ^ Suc n * uint k' = mpv (take (Suc n) tab) + uint k"
      using st t by (simp add: algebra_simps)
    moreover have "k' \<le> 1"
    proof (cases n)
      case 0
      then have "k' = k0" using r(1) by simp
      then show ?thesis by (simp add: k0_def)
    qed (use r(5) in simp)
    ultimately show ?thesis using r(2,3) t by auto
  qed simp
qed simp

lemma mp_sub_ui_ok:
  assumes "n \<le> length tab"
  shows "\<exists>res k'. mp_sub_ui tab k n = Some (res, k') \<and> length res = length tab \<and> drop n res = drop n tab \<and>
    mpv (take n res) - B64 ^ n * uint k' = mpv (take n tab) - uint k \<and> (0 < n \<longrightarrow> k' \<le> 1)"
  using assms
proof (induction tab k n rule: mp_sub_ui.induct)
  case (2 v tab k n)
  define k0 where "k0 = (of_bool (v - k > v) :: limb)"
  have st: "uint (v - k) - B64 * uint k0 = uint v - uint k"
    using sub_step [of 0 v k] by (simp add: k0_def)
  show ?case
  proof (cases "k0 = 0")
    case True
    have "mp_sub_ui (v # tab) k (Suc n) = Some ((v - k) # tab, k0)" using True by (simp add: k0_def Let_def)
    then show ?thesis using st True by (auto simp: k0_def)
  next
    case False
    from 2(1) [OF refl refl False [unfolded k0_def]] 2(2) obtain res k' where
      r: "mp_sub_ui tab k0 n = Some (res, k')" "length res = length tab"
      "drop n res = drop n tab" "mpv (take n res) - B64 ^ n * uint k' = mpv (take n tab) - uint k0" "0 < n \<longrightarrow> k' \<le> 1"
      unfolding k0_def by auto
    have "mp_sub_ui (v # tab) k (Suc n) = Some ((v - k) # res, k')"
      using False r(1) by (simp only: mp_sub_ui.simps Let_def k0_def [symmetric]) simp
    moreover have "B64 * (mpv (take n res) - B64 ^ n * uint k') = B64 * (mpv (take n tab) - uint k0)" by (simp only: r(4))
    then have "mpv (take (Suc n) ((v - k) # res)) - B64 ^ Suc n * uint k' = mpv (take (Suc n) (v # tab)) - uint k"
      using st by (simp add: algebra_simps)
    moreover have "k' \<le> 1"
    proof (cases n)
      case 0
      then have "k' = k0" using r(1) by simp
      then show ?thesis by (simp add: k0_def)
    qed (use r(5) in simp)
    ultimately show ?thesis using r(2,3) by auto
  qed
qed simp_all

text \<open>Products of two limbs fit in a double limb.\<close>

lemma uint_ucast_dlimb: "uint (ucast (x :: limb) :: dlimb) = uint x"
  by (simp add: uint_up_ucast is_up)

lemma split_dlimb: "uint (ucast t :: limb) + B64 * uint (ucast (drop_bit 64 t) :: limb) = uint (t :: dlimb)"
proof -
  have lo: "uint (ucast t :: limb) = uint t mod B64" by (simp add: unsigned_ucast_eq take_bit_eq_mod)
  have "uint t < B64 * B64" using uint_lt2p [of t] by simp
  then have "uint t div B64 mod B64 = uint t div B64"
    by (intro mod_pos_pos_trivial) (simp_all add: div_less_iff_less_mult pos_imp_zdiv_nonneg_iff)
  moreover have "uint (drop_bit 64 t) = uint t div B64" by (simp add: uint_div_distrib drop_bit_eq_div)
  ultimately have hi: "uint (ucast (drop_bit 64 t) :: limb) = uint t div B64"
    by (simp only: unsigned_ucast_eq take_bit_eq_mod) simp
  show ?thesis unfolding lo hi by simp
qed

lemma dlimb_bound:
  fixes X Y L Z :: int
  assumes "0 \<le> X" "X < B64" "0 \<le> Y" "Y < B64" "0 \<le> L" "L < B64" "0 \<le> Z" "Z < B64"
  shows "X * Y + L + Z < B64 * B64" "X * Y + L \<le> B64 * (B64 - 1)"
proof -
  have "X * Y \<le> (B64 - 1) * (B64 - 1)" using assms by (intro mult_mono) auto
  then show "X * Y + L + Z < B64 * B64" "X * Y + L \<le> B64 * (B64 - 1)" using assms by auto
qed

lemma mul_step:
  fixes x b l y :: limb
  defines "t \<equiv> ucast x * ucast b + ucast l + ucast y :: dlimb"
  shows "uint (ucast t :: limb) + B64 * uint (ucast (drop_bit 64 t) :: limb) = uint x * uint b + uint l + uint y"
proof -
  have "uint x * uint b + uint l + uint y < B64 * B64"
    by (rule dlimb_bound) (simp_all add: uint_lt_B64)
  moreover have "uint t = (uint x * uint b + uint l + uint y) mod (B64 * B64)"
    by (simp add: t_def uint_word_ariths uint_ucast_dlimb mod_simps)
  ultimately show ?thesis unfolding split_dlimb by simp
qed

lemma sub_mul_step:
  fixes x b l y :: limb
  defines "t \<equiv> ucast y - ucast x * ucast b - ucast l :: dlimb"
  shows "uint (ucast t :: limb) - B64 * uint (- ucast (drop_bit 64 t) :: limb) = uint y - uint x * uint b - uint l"
proof -
  define D where "D = uint x * uint b + uint l - uint y"
  define h where "h = uint (ucast (drop_bit 64 t) :: limb)"
  define lo where "lo = uint (ucast t :: limb)"
  have "uint x * uint b + uint l \<le> B64 * (B64 - 1)" by (rule dlimb_bound [where Z = 0]) (simp_all add: uint_lt_B64)
  moreover have "0 \<le> uint x * uint b + uint l" by (intro add_nonneg_nonneg mult_nonneg_nonneg) simp_all
  moreover have "0 \<le> uint y" by simp
  ultimately have D: "D \<le> B64 * (B64 - 1)" "- B64 < D" using uint_lt_B64 [of y] unfolding D_def by linarith+
  have s: "lo + B64 * h = uint t" unfolding lo_def h_def by (rule split_dlimb)
  have b: "0 \<le> lo" "lo < B64" "0 \<le> h" "h < B64" by (simp_all add: lo_def h_def uint_lt_B64)
  have "uint t = (- D) mod (B64 * B64)"
    by (simp add: t_def D_def uint_word_ariths uint_ucast_dlimb mod_simps algebra_simps)
  moreover have "(- D) mod (B64 * B64) = (if D \<le> 0 then - D else B64 * B64 - D)"
  proof (cases "D \<le> 0")
    case False
    then have "(B64 * B64 - D) mod (B64 * B64) = B64 * B64 - D" using D by (intro mod_pos_pos_trivial) auto
    moreover have "(B64 * B64 - D) mod (B64 * B64) = (- D) mod (B64 * B64)" using mod_add_self1 [of "B64 * B64" "- D"] by simp
    ultimately show ?thesis using False by simp
  qed (use D in \<open>auto intro!: mod_pos_pos_trivial\<close>)
  ultimately have t: "uint t = (if D \<le> 0 then - D else B64 * B64 - D)" by simp
  have "uint (- ucast (drop_bit 64 t) :: limb) = (if h = 0 then 0 else B64 - h)"
    using b by (simp add: uint_word_ariths h_def [symmetric] zmod_zminus1_eq_if)
  moreover have "h = 0 \<longleftrightarrow> D \<le> 0" using s t b D by (auto split: if_splits)
  ultimately show ?thesis using s t b D unfolding lo_def [symmetric] by (auto simp: D_def split: if_splits)
qed

lemma mp_mul1_ok:
  assumes "n \<le> length taba"
  shows "\<exists>res l'. mp_mul1 taba n b l = Some (res, l') \<and> length res = n \<and>
    mpv res + B64 ^ n * uint l' = mpv (take n taba) * uint b + uint l"
  using assms
proof (induction taba n b l rule: mp_mul1.induct)
  case (2 x taba n b l)
  define t where "t = (ucast x * ucast b + ucast l :: dlimb)"
  define l1 where "l1 = (ucast (drop_bit 64 t) :: limb)"
  have st: "uint (ucast t :: limb) + B64 * uint l1 = uint x * uint b + uint l"
    using mul_step [of x b l 0] by (simp add: t_def l1_def)
  from 2(1) [OF refl] 2(2) obtain res l' where r: "mp_mul1 taba n b l1 = Some (res, l')" "length res = n"
    "mpv res + B64 ^ n * uint l' = mpv (take n taba) * uint b + uint l1"
    unfolding l1_def t_def by auto
  have "B64 * (mpv res + B64 ^ n * uint l') = B64 * (mpv (take n taba) * uint b + uint l1)" by (simp only: r(3))
  then have "mpv (ucast t # res) + B64 ^ Suc n * uint l' = mpv (take (Suc n) (x # taba)) * uint b + uint l"
    using st by (simp add: algebra_simps)
  moreover have "mp_mul1 (x # taba) (Suc n) b l = Some (ucast t # res, l')"
    using r(1) by (simp add: Let_def t_def [symmetric] l1_def [symmetric])
  ultimately show ?case using r(2) by auto
qed auto

lemma add_mul1_loop_ok:
  assumes "n \<le> length taba" "n \<le> length tabr"
  shows "\<exists>res l'. add_mul1_loop tabr taba n b l = Some (res, l') \<and> length res = length tabr \<and> drop n res = drop n tabr \<and>
    mpv (take n res) + B64 ^ n * uint l' = mpv (take n tabr) + mpv (take n taba) * uint b + uint l"
  using assms
proof (induction tabr taba n b l rule: add_mul1_loop.induct)
  case (2 y tabr x taba n b l)
  define t where "t = (ucast x * ucast b + ucast l + ucast y :: dlimb)"
  define l1 where "l1 = (ucast (drop_bit 64 t) :: limb)"
  have st: "uint (ucast t :: limb) + B64 * uint l1 = uint x * uint b + uint l + uint y"
    using mul_step [of x b l y] by (simp add: t_def l1_def)
  from 2(1) [OF refl] 2(2,3) obtain res l' where r: "add_mul1_loop tabr taba n b l1 = Some (res, l')" "length res = length tabr"
    "drop n res = drop n tabr" "mpv (take n res) + B64 ^ n * uint l' = mpv (take n tabr) + mpv (take n taba) * uint b + uint l1"
    unfolding l1_def t_def by auto
  have "B64 * (mpv (take n res) + B64 ^ n * uint l') = B64 * (mpv (take n tabr) + mpv (take n taba) * uint b + uint l1)"
    by (simp only: r(4))
  then have "mpv (take (Suc n) (ucast t # res)) + B64 ^ Suc n * uint l' =
      mpv (take (Suc n) (y # tabr)) + mpv (take (Suc n) (x # taba)) * uint b + uint l"
    using st by (simp add: algebra_simps)
  moreover have "add_mul1_loop (y # tabr) (x # taba) (Suc n) b l = Some (ucast t # res, l')"
    using r(1) by (simp add: Let_def t_def [symmetric] l1_def [symmetric])
  ultimately show ?case using r(2,3) by auto
qed auto

lemma sub_mul1_loop_ok:
  assumes "n \<le> length taba" "n \<le> length tabr"
  shows "\<exists>res l'. sub_mul1_loop tabr taba n b l = Some (res, l') \<and> length res = length tabr \<and> drop n res = drop n tabr \<and>
    mpv (take n res) - B64 ^ n * uint l' = mpv (take n tabr) - mpv (take n taba) * uint b - uint l"
  using assms
proof (induction tabr taba n b l rule: sub_mul1_loop.induct)
  case (2 y tabr x taba n b l)
  define t where "t = (ucast y - ucast x * ucast b - ucast l :: dlimb)"
  define l1 where "l1 = (- ucast (drop_bit 64 t) :: limb)"
  have st: "uint (ucast t :: limb) - B64 * uint l1 = uint y - uint x * uint b - uint l"
    using sub_mul_step [of y x b l] by (simp add: t_def l1_def)
  from 2(1) [OF refl] 2(2,3) obtain res l' where r: "sub_mul1_loop tabr taba n b l1 = Some (res, l')" "length res = length tabr"
    "drop n res = drop n tabr" "mpv (take n res) - B64 ^ n * uint l' = mpv (take n tabr) - mpv (take n taba) * uint b - uint l1"
    unfolding l1_def t_def by auto
  have "B64 * (mpv (take n res) - B64 ^ n * uint l') = B64 * (mpv (take n tabr) - mpv (take n taba) * uint b - uint l1)"
    by (simp only: r(4))
  then have "mpv (take (Suc n) (ucast t # res)) - B64 ^ Suc n * uint l' =
      mpv (take (Suc n) (y # tabr)) - mpv (take (Suc n) (x # taba)) * uint b - uint l"
    using st by (simp add: algebra_simps)
  moreover have "sub_mul1_loop (y # tabr) (x # taba) (Suc n) b l = Some (ucast t # res, l')"
    using r(1) by (simp add: Let_def t_def [symmetric] l1_def [symmetric])
  ultimately show ?case using r(2,3) by auto
qed auto

text \<open>The product, row by row.\<close>

lemma mul_rows_ok:
  assumes "n \<le> length op1" "i + k \<le> length op2" "n + i + k \<le> length result"
    "mpv (take (n + i) result) = mpv (take n op1) * mpv (take i op2)"
  shows "\<exists>res. mul_rows result op1 n op2 i k = Some res \<and> length res = length result \<and>
    drop (n + i + k) res = drop (n + i + k) result \<and>
    mpv (take (n + i + k) res) = mpv (take n op1) * mpv (take (i + k) op2)"
  using assms(2-)
proof (induction k arbitrary: i result)
  case (Suc k)
  have i: "i < length op2" "n \<le> length (drop i result)" using Suc.prems by auto
  from add_mul1_loop_ok [OF assms(1) i(2), of "op2 ! i" 0] obtain high r where
    h: "mp_add_mul1 (drop i result) op1 n (op2 ! i) = Some (high, r)" "length high = length result - i"
    "drop n high = drop (n + i) result"
    "mpv (take n high) + B64 ^ n * uint r = mpv (take n (drop i result)) + mpv (take n op1) * uint (op2 ! i)"
    by (auto simp: mp_add_mul1_def add.commute)
  define result' where "result' = (take i result @ high)[i + n := r]"
  have len: "length (take i result @ high) = length result" "i + n < length result" using Suc.prems(2) h(2) by auto
  then have w: "wr (take i result @ high) (i + n) r = Some result'" by (simp add: wr_def result'_def)
  have tk: "take (Suc (n + i)) result' = take i result @ take n high @ [r]"
  proof -
    have "take (Suc (i + n)) result' = take (i + n) result' @ [result' ! (i + n)]"
      using len by (intro take_Suc_conv_app_nth) (simp add: result'_def)
    also have "take (i + n) result' = take i result @ take n high" using len by (simp add: result'_def)
    also have "result' ! (i + n) = r" using len by (simp add: result'_def)
    finally show ?thesis by (simp add: add.commute)
  qed
  have "mpv (take (n + i) result) = mpv (take i result) + B64 ^ i * mpv (take n (drop i result))"
    using mpv_append [of "take i result" "take n (drop i result)"] i(2) Suc.prems(2) by (simp add: take_add min_def add.commute)
  moreover have "mpv (take (Suc i) op2) = mpv (take i op2) + B64 ^ i * uint (op2 ! i)" by (rule mpv_take_Suc [OF i(1)])
  moreover have "mpv (take (Suc (n + i)) result') = mpv (take i result) + B64 ^ i * (mpv (take n high) + B64 ^ n * uint r)"
  proof -
    have "length (take n high) = n" "length (take i result) = i" using h(2) Suc.prems(2) by auto
    then show ?thesis unfolding tk by (simp only: mpv_append) (simp add: algebra_simps)
  qed
  moreover have "B64 ^ i * (mpv (take n high) + B64 ^ n * uint r) = B64 ^ i * (mpv (take n (drop i result)) + mpv (take n op1) * uint (op2 ! i))"
    by (simp only: h(4))
  ultimately have val: "mpv (take (n + Suc i) result') = mpv (take n op1) * mpv (take (Suc i) op2)"
    using Suc.prems(3) by (simp add: algebra_simps)
  have l': "length result' = length result" using len by (simp add: result'_def)
  from Suc.IH [of "Suc i" result', OF _ _ val] Suc.prems(1,2) l' obtain res where
    res: "mul_rows result' op1 n op2 (Suc i) k = Some res" "length res = length result"
    "drop (n + Suc i + k) res = drop (n + Suc i + k) result'"
    "mpv (take (n + Suc i + k) res) = mpv (take n op1) * mpv (take (Suc i + k) op2)" by auto
  have "drop (Suc (n + i)) result' = drop (Suc (n + i)) result"
  proof -
    have "drop (Suc (n + i)) result' = drop (Suc (n + i)) (take i result @ high)" by (simp add: result'_def add.commute)
    also have "\<dots> = drop (Suc n) high" using Suc.prems(2) by simp
    also have "\<dots> = drop 1 (drop n high)" by simp
    also have "\<dots> = drop (Suc (n + i)) result" unfolding h(3) by simp
    finally show ?thesis .
  qed
  then have "drop k (drop (Suc (n + i)) result') = drop k (drop (Suc (n + i)) result)" by (simp only:)
  then have "drop (n + Suc i + k) res = drop (n + i + Suc k) result" using res(3) by (simp add: add.commute add.left_commute)
  moreover have "mul_rows result op1 n op2 i (Suc k) = Some res" using i(1) h(1) w res(1) by simp
  ultimately show ?case using res by simp
qed simp

lemma mp_mul_basecase_ok:
  assumes "n \<le> length op1" "0 < m" "m \<le> length op2" "n + m \<le> length result"
  shows "\<exists>res. mp_mul_basecase result op1 n op2 m = Some res \<and> length res = length result \<and>
    drop (n + m) res = drop (n + m) result \<and>
    mpv (take (n + m) res) = mpv (take n op1) * mpv (take m op2)"
proof -
  have o: "0 < length op2" using assms by linarith
  from mp_mul1_ok [OF assms(1), of "op2 ! 0" 0] obtain low l where
    l: "mp_mul1 op1 n (op2 ! 0) 0 = Some (low, l)" "length low = n"
    "mpv low + B64 ^ n * uint l = mpv (take n op1) * uint (op2 ! 0)" by auto
  define result' where "result' = (low @ drop n result)[n := l]"
  have w: "wr (low @ drop n result) n l = Some result'" using l(2) assms by (simp add: wr_def result'_def)
  have r: "result' = low @ l # drop (Suc n) result"
  proof -
    have "drop n result = result ! n # drop (Suc n) result" using assms by (intro Cons_nth_drop_Suc [symmetric]) simp
    then show ?thesis using l(2) by (simp add: result'_def list_update_append)
  qed
  have "take (Suc 0) op2 = [op2 ! 0]" using o by (simp add: take_Suc_conv_app_nth)
  then have "mpv (take (n + 1) result') = mpv (take n op1) * mpv (take 1 op2)" using l(2,3) by (simp add: r mpv_append)
  moreover have lr: "length result' = length result" using l(2) assms(2,4) by (simp add: r)
  ultimately have "\<exists>res. mul_rows result' op1 n op2 1 (m - 1) = Some res \<and> length res = length result' \<and>
      drop (n + 1 + (m - 1)) res = drop (n + 1 + (m - 1)) result' \<and>
      mpv (take (n + 1 + (m - 1)) res) = mpv (take n op1) * mpv (take (1 + (m - 1)) op2)"
    using assms by (intro mul_rows_ok) auto
  then obtain res where
    "mul_rows result' op1 n op2 1 (m - 1) = Some res" "length res = length result"
    "drop (n + m) res = drop (n + m) result'" "mpv (take (n + m) res) = mpv (take n op1) * mpv (take m op2)" using assms(2) lr by auto
  moreover have "drop (n + m) result' = drop (n + m) result" using assms(2) l(2) by (simp add: r drop_Cons' add.commute)
  ultimately show ?thesis using l(1) w o by (simp add: mp_mul_basecase_def)
qed

end
