(* ===== verification/LimbDiv.thy ===== *)
theory LimbDiv
  imports LimbArith
begin

text \<open>
  libbf.c: the division of limb arrays.  A double limb is divided by a limb with the help of an
  approximation of the inverse; the schoolbook division estimates the limbs of the quotient with it.
\<close>

unbundle bit_operations_syntax

subsection \<open>The code\<close>

definition udiv1norm_init :: "limb \<Rightarrow> limb" where
  "udiv1norm_init d =
     (let a1 = - d - 1; a0 = - 1 :: limb in
      ucast ((push_bit LIMB_BITS (ucast a1) OR ucast a0 :: dlimb) div ucast d))"

text \<open>The quotient and the remainder.\<close>

definition udiv1norm :: "limb \<Rightarrow> limb \<Rightarrow> limb \<Rightarrow> limb \<Rightarrow> limb \<times> limb" where
  "udiv1norm a1 a0 d d_inv =
     (let n1m = signed_drop_bit (LIMB_BITS - 1) a0;
          n_adj = a0 + (n1m AND d);
          a = ucast d_inv * ucast (a1 - n1m) + ucast n_adj :: dlimb;
          q = ucast (drop_bit LIMB_BITS a + ucast a1) :: limb;
          a = push_bit LIMB_BITS (ucast a1) OR ucast a0 :: dlimb;
          a = a - ucast q * ucast d - ucast d;
          ah = ucast (drop_bit LIMB_BITS a) :: limb
      in (q + (1 + ah), ucast a + (ah AND d)))"

definition UDIV1NORM_THRESHOLD :: nat where "UDIV1NORM_THRESHOLD = 3"
definition DIVNORM_LARGE_THRESHOLD :: nat where "DIVNORM_LARGE_THRESHOLD = 50"

fun div1norm_loop :: "limb \<Rightarrow> limb option \<Rightarrow> limb list \<Rightarrow> nat \<Rightarrow> limb \<Rightarrow> (limb list \<times> limb) option" where
  "div1norm_loop b b_inv taba 0 r = Some ([], r)"
| "div1norm_loop b b_inv taba (Suc i) r =
     do {
       a \<leftarrow> rd taba i;
       let (q, r) =
         (case b_inv of
            Some b_inv \<Rightarrow> udiv1norm r a b b_inv
          | None \<Rightarrow>
              let a1 = push_bit LIMB_BITS (ucast r) OR ucast a :: dlimb in
              (ucast (a1 div ucast b), ucast (a1 mod ucast b)));
       (low, r) \<leftarrow> div1norm_loop b b_inv taba i r;
       Some (low @ [q], r)
     }"

definition mp_div1norm :: "limb list \<Rightarrow> nat \<Rightarrow> limb \<Rightarrow> limb \<Rightarrow> (limb list \<times> limb) option" where
  "mp_div1norm taba n b r =
     div1norm_loop b (if n \<ge> UDIV1NORM_THRESHOLD then Some (udiv1norm_init b) else None) taba n r"

text \<open>The correction of a quotient limb that is too large: the divisor is added back.\<close>

fun add_back :: "nat \<Rightarrow> limb list \<Rightarrow> limb list \<Rightarrow> nat \<Rightarrow> nat \<Rightarrow> limb \<Rightarrow> (limb list \<times> limb) option" where
  "add_back 0 taba tabb nb i q = None"
| "add_back (Suc fuel) taba tabb nb i q =
     do {
       (t, c) \<leftarrow> mp_add (drop i taba) tabb nb 0;
       let taba = splice_at taba i t;
       if c \<noteq> 0 then
         do {
           v \<leftarrow> rd taba (i + nb);
           let taba = taba[i + nb := v + 1];
           if v + 1 = 0 then Some (taba, q - 1) else add_back fuel taba tabb nb i (q - 1)
         }
       else add_back fuel taba tabb nb i (q - 1)
     }"

text \<open>The estimate of a limb of the quotient from the leading limbs, and the limb \<open>i\<close> of the quotient.\<close>

definition estimate :: "limb \<Rightarrow> limb \<Rightarrow> limb \<Rightarrow> limb \<Rightarrow> limb" where
  "estimate b1 b1_inv x y =
     (if x \<ge> b1 then -1
      else if b1_inv \<noteq> 0 then fst (udiv1norm x y b1 b1_inv)
      else let al = push_bit LIMB_BITS (ucast x) OR ucast y :: dlimb in ucast (al div ucast b1))"

definition divnorm_digit :: "limb \<Rightarrow> limb \<Rightarrow> limb list \<Rightarrow> limb list \<Rightarrow> nat \<Rightarrow> nat \<Rightarrow> (limb list \<times> limb) option" where
  "divnorm_digit b1 b1_inv taba tabb nb i =
     do {
       x \<leftarrow> rd taba (i + nb);
       y \<leftarrow> rd taba (i + nb - 1);
       let q = estimate b1 b1_inv x y;
       (t, r) \<leftarrow> mp_sub_mul1 (drop i taba) tabb nb q;
       let taba = take i taba @ t;
       v \<leftarrow> rd taba (i + nb);
       let a = v - r;
       let taba = taba[i + nb := a];
       if a > v then add_back 3 taba tabb nb i q else Some (taba, q)
     }"

fun divnorm_loop :: "limb \<Rightarrow> limb \<Rightarrow> limb list \<Rightarrow> limb list \<Rightarrow> nat \<Rightarrow> nat \<Rightarrow> (limb list \<times> limb list) option" where
  "divnorm_loop b1 b1_inv taba tabb nb 0 = Some ([], taba)"
| "divnorm_loop b1 b1_inv taba tabb nb (Suc i) =
     do {
       (taba, q) \<leftarrow> divnorm_digit b1 b1_inv taba tabb nb i;
       (tabq, taba) \<leftarrow> divnorm_loop b1 b1_inv taba tabb nb i;
       Some (tabq @ [q], taba)
     }"

text \<open>The first limb of the quotient is 0 or 1.\<close>

fun divnorm_first :: "limb list \<Rightarrow> limb list \<Rightarrow> nat \<Rightarrow> nat \<Rightarrow> limb option" where
  "divnorm_first taba tabb n 0 = Some 1"
| "divnorm_first taba tabb n (Suc j) =
     do {
       a \<leftarrow> rd taba (n + j);
       b \<leftarrow> rd tabb j;
       if a \<noteq> b then Some (if a < b then 0 else 1) else divnorm_first taba tabb n j
     }"

text \<open>
  \<open>mp_divnorm\<close> for less than \<open>DIVNORM_LARGE_THRESHOLD\<close> limbs of the quotient or of the divisor.  The
  result is the quotient, of \<open>na - nb + 1\<close> limbs, and the array with the remainder.
\<close>

definition mp_divnorm_base :: "limb list \<Rightarrow> nat \<Rightarrow> limb list \<Rightarrow> nat \<Rightarrow> (limb list \<times> limb list) option" where
  "mp_divnorm_base taba na tabb nb =
     do {
       b1 \<leftarrow> rd tabb (nb - 1);
       if nb = 1 then
         do {
           (tabq, r) \<leftarrow> mp_div1norm taba na b1 0;
           taba \<leftarrow> wr taba 0 r;
           Some (tabq, taba)
         }
       else
         do {
           let n = na - nb;
           let b1_inv = (if n \<ge> UDIV1NORM_THRESHOLD then udiv1norm_init b1 else 0);
           q \<leftarrow> divnorm_first taba tabb n nb;
           taba \<leftarrow> (if q \<noteq> 0 then
              do { (t, c) \<leftarrow> mp_sub (drop n taba) tabb nb 0; Some (splice_at taba n t) }
            else Some taba);
           (tabq, taba) \<leftarrow> divnorm_loop b1 b1_inv taba tabb nb n;
           Some (tabq @ [q], taba)
         }
     }"

subsection \<open>The inverse\<close>

text \<open>\<open>m = floor ((B ^ 2 - 1) / d)\<close> gives an estimate that is right or one too small.\<close>

lemma inverse_estimate:
  fixes m d a1 a0 :: int
  assumes d: "d < B64" "B64 \<le> 2 * d" and m: "m * d = B64 * B64 - 1 - e" "0 \<le> e" "e < d"
    and a: "0 \<le> a1" "a1 < d" "0 \<le> a0" "a0 < B64"
    and n1: "n1 = (if B64 \<le> 2 * a0 then 1 else 0)"
    and q0: "q0 = ((m - B64) * (a1 + n1) + (a0 + n1 * (d - B64))) div B64"
  shows "0 \<le> a1 * B64 + a0 - (a1 + q0) * d" "a1 * B64 + a0 - (a1 + q0) * d < 2 * d"
proof -
  define s where "s = (m - B64) * (a1 + n1) + (a0 + n1 * (d - B64))"
  have s: "q0 * B64 \<le> s" "s \<le> q0 * B64 + (B64 - 1)"
    unfolding q0 s_def [symmetric] using pos_mod_bound [of B64 s] pos_mod_sign [of B64 s] div_mult_mod_eq [of s B64] by linarith+
  have "0 < d" using d by simp
  then have ds: "d * (q0 * B64) \<le> d * s" "d * s \<le> d * (q0 * B64 + (B64 - 1))" using s by (simp_all add: mult_left_mono)
  have "d * s = (m * d - B64 * d) * (a1 + n1) + d * (a0 + n1 * (d - B64))" by (simp add: s_def algebra_simps)
  then have ds_eq: "d * s = (B64 * B64 - 1 - e - B64 * d) * (a1 + n1) + d * (a0 + n1 * (d - B64))" by (simp only: m(1))
  have "0 \<le> a1 * B64 + a0 - (a1 + q0) * d \<and> a1 * B64 + a0 - (a1 + q0) * d < 2 * d"
  proof (cases "B64 \<le> 2 * a0")
    case False
    then have n1: "n1 = 0" using n1 by simp
    have f: "0 \<le> (B64 - d) * a0" "0 \<le> e * a1" "(B64 - d) * a0 \<le> (B64 - d) * d" "(1 + e) * a1 \<le> d * (d - 1)"
      using d m(2,3) a False by (auto intro!: mult_left_mono mult_mono mult_nonneg_nonneg)
    show ?thesis using ds f d a ds_eq unfolding n1 by (simp add: algebra_simps)
  next
    case True
    then have n1: "n1 = 1" using n1 by simp
    have f: "0 \<le> (B64 - d) * (a0 - (B64 - d))" "0 \<le> e * (a1 + 1)" "(1 + e) * (a1 + 1) \<le> d * d"
      using d m(2,3) a True by (auto intro!: mult_left_mono mult_mono mult_nonneg_nonneg)
    have "(B64 - d) * a0 \<le> (B64 - d) * (B64 - 1)" by (rule mult_left_mono) (use d a in auto)
    with ds f show ?thesis using d a ds_eq unfolding n1 by (simp add: algebra_simps)
  qed
  then show "0 \<le> a1 * B64 + a0 - (a1 + q0) * d" "a1 * B64 + a0 - (a1 + q0) * d < 2 * d" by blast+
qed

lemma uint_push_or: "uint (push_bit 64 (ucast a) OR ucast b :: dlimb) = uint (a :: limb) * B64 + uint (b :: limb)"
proof -
  have u: "unat (ucast x :: dlimb) = unat x" for x :: limb using uint_ucast_dlimb [of x] by (metis nat_uint_eq)
  have b: "unat x < 2 ^ 64" for x :: limb using unsigned_less [of x] by simp
  have "unat a * 2 ^ 64 < 2 ^ 64 * 2 ^ 64" by (rule mult_strict_right_mono) (use b in simp_all)
  then have "unat (push_bit 64 (ucast a) OR ucast b :: dlimb) = unat a * 2 ^ 64 + unat b"
    using unat_push_or [of "ucast b :: dlimb" 64 "ucast a"] b by (simp add: u)
  then have "int (unat (push_bit 64 (ucast a) OR ucast b :: dlimb)) = int (unat a) * B64 + int (unat b)" by simp
  then show ?thesis by simp
qed

lemma div_less_mult: "0 < d \<Longrightarrow> x < c * d \<Longrightarrow> x div d < (c :: int)"
  by (smt (verit) div_mult_mod_eq mult_right_mono pos_mod_sign)

lemma le_div_mult: "0 < d \<Longrightarrow> c * d \<le> x \<Longrightarrow> c \<le> x div (d :: int)"
  using zdiv_mono1 [of "c * d" x d] by simp

lemma quotient_bound:
  fixes d :: int
  assumes "B64 \<le> 2 * d"
  shows "(B64 * B64 - 1) div d < 2 * B64" "B64 * B64 - 1 - d * B64 = (B64 * B64 - 1) - B64 * d"
proof -
  have "B64 * B64 \<le> (2 * d) * B64" using assms by (intro mult_right_mono) auto
  then have "B64 * B64 - 1 < (2 * B64) * d" by simp
  then show "(B64 * B64 - 1) div d < 2 * B64" using assms by (intro div_less_mult) auto
qed simp

lemma uint_udiv1norm_init:
  assumes "B64 \<le> 2 * uint d"
  shows "uint (udiv1norm_init d) = (B64 * B64 - 1) div uint d - B64"
proof -
  define D where "D = uint d"
  have D: "B64 \<le> 2 * D" "D < B64" using assms by (simp_all add: D_def uint_lt_B64)
  have "(- D - 1) mod B64 = B64 - 1 - D"
    using mod_add_self1 [of B64 "- D - 1"] mod_pos_pos_trivial [of "B64 - 1 - D" B64] D by simp
  then have a1: "uint (- d - 1) = B64 - 1 - D" by (simp add: uint_word_ariths mod_simps D_def)
  have "uint (push_bit 64 (ucast (- d - 1)) OR ucast (- 1 :: limb) :: dlimb) = (B64 - 1 - D) * B64 + (B64 - 1)"
    unfolding uint_push_or a1 by (simp add: unsigned_minus_1_eq_mask mask_eq_exp_minus_1)
  also have "\<dots> = (B64 * B64 - 1) + (- B64) * D" by (simp add: algebra_simps)
  finally have "uint ((push_bit 64 (ucast (- d - 1)) OR ucast (- 1 :: limb) :: dlimb) div ucast d) = ((B64 * B64 - 1) + (- B64) * D) div D"
    by (simp only: uint_div uint_ucast_dlimb D_def [symmetric])
  also have "\<dots> = (B64 * B64 - 1) div D - B64" using D by (subst div_mult_self1) auto
  finally have q: "uint ((push_bit 64 (ucast (- d - 1)) OR ucast (- 1 :: limb) :: dlimb) div ucast d) = (B64 * B64 - 1) div D - B64" .
  have "B64 * D \<le> B64 * (B64 - 1)" using D by (intro mult_left_mono) auto
  then have "B64 \<le> (B64 * B64 - 1) div D" using D by (intro le_div_mult) auto
  then have "((B64 * B64 - 1) div D - B64) mod B64 = (B64 * B64 - 1) div D - B64"
    using quotient_bound [OF D(1)] by (intro mod_pos_pos_trivial) auto
  then show ?thesis unfolding udiv1norm_init_def Let_def by (simp only: unsigned_ucast_eq q) (simp add: take_bit_eq_mod D_def)
qed

lemma msb_limb: "bit a 63 \<longleftrightarrow> B64 \<le> 2 * uint (a :: limb)"
proof -
  have "bit a 63 \<longleftrightarrow> bit (uint a) 63" by (simp add: bit_uint_iff)
  also have "\<dots> \<longleftrightarrow> odd (uint a div 2 ^ 63)" by (rule bit_iff_odd)
  finally have "bit a 63 \<longleftrightarrow> odd (uint a div 9223372036854775808)" by simp
  moreover have "uint a div 9223372036854775808 = (if B64 \<le> 2 * uint a then 1 else 0)"
  proof (cases "B64 \<le> 2 * uint a")
    case True
    then show ?thesis using uint_lt_B64 [of a] by (intro int_div_pos_eq [of _ _ _ "uint a - 9223372036854775808"]) auto
  qed (simp add: div_pos_pos_trivial)
  ultimately show ?thesis by simp
qed

lemma sign_limb: "signed_drop_bit 63 (a :: limb) = (if B64 \<le> 2 * uint a then - 1 else 0)"
proof -
  have "signed_drop_bit 63 a = (if bit a 63 then - 1 else 0)"
    by (rule bit_word_eqI) (auto simp: bit_signed_drop_bit_iff Suc_le_eq)
  then show ?thesis by (simp add: msb_limb)
qed

lemma digits_unique:
  fixes lo h lo' h' :: int
  assumes "lo + B64 * h = lo' + B64 * h'" "0 \<le> lo" "lo < B64" "0 \<le> lo'" "lo' < B64"
  shows "lo = lo'" "h = h'"
proof -
  have "(lo + B64 * h) mod B64 = (lo' + B64 * h') mod B64" by (simp only: assms(1))
  then show "lo = lo'" using assms(2-) by simp
  with assms(1) show "h = h'" by simp
qed

lemma limb_minus_1: "uint (x :: limb) = B64 - 1 \<Longrightarrow> x = - 1"
  by (rule word_uint_eqI) (simp add: unsigned_minus_1_eq_mask mask_eq_exp_minus_1)

lemma uint_limb_minus_1: "uint (- 1 :: limb) = B64 - 1"
  by (simp add: unsigned_minus_1_eq_mask mask_eq_exp_minus_1)

lemma uint_succ: "T + 1 \<noteq> 0 \<Longrightarrow> uint (T + 1) = uint T + 1" for T :: limb
proof -
  assume "T + 1 \<noteq> 0"
  then have "T \<noteq> - 1" by auto
  then have "uint T \<noteq> B64 - 1" using limb_minus_1 by blast
  then have "uint T + 1 < B64" using uint_lt_B64 [of T] by linarith
  then show ?thesis by (simp add: uint_plus_if')
qed

lemma udiv1norm_ok:
  assumes "B64 \<le> 2 * uint d" "a1 < d" "udiv1norm a1 a0 d (udiv1norm_init d) = (q, r)"
  shows "uint q = (uint a1 * B64 + uint a0) div uint d" "uint r = (uint a1 * B64 + uint a0) mod uint d"
proof -
  define D A1 A0 where "D = uint d" and "A1 = uint a1" and "A0 = uint a0"
  define N where "N = A1 * B64 + A0"
  have D: "B64 \<le> 2 * D" "D < B64" "0 < D" using assms(1) by (simp_all add: D_def uint_lt_B64)
  have a: "0 \<le> A1" "A1 < D" "0 \<le> A0" "A0 < B64"
    using assms(2) by (simp_all add: A1_def A0_def D_def uint_lt_B64 word_less_def)
  define m e where "m = (B64 * B64 - 1) div D" and "e = (B64 * B64 - 1) mod D"
  have m: "m * D = B64 * B64 - 1 - e" "0 \<le> e" "e < D" using D by (simp_all add: m_def e_def minus_mod_eq_div_mult)
  define n1 where "n1 = (if B64 \<le> 2 * A0 then 1 else 0 :: int)"
  define v where "v = udiv1norm_init d"
  have v: "uint v = m - B64" unfolding v_def uint_udiv1norm_init [OF assms(1)] m_def D_def ..
  define n1m where "n1m = signed_drop_bit 63 a0"
  have n1m: "n1m = (if B64 \<le> 2 * A0 then - 1 else 0)" unfolding n1m_def sign_limb A0_def ..
  have adj: "uint (a0 + (n1m AND d)) = A0 + n1 * (D - B64)"
    using a D by (auto simp: n1m n1_def uint_plus_if' A0_def [symmetric] D_def [symmetric])
  have "uint (a1 + 1) = A1 + 1" using a D by (simp add: uint_plus_if' A1_def [symmetric])
  then have up: "uint (a1 - n1m) = A1 + n1" by (simp add: n1m n1_def A1_def)
  define s where "s = (m - B64) * (A1 + n1) + (A0 + n1 * (D - B64))"
  define q0 where "q0 = s div B64"
  have s: "0 \<le> s" "s < B64 * B64"
  proof -
    have "0 \<le> uint v * uint (a1 - n1m) + uint (a0 + (n1m AND d))" by simp
    then show "0 \<le> s" by (simp only: v up adj s_def)
    have "uint v * uint (a1 - n1m) + uint (a0 + (n1m AND d)) + 0 < B64 * B64" by (rule dlimb_bound) (simp_all add: uint_lt_B64)
    then show "s < B64 * B64" unfolding v up adj s_def by simp
  qed
  then have q0: "0 \<le> q0" "q0 < B64" by (simp_all add: q0_def pos_imp_zdiv_nonneg_iff div_less_mult)
  define q1 where "q1 = A1 + q0"
  have est: "0 \<le> N - q1 * D" "N - q1 * D < 2 * D"
    using inverse_estimate [OF D(2,1) m a n1_def, of q0] by (simp_all add: q0_def s_def N_def q1_def)
  have ND: "N < B64 * D" 
  proof -
    have "B64 * (A1 + 1) \<le> B64 * D" using a by (intro mult_left_mono) auto
    then show ?thesis using a by (simp add: N_def)
  qed
  then have "q1 * D < B64 * D" using est by linarith
  then have "q1 < B64" using mult_right_less_imp_less [of q1 D B64] D(3) by simp
  then have q1: "0 \<le> q1" "q1 < B64" using a q0 by (simp_all add: q1_def)
  define t where "t = (ucast v * ucast (a1 - n1m) + ucast (a0 + (n1m AND d)) :: dlimb)"
  have t: "uint t = s"
  proof -
    have "uint t = (uint v * uint (a1 - n1m) + uint (a0 + (n1m AND d))) mod (B64 * B64)"
      by (simp add: t_def uint_word_ariths uint_ucast_dlimb mod_simps)
    also have "uint v * uint (a1 - n1m) + uint (a0 + (n1m AND d)) = s" by (simp only: v up adj s_def)
    finally show ?thesis using s by simp
  qed
  define qw where "qw = (ucast (drop_bit 64 t + ucast a1) :: limb)"
  have qw: "uint qw = q1"
  proof -
    have "uint (drop_bit 64 t) = q0" by (simp add: uint_div_distrib drop_bit_eq_div t q0_def)
    then have "uint (drop_bit 64 t + ucast a1) = q1" using q1
      by (simp add: uint_plus_if' uint_ucast_dlimb A1_def [symmetric] q1_def)
    then show ?thesis using q1 by (simp add: qw_def unsigned_ucast_eq take_bit_eq_mod)
  qed
  define R where "R = N - q1 * D - D"
  have R: "- D \<le> R" "R < D" using est by (simp_all add: R_def)
  define u where "u = ((push_bit 64 (ucast a1) OR ucast a0) - ucast qw * ucast d - ucast d :: dlimb)"
  have u: "uint u = R mod (B64 * B64)"
    by (simp add: u_def uint_word_ariths uint_push_or uint_ucast_dlimb mod_simps qw R_def N_def A1_def A0_def D_def)
  define ah where "ah = (ucast (drop_bit 64 u) :: limb)"
  have split: "uint (ucast u :: limb) + B64 * uint ah = uint u" unfolding ah_def by (rule split_dlimb)
  have lo: "0 \<le> uint (ucast u :: limb)" "uint (ucast u :: limb) < B64" "0 \<le> uint ah" "uint ah < B64" by (simp_all add: uint_lt_B64)
  have qr: "q = qw + (1 + ah)" "r = ucast u + (ah AND d)"
    using assms(3) unfolding udiv1norm_def Let_def v_def [symmetric] n1m_def qw_def t_def ah_def u_def by (simp_all add: n1m_def)
  have "uint q = q1 + (if 0 \<le> R then 1 else 0) \<and> uint r = (if 0 \<le> R then R else R + D)"
  proof (cases "0 \<le> R")
    case True
    then have "uint u = R" using R D u by simp
    then have "uint (ucast u :: limb) + B64 * uint ah = R + B64 * 0" using split by simp
    then have "uint ah = 0" "uint (ucast u :: limb) = R"
      using digits_unique [OF _ lo(1,2), of "uint ah" R 0] True R D by auto
    moreover from this have "ah = 0" by (intro word_uint_eqI) simp
    moreover have "q1 + 1 < B64"
    proof (rule ccontr)
      assume "\<not> q1 + 1 < B64"
      then have "q1 = B64 - 1" using q1 by simp
      then have "q1 * D = B64 * D - D" by (simp add: left_diff_distrib)
      then show False using True ND unfolding R_def by linarith
    qed
    ultimately show ?thesis using True qr qw q1 by (simp add: uint_plus_if')
  next
    case False
    then have "uint u = B64 * B64 + R" using R D u mod_add_self1 [of "B64 * B64" R] mod_pos_pos_trivial [of "B64 * B64 + R" "B64 * B64"] by simp
    then have "uint (ucast u :: limb) + B64 * uint ah = (B64 + R) + B64 * (B64 - 1)" using split by simp
    then have "uint ah = B64 - 1" "uint (ucast u :: limb) = B64 + R"
      using digits_unique [OF _ lo(1,2), of "uint ah" "B64 + R" "B64 - 1"] False R D by auto
    moreover from this have "ah = - 1" by (intro limb_minus_1) simp
    ultimately show ?thesis using False qr qw R D by (simp add: uint_plus_if' D_def [symmetric])
  qed
  moreover have "N div D = q1 + (if 0 \<le> R then 1 else 0)" "N mod D = (if 0 \<le> R then R else R + D)"
  proof -
    define k r0 where "k = q1 + (if 0 \<le> R then 1 else 0)" and "r0 = (if 0 \<le> R then R else R + D)"
    have "N = D * k + r0" by (simp add: k_def r0_def R_def algebra_simps)
    moreover have "0 \<le> r0" "r0 < D" using R by (auto simp: r0_def)
    ultimately have "N div D = k" "N mod D = r0" using int_div_pos_eq [of N D k r0] int_mod_pos_eq [of N D k r0] by blast+
    then show "N div D = q1 + (if 0 \<le> R then 1 else 0)" "N mod D = (if 0 \<le> R then R else R + D)"
      by (simp_all add: k_def r0_def)
  qed
  ultimately show "uint q = (uint a1 * B64 + uint a0) div uint d" "uint r = (uint a1 * B64 + uint a0) mod uint d"
    unfolding N_def A1_def A0_def D_def by simp_all
qed

subsection \<open>Division by one limb\<close>

lemma dlimb_div_ok:
  fixes a1 a0 b :: limb
  assumes "a1 < b"
  shows "uint (ucast ((push_bit 64 (ucast a1) OR ucast a0 :: dlimb) div ucast b) :: limb) = (uint a1 * B64 + uint a0) div uint b"
    "uint (ucast ((push_bit 64 (ucast a1) OR ucast a0 :: dlimb) mod ucast b) :: limb) = (uint a1 * B64 + uint a0) mod uint b"
proof -
  define N D where "N = uint a1 * B64 + uint a0" and "D = uint b"
  have D: "uint a1 < D" "D < B64" using assms by (simp_all add: D_def word_less_def uint_lt_B64)
  then have D: "0 < D" "D < B64" "uint a1 < D" using uint_ge_0 [of a1] by linarith+
  have "B64 * (uint a1 + 1) \<le> B64 * D" using D by (intro mult_left_mono) auto
  then have "N < B64 * D" using uint_lt_B64 [of a0] by (simp add: N_def)
  then have q: "0 \<le> N div D" "N div D < B64" using D by (simp_all add: div_less_mult N_def pos_imp_zdiv_nonneg_iff)
  have r: "0 \<le> N mod D" "N mod D < B64" using pos_mod_sign [OF D(1), of N] pos_mod_bound [OF D(1), of N] D(2) by linarith+
  have "uint ((push_bit 64 (ucast a1) OR ucast a0 :: dlimb) div ucast b) = N div D"
    by (simp only: uint_div uint_push_or uint_ucast_dlimb N_def D_def)
  then show "uint (ucast ((push_bit 64 (ucast a1) OR ucast a0 :: dlimb) div ucast b) :: limb) = (uint a1 * B64 + uint a0) div uint b"
    unfolding unsigned_ucast_eq N_def [symmetric] D_def [symmetric] using q by (simp add: take_bit_eq_mod)
  have "uint ((push_bit 64 (ucast a1) OR ucast a0 :: dlimb) mod ucast b) = N mod D"
    by (simp only: uint_mod uint_push_or uint_ucast_dlimb N_def D_def)
  then show "uint (ucast ((push_bit 64 (ucast a1) OR ucast a0 :: dlimb) mod ucast b) :: limb) = (uint a1 * B64 + uint a0) mod uint b"
    unfolding unsigned_ucast_eq N_def [symmetric] D_def [symmetric] using r by (simp add: take_bit_eq_mod)
qed

lemma div1norm_loop_ok:
  assumes "B64 \<le> 2 * uint b" "b_inv = None \<or> b_inv = Some (udiv1norm_init b)" "n \<le> length taba" "r < b"
  shows "\<exists>q r'. div1norm_loop b b_inv taba n r = Some (q, r') \<and> length q = n \<and> r' < b \<and>
    mpv q * uint b + uint r' = mpv (take n taba) + B64 ^ n * uint r"
  using assms(3,4)
proof (induction n arbitrary: r)
  case (Suc i)
  have i: "i < length taba" using Suc.prems by simp
  obtain q1 r1 where qr: "(case b_inv of Some b_inv \<Rightarrow> udiv1norm r (taba ! i) b b_inv
      | None \<Rightarrow> let a1 = push_bit 64 (ucast r) OR ucast (taba ! i) :: dlimb in (ucast (a1 div ucast b), ucast (a1 mod ucast b))) = (q1, r1)"
    by fastforce
  define N where "N = uint r * B64 + uint (taba ! i)"
  have q1: "uint q1 = N div uint b" "uint r1 = N mod uint b"
    using qr assms(2) udiv1norm_ok [OF assms(1) Suc.prems(2), of "taba ! i" q1 r1] dlimb_div_ok [OF Suc.prems(2), of "taba ! i"]
    by (auto simp: Let_def N_def split: option.splits)
  have D: "0 < uint b" using assms(1) by simp
  have "r1 < b" using q1(2) pos_mod_bound [OF D, of N] by (simp add: word_less_def)
  from Suc.IH [OF _ this] i obtain low r' where r': "div1norm_loop b b_inv taba i r1 = Some (low, r')" "length low = i" "r' < b"
    "mpv low * uint b + uint r' = mpv (take i taba) + B64 ^ i * uint r1" by auto
  have "uint q1 * uint b + uint r1 = N" using q1 by simp
  then have "B64 ^ i * (uint q1 * uint b + uint r1) = B64 ^ i * N" by (simp only:)
  then have "mpv (low @ [q1]) * uint b + uint r' = mpv (take (Suc i) taba) + B64 ^ Suc i * uint r"
    using r'(2,4) mpv_take_Suc [OF i] by (simp add: mpv_append N_def algebra_simps)
  moreover have "div1norm_loop b b_inv taba (Suc i) r = Some (low @ [q1], r')"
    using i qr r'(1) by simp
  ultimately show ?case using r'(2,3) by auto
qed simp

lemma mp_div1norm_ok:
  assumes "B64 \<le> 2 * uint b" "n \<le> length taba" "r < b"
  shows "\<exists>q r'. mp_div1norm taba n b r = Some (q, r') \<and> length q = n \<and> r' < b \<and>
    mpv q * uint b + uint r' = mpv (take n taba) + B64 ^ n * uint r"
  unfolding mp_div1norm_def by (rule div1norm_loop_ok [OF assms(1) _ assms(2,3)]) simp

subsection \<open>The limbs of the quotient\<close>

text \<open>The estimate from the leading limbs is at most two too large.\<close>

lemma estimate_bounds:
  fixes x y b1 q U V K u v :: int
  assumes "U = (x * B64 + y) * K + u" "0 \<le> u" "u < K" "V = b1 * K + v" "0 \<le> v" "v < K"
    and "B64 \<le> 2 * b1" "0 \<le> y" "U < B64 * V" "0 \<le> q" "q < B64"
    and q: "q * b1 \<le> x * B64 + y" "x * B64 + y < (q + 1) * b1 \<or> q = B64 - 1"
  shows "- 2 * V < U - q * V" "U - q * V < V"
proof -
  have K: "0 < K" using assms by simp
  have "q * b1 * K \<le> (x * B64 + y) * K" using q(1) K by (simp add: mult_right_mono)
  moreover have "q * v \<le> q * K" using assms(6,10) by (intro mult_left_mono) auto
  moreover have "q * K < B64 * K" using assms(11) K by (simp add: mult_strict_right_mono)
  moreover have "B64 * K \<le> 2 * b1 * K" using assms(7) K by (simp add: mult_right_mono)
  ultimately show "- 2 * V < U - q * V" using assms(1,2,4,5) by (simp add: algebra_simps)
  show "U - q * V < V"
  proof (cases "q = B64 - 1")
    case True
    then show ?thesis using assms(9) by (simp add: algebra_simps)
  next
    case False
    then have "(x * B64 + y + 1) * K \<le> (q + 1) * b1 * K" using q(2) K by (intro mult_right_mono) auto
    moreover have "0 \<le> (q + 1) * v" using assms(5,10) by simp
    ultimately show ?thesis using assms(1,3,4) by (simp add: algebra_simps)
  qed
qed

text \<open>The window of \<open>nb + 1\<close> limbs at \<open>i\<close>.\<close>

lemma window_eq:
  assumes "i + nb < length taba"
  shows "mpv (take (Suc nb) (drop i taba)) = mpv (take nb (drop i taba)) + B64 ^ nb * uint (taba ! (i + nb))"
  using mpv_take_Suc [of nb "drop i taba"] assms by simp

lemma add_back_ok:
  assumes "nb \<le> length tabb" "V = mpv (take nb tabb)" "0 < V"
    "i + nb < length taba" "mpv (take (Suc nb) (drop i taba)) = S + B64 ^ Suc nb" "S < 0" "- int fuel * V \<le> S"
  shows "\<exists>taba' m. add_back fuel taba tabb nb i q = Some (taba', q - of_nat m) \<and> length taba' = length taba \<and>
    take i taba' = take i taba \<and> drop (Suc (i + nb)) taba' = drop (Suc (i + nb)) taba \<and> taba' ! (i + nb) = 0 \<and>
    mpv (take nb (drop i taba')) = S + int m * V \<and> 0 \<le> S + int m * V \<and> S + int m * V < V"
  using assms(4-7)
proof (induction fuel arbitrary: taba S q)
  case (Suc fuel)
  have len: "nb \<le> length (drop i taba)" using Suc.prems(1) by simp
  from mp_add_ok [OF len assms(1), of 0] obtain t c where
    t: "mp_add (drop i taba) tabb nb 0 = Some (t, c)" "length t = nb" "c \<le> 1"
    "mpv t + B64 ^ nb * uint c = mpv (take nb (drop i taba)) + V" by (auto simp: assms(2))
  define T where "T = taba ! (i + nb)"
  define u where "u = splice_at taba i t"
  have u: "length u = length taba" "take i u = take i taba" "drop (i + nb) u = drop (i + nb) taba" "take nb (drop i u) = t"
    using t(2) Suc.prems(1) by (simp_all add: u_def splice_at_def)
  have uT: "u ! (i + nb) = T" using u(1,3) Suc.prems(1) by (metis T_def Cons_nth_drop_Suc list.inject)
  have win: "mpv (take nb (drop i taba)) + B64 ^ nb * uint T = S + B64 ^ Suc nb"
    using Suc.prems(2) window_eq [OF Suc.prems(1)] by (simp add: T_def)
  have bnd: "0 \<le> mpv t" "mpv t < B64 ^ nb" "uint T \<le> B64 - 1" using mpv_less [of t] t(2) uint_lt_B64 [of T] by simp_all
  have cont: "- int fuel * V \<le> S + V" using Suc.prems(4) by (simp add: algebra_simps)
  have top: "B64 ^ nb * uint T \<le> B64 ^ nb * (B64 - 1)" using bnd(3) by (intro mult_left_mono) auto
  show ?case
  proof (cases "c = 0")
    case True
    have w: "mpv (take (Suc nb) (drop i u)) = S + V + B64 ^ Suc nb"
      using window_eq [of i nb u] u uT t(4) win Suc.prems(1) True by simp
    moreover have "mpv (take (Suc nb) (drop i u)) < B64 ^ Suc nb"
      using mpv_less [of "take (Suc nb) (drop i u)"] u(1) Suc.prems(1) by simp
    ultimately have "S + V < 0" by simp
    from Suc.IH [OF _ w this cont, of "q - 1"] u(1) Suc.prems(1) obtain taba' m where
      m: "add_back fuel u tabb nb i (q - 1) = Some (taba', q - 1 - of_nat m)" "length taba' = length u" "take i taba' = take i u"
      "drop (Suc (i + nb)) taba' = drop (Suc (i + nb)) u" "taba' ! (i + nb) = 0"
      "mpv (take nb (drop i taba')) = S + V + int m * V" "0 \<le> S + V + int m * V" "S + V + int m * V < V" by auto
    have "drop (Suc (i + nb)) u = drop (Suc (i + nb)) taba" using u(3) by (metis drop_drop plus_1_eq_Suc)
    moreover have "add_back (Suc fuel) taba tabb nb i q = Some (taba', q - of_nat (Suc m))"
      using t(1) True m(1) by (simp add: u_def [symmetric] Let_def algebra_simps)
    ultimately show ?thesis using m(2-) u(1,2) by (intro exI [of _ taba'] exI [of _ "Suc m"]) (simp add: algebra_simps)
  next
    case False
    then have c: "c = 1" using t(3) by (metis word_le_sub1 word_less_1 order_le_less)
    define w where "w = u[i + nb := T + 1]"
    have w: "length w = length taba" "take i w = take i taba" "drop (Suc (i + nb)) w = drop (Suc (i + nb)) taba"
      "take nb (drop i w) = t" "w ! (i + nb) = T + 1"
      using u Suc.prems(1) unfolding w_def by (simp_all add: drop_update_swap) (metis drop_drop plus_1_eq_Suc)
    have run: "add_back (Suc fuel) taba tabb nb i q = (if T + 1 = 0 then Some (w, q - 1) else add_back fuel w tabb nb i (q - 1))"
      using t(1) False uT u(1) Suc.prems(1) by (simp add: u_def [symmetric] w_def Let_def)
    show ?thesis
    proof (cases "T + 1 = 0")
      case True
      then have "uint T = B64 - 1" by (metis add_eq_0_iff uint_limb_minus_1 minus_minus)
      then have "mpv t = S + V" using t(4) win c by (simp add: algebra_simps)
      then show ?thesis using run True w bnd Suc.prems(3) by (intro exI [of _ w] exI [of _ 1]) simp
    next
      case False
      then have T1: "uint (T + 1) = uint T + 1" by (rule uint_succ)
      have v: "mpv (take (Suc nb) (drop i w)) = S + V + B64 ^ Suc nb"
        using window_eq [of i nb w] w T1 t(4) win c Suc.prems(1) by (simp add: algebra_simps)
      moreover have "mpv (take (Suc nb) (drop i w)) < B64 ^ Suc nb"
        using mpv_less [of "take (Suc nb) (drop i w)"] w(1) Suc.prems(1) by simp
      ultimately have "S + V < 0" by simp
      from Suc.IH [OF _ v this cont, of "q - 1"] w(1) Suc.prems(1) obtain taba' m where
        m: "add_back fuel w tabb nb i (q - 1) = Some (taba', q - 1 - of_nat m)" "length taba' = length w" "take i taba' = take i w"
        "drop (Suc (i + nb)) taba' = drop (Suc (i + nb)) w" "taba' ! (i + nb) = 0"
        "mpv (take nb (drop i taba')) = S + V + int m * V" "0 \<le> S + V + int m * V" "S + V + int m * V < V" by auto
      have "add_back (Suc fuel) taba tabb nb i q = Some (taba', q - of_nat (Suc m))"
        using run False m(1) by (simp add: algebra_simps)
      then show ?thesis using m(2-) w(1-3) by (intro exI [of _ taba'] exI [of _ "Suc m"]) (simp add: algebra_simps)
    qed
  qed
qed simp

lemma sub_borrow: "v < v - r \<longleftrightarrow> v < (r :: limb)"
  using uint_lt_B64 [of r] by (auto simp: word_less_def uint_sub_if')

lemma uint_sub_nat:
  assumes "int m \<le> uint (q :: limb)"
  shows "uint (q - of_nat m) = uint q - int m"
proof -
  have "int m < B64" using assms uint_lt_B64 [of q] by simp
  then have "uint (of_nat m :: limb) = int m" by (simp add: unsigned_of_nat take_bit_nat_eq_self)
  with assms show ?thesis by (simp add: uint_sub_if')
qed

lemma estimate_ok:
  assumes "B64 \<le> 2 * uint b1" "b1_inv = 0 \<or> b1_inv = udiv1norm_init b1" "q = uint (estimate b1 b1_inv x y)"
  shows "q * uint b1 \<le> uint x * B64 + uint y" "uint x * B64 + uint y < (q + 1) * uint b1 \<or> q = B64 - 1"
proof -
  define N where "N = uint x * B64 + uint y"
  have D: "0 < uint b1" using assms(1) by simp
  have "q * uint b1 \<le> N \<and> (N < (q + 1) * uint b1 \<or> q = B64 - 1)"
  proof (cases "x \<ge> b1")
    case True
    then have q: "q = B64 - 1" using assms(3) by (simp add: estimate_def uint_limb_minus_1)
    have "(B64 - 1) * uint b1 \<le> B64 * uint x" using True by (intro mult_mono) (simp_all add: word_le_def)
    moreover have "0 \<le> uint y" by simp
    ultimately show ?thesis unfolding q N_def by linarith
  next
    case False
    then have lt: "x < b1" and nle: "\<not> b1 \<le> x" by simp_all
    have "q = N div uint b1"
    proof (cases "b1_inv = 0")
      case True
      then show ?thesis using assms(3) nle dlimb_div_ok(1) [OF lt, of y] by (simp add: estimate_def Let_def N_def)
    next
      case False
      then have inv: "b1_inv = udiv1norm_init b1" using assms(2) by simp
      obtain qw r where "udiv1norm x y b1 b1_inv = (qw, r)" by fastforce
      then show ?thesis using assms(3) False nle udiv1norm_ok(1) [OF assms(1) lt, of y qw r] inv
        by (simp add: estimate_def N_def)
    qed
    then have "q * uint b1 = N - N mod uint b1" by (simp only: minus_mod_eq_div_mult)
    moreover have "0 \<le> N mod uint b1" "N mod uint b1 < uint b1" using D by simp_all
    moreover have "(q + 1) * uint b1 = q * uint b1 + uint b1" by (simp add: distrib_right)
    ultimately have "q * uint b1 \<le> N" "N < (q + 1) * uint b1" by linarith+
    then show ?thesis by blast
  qed
  then show "q * uint b1 \<le> uint x * B64 + uint y" "uint x * B64 + uint y < (q + 1) * uint b1 \<or> q = B64 - 1"
    unfolding N_def by blast+
qed

lemma divnorm_digit_ok:
  assumes nb: "0 < nb" "nb \<le> length tabb" and b1: "b1 = tabb ! (nb - 1)" "B64 \<le> 2 * uint b1"
    and inv: "b1_inv = 0 \<or> b1_inv = udiv1norm_init b1"
    and i: "i + nb < length taba" and V: "V = mpv (take nb tabb)" "mpv (take nb (drop (Suc i) taba)) < V"
  shows "\<exists>taba' q. divnorm_digit b1 b1_inv taba tabb nb i = Some (taba', q) \<and> length taba' = length taba \<and>
    take i taba' = take i taba \<and> mpv (take nb (drop i taba')) < V \<and>
    mpv (take nb (drop i taba')) + uint q * V = mpv (take (Suc nb) (drop i taba))"
proof -
  define U where "U = mpv (take (Suc nb) (drop i taba))"
  obtain k where k: "nb = Suc k" using nb(1) by (cases nb) auto
  define x y where "x = taba ! (i + nb)" and "y = taba ! (i + nb - Suc 0)"
  define q where "q = estimate b1 b1_inv x y"
  define u v where "u = mpv (take k (drop i taba))" and "v = mpv (take k tabb)"
  have U: "U = (uint x * B64 + uint y) * B64 ^ k + u"
    using mpv_take_Suc [of nb "drop i taba"] mpv_take_Suc [of k "drop i taba"] i
    by (simp add: U_def k x_def y_def u_def algebra_simps)
  have Vk: "V = uint b1 * B64 ^ k + v" using mpv_take_Suc [of k tabb] nb(2) by (simp add: V(1) k b1(1) v_def algebra_simps)
  have uv: "0 \<le> u" "u < B64 ^ k" "0 \<le> v" "v < B64 ^ k"
    using mpv_less [of "take k (drop i taba)"] mpv_less [of "take k tabb"] i nb by (simp_all add: u_def v_def k)
  have "drop i taba = taba ! i # drop (Suc i) taba" using i by (simp add: Cons_nth_drop_Suc)
  then have "U = uint (taba ! i) + B64 * mpv (take nb (drop (Suc i) taba))" by (simp add: U_def)
  moreover have "B64 * (mpv (take nb (drop (Suc i) taba)) + 1) \<le> B64 * V" using V(2) by (intro mult_left_mono) auto
  ultimately have UV: "U < B64 * V" using uint_lt_B64 [of "taba ! i"] by simp
  note est = estimate_ok [OF b1(2) inv q_def [THEN arg_cong [of _ _ uint]]]
  have S: "- 2 * V < U - uint q * V" "U - uint q * V < V"
    by (rule estimate_bounds [OF U uv(1,2) Vk uv(3,4) b1(2) _ UV _ _ est]; simp add: uint_lt_B64)+
  have "0 < uint b1 * B64 ^ k" using b1(2) by simp
  then have "0 < V" using uv by (simp add: Vk)
  moreover have "V < B64 ^ nb" using mpv_less [of "take nb tabb"] nb(2) by (simp add: V(1) min.absorb2)
  ultimately have V0: "0 < V" "V \<le> B64 ^ nb" by simp_all
  have l: "nb \<le> length (drop i taba)" using i by simp
  from sub_mul1_loop_ok [OF nb(2) l, of q 0] obtain t r where
    t: "mp_sub_mul1 (drop i taba) tabb nb q = Some (t, r)" "length t = length taba - i" "drop nb t = drop (i + nb) taba"
    "mpv (take nb t) - B64 ^ nb * uint r = mpv (take nb (drop i taba)) - V * uint q"
    by (auto simp: mp_sub_mul1_def V(1) add.commute)
  define taba1 where "taba1 = take i taba @ t"
  have l1: "length taba1 = length taba" using t(2) i by (simp add: taba1_def)
  have x1: "taba1 ! (i + nb) = x"
  proof -
    have "taba1 ! (i + nb) = t ! nb" using i by (simp add: taba1_def nth_append)
    also have "\<dots> = drop nb t ! 0" using t(2) i by simp
    also have "\<dots> = x" unfolding t(3) using i by (simp add: x_def)
    finally show ?thesis .
  qed
  define taba2 where "taba2 = taba1[i + nb := x - r]"
  have t2: "length taba2 = length taba" "take i taba2 = take i taba" "take nb (drop i taba2) = take nb t" "taba2 ! (i + nb) = x - r"
    using l1 i by (simp_all add: taba2_def taba1_def drop_update_swap)
  have win: "U = mpv (take nb (drop i taba)) + B64 ^ nb * uint x" using window_eq [OF i] by (simp add: U_def x_def)
  define S where "S = U - uint q * V"
  have Seq: "S = mpv (take nb t) + B64 ^ nb * (uint x - uint r)" using t(4) win by (simp add: S_def algebra_simps)
  have tb: "0 \<le> mpv (take nb t)" "mpv (take nb t) < B64 ^ nb" using mpv_less [of "take nb t"] t(2) i by (simp_all add: min_def split: if_splits)
  have run: "divnorm_digit b1 b1_inv taba tabb nb i = (if x < x - r then add_back 3 taba2 tabb nb i q else Some (taba2, q))"
    using i t(1) nb(1) l1 x1
    by (simp add: divnorm_digit_def x_def [symmetric] y_def [symmetric] q_def [symmetric] Let_def taba1_def [symmetric] taba2_def)
  show ?thesis
  proof (cases "x < r")
    case True
    then have lt: "uint x - uint r \<le> - 1" by (simp add: word_less_def)
    have "B64 ^ nb * (uint x - uint r) \<le> B64 ^ nb * (- 1)" using lt by (intro mult_left_mono) auto
    then have neg: "S < 0" using tb Seq by simp
    have "uint (x - r) = uint x - uint r + B64" using True by (simp add: uint_sub_if' word_less_def)
    then have "B64 ^ nb * uint (x - r) = B64 ^ nb * (uint x - uint r + B64)" by (simp only:)
    then have w: "mpv (take (Suc nb) (drop i taba2)) = S + B64 ^ Suc nb"
      using window_eq [of i nb taba2] t2 i Seq by (simp add: algebra_simps)
    have "- int 3 * V \<le> S" using S(1) V0 by (simp add: S_def)
    from add_back_ok [OF nb(2) V(1) V0(1) _ w neg this, of q] t2(1) i obtain taba' m where
      m: "add_back 3 taba2 tabb nb i q = Some (taba', q - of_nat m)" "length taba' = length taba" "take i taba' = take i taba2"
      "mpv (take nb (drop i taba')) = S + int m * V" "0 \<le> S + int m * V" "S + int m * V < V" by auto
    have "int m \<le> uint q"
    proof (rule ccontr)
      assume "\<not> int m \<le> uint q"
      then have "(uint q + 1) * V \<le> int m * V" using V0 by (intro mult_right_mono) auto
      then have "U \<le> 0 - V + V - 1 + 0" using m(6) S_def by (simp add: algebra_simps)
      then show False using mpv_nonneg [of "take (Suc nb) (drop i taba)"] by (simp add: U_def)
    qed
    then have qm: "uint (q - of_nat m) = uint q - int m" by (rule uint_sub_nat)
    have "mpv (take nb (drop i taba')) + uint (q - of_nat m) * V = U" unfolding qm m(4) S_def by (simp add: algebra_simps)
    moreover have "divnorm_digit b1 b1_inv taba tabb nb i = Some (taba', q - of_nat m)" using run True m(1) by (simp add: sub_borrow)
    moreover have "mpv (take nb (drop i taba')) < V" using m(4,6) by simp
    ultimately show ?thesis using m(2,3) t2(2) unfolding U_def by metis
  next
    case False
    then have ge: "uint r \<le> uint x" by (simp add: word_less_def)
    have "uint x - uint r = 0"
    proof (rule ccontr)
      assume "uint x - uint r \<noteq> 0"
      then have "B64 ^ nb * 1 \<le> B64 ^ nb * (uint x - uint r)" using ge by (intro mult_left_mono) auto
      then show False using Seq tb S(2) V0 unfolding S_def by linarith
    qed
    then have "mpv (take nb t) = S" using Seq by simp
    then show ?thesis using run False t2 S(2) by (simp add: sub_borrow S_def U_def)
  qed
qed

lemma divnorm_loop_ok:
  assumes nb: "0 < nb" "nb \<le> length tabb" and b1: "b1 = tabb ! (nb - 1)" "B64 \<le> 2 * uint b1"
    and inv: "b1_inv = 0 \<or> b1_inv = udiv1norm_init b1"
    and V: "V = mpv (take nb tabb)"
    and i: "i + nb \<le> length taba" "mpv (take nb (drop i taba)) < V"
  shows "\<exists>tabq taba'. divnorm_loop b1 b1_inv taba tabb nb i = Some (tabq, taba') \<and> length tabq = i \<and> length taba' = length taba \<and>
    mpv (take nb taba') < V \<and> mpv tabq * V + mpv (take nb taba') = mpv (take (i + nb) taba)"
  using i
proof (induction i arbitrary: taba)
  case (Suc i)
  from divnorm_digit_ok [OF nb b1 inv _ V Suc.prems(2)] Suc.prems(1) obtain taba1 q where
    d: "divnorm_digit b1 b1_inv taba tabb nb i = Some (taba1, q)" "length taba1 = length taba" "take i taba1 = take i taba"
    "mpv (take nb (drop i taba1)) < V" "mpv (take nb (drop i taba1)) + uint q * V = mpv (take (Suc nb) (drop i taba))" by auto
  from Suc.IH [OF _ d(4)] Suc.prems(1) d(2) obtain tabq taba' where
    l: "divnorm_loop b1 b1_inv taba1 tabb nb i = Some (tabq, taba')" "length tabq = i" "length taba' = length taba"
    "mpv (take nb taba') < V" "mpv tabq * V + mpv (take nb taba') = mpv (take (i + nb) taba1)" by auto
  have "mpv (take (i + nb) taba1) = mpv (take i taba) + B64 ^ i * mpv (take nb (drop i taba1))"
    using d(2,3) Suc.prems(1) by (simp add: take_add mpv_append)
  moreover have "mpv (take (i + Suc nb) taba) = mpv (take i taba) + B64 ^ i * mpv (take (Suc nb) (drop i taba))"
    using Suc.prems(1) by (simp only: take_add mpv_append) simp
  moreover have "B64 ^ i * (mpv (take nb (drop i taba1)) + uint q * V) = B64 ^ i * mpv (take (Suc nb) (drop i taba))" by (simp only: d(5))
  ultimately have "mpv (tabq @ [q]) * V + mpv (take nb taba') = mpv (take (Suc i + nb) taba)"
    using l(2,5) by (simp add: mpv_append algebra_simps)
  moreover have "divnorm_loop b1 b1_inv taba tabb nb (Suc i) = Some (tabq @ [q], taba')" using d(1) l(1) by simp
  ultimately show ?case using l(2-4) by auto
qed simp

lemma divnorm_first_ok:
  assumes "n + j \<le> length taba" "j \<le> length tabb"
  shows "divnorm_first taba tabb n j = Some (if mpv (take j (drop n taba)) < mpv (take j tabb) then 0 else 1)"
  using assms
proof (induction j)
  case (Suc j)
  have l: "n + j < length taba" "j < length tabb" using Suc.prems by simp_all
  have a: "mpv (take (Suc j) (drop n taba)) = mpv (take j (drop n taba)) + B64 ^ j * uint (taba ! (n + j))"
    using mpv_take_Suc [of j "drop n taba"] l by simp
  have b: "mpv (take (Suc j) tabb) = mpv (take j tabb) + B64 ^ j * uint (tabb ! j)" using mpv_take_Suc [OF l(2)] .
  have lt: "mpv (take j (drop n taba)) < B64 ^ j" "mpv (take j tabb) < B64 ^ j"
    using mpv_less [of "take j (drop n taba)"] mpv_less [of "take j tabb"] l by simp_all
  have less: "X + B64 ^ j * x < Y + B64 ^ j * y" if "0 \<le> Y" "X < B64 ^ j" "x < y" for X Y x y :: int
  proof -
    have "B64 ^ j * (x + 1) \<le> B64 ^ j * y" using that(3) by (intro mult_left_mono) auto
    then show ?thesis using that by (simp add: algebra_simps)
  qed
  show ?case
  proof (cases "taba ! (n + j) = tabb ! j")
    case True
    then show ?thesis using Suc l a b by simp
  next
    case False
    then have "uint (taba ! (n + j)) \<noteq> uint (tabb ! j)" by (simp add: word_uint_eq_iff)
    then show ?thesis
      using False l less [OF _ lt(1), of "mpv (take j tabb)" "uint (taba ! (n + j))" "uint (tabb ! j)"]
        less [OF _ lt(2), of "mpv (take j (drop n taba))" "uint (tabb ! j)" "uint (taba ! (n + j))"]
      by (auto simp: a b word_less_def)
  qed
qed simp

lemma mp_divnorm_base_ok:
  assumes nb: "0 < nb" "nb \<le> length tabb" and b1: "B64 \<le> 2 * uint (tabb ! (nb - 1))" and na: "nb \<le> na" "na \<le> length taba"
  shows "\<exists>q a. mp_divnorm_base taba na tabb nb = Some (q, a) \<and> length q = Suc (na - nb) \<and> length a = length taba \<and>
    mpv q * mpv (take nb tabb) + mpv (take nb a) = mpv (take na taba) \<and> mpv (take nb a) < mpv (take nb tabb)"
proof (cases "nb = 1")
  case True
  then have b: "B64 \<le> 2 * uint (tabb ! 0)" "0 < length tabb" using b1 nb by auto
  then have "0 < tabb ! 0" by (simp add: word_less_def)
  from mp_div1norm_ok [OF b(1) na(2) this] obtain q r where
    q: "mp_div1norm taba na (tabb ! 0) 0 = Some (q, r)" "length q = na" "r < tabb ! 0"
    "mpv q * uint (tabb ! 0) + uint r = mpv (take na taba)" by auto
  have "taba \<noteq> []" using na True by auto
  then have "take 1 (taba[0 := r]) = [r]" by (cases taba) simp_all
  moreover have "mpv (take 1 tabb) = uint (tabb ! 0)" using b(2) by (cases tabb) simp_all
  moreover have "mp_divnorm_base taba na tabb nb = Some (q, taba[0 := r])"
    using True q(1) b(2) \<open>taba \<noteq> []\<close> by (simp add: mp_divnorm_base_def wr_def)
  ultimately show ?thesis using True q na by (auto simp: word_less_def)
next
  case False
  define n where "n = na - nb"
  define V where "V = mpv (take nb tabb)"
  define X where "X = mpv (take nb (drop n taba))"
  define b1w where "b1w = tabb ! (nb - 1)"
  define b1_inv where "b1_inv = (if n \<ge> UDIV1NORM_THRESHOLD then udiv1norm_init b1w else 0)"
  have n: "n + nb = na" using na by (simp add: n_def)
  have X: "0 \<le> X" "X < B64 ^ nb" using mpv_less [of "take nb (drop n taba)"] n na(2) by (simp_all add: X_def)
  obtain k where k: "nb = Suc k" using nb(1) by (cases nb) auto
  have V2: "B64 ^ nb \<le> 2 * V"
  proof -
    have "V = mpv (take k tabb) + B64 ^ k * uint b1w" using mpv_take_Suc [of k tabb] nb(2) by (simp add: V_def k b1w_def)
    moreover have "B64 ^ k * B64 \<le> B64 ^ k * (2 * uint b1w)" using b1 by (intro mult_left_mono) (simp_all add: b1w_def)
    moreover have "B64 ^ k * (2 * uint b1w) = 2 * (B64 ^ k * uint b1w)" "B64 ^ nb = B64 ^ k * B64" by (simp_all add: k)
    ultimately show ?thesis using mpv_nonneg [of "take k tabb"] by linarith
  qed
  define q0 where "q0 = (if X < V then 0 else 1 :: limb)"
  have first: "divnorm_first taba tabb n nb = Some q0"
    using divnorm_first_ok [of n nb taba tabb] n na nb(2) by (simp add: q0_def X_def V_def)
  have "\<exists>taba1. (if q0 \<noteq> 0 then do { (t, c) \<leftarrow> mp_sub (drop n taba) tabb nb 0; Some (splice_at taba n t) } else Some taba) = Some taba1 \<and>
      length taba1 = length taba \<and> take n taba1 = take n taba \<and> mpv (take nb (drop n taba1)) = X - uint q0 * V \<and> X - uint q0 * V < V"
  proof (cases "X < V")
    case True
    then show ?thesis by (simp add: q0_def X_def)
  next
    case False
    have "nb \<le> length (drop n taba)" using n na by simp
    from mp_sub_ok [OF this nb(2), of 0] obtain t c where
      t: "mp_sub (drop n taba) tabb nb 0 = Some (t, c)" "length t = nb" "mpv t - B64 ^ nb * uint c = X - V"
      by (auto simp: X_def V_def)
    have "uint c = 0"
    proof (rule ccontr)
      assume "uint c \<noteq> 0"
      then have "1 \<le> uint c" using uint_ge_0 [of c] by linarith
      then have "B64 ^ nb * 1 \<le> B64 ^ nb * uint c" by (intro mult_left_mono) auto
      then show False using t(3) False mpv_less [of t] unfolding t(2) by linarith
    qed
    then have "mpv t = X - V" using t(3) by simp
    moreover have "X - V < V" using X V2 by simp
    ultimately show ?thesis using False t(1,2) n na by (simp add: q0_def splice_at_def)
  qed
  then obtain taba1 where t1: "(if q0 \<noteq> 0 then do { (t, c) \<leftarrow> mp_sub (drop n taba) tabb nb 0; Some (splice_at taba n t) } else Some taba) = Some taba1"
    "length taba1 = length taba" "take n taba1 = take n taba" "mpv (take nb (drop n taba1)) = X - uint q0 * V" "X - uint q0 * V < V" by blast
  have inv: "b1_inv = 0 \<or> b1_inv = udiv1norm_init b1w" by (simp add: b1_inv_def)
  have "n + nb \<le> length taba1" "mpv (take nb (drop n taba1)) < V" using n na t1 by simp_all
  from divnorm_loop_ok [OF nb b1w_def b1 [folded b1w_def] inv V_def this] obtain tabq taba' where
    l: "divnorm_loop b1w b1_inv taba1 tabb nb n = Some (tabq, taba')" "length tabq = n" "length taba' = length taba1"
    "mpv (take nb taba') < V" "mpv tabq * V + mpv (take nb taba') = mpv (take (n + nb) taba1)" by blast
  have "mpv (take (n + nb) taba1) = mpv (take n taba) + B64 ^ n * (X - uint q0 * V)"
    unfolding take_add mpv_append t1(3,4) using n na by simp
  moreover have "mpv (take na taba) = mpv (take n taba) + B64 ^ n * X"
    unfolding n [symmetric] X_def take_add mpv_append using n na by simp
  ultimately have "mpv (tabq @ [q0]) * V + mpv (take nb taba') = mpv (take na taba)"
    using l(2,5) by (simp add: mpv_append algebra_simps)
  moreover have "tabb ! (nb - Suc 0) = b1w" by (simp add: b1w_def)
  then have "mp_divnorm_base taba na tabb nb = Some (tabq @ [q0], taba')"
    using False nb first t1(1) l(1) unfolding mp_divnorm_base_def
    by (simp add: n_def [symmetric] b1_inv_def [symmetric] Let_def)
  ultimately show ?thesis using l(2-4) t1(2) by (auto simp: n_def V_def)
qed

end
