(* ===== verification/BigFloat.thy ===== *)
theory BigFloat
  imports LimbDiv CUtils Complex_Main
begin

text \<open>
  libbf.c: arbitrary precision floating point numbers, rounding, and the exact operations it is
  applied to.  The fields \<open>len\<close> and \<open>tab\<close> are one list of limbs; exponents and precisions are
  integers (the code keeps them away from the ends of the range of \<open>slimb_t\<close>).  Allocation goes
  through the parameter \<open>bf_realloc\<close>, on limbs.
\<close>

unbundle bit_operations_syntax

subsection \<open>Numbers, flags and modes\<close>

record bf =
  bf_sign :: nat
  bf_expn :: int
  bf_tab :: "limb list"

type_synonym bf_realloc_func = "limb list \<Rightarrow> nat \<Rightarrow> limb list option"

datatype bf_rnd = BF_RNDN | BF_RNDZ | BF_RNDD | BF_RNDU | BF_RNDNA | BF_RNDA | BF_RNDF

definition BF_EXP_ZERO :: int where "BF_EXP_ZERO = - (2 ^ 63)"
definition BF_EXP_INF :: int where "BF_EXP_INF = 2 ^ 63 - 2"
definition BF_EXP_NAN :: int where "BF_EXP_NAN = 2 ^ 63 - 1"
definition BF_PREC_MAX :: int where "BF_PREC_MAX = 2 ^ 62 - 2"
definition BF_PREC_INF :: int where "BF_PREC_INF = BF_PREC_MAX + 1"

abbreviation (input) BF_EXP_BITS_MAX :: nat where "BF_EXP_BITS_MAX \<equiv> LIMB_BITS - 3"
abbreviation (input) BF_FLAG_SUBNORMAL :: u32 where "BF_FLAG_SUBNORMAL \<equiv> 8"
abbreviation (input) BF_FLAG_RADPNT_PREC :: u32 where "BF_FLAG_RADPNT_PREC \<equiv> 16"
abbreviation (input) BF_ST_INVALID_OP :: u32 where "BF_ST_INVALID_OP \<equiv> 1"
abbreviation (input) BF_ST_DIVIDE_ZERO :: u32 where "BF_ST_DIVIDE_ZERO \<equiv> 2"
abbreviation (input) BF_ST_OVERFLOW :: u32 where "BF_ST_OVERFLOW \<equiv> 4"
abbreviation (input) BF_ST_UNDERFLOW :: u32 where "BF_ST_UNDERFLOW \<equiv> 8"
abbreviation (input) BF_ST_INEXACT :: u32 where "BF_ST_INEXACT \<equiv> 16"
abbreviation (input) BF_ST_MEM_ERROR :: u32 where "BF_ST_MEM_ERROR \<equiv> 32"

text \<open>The rounding mode in the flags; the code aborts on the value 7.\<close>

definition rnd_mode_of :: "u32 \<Rightarrow> bf_rnd option" where
  "rnd_mode_of flags =
     (let m = flags AND 7 in
      if m = 0 then Some BF_RNDN else if m = 1 then Some BF_RNDZ else if m = 2 then Some BF_RNDD
      else if m = 3 then Some BF_RNDU else if m = 4 then Some BF_RNDNA else if m = 5 then Some BF_RNDA
      else if m = 6 then Some BF_RNDF else None)"

definition bf_get_exp_bits :: "u32 \<Rightarrow> nat" where
  "bf_get_exp_bits flags =
     (let e = unat (drop_bit 5 flags AND 0x3f) in
      if e = 0x3f then BF_EXP_BITS_MAX + 1 else BF_EXP_BITS_MAX - e)"

subsection \<open>Memory and special values\<close>

definition bf_resize :: "bf_realloc_func \<Rightarrow> bf \<Rightarrow> nat \<Rightarrow> int \<times> bf" where
  "bf_resize f r len =
     (if len \<noteq> length (bf_tab r) then
        (if len = 0 then (0, r\<lparr>bf_tab := []\<rparr>)
         else (case f (bf_tab r) len of None \<Rightarrow> (-1, r) | Some tab \<Rightarrow> (0, r\<lparr>bf_tab := tab\<rparr>)))
      else (0, r))"

definition bf_set_nan :: "bf_realloc_func \<Rightarrow> bf \<Rightarrow> bf" where
  "bf_set_nan f r = (snd (bf_resize f r 0))\<lparr>bf_expn := BF_EXP_NAN, bf_sign := 0\<rparr>"

definition bf_set_zero :: "bf_realloc_func \<Rightarrow> bf \<Rightarrow> nat \<Rightarrow> bf" where
  "bf_set_zero f r is_neg = (snd (bf_resize f r 0))\<lparr>bf_expn := BF_EXP_ZERO, bf_sign := is_neg\<rparr>"

definition bf_set_inf :: "bf_realloc_func \<Rightarrow> bf \<Rightarrow> nat \<Rightarrow> bf" where
  "bf_set_inf f r is_neg = (snd (bf_resize f r 0))\<lparr>bf_expn := BF_EXP_INF, bf_sign := is_neg\<rparr>"

definition clz :: "limb \<Rightarrow> nat" where
  "clz a = (if a = 0 then LIMB_BITS else the (clz64 a))"

definition bf_set_ui :: "bf_realloc_func \<Rightarrow> bf \<Rightarrow> u64 \<Rightarrow> u32 \<times> bf" where
  "bf_set_ui f r a =
     (let r = r\<lparr>bf_sign := 0\<rparr> in
      if a = 0 then (0, snd (bf_resize f (r\<lparr>bf_expn := BF_EXP_ZERO\<rparr>) 0))
      else (case bf_resize f r 1 of (e, r) \<Rightarrow>
        if e \<noteq> 0 then (BF_ST_MEM_ERROR, bf_set_nan f r)
        else let shift = clz a in
          (0, r\<lparr>bf_tab := (bf_tab r)[0 := push_bit shift a], bf_expn := int LIMB_BITS - int shift\<rparr>)))"

definition bf_set_si :: "bf_realloc_func \<Rightarrow> bf \<Rightarrow> u64 \<Rightarrow> u32 \<times> bf" where
  "bf_set_si f r a =
     (if sint a < 0 then (case bf_set_ui f r (- a) of (ret, r) \<Rightarrow> (ret, r\<lparr>bf_sign := 1\<rparr>))
      else bf_set_ui f r a)"

definition bf_set :: "bf_realloc_func \<Rightarrow> bf \<Rightarrow> bf \<Rightarrow> u32 \<times> bf" where
  "bf_set f r a =
     (case bf_resize f r (length (bf_tab a)) of (e, r) \<Rightarrow>
        if e \<noteq> 0 then (BF_ST_MEM_ERROR, bf_set_nan f r)
        else (0, r\<lparr>bf_sign := bf_sign a, bf_expn := bf_expn a, bf_tab := bf_tab a\<rparr>))"

subsection \<open>Bits of the mantissa\<close>

definition limb_mask :: "nat \<Rightarrow> nat \<Rightarrow> limb" where
  "limb_mask start stop =
     (let n = stop - start + 1 in if n = LIMB_BITS then -1 else push_bit start (push_bit n 1 - 1))"

definition get_bit :: "limb list \<Rightarrow> nat \<Rightarrow> int \<Rightarrow> bool option" where
  "get_bit tab len pos =
     (let i = pos div int LIMB_BITS in
      if i < 0 \<or> i \<ge> int len then Some False
      else do { x \<leftarrow> rd tab (nat i); Some (drop_bit (nat (pos mod int LIMB_BITS)) x AND 1 \<noteq> 0) })"

fun scan_limbs_nz :: "limb list \<Rightarrow> nat \<Rightarrow> bool option" where
  "scan_limbs_nz tab 0 = Some False"
| "scan_limbs_nz tab (Suc pos) =
     do { x \<leftarrow> rd tab pos; if x \<noteq> 0 then Some True else scan_limbs_nz tab pos }"

definition scan_bit_nz :: "limb list \<Rightarrow> int \<Rightarrow> bool option" where
  "scan_bit_nz tab bit_pos =
     (let pos = bit_pos div int LIMB_BITS in
      if pos < 0 then Some False
      else do {
        v \<leftarrow> rd tab (nat pos);
        if v AND limb_mask 0 (nat (bit_pos mod int LIMB_BITS)) \<noteq> 0 then Some True
        else scan_limbs_nz tab (nat pos)
      })"

subsection \<open>Rounding\<close>

text \<open>The addend, and whether the result is inexact.\<close>

definition bf_get_rnd_add :: "bf \<Rightarrow> nat \<Rightarrow> int \<Rightarrow> bf_rnd \<Rightarrow> (bool \<times> bool) option" where
  "bf_get_rnd_add r l prec rnd_mode =
     do {
       let top = int (l * LIMB_BITS) - 1;
       bit0 \<leftarrow> (if rnd_mode = BF_RNDF then Some True else scan_bit_nz (bf_tab r) (top - max 0 (prec + 1)));
       bit1 \<leftarrow> get_bit (bf_tab r) l (top - prec);
       let inexact = bit1 \<or> bit0;
       add_one \<leftarrow>
         (case rnd_mode of
            BF_RNDZ \<Rightarrow> Some False
          | BF_RNDN \<Rightarrow>
              if bit1 then (if bit0 then Some True else get_bit (bf_tab r) l (top - (prec - 1))) else Some False
          | BF_RNDD \<Rightarrow> Some (bf_sign r = 1 \<and> inexact)
          | BF_RNDU \<Rightarrow> Some (bf_sign r = 0 \<and> inexact)
          | BF_RNDA \<Rightarrow> Some inexact
          | BF_RNDNA \<Rightarrow> Some bit1
          | BF_RNDF \<Rightarrow> Some bit1);
       Some (add_one, inexact)
     }"

definition bf_set_overflow :: "bf_realloc_func \<Rightarrow> bf \<Rightarrow> nat \<Rightarrow> int \<Rightarrow> u32 \<Rightarrow> (u32 \<times> bf) option" where
  "bf_set_overflow f r sg prec flags =
     do {
       rnd_mode \<leftarrow> rnd_mode_of flags;
       if prec = BF_PREC_INF \<or> rnd_mode = BF_RNDN \<or> rnd_mode = BF_RNDNA \<or> rnd_mode = BF_RNDA \<or>
          (rnd_mode = BF_RNDD \<and> sg = 1) \<or> (rnd_mode = BF_RNDU \<and> sg = 0)
       then Some (BF_ST_OVERFLOW OR BF_ST_INEXACT, bf_set_inf f r sg)
       else
         let l = nat ((prec + int LIMB_BITS - 1) div int LIMB_BITS) in
         (case bf_resize f r l of (e, r) \<Rightarrow>
            if e \<noteq> 0 then Some (BF_ST_MEM_ERROR, bf_set_nan f r)
            else do {
              tab \<leftarrow> wr (bf_tab r) 0 (limb_mask (nat ((- prec) mod int LIMB_BITS)) (LIMB_BITS - 1));
              Some (BF_ST_OVERFLOW OR BF_ST_INEXACT,
                    r\<lparr>bf_tab := take 1 tab @ replicate (l - 1) (-1), bf_expn := 2 ^ (bf_get_exp_bits flags - 1), bf_sign := sg\<rparr>)
            })
     }"

text \<open>Adding one at the last digit kept: the carry is propagated as in \<open>mp_add_ui\<close>, a carry out of the top shifts as in \<open>mp_shr\<close>.\<close>

definition round_up :: "bf \<Rightarrow> nat \<Rightarrow> int \<Rightarrow> bf option" where
  "round_up r l prec =
     (let bit_pos = int (l * LIMB_BITS) - 1 - (prec - 1); pos = nat (bit_pos div int LIMB_BITS) in
      if bit_pos < 0 then None
      else do {
        (t, carry) \<leftarrow> mp_add_ui (drop pos (bf_tab r)) (push_bit (nat (bit_pos mod int LIMB_BITS)) 1) (l - pos);
        let r = r\<lparr>bf_tab := take pos (bf_tab r) @ t\<rparr>;
        if carry \<noteq> 0 then
          do {
            (t, v) \<leftarrow> mp_shr_loop (drop pos (bf_tab r)) (l - pos) 1 1;
            Some (r\<lparr>bf_tab := splice_at (bf_tab r) pos t, bf_expn := bf_expn r + 1\<rparr>)
          }
        else Some r
      })"

fun skip_zeros :: "limb list \<Rightarrow> nat option" where
  "skip_zeros [] = None"
| "skip_zeros (x # xs) = (if x = 0 then map_option Suc (skip_zeros xs) else Some 0)"

text \<open>The bits from the last digit on are kept, and the zero limbs at the end are removed.\<close>

definition keep_bits :: "bf_realloc_func \<Rightarrow> bf \<Rightarrow> nat \<Rightarrow> int \<Rightarrow> bf option" where
  "keep_bits f r l prec =
     do {
       let bit_pos = int (l * LIMB_BITS) - 1 - (prec - 1);
       let i = bit_pos div int LIMB_BITS;
       let shift = nat (bit_pos mod int LIMB_BITS);
       r \<leftarrow> (if i \<ge> 0 \<and> shift \<noteq> 0 then
               do { x \<leftarrow> rd (bf_tab r) (nat i);
                    Some (r\<lparr>bf_tab := (bf_tab r)[nat i := x AND limb_mask shift (LIMB_BITS - 1)]\<rparr>) }
             else Some r);
       let i = nat i;
       k \<leftarrow> skip_zeros (drop i (bf_tab r));
       let i = i + k;
       let (l, r) = (if i > 0 then (l - i, r\<lparr>bf_tab := splice_at (bf_tab r) 0 (take (l - i) (drop i (bf_tab r)))\<rparr>) else (l, r));
       Some (snd (bf_resize f r l))
     }"

definition bf_round1 :: "bf_realloc_func \<Rightarrow> bf \<Rightarrow> int \<Rightarrow> u32 \<Rightarrow> nat \<Rightarrow> u32 \<Rightarrow> (u32 \<times> bf) option" where
  "bf_round1 f r prec1 flags l ret =
     do {
       let e_range = 2 ^ (bf_get_exp_bits flags - 1);
       let e_min = - e_range + 3;
       let e_max = e_range;
       prec \<leftarrow>
         (if flags AND BF_FLAG_RADPNT_PREC \<noteq> 0 then Some (if prec1 \<noteq> BF_PREC_INF then bf_expn r + prec1 else prec1)
          else if bf_expn r < e_min \<and> flags AND BF_FLAG_SUBNORMAL \<noteq> 0 then
            (if prec1 \<noteq> BF_PREC_INF then Some (prec1 - (e_min - bf_expn r)) else None)
          else Some prec1);
       rnd_mode \<leftarrow> rnd_mode_of flags;
       (add_one, inexact) \<leftarrow> bf_get_rnd_add r l prec rnd_mode;
       let ret = (if inexact then ret OR BF_ST_INEXACT else ret);
       let underflow = Some (ret OR BF_ST_UNDERFLOW OR BF_ST_INEXACT, bf_set_zero f r (bf_sign r));
       if prec \<le> 0 then
         (if add_one then
            let r = snd (bf_resize f r 1) in
            do {
              tab \<leftarrow> wr (bf_tab r) 0 (push_bit (LIMB_BITS - 1) 1);
              Some (ret OR BF_ST_UNDERFLOW OR BF_ST_INEXACT, r\<lparr>bf_tab := tab, bf_expn := bf_expn r + (1 - prec)\<rparr>)
            }
          else underflow)
       else
         do {
           r \<leftarrow> (if add_one then round_up r l prec else Some r);
           if bf_expn r < e_min \<and> flags AND BF_FLAG_SUBNORMAL = 0 then
             Some (ret OR BF_ST_UNDERFLOW OR BF_ST_INEXACT, bf_set_zero f r (bf_sign r))
           else
             let ret = (if bf_expn r < e_min \<and> ret AND BF_ST_INEXACT \<noteq> 0 then ret OR BF_ST_UNDERFLOW else ret) in
             if bf_expn r > e_max then bf_set_overflow f r (bf_sign r) prec1 flags
             else do { r \<leftarrow> keep_bits f r l prec; Some (ret, r) }
         }
     }"

fun mp_shl_loop :: "limb list \<Rightarrow> nat \<Rightarrow> nat \<Rightarrow> limb \<Rightarrow> limb list option" where
  "mp_shl_loop tab 0 shift v = Some tab"
| "mp_shl_loop (a # tab) (Suc n) shift v =
     do { t \<leftarrow> mp_shl_loop tab n shift a; Some ((push_bit shift a OR drop_bit (LIMB_BITS - shift) v) # t) }"
| "mp_shl_loop [] (Suc n) shift v = None"

fun top_limbs :: "limb list \<Rightarrow> nat \<Rightarrow> nat option" where
  "top_limbs tab 0 = Some 0"
| "top_limbs tab (Suc l) = do { x \<leftarrow> rd tab l; if x = 0 then top_limbs tab l else Some (Suc l) }"

definition bf_normalize_and_round :: "bf_realloc_func \<Rightarrow> bf \<Rightarrow> int \<Rightarrow> u32 \<Rightarrow> (u32 \<times> bf) option" where
  "bf_normalize_and_round f r prec1 flags =
     do {
       l \<leftarrow> top_limbs (bf_tab r) (length (bf_tab r));
       if l = 0 then Some (0, snd (bf_resize f (r\<lparr>bf_expn := BF_EXP_ZERO\<rparr>) 0))
       else do {
         let r = r\<lparr>bf_expn := bf_expn r - int ((length (bf_tab r) - l) * LIMB_BITS)\<rparr>;
         v \<leftarrow> rd (bf_tab r) (l - 1);
         let shift = clz v;
         r \<leftarrow> (if shift \<noteq> 0 then
                 do { tab \<leftarrow> mp_shl_loop (bf_tab r) l shift 0;
                      Some (r\<lparr>bf_tab := tab, bf_expn := bf_expn r - int shift\<rparr>) }
               else Some r);
         bf_round1 f r prec1 flags l 0
       }
     }"

definition bf_round :: "bf_realloc_func \<Rightarrow> bf \<Rightarrow> int \<Rightarrow> u32 \<Rightarrow> (u32 \<times> bf) option" where
  "bf_round f r prec flags =
     (if bf_tab r = [] then Some (0, r) else bf_round1 f r prec flags (length (bf_tab r)) 0)"

subsection \<open>Bits and limbs\<close>

lemma mpv_Cons_concat: "mpv (x # xs) = concat_bit 64 (uint x) (mpv xs)"
  using uint_lt_B64 [of x] by (simp add: concat_bit_eq push_bit_eq_mult take_bit_int_eq_self)

lemma bit_mpv: "bit (mpv xs) n \<longleftrightarrow> n div 64 < length xs \<and> bit (xs ! (n div 64)) (n mod 64)"
proof (induction xs arbitrary: n)
  case (Cons x xs)
  show ?case
  proof (cases "n < 64")
    case True
    then show ?thesis unfolding mpv_Cons_concat by (simp add: bit_concat_bit_iff bit_uint_iff)
  next
    case False
    then have "n div 64 = Suc ((n - 64) div 64)" "n mod 64 = (n - 64) mod 64" by (simp_all add: le_div_geq le_mod_geq)
    then show ?thesis using False Cons [of "n - 64"] unfolding mpv_Cons_concat by (simp add: bit_concat_bit_iff)
  qed
qed simp

lemma and_one_bit: "drop_bit k x AND 1 \<noteq> 0 \<longleftrightarrow> bit (x :: limb) k"
  by (simp add: bit_iff_odd_drop_bit and_one_eq mod_2_eq_odd)

lemma get_bit_ok:
  assumes "l \<le> length tab"
  shows "get_bit tab l pos = Some (0 \<le> pos \<and> bit (mpv (take l tab)) (nat pos))"
proof (cases "0 \<le> pos \<and> pos div 64 < int l")
  case True
  define n where "n = nat pos"
  have pos: "pos = int n" using True by (simp add: n_def)
  have i: "nat (pos div 64) = n div 64" "nat (pos mod 64) = n mod 64" by (simp_all add: pos nat_div_distrib nat_mod_distrib)
  have n: "n div 64 < l" using True unfolding pos by (simp add: zdiv_int [symmetric])
  then have "get_bit tab l pos = Some (bit (tab ! (n div 64)) (n mod 64))"
    using True assms i by (simp add: get_bit_def and_one_bit Let_def pos_imp_zdiv_neg_iff)
  then show ?thesis using n assms True by (simp add: bit_mpv n_def [symmetric])
next
  case False
  then have "pos div 64 < 0 \<or> pos div 64 \<ge> int l" by (auto simp: neg_imp_zdiv_neg_iff not_le)
  then have "get_bit tab l pos = Some False" by (auto simp: get_bit_def)
  moreover have "\<not> (0 \<le> pos \<and> bit (mpv (take l tab)) (nat pos))"
    using False assms by (auto simp: bit_mpv nat_div_distrib [symmetric])
  ultimately show ?thesis by simp
qed

lemma mpv_eq_0: "mpv xs = 0 \<longleftrightarrow> (\<forall>x\<in>set xs. x = 0)"
  by (induction xs) (simp_all add: add_nonneg_eq_0_iff unsigned_eq_0_iff)

lemma limb_nz: "x \<noteq> 0 \<longleftrightarrow> (\<exists>j<64. bit (x :: limb) j)"
  using bit_imp_le_length [of x] by (auto simp: bit_eq_iff)

lemma scan_limbs_nz_ok: "pos \<le> length tab \<Longrightarrow> scan_limbs_nz tab pos = Some (\<exists>j<64 * pos. bit (mpv tab) j)"
proof (induction pos)
  case (Suc pos)
  have "(\<exists>j<64 * Suc pos. bit (mpv tab) j) \<longleftrightarrow> tab ! pos \<noteq> 0 \<or> (\<exists>j<64 * pos. bit (mpv tab) j)" (is "?L \<longleftrightarrow> ?R")
  proof
    assume ?L
    then obtain j where j: "j < 64 * Suc pos" "bit (mpv tab) j" by blast
    show ?R
    proof (cases "j < 64 * pos")
      case False
      then have "j div 64 = pos" using j(1) by (intro div_nat_eqI) auto
      then show ?thesis using j(2) by (auto simp: bit_mpv)
    qed (use j in blast)
  next
    assume ?R
    then show ?L
    proof
      assume "tab ! pos \<noteq> 0"
      then obtain j where j: "j < 64" "bit (tab ! pos) j" by (auto simp: limb_nz)
      then have "bit (mpv tab) (64 * pos + j)" using Suc.prems by (simp add: bit_mpv)
      then show ?L using j(1) by (intro exI [of _ "64 * pos + j"]) simp
    next
      assume "\<exists>j<64 * pos. bit (mpv tab) j"
      then obtain j where "j < 64 * pos" "bit (mpv tab) j" by blast
      then show ?L by (intro exI [of _ j]) simp
    qed
  qed
  then show ?case using Suc by simp
qed simp

lemma bit_limb_mask: "a \<le> b \<Longrightarrow> b < 64 \<Longrightarrow> bit (limb_mask a b) j \<longleftrightarrow> a \<le> j \<and> j \<le> b"
proof -
  assume a: "a \<le> b" "b < 64"
  have m: "push_bit n 1 - 1 = (mask n :: limb)" for n by (simp add: mask_eq_exp_minus_1 push_bit_of_1)
  show ?thesis using a unfolding limb_mask_def Let_def m by (auto simp: bit_simps)
qed

lemma and_limb_mask: "m < 64 \<Longrightarrow> x AND limb_mask 0 m \<noteq> 0 \<longleftrightarrow> (\<exists>j\<le>m. bit x j)"
proof -
  assume m: "m < 64"
  have "(\<exists>j<64. bit x j \<and> j \<le> m) \<longleftrightarrow> (\<exists>j\<le>m. bit x j)" using m by (meson le_less_trans)
  then show ?thesis using m by (simp add: limb_nz bit_and_iff bit_limb_mask)
qed

lemma scan_bit_nz_ok:
  assumes "q < 64 * int (length tab)"
  shows "scan_bit_nz tab q = Some (\<exists>j. int j \<le> q \<and> bit (mpv tab) j)"
proof (cases "0 \<le> q")
  case True
  define n where "n = nat q"
  have q: "q = int n" using True by (simp add: n_def)
  have i: "nat (q div 64) = n div 64" "nat (q mod 64) = n mod 64" by (simp_all add: q nat_div_distrib nat_mod_distrib)
  have len: "n div 64 < length tab" using assms by (simp add: q less_mult_imp_div_less)
  have "(\<exists>j\<le>n mod 64. bit (tab ! (n div 64)) j) \<or> (\<exists>j<64 * (n div 64). bit (mpv tab) j) \<longleftrightarrow> (\<exists>j. int j \<le> q \<and> bit (mpv tab) j)" (is "?L \<longleftrightarrow> ?R")
  proof
    assume ?L
    then show ?R
    proof
      assume "\<exists>j\<le>n mod 64. bit (tab ! (n div 64)) j"
      then obtain j where j: "j \<le> n mod 64" "bit (tab ! (n div 64)) j" by blast
      then have "j < 64" by (meson le_less_trans mod_less_divisor zero_less_numeral)
      then have "bit (mpv tab) (64 * (n div 64) + j)" using j len by (simp add: bit_mpv)
      moreover have "64 * (n div 64) + j \<le> n" using j(1) by (metis add_le_cancel_left mult_div_mod_eq)
      ultimately show ?R using q by (metis of_nat_le_iff)
    next
      assume "\<exists>j<64 * (n div 64). bit (mpv tab) j"
      then obtain j where "j < 64 * (n div 64)" "bit (mpv tab) j" by blast
      moreover have "64 * (n div 64) \<le> n" by simp
      ultimately show ?R using q by (metis less_le_trans less_imp_le of_nat_le_iff)
    qed
  next
    assume ?R
    then obtain j where j: "j \<le> n" "bit (mpv tab) j" by (auto simp: q)
    show ?L
    proof (cases "j < 64 * (n div 64)")
      case False
      have "j div 64 \<le> n div 64" using j(1) by (rule div_le_mono)
      moreover have "64 * (n div 64) div 64 \<le> j div 64" using False by (intro div_le_mono) simp
      ultimately have jd: "j div 64 = n div 64" by simp
      then have "j mod 64 \<le> n mod 64" using j(1) by (metis add_le_cancel_left mult_div_mod_eq)
      then show ?thesis using j(2) jd by (auto simp: bit_mpv)
    qed (use j in blast)
  qed
  moreover have "scan_bit_nz tab q = Some ((\<exists>j\<le>n mod 64. bit (tab ! (n div 64)) j) \<or> (\<exists>j<64 * (n div 64). bit (mpv tab) j))"
    using True len i scan_limbs_nz_ok [of "n div 64" tab]
    by (auto simp: scan_bit_nz_def Let_def and_limb_mask pos_imp_zdiv_neg_iff)
  ultimately show ?thesis by simp
next
  case False
  then show ?thesis by (auto simp: scan_bit_nz_def pos_imp_zdiv_neg_iff)
qed

end
