(* ===== verification/BigRound.thy ===== *)
theory BigRound
  imports BigFloat
begin

text \<open>
  libbf.c, correct rounding: \<open>bf_round\<close> and \<open>bf_normalize_and_round\<close> return the number that the
  rounding mode and the precision ask for, and the status says whether it differs from the exact one.
\<close>

unbundle bit_operations_syntax

subsection \<open>Rounding a rational number to an integer\<close>

definition half_even :: "rat \<Rightarrow> int" where
  "half_even x =
     (let k = \<lfloor>x\<rfloor>; f = x - of_int k in
      if f < 1 / 2 \<or> (f = 1 / 2 \<and> even k) then k else k + 1)"

definition rnd_int :: "bf_rnd \<Rightarrow> rat \<Rightarrow> int" where
  "rnd_int mode x =
     (case mode of
        BF_RNDZ \<Rightarrow> if 0 \<le> x then \<lfloor>x\<rfloor> else \<lceil>x\<rceil>
      | BF_RNDD \<Rightarrow> \<lfloor>x\<rfloor>
      | BF_RNDU \<Rightarrow> \<lceil>x\<rceil>
      | BF_RNDA \<Rightarrow> if 0 \<le> x then \<lceil>x\<rceil> else \<lfloor>x\<rfloor>
      | BF_RNDN \<Rightarrow> half_even x
      | BF_RNDNA \<Rightarrow> if 0 \<le> x then \<lfloor>x + 1 / 2\<rfloor> else \<lceil>x - 1 / 2\<rceil>
      | BF_RNDF \<Rightarrow> if 0 \<le> x then \<lfloor>x + 1 / 2\<rfloor> else \<lceil>x - 1 / 2\<rceil>)"

text \<open>The same on a quotient \<open>q\<close> and a remainder \<open>f\<close> of the division by \<open>d\<close>.\<close>

definition rnd_up :: "bf_rnd \<Rightarrow> bool \<Rightarrow> int \<Rightarrow> int \<Rightarrow> int \<Rightarrow> bool" where
  "rnd_up mode neg q f d =
     (case mode of
        BF_RNDZ \<Rightarrow> False
      | BF_RNDD \<Rightarrow> neg \<and> f \<noteq> 0
      | BF_RNDU \<Rightarrow> \<not> neg \<and> f \<noteq> 0
      | BF_RNDA \<Rightarrow> f \<noteq> 0
      | BF_RNDN \<Rightarrow> d < 2 * f \<or> (2 * f = d \<and> odd q)
      | BF_RNDNA \<Rightarrow> d \<le> 2 * f
      | BF_RNDF \<Rightarrow> d \<le> 2 * f)"

lemma floor_parts:
  fixes d f q :: int
  assumes "0 \<le> f" "f < d"
  defines "x \<equiv> (of_int q + of_int f / of_int d :: rat)"
  shows "\<lfloor>x\<rfloor> = q" "\<lceil>x\<rceil> = q + of_bool (f \<noteq> 0)" "\<lfloor>- x\<rfloor> = - q - of_bool (f \<noteq> 0)" "\<lceil>- x\<rceil> = - q"
    "\<lfloor>x + 1 / 2\<rfloor> = q + of_bool (d \<le> 2 * f)" "\<lceil>- x - 1 / 2\<rceil> = - q - of_bool (d \<le> 2 * f)"
    "half_even x = q + of_bool (rnd_up BF_RNDN False q f d)" "half_even (- x) = - q - of_bool (rnd_up BF_RNDN True q f d)"
proof -
  have d: "0 < d" using assms(1,2) by simp
  define e where "e = (of_int f / of_int d :: rat)"
  have fr: "0 \<le> e" "e < 1" using assms(1,2) d by (simp_all add: e_def)
  have z: "e = 0 \<longleftrightarrow> f = 0" using d by (simp add: e_def)
  have "1 / 2 \<le> e \<longleftrightarrow> (of_int d :: rat) \<le> of_int (2 * f)" "1 / 2 < e \<longleftrightarrow> (of_int d :: rat) < of_int (2 * f)"
    "e = 1 / 2 \<longleftrightarrow> (of_int (2 * f) :: rat) = of_int d"
    using d by (auto simp: e_def field_simps)
  then have half: "d \<le> 2 * f \<longleftrightarrow> 1 / 2 \<le> e" "d < 2 * f \<longleftrightarrow> 1 / 2 < e" "2 * f = d \<longleftrightarrow> e = 1 / 2"
    unfolding of_int_le_iff of_int_less_iff of_int_eq_iff by blast+
  have x: "x = of_int q + e" by (simp add: x_def e_def)
  show fl: "\<lfloor>x\<rfloor> = q" unfolding x by (rule floor_unique) (use fr in simp_all)
  show ce: "\<lceil>x\<rceil> = q + of_bool (f \<noteq> 0)" unfolding x z [symmetric]
    by (rule ceiling_unique) (use fr in auto)
  show nfl: "\<lfloor>- x\<rfloor> = - q - of_bool (f \<noteq> 0)" using ce by (simp add: floor_minus)
  show "\<lceil>- x\<rceil> = - q" using fl by (simp add: ceiling_minus)
  show h: "\<lfloor>x + 1 / 2\<rfloor> = q + of_bool (d \<le> 2 * f)" unfolding x half
    using fr by (cases "1 / 2 \<le> e") (auto intro!: floor_unique)
  have eq: "- (- x - 1 / 2) = x + 1 / 2" by simp
  show "\<lceil>- x - 1 / 2\<rceil> = - q - of_bool (d \<le> 2 * f)" unfolding ceiling_def eq h by simp
  show "half_even x = q + of_bool (rnd_up BF_RNDN False q f d)"
    unfolding half_even_def Let_def fl rnd_up_def using half by (auto simp: x)
  show "half_even (- x) = - q - of_bool (rnd_up BF_RNDN True q f d)"
    unfolding half_even_def Let_def nfl rnd_up_def using half fr z by (cases "f = 0") (auto simp: x)
qed

lemma rnd_int_parts:
  fixes d f q :: int
  assumes "0 \<le> f" "f < d" "0 \<le> q"
  shows "rnd_int mode (of_int q + of_int f / of_int d) = q + of_bool (rnd_up mode False q f d)"
    "0 < q \<or> 0 < f \<Longrightarrow> rnd_int mode (- (of_int q + of_int f / of_int d)) = - (q + of_bool (rnd_up mode True q f d))"
proof -
  define x where "x = (of_int q + of_int f / of_int d :: rat)"
  have x: "0 \<le> x" using assms by (simp add: x_def)
  note p = floor_parts [OF assms(1,2), of q, folded x_def]
  show "rnd_int mode (of_int q + of_int f / of_int d) = q + of_bool (rnd_up mode False q f d)"
    unfolding x_def [symmetric] using x by (cases mode; simp only: rnd_int_def bf_rnd.simps if_True p) (simp_all add: rnd_up_def)
  assume "0 < q \<or> 0 < f"
  then have "0 < x"
  proof
    assume "0 < f"
    then show ?thesis unfolding x_def using assms by (intro add_nonneg_pos) simp_all
  next
    assume "0 < q"
    then show ?thesis unfolding x_def using assms by (intro add_pos_nonneg) simp_all
  qed
  then have "\<not> 0 \<le> - x" by simp
  then show "rnd_int mode (- (of_int q + of_int f / of_int d)) = - (q + of_bool (rnd_up mode True q f d))"
    unfolding x_def [symmetric] by (cases mode; simp only: rnd_int_def bf_rnd.simps if_False p) (simp_all add: rnd_up_def)
qed

subsection \<open>The rounding bit and the sticky bit\<close>

lemma ex_bit_take_bit: "(\<exists>j<m. bit (M :: int) j) \<longleftrightarrow> take_bit m M \<noteq> 0"
  by (auto simp: bit_eq_iff bit_take_bit_iff)

lemma remainder_bits:
  fixes M :: int
  assumes "0 < s"
  shows "M mod 2 ^ s = take_bit (s - 1) M + 2 ^ (s - 1) * of_bool (bit M (s - 1))"
    and "take_bit (s - 1) M < 2 ^ (s - 1)" and "0 \<le> take_bit (s - 1) M"
proof -
  have "take_bit (Suc (s - 1)) M = take_bit (s - 1) M + 2 ^ (s - 1) * of_bool (bit M (s - 1))"
    by (simp add: take_bit_Suc_from_most)
  then show "M mod 2 ^ s = take_bit (s - 1) M + 2 ^ (s - 1) * of_bool (bit M (s - 1))"
    using assms by (simp add: take_bit_eq_mod)
qed simp_all

lemma half_cases:
  fixes F t P :: int
  assumes "F = t + P * of_bool b" "0 \<le> t" "t < P"
  shows "F \<noteq> 0 \<longleftrightarrow> b \<or> t \<noteq> 0" "2 * P \<le> 2 * F \<longleftrightarrow> b" "2 * P < 2 * F \<longleftrightarrow> b \<and> t \<noteq> 0" "2 * F = 2 * P \<longleftrightarrow> b \<and> \<not> t \<noteq> 0"
  using assms by (cases b; simp; linarith)+

lemma rnd_up_bits:
  fixes M :: int
  assumes "0 < s"
  defines "b1 \<equiv> bit M (s - 1)" and "b0 \<equiv> (\<exists>j < s - 1. bit M j)"
  shows "M mod 2 ^ s \<noteq> 0 \<longleftrightarrow> b1 \<or> b0"
    and "2 ^ s \<le> 2 * (M mod 2 ^ s) \<longleftrightarrow> b1"
    and "2 ^ s < 2 * (M mod 2 ^ s) \<longleftrightarrow> b1 \<and> b0"
    and "2 * (M mod 2 ^ s) = 2 ^ s \<longleftrightarrow> b1 \<and> \<not> b0"
proof -
  define t P F where "t = take_bit (s - 1) M" and "P = (2 :: int) ^ (s - 1)" and "F = M mod 2 ^ s"
  have f: "F = t + P * of_bool b1" "t < P" "0 \<le> t"
    using remainder_bits [OF assms(1), of M] by (simp_all add: t_def b1_def P_def F_def)
  have b0: "b0 \<longleftrightarrow> t \<noteq> 0" by (simp add: b0_def ex_bit_take_bit t_def)
  have p: "(2 :: int) ^ s = 2 * P" using assms(1) unfolding P_def by (cases s) simp_all
  show "M mod 2 ^ s \<noteq> 0 \<longleftrightarrow> b1 \<or> b0" "2 ^ s \<le> 2 * (M mod 2 ^ s) \<longleftrightarrow> b1"
    "2 ^ s < 2 * (M mod 2 ^ s) \<longleftrightarrow> b1 \<and> b0" "2 * (M mod 2 ^ s) = 2 ^ s \<longleftrightarrow> b1 \<and> \<not> b0"
    unfolding F_def [symmetric] unfolding b0 p using half_cases [OF f(1,3,2)] by simp_all
qed

lemma mpv_take_less: "l \<le> length tab \<Longrightarrow> mpv (take l tab) < 2 ^ (64 * l)"
  using mpv_less [of "take l tab"] by (simp add: power_mult min_absorb2)

lemma bit_mpv_take: "l \<le> length tab \<Longrightarrow> bit (mpv (take l tab)) j \<longleftrightarrow> j < 64 * l \<and> bit (mpv tab) j"
  by (auto simp: bit_mpv less_mult_imp_div_less)

lemma get_rnd_add_ok:
  fixes prec :: int
  assumes "l \<le> length (bf_tab r)" "bf_sign r \<le> 1" "mpv (take l (bf_tab r)) \<noteq> 0"
  defines "M \<equiv> mpv (take l (bf_tab r))" and "s \<equiv> 64 * int l - prec"
  shows "bf_get_rnd_add r l prec mode =
     Some (if 0 < s then (rnd_up mode (bf_sign r = 1) (M div 2 ^ nat s) (M mod 2 ^ nat s) (2 ^ nat s), mode = BF_RNDF \<or> M mod 2 ^ nat s \<noteq> 0)
           else (False, mode = BF_RNDF))"
proof -
  define top where "top = int (l * 64) - 1"
  have bits: "get_bit (bf_tab r) l pos = Some (0 \<le> pos \<and> bit M (nat pos))" for pos
    using get_bit_ok [OF assms(1)] by (simp add: M_def)
  have lp: "0 < l" using assms(3) by (cases l) auto
  have scan: "scan_bit_nz (bf_tab r) (top - max 0 (prec + 1)) = Some (0 < s \<and> (\<exists>j<nat s - 1. bit M j))"
  proof -
    have "(\<exists>j. int j \<le> top - max 0 (prec + 1) \<and> bit (mpv (bf_tab r)) j) \<longleftrightarrow> 0 < s \<and> (\<exists>j<nat s - 1. bit M j)" (is "?L \<longleftrightarrow> ?R")
    proof
      assume ?L
      then obtain j where "int j \<le> top - max 0 (prec + 1)" "bit (mpv (bf_tab r)) j" by blast
      then show ?R using bit_mpv_take [OF assms(1), of j] by (auto simp: M_def s_def top_def intro!: exI [of _ j])
    next
      assume ?R
      then obtain j where "0 < s" "j < nat s - 1" "bit M j" by blast
      then show ?L using bit_mpv_take [OF assms(1), of j] by (auto simp: M_def s_def top_def intro!: exI [of _ j])
    qed
    then show ?thesis using scan_bit_nz_ok [of "top - max 0 (prec + 1)" "bf_tab r"] assms(1) by (simp add: top_def)
  qed
  show ?thesis
  proof (cases "0 < s")
    case True
    have pos: "top - prec = s - 1" "top - (prec - 1) = s" by (simp_all add: top_def s_def)
    have q: "bit M (nat s) \<longleftrightarrow> odd (M div 2 ^ nat s)" by (simp add: bit_iff_odd)
    note b = rnd_up_bits [of "nat s" M]
    have True': "0 < nat s" using True by simp
    define b1 b0 where "b1 = bit M (nat s - 1)" and "b0 \<longleftrightarrow> (\<exists>j<nat s - 1. bit M j)"
    have b1: "get_bit (bf_tab r) l (top - prec) = Some b1"
      using True by (simp add: bits pos b1_def nat_diff_distrib)
    have b0: "scan_bit_nz (bf_tab r) (top - max 0 (prec + 1)) = Some b0" using True by (simp add: scan b0_def)
    have bq: "get_bit (bf_tab r) l (top - (prec - 1)) = Some (odd (M div 2 ^ nat s))" using True by (simp add: bits pos q)
    have g: "bf_get_rnd_add r l prec mode =
      Some (case mode of BF_RNDZ \<Rightarrow> False | BF_RNDN \<Rightarrow> b1 \<and> (b0 \<or> odd (M div 2 ^ nat s)) | BF_RNDD \<Rightarrow> bf_sign r = 1 \<and> (b1 \<or> b0)
        | BF_RNDU \<Rightarrow> bf_sign r = 0 \<and> (b1 \<or> b0) | BF_RNDA \<Rightarrow> b1 \<or> b0 | BF_RNDNA \<Rightarrow> b1 | BF_RNDF \<Rightarrow> b1, mode = BF_RNDF \<or> b1 \<or> b0)"
      unfolding bf_get_rnd_add_def top_def [symmetric] Let_def b1 b0 bq
      by (cases mode; simp add: b1 b0 bq)
    have sg: "bf_sign r \<noteq> 1 \<longleftrightarrow> bf_sign r = 0" using assms(2) by auto
    have up: "rnd_up mode (bf_sign r = 1) (M div 2 ^ nat s) (M mod 2 ^ nat s) (2 ^ nat s) =
      (case mode of BF_RNDZ \<Rightarrow> False | BF_RNDN \<Rightarrow> b1 \<and> (b0 \<or> odd (M div 2 ^ nat s)) | BF_RNDD \<Rightarrow> bf_sign r = 1 \<and> (b1 \<or> b0)
        | BF_RNDU \<Rightarrow> bf_sign r = 0 \<and> (b1 \<or> b0) | BF_RNDA \<Rightarrow> b1 \<or> b0 | BF_RNDNA \<Rightarrow> b1 | BF_RNDF \<Rightarrow> b1)"
      unfolding rnd_up_def b(1-4) [OF True', folded b1_def b0_def]
      using sg by (cases mode) auto
    show ?thesis unfolding g up if_P [OF True] b(1) [OF True', folded b1_def b0_def] ..
  next
    case False
    have b1: "get_bit (bf_tab r) l (top - prec) = Some False" using False by (simp add: bits top_def s_def)
    have b0: "scan_bit_nz (bf_tab r) (top - max 0 (prec + 1)) = Some False" using False by (simp add: scan)
    have "bf_get_rnd_add r l prec mode = Some (False, mode = BF_RNDF)"
      unfolding bf_get_rnd_add_def top_def [symmetric] Let_def b1 b0
      by (cases mode; simp add: b1 b0)
    then show ?thesis using False by simp
  qed
qed


subsection \<open>Shifts\<close>

lemma uint_shl_or:
  assumes "k \<le> 64"
  shows "uint (push_bit k l OR drop_bit (64 - k) (a :: limb)) = (uint l mod 2 ^ (64 - k)) * 2 ^ k + uint a div 2 ^ (64 - k)"
proof -
  have d: "take_bit k (drop_bit (64 - k) (uint a)) = drop_bit (64 - k) (uint a)"
    using assms by (simp add: take_bit_drop_bit take_bit_int_eq_self uint_lt_B64)
  have "uint (push_bit k l OR drop_bit (64 - k) a) = concat_bit k (drop_bit (64 - k) (uint a)) (take_bit (64 - k) (uint l))"
    unfolding concat_bit_def d using assms
    by (simp add: unsigned_or_eq unsigned_push_bit_eq unsigned_drop_bit_eq take_bit_push_bit take_bit_int_eq_self uint_lt_B64 or.commute)
  then show ?thesis unfolding concat_bit_eq d by (simp add: push_bit_eq_mult drop_bit_eq_div take_bit_eq_mod)
qed

lemma uint_shr_or:
  assumes "0 < s" "s < 64"
  shows "uint (drop_bit s a OR push_bit (64 - s) (l :: limb)) = uint a div 2 ^ s + (uint l mod 2 ^ s) * 2 ^ (64 - s)"
  using uint_shl_or [of "64 - s" l a] assms by (simp add: or.commute)

lemma mp_shr_loop_ok:
  assumes "0 < s" "s < 64"
  shows "n \<le> length tab \<Longrightarrow> \<exists>t l'. mp_shr_loop tab n s l = Some (t, l') \<and> length t = n \<and>
    mpv t = (mpv (take n tab) + B64 ^ n * (uint l mod 2 ^ s)) div 2 ^ s"
proof (induction n arbitrary: l)
  case (Suc n)
  define a where "a = tab ! n"
  from Suc.IH [of a] Suc.prems obtain t l' where t: "mp_shr_loop tab n s a = Some (t, l')" "length t = n"
    "mpv t = (mpv (take n tab) + B64 ^ n * (uint a mod 2 ^ s)) div 2 ^ s" by auto
  define w where "w = drop_bit s a OR push_bit (64 - s) l"
  have w: "uint w = uint a div 2 ^ s + (uint l mod 2 ^ s) * 2 ^ (64 - s)" unfolding w_def using uint_shr_or assms by blast
  have m: "mpv (take (Suc n) tab) = mpv (take n tab) + B64 ^ n * uint a"
    using Suc.prems by (simp add: mpv_take_Suc a_def)
  have p: "2 ^ (64 - s) * 2 ^ s = B64" using assms by (simp flip: power_add)
  define lm where "lm = uint l mod 2 ^ s"
  have e: "mpv (take (Suc n) tab) + B64 ^ Suc n * lm =
    (mpv (take n tab) + B64 ^ n * (uint a mod 2 ^ s)) + 2 ^ s * (B64 ^ n * uint w)"
  proof -
    have "uint a = 2 ^ s * (uint a div 2 ^ s) + uint a mod 2 ^ s" by simp
    then have "B64 ^ n * uint a = B64 ^ n * (2 ^ s * (uint a div 2 ^ s) + uint a mod 2 ^ s)" by (simp only:)
    moreover have "B64 ^ Suc n * lm = B64 ^ n * (2 ^ (64 - s) * 2 ^ s) * lm" by (simp only: power_Suc2 p)
    ultimately show ?thesis unfolding m w lm_def [symmetric]
      by (simp only: distrib_left distrib_right mult.assoc mult.commute mult.left_commute add.assoc add.commute add.left_commute)
  qed
  have "(mpv (take (Suc n) tab) + B64 ^ Suc n * lm) div 2 ^ s = mpv t + B64 ^ n * uint w"
    unfolding e t(3) by simp
  moreover have "mp_shr_loop tab (Suc n) s l = Some (t @ [w], l')"
    using Suc.prems t(1) by (simp add: rd_def a_def w_def)
  ultimately show ?case using t(2) by (simp add: mpv_append lm_def)
qed simp

lemma mp_shl_loop_ok:
  "0 < s \<Longrightarrow> s < 64 \<Longrightarrow> n \<le> length tab \<Longrightarrow> \<exists>t. mp_shl_loop tab n s v = Some t \<and> length t = length tab \<and> drop n t = drop n tab \<and>
    mpv (take n t) + B64 ^ n * (uint (if n = 0 then v else tab ! (n - 1)) div 2 ^ (64 - s)) =
    mpv (take n tab) * 2 ^ s + uint v div 2 ^ (64 - s)"
proof (induction tab n s v rule: mp_shl_loop.induct)
  case (2 a tab n s v)
  define h where "h = uint (if n = 0 then a else tab ! (n - 1)) div 2 ^ (64 - s)"
  from 2 obtain t where t: "mp_shl_loop tab n s a = Some t" "length t = length tab" "drop n t = drop n tab"
    "mpv (take n t) + B64 ^ n * h = mpv (take n tab) * 2 ^ s + uint a div 2 ^ (64 - s)" by (auto simp: h_def)
  define w where "w = push_bit s a OR drop_bit (64 - s) v"
  have w: "uint w = (uint a mod 2 ^ (64 - s)) * 2 ^ s + uint v div 2 ^ (64 - s)"
    unfolding w_def by (rule uint_shl_or) (use 2(3) in simp)
  have p: "2 ^ (64 - s) * 2 ^ s = B64" using 2(2,3) by (simp flip: power_add)
  have a: "uint a * 2 ^ s = (uint a mod 2 ^ (64 - s)) * 2 ^ s + B64 * (uint a div 2 ^ (64 - s))"
  proof -
    have "uint a * 2 ^ s = (2 ^ (64 - s) * (uint a div 2 ^ (64 - s)) + uint a mod 2 ^ (64 - s)) * 2 ^ s" by simp
    also have "\<dots> = (uint a mod 2 ^ (64 - s)) * 2 ^ s + (2 ^ (64 - s) * 2 ^ s) * (uint a div 2 ^ (64 - s))"
      by (simp only: distrib_left distrib_right mult.assoc mult.commute mult.left_commute add.commute)
    finally show ?thesis unfolding p .
  qed
  have "B64 * (mpv (take n t) + B64 ^ n * h) = B64 * (mpv (take n tab) * 2 ^ s + uint a div 2 ^ (64 - s))" by (simp only: t(4))
  then have "mpv (w # take n t) + B64 ^ Suc n * h = mpv (a # take n tab) * 2 ^ s + uint v div 2 ^ (64 - s)"
    using w a by (simp add: algebra_simps)
  moreover have "mp_shl_loop (a # tab) (Suc n) s v = Some (w # t)" using t(1) by (simp add: w_def)
  moreover have "(if Suc n = 0 then v else (a # tab) ! (Suc n - 1)) = (if n = 0 then a else tab ! (n - 1))" by (cases n) simp_all
  ultimately show ?case using t(2,3) by (simp add: h_def)
qed simp_all


lemma clz_ok:
  assumes "a \<noteq> 0"
  shows "clz a < 64" "B64 \<le> 2 * (uint a * 2 ^ clz a)" "uint a * 2 ^ clz a < B64"
proof -
  define xs where "xs = takeWhile (\<lambda>i. \<not> bit a i) (rev [0..<64])"
  have c: "clz a = length xs" using assms by (simp add: clz_def clz64_def builtin_clz_def xs_def)
  obtain b where b: "b < 64" "bit a b" using assms by (auto simp: limb_nz)
  have lt: "length xs < 64"
  proof (rule ccontr)
    assume "\<not> length xs < 64"
    then have "length xs = length (rev [0..<64])" using length_takeWhile_le [of "\<lambda>i. \<not> bit a i" "rev [0..<64]"] by (simp add: xs_def)
    then have "set xs = {0..<64}" unfolding xs_def by (metis set_rev set_upt takeWhile_eq_take take_all order_refl)
    then have "b \<in> set xs" using b by simp
    then show False using b(2) by (auto simp: xs_def dest: set_takeWhileD)
  qed
  then show "clz a < 64" by (simp add: c)
  define m where "m = 63 - length xs"
  have bm: "bit a m" using nth_length_takeWhile [of "\<lambda>i. \<not> bit a i" "rev [0..<64]"] lt
    by (simp add: xs_def [symmetric] rev_nth m_def)
  have hi: "\<not> bit a j" if "m < j" for j
  proof (cases "j < 64")
    case True
    then have i: "63 - j < length xs" using that lt by (simp add: m_def)
    then have "xs ! (63 - j) = rev [0..<64] ! (63 - j)" unfolding xs_def by (rule takeWhile_nth)
    then have "xs ! (63 - j) = j" using True by (simp add: rev_nth)
    then show ?thesis using nth_mem [OF i] by (auto simp: xs_def dest: set_takeWhileD)
  qed (use bit_imp_le_length [of a j] in auto)
  have "take_bit (Suc m) (uint a) = uint a" using hi
    by (auto simp: bit_eq_iff bit_take_bit_iff bit_uint_iff) (meson not_less_eq)
  then have up: "uint a < 2 ^ Suc m" using take_bit_int_less_exp [of "Suc m" "uint a"] by simp
  have lo: "2 ^ m \<le> uint a"
  proof (rule ccontr)
    assume "\<not> 2 ^ m \<le> uint a"
    then have "take_bit m (uint a) = uint a" by (simp add: take_bit_int_eq_self)
    moreover have "bit (uint a) m" using bm bit_imp_le_length [OF bm] by (simp add: bit_uint_iff)
    ultimately show False by (metis bit_take_bit_iff less_irrefl)
  qed
  have p: "2 ^ m * 2 ^ length xs = (2 :: int) ^ 63" using lt by (simp add: m_def flip: power_add)
  have "2 ^ m * 2 ^ length xs \<le> uint a * 2 ^ length xs" using lo by (rule mult_right_mono) simp
  then show "B64 \<le> 2 * (uint a * 2 ^ clz a)" unfolding p c by simp
  have "uint a * 2 ^ length xs < 2 ^ Suc m * 2 ^ length xs" using up by (rule mult_strict_right_mono) simp
  also have "\<dots> = B64" using p by simp
  finally show "uint a * 2 ^ clz a < B64" by (simp add: c)
qed

subsection \<open>Adding one at the last digit, keeping the digits\<close>

lemma div_shift_split:
  fixes lo hi :: int
  assumes "0 \<le> lo" "lo < B64 ^ i"
  shows "(lo + B64 ^ i * hi) div 2 ^ (64 * i + j) = hi div 2 ^ j"
proof -
  have "(2 :: int) ^ (64 * i + j) = B64 ^ i * 2 ^ j" by (simp add: power_add power_mult)
  then have "(lo + B64 ^ i * hi) div 2 ^ (64 * i + j) = ((lo + B64 ^ i * hi) div B64 ^ i) div 2 ^ j"
    by (simp add: div_mult2_eq zdiv_zmult2_eq)
  also have "(lo + B64 ^ i * hi) div B64 ^ i = hi" using assms by simp
  finally show ?thesis .
qed

lemma div_pos_geq_mult: "0 < d \<Longrightarrow> d * c \<le> x \<Longrightarrow> c \<le> x div (d :: int)"
  using zdiv_mono1 [of "d * c" x d] by simp

lemma div_swap: "0 \<le> a \<Longrightarrow> 0 \<le> b \<Longrightarrow> x div a div b = x div b div (a :: int)"
  by (metis zdiv_zmult2_eq mult.commute)

lemma round_up_ok:
  assumes "l \<le> length (bf_tab r)" "k < 64 * l" "prec = 64 * int l - int k"
  defines "Q \<equiv> mpv (take l (bf_tab r)) div 2 ^ k"
  shows "\<exists>r'. round_up r l prec = Some r' \<and> length (bf_tab r') = length (bf_tab r) \<and> bf_sign r' = bf_sign r \<and>
    ((Q + 1 < 2 ^ (64 * l - k) \<and> bf_expn r' = bf_expn r \<and> mpv (take l (bf_tab r')) div 2 ^ k = Q + 1) \<or>
     (Q + 1 = 2 ^ (64 * l - k) \<and> bf_expn r' = bf_expn r + 1 \<and> 2 * (mpv (take l (bf_tab r')) div 2 ^ k) = Q + 1))"
proof -
  define i j n where "i = k div 64" and "j = k mod 64" and "n = l - i"
  have k: "k = 64 * i + j" "j < 64" "i < l" using assms(2) by (simp_all add: i_def j_def less_mult_imp_div_less)
  have bp: "int (l * LIMB_BITS) - 1 - (prec - 1) = int k" using assms(3) by simp
  have ij: "nat (int k div 64) = i" "nat (int k mod 64) = j" by (simp_all add: i_def j_def nat_div_distrib nat_mod_distrib)
  define tab where "tab = bf_tab r"
  have len: "l \<le> length tab" using assms(1) by (simp add: tab_def)
  define lo hi where "lo = mpv (take i tab)" and "hi = mpv (take n (drop i tab))"
  have lo: "0 \<le> lo" "lo < B64 ^ i" using mpv_less [of "take i tab"] k(3) len by (simp_all add: lo_def min_absorb2)
  have split: "mpv (take l (take i tab @ xs)) = lo + B64 ^ i * mpv (take n xs)" for xs
    using k(3) len by (simp add: lo_def n_def mpv_append min_absorb2)
  have M: "mpv (take l tab) = lo + B64 ^ i * hi" using split [of "drop i tab"] by (simp add: hi_def)
  have Q: "Q = hi div 2 ^ j" unfolding Q_def tab_def [symmetric] M k(1) by (rule div_shift_split [OF lo])
  have n: "0 < n" "n \<le> length (drop i tab)" using k(3) len by (simp_all add: n_def)
  have one: "uint (push_bit j 1 :: limb) = 2 ^ j" 
    unfolding unsigned_push_bit_eq using k(2) power_strict_increasing [of j 64 "2 :: int"]
    by (simp add: push_bit_of_1 take_bit_int_eq_self)
  obtain t c where t: "mp_add_ui (drop i tab) (push_bit j 1) n = Some (t, c)" "length t = length (drop i tab)"
    "drop n t = drop n (drop i tab)" "mpv (take n t) + B64 ^ n * uint c = hi + 2 ^ j" "c \<le> 1"
    using mp_add_ui_ok [OF n(2), of "push_bit j 1"] n(1) unfolding one hi_def by blast
  have hib: "hi < B64 ^ n" using mpv_less [of "take n (drop i tab)"] n(2) unfolding hi_def by (simp add: min_absorb2)
  have Bn: "B64 ^ n = 2 ^ j * 2 ^ (64 * l - k)"
  proof -
    have "64 * n = j + (64 * l - k)" using k assms(2) by (simp add: n_def)
    then have "(2 :: int) ^ (64 * n) = 2 ^ j * 2 ^ (64 * l - k)" by (simp only: power_add)
    then show ?thesis by (simp add: power_mult)
  qed
  have q1: "(hi + 2 ^ j) div 2 ^ j = Q + 1" unfolding Q by simp
  define r1 where "r1 = r\<lparr>bf_tab := take i tab @ t\<rparr>"
  have ru: "round_up r l prec = (if c \<noteq> 0 then
       do { (t, v) \<leftarrow> mp_shr_loop (drop i (bf_tab r1)) n 1 1; Some (r1\<lparr>bf_tab := splice_at (bf_tab r1) i t, bf_expn := bf_expn r1 + 1\<rparr>) }
     else Some r1)"
    using t(1) unfolding round_up_def bp Let_def ij by (simp add: ij tab_def [symmetric] n_def r1_def)
  have c: "c = 0 \<or> c = 1" using t(5) by (metis le_less_trans linorder_not_le order.order_iff_strict word_gt_0 word_less_1)
  from c show ?thesis
  proof
    assume c0: "c = 0"
    then have t4: "mpv (take n t) = hi + 2 ^ j" using t(4) by simp
    have M': "mpv (take l (bf_tab r1)) = lo + B64 ^ i * (hi + 2 ^ j)" using split [of t] t4 by (simp add: r1_def)
    have "mpv (take l (bf_tab r1)) div 2 ^ k = Q + 1" unfolding M' k(1) div_shift_split [OF lo] q1 ..
    moreover have "2 ^ j * (Q + 1) \<le> hi + 2 ^ j" 
    proof -
      have "0 \<le> hi mod 2 ^ j" by simp
      then show ?thesis using minus_mod_eq_mult_div [of hi "2 ^ j"] unfolding Q distrib_left by linarith
    qed
    moreover have "hi + 2 ^ j < B64 ^ n" using mpv_less [of "take n t"] t4 t(2) n(2) by (simp add: min_absorb2)
    ultimately have "2 ^ j * (Q + 1) < 2 ^ j * 2 ^ (64 * l - k)" unfolding Bn by linarith
    then have "Q + 1 < 2 ^ (64 * l - k)" by simp
    moreover have "round_up r l prec = Some r1" using ru c0 by simp
    moreover have "length (bf_tab r1) = length (bf_tab r)" using t(2) k(3) len by (simp add: r1_def tab_def)
    ultimately show ?thesis using \<open>mpv (take l (bf_tab r1)) div 2 ^ k = Q + 1\<close> by (simp add: r1_def)
  next
    assume c1: "c = 1"
    then have t4: "mpv (take n t) + B64 ^ n = hi + 2 ^ j" using t(4) by simp
    have "B64 ^ n \<le> hi + 2 ^ j" using t4 mpv_nonneg [of "take n t"] by linarith
    then have "2 ^ (64 * l - k) \<le> Q + 1" unfolding q1 [symmetric] Bn by (intro div_pos_geq_mult) simp_all
    moreover have "Q < 2 ^ (64 * l - k)" unfolding Q using hib Bn by (intro div_less_mult) (simp_all add: mult.commute)
    ultimately have Q1: "Q + 1 = 2 ^ (64 * l - k)" by simp
    have d1: "drop i (bf_tab r1) = t" using k(3) len by (simp add: r1_def)
    obtain u v where u: "mp_shr_loop t n 1 1 = Some (u, v)" "length u = n"
      "mpv u = (mpv (take n t) + B64 ^ n * (uint (1 :: limb) mod 2 ^ 1)) div 2 ^ 1"
      using mp_shr_loop_ok [of 1 n t 1] t(2) n(2) by auto
    have u3: "mpv u = (hi + 2 ^ j) div 2" using u(3) t4 by simp
    define r2 where "r2 = r1\<lparr>bf_tab := splice_at (bf_tab r1) i u, bf_expn := bf_expn r1 + 1\<rparr>"
    have "round_up r l prec = Some r2" using ru c1 u(1) by (simp add: d1 r2_def)
    moreover have tk: "take l (bf_tab r2) = take i tab @ u" using k(3) len u(2) by (simp add: r2_def r1_def splice_at_def n_def)
    moreover have "mpv (take i tab @ u) = lo + B64 ^ i * mpv u" using k(3) len by (simp add: lo_def mpv_append min_absorb2)
    then have "mpv (take l (bf_tab r2)) div 2 ^ k = mpv u div 2 ^ j" unfolding tk k(1) using div_shift_split [OF lo] by simp
    moreover have "mpv u div 2 ^ j = (Q + 1) div 2" unfolding u3 q1 [symmetric] by (rule div_swap) simp_all
    moreover have "even (Q + 1)" unfolding Q1 using assms(2) by simp
    moreover have "length (bf_tab r2) = length (bf_tab r)" using t(2) k(3) len u(2) n
      by (simp add: r2_def r1_def tab_def length_splice_at)
    ultimately show ?thesis using Q1 by (auto simp: r2_def r1_def)
  qed
qed


definition shrinks :: "bf_realloc_func \<Rightarrow> bool" where
  "shrinks f \<longleftrightarrow> (\<forall>t n. 0 < n \<and> n \<le> length t \<longrightarrow> f t n = Some (take n t))"

lemma bf_resize_shrink: "shrinks f \<Longrightarrow> n \<le> length (bf_tab r) \<Longrightarrow> bf_resize f r n = (0, r\<lparr>bf_tab := take n (bf_tab r)\<rparr>)"
  by (auto simp: bf_resize_def shrinks_def)

lemma skip_zeros_ok: "mpv xs \<noteq> 0 \<Longrightarrow>
  \<exists>k. skip_zeros (xs @ ys) = Some k \<and> k < length xs \<and> xs ! k \<noteq> 0 \<and> mpv xs = B64 ^ k * mpv (drop k xs)"
proof (induction xs)
  case (Cons x xs)
  show ?case
  proof (cases "x = 0")
    case True
    then obtain k where "skip_zeros (xs @ ys) = Some k" "k < length xs" "xs ! k \<noteq> 0" "mpv xs = B64 ^ k * mpv (drop k xs)"
      using Cons by auto
    then show ?thesis using True by (intro exI [of _ "Suc k"]) simp
  next
    case False
    then show ?thesis by (intro exI [of _ 0]) simp
  qed
qed simp

lemma uint_and_high_mask: "j < 64 \<Longrightarrow> uint (x AND limb_mask j 63) = (uint x div 2 ^ j) * 2 ^ j"
proof -
  assume j: "j < 64"
  have "uint (x AND limb_mask j 63) = push_bit j (drop_bit j (uint x))"
    using j by (auto simp: bit_eq_iff bit_uint_iff bit_and_iff bit_limb_mask bit_push_bit_iff bit_drop_bit_eq dest: bit_imp_le_length)
  then show ?thesis by (simp add: push_bit_eq_mult drop_bit_eq_div)
qed

lemma clear_low:
  fixes j :: nat
  assumes "0 < length hi" and that: "j < 64"
  shows "mpv (hi[0 := hi ! 0 AND limb_mask j 63]) = 2 ^ j * (mpv hi div 2 ^ j)"
proof -
  obtain x t where hi: "hi = x # t" using assms by (cases hi) auto
  have p: "B64 = 2 ^ j * 2 ^ (64 - j)" using that by (simp flip: power_add)
  have "(uint x + 2 ^ j * (2 ^ (64 - j) * mpv t)) div 2 ^ j = uint x div 2 ^ j + 2 ^ (64 - j) * mpv t" by simp
  then have "mpv hi div 2 ^ j = uint x div 2 ^ j + 2 ^ (64 - j) * mpv t" unfolding hi mpv.simps p by (simp only: mult.assoc)
  then have "2 ^ j * (mpv hi div 2 ^ j) = 2 ^ j * (uint x div 2 ^ j) + B64 * mpv t" unfolding p by (simp only: distrib_left mult.assoc)
  then show ?thesis using uint_and_high_mask [OF that, of x] by (simp add: hi mult.commute)
qed

lemma update_middle: "length xs = i \<Longrightarrow> 0 < length hi \<Longrightarrow> (xs @ hi @ ys)[i := v] = xs @ hi[0 := v] @ ys"
  by (auto simp: list_update_append split: nat.splits)

text \<open>What is left of the mantissa: the quotient \<open>Q\<close> by \<open>2 ^ k\<close>, without zero limbs below.\<close>

lemma keep_bits_ok:
  fixes prec k :: int
  assumes f: "shrinks f" and "l \<le> length (bf_tab r)" "prec \<ge> 1"
  defines "k \<equiv> 64 * int l - prec" and "Q \<equiv> mpv (take l (bf_tab r)) div 2 ^ nat k"
  assumes "Q \<noteq> 0"
  shows "\<exists>r'. keep_bits f r l prec = Some r' \<and> bf_sign r' = bf_sign r \<and> bf_expn r' = bf_expn r \<and>
    0 < length (bf_tab r') \<and> length (bf_tab r') \<le> l \<and> bf_tab r' ! 0 \<noteq> 0 \<and>
    B64 ^ (l - length (bf_tab r')) * mpv (bf_tab r') = Q * 2 ^ nat k"
proof -
  define i j where "i = nat (k div 64)" and "j = (if k < 0 then 0 else nat (k mod 64))"
  have kk: "nat k = 64 * i + j" "j < 64"

  proof -
    have "nat k = 64 * i + j \<and> j < 64"
    proof (cases "k < 0")
      case False
      then have "int i = k div 64" "int j = k mod 64" by (simp_all add: i_def j_def)
      then have "int (64 * i + j) = k" "int j < 64" by simp_all
      then show ?thesis by linarith
    qed (simp add: i_def j_def div_neg_pos_less0)
    then show "nat k = 64 * i + j" "j < 64" by simp_all
  qed
  define tab where "tab = bf_tab r"
  have len: "l \<le> length tab" using assms(2) by (simp add: tab_def)
  have lp: "0 < l" using assms(6) by (cases l) (auto simp: Q_def)
  have il: "i < l" using assms(3) lp unfolding i_def k_def by linarith
  define lo hi where "lo = mpv (take i tab)" and "hi = take (l - i) (drop i tab)"
  have lo: "0 \<le> lo" "lo < B64 ^ i" using mpv_less [of "take i tab"] il len by (simp_all add: lo_def min_absorb2)
  have tl: "take l tab = take i tab @ hi" using il by (simp add: hi_def flip: take_add)
  have M: "mpv (take l tab) = lo + B64 ^ i * mpv hi" unfolding tl using il len by (simp add: lo_def mpv_append min_absorb2)
  have Q: "Q = mpv hi div 2 ^ j" unfolding Q_def tab_def [symmetric] M kk(1) by (rule div_shift_split [OF lo])
  have hl: "length hi = l - i" "0 < length hi" using il len by (simp_all add: hi_def)
  define hi1 where "hi1 = hi[0 := hi ! 0 AND limb_mask j 63]"
  have h1: "mpv hi1 = 2 ^ j * Q" unfolding hi1_def Q by (rule clear_low [OF hl(2) kk(2)])
  have hl1: "length hi1 = l - i" using hl by (simp add: hi1_def)
  have bp: "int (l * LIMB_BITS) - 1 - (prec - 1) = k" by (simp add: k_def)
  have m0: "x AND limb_mask 0 63 = x" for x by (simp add: limb_mask_def)
  have upd: "tab[i := tab ! i AND limb_mask j 63] = take i tab @ hi1 @ drop l tab"
  proof -
    have t: "take i tab @ hi @ drop l tab = tab" using tl append_take_drop_id [of l tab] by simp
    have "hi ! 0 = tab ! i" using il len by (simp add: hi_def)
    then show ?thesis using update_middle [of "take i tab" i hi "drop l tab"] il len hl(2) unfolding hi1_def t by simp
  qed
  define r1 where "r1 = r\<lparr>bf_tab := take i tab @ hi1 @ drop l tab\<rparr>"
  have i64: "nat (k div int LIMB_BITS) = i" by (simp add: i_def)
  have st1: "(if k div int LIMB_BITS \<ge> 0 \<and> nat (k mod int LIMB_BITS) \<noteq> 0 then
      do { x \<leftarrow> rd (bf_tab r) (nat (k div int LIMB_BITS));
           Some (r\<lparr>bf_tab := (bf_tab r)[nat (k div int LIMB_BITS) := x AND limb_mask (nat (k mod int LIMB_BITS)) (LIMB_BITS - 1)]\<rparr>) }
    else Some r) = Some r1"
  proof (cases "k div 64 \<ge> 0 \<and> nat (k mod 64) \<noteq> 0")
    case True
    then have "\<not> k < 0" by (simp add: pos_imp_zdiv_nonneg_iff)
    then have "j = nat (k mod 64)" by (simp add: j_def)
    then show ?thesis using True il len upd by (simp add: rd_def r1_def tab_def [symmetric] i_def [symmetric])
  next
    case False
    then have "j = 0" by (auto simp: j_def)
    then have "tab = take i tab @ hi1 @ drop l tab" using upd by (simp add: m0)
    then have "r1 = r" unfolding r1_def tab_def by (metis bf.surjective bf.update_convs(3))
    then show ?thesis using False by auto
  qed
  have d1: "drop i (bf_tab r1) = hi1 @ drop l tab" using il len by (simp add: r1_def)
  obtain z where z: "skip_zeros (hi1 @ drop l tab) = Some z" "z < length hi1" "hi1 ! z \<noteq> 0" "mpv hi1 = B64 ^ z * mpv (drop z hi1)"
    using skip_zeros_ok [of hi1 "drop l tab"] assms(6) h1 by auto
  define r2 where "r2 = r\<lparr>bf_tab := drop z hi1\<rparr>"
  have keep: "keep_bits f r l prec = Some r2"
  proof (cases "0 < i + z")
    case True
    have d2: "drop (i + z) (bf_tab r1) = drop z hi1 @ drop l tab" using d1 z(2) by (simp add: add.commute [of i] flip: drop_drop)
    have t2: "take (l - (i + z)) (drop (i + z) (bf_tab r1)) = drop z hi1" unfolding d2 using hl1 by simp
    have "keep_bits f r l prec = Some (snd (bf_resize f (r1\<lparr>bf_tab := splice_at (bf_tab r1) 0 (drop z hi1)\<rparr>) (l - (i + z))))"
      unfolding keep_bits_def bp Let_def st1 unfolding i64 bind.bind_lunit d1 z(1) using True t2 by simp
    moreover have "l - (i + z) = length (drop z hi1)" using hl1 by simp
    moreover have "length (drop z hi1) \<le> length (splice_at (bf_tab r1) 0 (drop z hi1))" by (simp add: splice_at_def)
    ultimately show ?thesis using f by (simp add: bf_resize_shrink r2_def r1_def splice_at_def)
  next
    case False
    then have "i = 0" "z = 0" by simp_all
    then have "keep_bits f r l prec = Some (snd (bf_resize f r1 l))"
      unfolding keep_bits_def bp Let_def st1 unfolding i64 bind.bind_lunit d1 z(1) by simp
    moreover have "l \<le> length (bf_tab r1)" using hl1 il len by (simp add: r1_def)
    ultimately show ?thesis using f \<open>i = 0\<close> \<open>z = 0\<close> hl1 by (simp add: bf_resize_shrink r2_def r1_def)
  qed
  have "B64 ^ (l - (l - i - z)) * mpv (drop z hi1) = B64 ^ i * mpv hi1"
    using il z(2) hl1 by (simp add: z(4) power_add)
  also have "\<dots> = Q * 2 ^ nat k" unfolding h1 kk(1) by (simp add: power_add power_mult)
  finally show ?thesis using keep z hl1 by (simp add: r2_def)
qed


subsection \<open>Values\<close>

definition scaled :: "nat \<Rightarrow> int \<Rightarrow> int \<Rightarrow> rat" where
  "scaled sg m e = (if sg = 1 then -1 else 1) * (of_int m * 2 powi e)"

definition bf_val :: "bf \<Rightarrow> rat" where
  "bf_val r = scaled (bf_sign r) (mpv (bf_tab r)) (bf_expn r - 64 * int (length (bf_tab r)))"

definition rounded_to :: "bf_rnd \<Rightarrow> int \<Rightarrow> rat \<Rightarrow> rat" where
  "rounded_to mode e x = of_int (rnd_int mode (x / 2 powi e)) * 2 powi e"

definition bf_normal :: "bf \<Rightarrow> bool" where
  "bf_normal r \<longleftrightarrow> bf_sign r \<le> 1 \<and> bf_tab r \<noteq> [] \<and> bit (last (bf_tab r)) 63 \<and> bf_tab r ! 0 \<noteq> 0"

lemma top_bit: "xs \<noteq> [] \<Longrightarrow> bit (last xs) 63 \<longleftrightarrow> 2 ^ (64 * length xs - 1) \<le> mpv xs"
proof -
  assume n: "xs \<noteq> []"
  define k where "k = 64 * length xs - 1"
  have k: "k div 64 = length xs - 1" "k mod 64 = 63" "Suc k = 64 * length xs"
    using n by (cases xs; simp add: k_def; arith)+
  have "bit (mpv xs) k \<longleftrightarrow> bit (last xs) 63" using n k by (simp add: bit_mpv last_conv_nth)
  moreover have "mpv xs < 2 ^ Suc k" using mpv_less [of xs] unfolding k(3) by (simp add: power_mult)
  then have "mpv xs div 2 ^ k < 2" by (intro div_less_mult) simp_all
  then have "mpv xs div 2 ^ k = 0 \<or> mpv xs div 2 ^ k = 1" using pos_imp_zdiv_nonneg_iff [of "2 ^ k" "mpv xs"] by auto
  then have "bit (mpv xs) k \<longleftrightarrow> mpv xs div 2 ^ k = 1" by (auto simp: bit_iff_odd)
  moreover have "mpv xs div 2 ^ k = 1 \<longleftrightarrow> 2 ^ k \<le> mpv xs"

  proof
    assume d: "mpv xs div 2 ^ k = 1"
    show "2 ^ k \<le> mpv xs"
    proof (rule ccontr)
      assume "\<not> 2 ^ k \<le> mpv xs"
      then have "mpv xs div 2 ^ k = 0" by (intro div_pos_pos_trivial) simp_all
      then show False using d by simp
    qed
  next
    assume "2 ^ k \<le> mpv xs"
    then have "1 \<le> mpv xs div 2 ^ k" by (intro div_pos_geq_mult) simp_all
    then show "mpv xs div 2 ^ k = 1" using \<open>mpv xs div 2 ^ k < 2\<close> by linarith
  qed
  ultimately show ?thesis by (simp add: k_def)
qed

lemma powi_add_nat: "(2 :: rat) powi (e + int k) = 2 powi e * 2 ^ k"
  by (simp add: power_int_add)

lemma scaled_shift:
  assumes "B64 ^ (l - n) * m = Q * 2 ^ k" "n \<le> l"
  shows "scaled sg m (e - 64 * int n) = scaled sg Q (e - 64 * int l + int k)"
proof -
  have "e - 64 * int n = e - 64 * int l + int (64 * (l - n))" using assms(2) by (simp add: of_nat_diff)
  then have "(2 :: rat) powi (e - 64 * int n) = 2 powi (e - 64 * int l) * 2 ^ (64 * (l - n))" by (simp only: powi_add_nat)
  moreover have "(2 :: rat) ^ (64 * (l - n)) * of_int m = of_int Q * 2 ^ k"
    using arg_cong [OF assms(1), of "of_int :: int \<Rightarrow> rat"] by (simp add: power_mult)
  moreover have "(2 :: rat) powi (e - 64 * int l + int k) = 2 powi (e - 64 * int l) * 2 ^ k" by (rule powi_add_nat)
  moreover define P where "P = (2 :: rat) powi (e - 64 * int l)"
  moreover have "of_int m * (P * 2 ^ (64 * (l - n))) = P * (2 ^ (64 * (l - n)) * of_int m)" "of_int Q * (P * 2 ^ k) = P * (of_int Q * 2 ^ k)"
    by (simp_all only: mult.assoc mult.commute mult.left_commute)
  ultimately show ?thesis unfolding scaled_def by simp
qed

lemma quotient_eq: "P \<noteq> 0 \<Longrightarrow> d \<noteq> 0 \<Longrightarrow> a * (P * c) = n / d * P \<longleftrightarrow> a * (d * c) = (n :: rat)"
  by (auto simp: field_simps)

lemma rounded_to_quotient:
  assumes "0 \<le> Q" "0 \<le> F" "F < d * 2 ^ k" "N = Q * (d * 2 ^ k) + F" "0 < N" "0 < d"
    and x: "x = (if sg = 1 then -1 else 1) * (of_int N / of_int d * 2 powi e)"
  shows "rounded_to mode (e + int k) x = scaled sg (Q + of_bool (rnd_up mode (sg = 1) Q F (d * 2 ^ k))) (e + int k)"
    "scaled sg (Q + of_bool up) (e + int k) = x \<longleftrightarrow> F = of_bool up * (d * 2 ^ k)"
proof -
  define P where "P = (2 :: rat) powi e"
  have P: "2 powi (e + int k) = P * 2 ^ k" "P \<noteq> 0" by (simp_all add: P_def power_int_add)
  have d: "(of_int d :: rat) \<noteq> 0" using assms(6) by simp
  have N: "(of_int N :: rat) = of_int Q * (of_int d * 2 ^ k) + of_int F" by (simp add: assms(4))
  define y where "y = (of_int Q + of_int F / of_int (d * 2 ^ k) :: rat)"
  have q: "of_int N / of_int d * P / (P * 2 ^ k) = y"
    unfolding N y_def using P(2) d by (simp add: field_simps)
  have nz: "0 < Q \<or> 0 < F" using assms by (auto simp: le_less)
  note r = rnd_int_parts [OF assms(2,3,1)]
  show "rounded_to mode (e + int k) x = scaled sg (Q + of_bool (rnd_up mode (sg = 1) Q F (d * 2 ^ k))) (e + int k)"
  proof (cases "sg = 1")
    case True
    have "- 1 * (of_int N / of_int d * P) / (P * 2 ^ k) = - y" unfolding q [symmetric] by simp
    then show ?thesis unfolding rounded_to_def scaled_def x P(1) P_def [symmetric] if_P [OF True]
      by (simp only: r(2) [OF nz, folded y_def] True of_int_minus mult_minus_left mult_1 simp_thms)
  next
    case False
    have "1 * (of_int N / of_int d * P) / (P * 2 ^ k) = y" unfolding q [symmetric] by simp
    then show ?thesis unfolding rounded_to_def scaled_def x P(1) P_def [symmetric] if_not_P [OF False]
      using r(1) [folded y_def, of mode] False by simp
  qed
  have "scaled sg (Q + of_bool up) (e + int k) = x \<longleftrightarrow> of_int (Q + of_bool up) * (P * 2 ^ k) = of_int N / of_int d * P"
    unfolding scaled_def x P(1) P_def [symmetric] by simp
  also have "\<dots> \<longleftrightarrow> (of_int ((Q + of_bool up) * (d * 2 ^ k)) :: rat) = of_int N"
    using quotient_eq [OF P(2) d, of "of_int (Q + of_bool up)" "2 ^ k" "of_int N"] by (simp only: of_int_mult of_int_power of_int_numeral)
  also have "\<dots> \<longleftrightarrow> (Q + of_bool up) * (d * 2 ^ k) = N" by (rule of_int_eq_iff)
  also have "\<dots> \<longleftrightarrow> F = of_bool up * (d * 2 ^ k)" unfolding assms(4) by (auto simp: distrib_right)
  finally show "scaled sg (Q + of_bool up) (e + int k) = x \<longleftrightarrow> F = of_bool up * (d * 2 ^ k)" .
qed

lemma rounded_to_scaled:
  assumes "0 \<le> Q" "0 \<le> F" "F < 2 ^ k" "M = Q * 2 ^ k + F" "0 < M"
  shows "rounded_to mode (e + int k) (scaled sg M e) = scaled sg (Q + of_bool (rnd_up mode (sg = 1) Q F (2 ^ k))) (e + int k)"
    "scaled sg (Q + of_bool up) (e + int k) = scaled sg M e \<longleftrightarrow> F = of_bool up * 2 ^ k"
  using rounded_to_quotient [of Q F 1 k M "scaled sg M e" sg e] assms by (simp_all add: scaled_def)

subsection \<open>\<open>bf_round1\<close>\<close>

definition prec_of :: "bf \<Rightarrow> int \<Rightarrow> u32 \<Rightarrow> int" where
  "prec_of r prec1 flags =
     (if flags AND BF_FLAG_RADPNT_PREC \<noteq> 0 \<and> prec1 \<noteq> BF_PREC_INF then bf_expn r + prec1 else prec1)"

lemma normal_from_value:
  assumes "0 < n" "n \<le> l" "length xs = n" "B64 ^ (l - n) * mpv xs = Q * 2 ^ k" "2 ^ (64 * l - 1) \<le> Q * 2 ^ k"
  shows "bit (last xs) 63"
proof -
  have "(2 :: int) ^ (64 * l - 1) = B64 ^ (l - n) * 2 ^ (64 * n - 1)"
  proof -
    have "64 * l - 1 = 64 * (l - n) + (64 * n - 1)" using assms(1,2) by simp
    then show ?thesis by (simp add: power_add power_mult)
  qed
  then have "B64 ^ (l - n) * 2 ^ (64 * n - 1) \<le> B64 ^ (l - n) * mpv xs" using assms(4,5) by simp
  then have "2 ^ (64 * n - 1) \<le> mpv xs" by simp
  then show ?thesis using top_bit [of xs] assms(1,3) by auto
qed

lemma rnd_up_0: "0 < d \<Longrightarrow> \<not> rnd_up mode neg q 0 d"
  by (cases mode) (simp_all add: rnd_up_def)

lemma scaled_pow: "scaled sg (Q * 2 ^ d) e = scaled sg Q (e + int d)"
  by (simp add: scaled_def power_int_add mult.commute)

text \<open>Rounding to \<open>prec\<close> digits, at least one.\<close>

lemma round_digits_ok:
  fixes prec :: int
  assumes f: "shrinks f" and l: "l \<le> length (bf_tab r)" "0 < l" "bit (bf_tab r ! (l - 1)) 63" and sg: "bf_sign r \<le> 1" and prec: "1 \<le> prec"
  defines "x \<equiv> bf_val (r\<lparr>bf_tab := take l (bf_tab r)\<rparr>)"
  shows "\<exists>up inex r1 r'. bf_get_rnd_add r l prec mode = Some (up, inex) \<and> (if up then round_up r l prec else Some r) = Some r1 \<and>
    keep_bits f r1 l prec = Some r' \<and> bf_normal r' \<and> bf_sign r1 = bf_sign r \<and> bf_sign r' = bf_sign r \<and>
    bf_expn r' = bf_expn r1 \<and> bf_expn r \<le> bf_expn r1 \<and> bf_expn r1 \<le> bf_expn r + 1 \<and>
    bf_val r' = rounded_to mode (bf_expn r - prec) x \<and> (inex \<longleftrightarrow> mode = BF_RNDF \<or> bf_val r' \<noteq> x)"
proof -
  define M where "M = mpv (take l (bf_tab r))"
  define k where "k = 64 * int l - prec"
  define e where "e = bf_expn r - 64 * int l"
  have tl: "take l (bf_tab r) \<noteq> []" "last (take l (bf_tab r)) = bf_tab r ! (l - 1)" using l take_Suc_conv_app_nth [of "l - 1" "bf_tab r"] by auto
  have M: "2 ^ (64 * l - 1) \<le> M" "M < 2 ^ (64 * l)" using top_bit [OF tl(1)] l mpv_take_less [OF l(1)] by (simp_all add: tl(2) M_def min_absorb2)
  then have Mp: "0 < M" using zero_less_power [of "2 :: int" "64 * l - 1"] by linarith
  have x: "x = scaled (bf_sign r) M e" using l by (simp add: x_def bf_val_def M_def e_def min_absorb2)
  have add: "bf_get_rnd_add r l prec mode = Some (if 0 < k then (rnd_up mode (bf_sign r = 1) (M div 2 ^ nat k) (M mod 2 ^ nat k) (2 ^ nat k), mode = BF_RNDF \<or> M mod 2 ^ nat k \<noteq> 0)
           else (False, mode = BF_RNDF))"
    using get_rnd_add_ok [OF l(1) sg, of prec mode] Mp by (simp add: M_def k_def)
  define b where "b \<longleftrightarrow> 0 < k \<and> rnd_up mode (bf_sign r = 1) (M div 2 ^ nat k) (M mod 2 ^ nat k) (2 ^ nat k)"
  define F where "F = M mod 2 ^ nat k"
  define Q where "Q = M div 2 ^ nat k"
  have QF: "0 \<le> Q" "0 \<le> F" "F < 2 ^ nat k" "M = Q * 2 ^ nat k + F" using Mp
    by (simp_all add: Q_def F_def pos_imp_zdiv_nonneg_iff div_mult_mod_eq del: mult.commute)
  show ?thesis
  proof (cases "0 < k")
    case True
    define kn where "kn = nat k"
    have kn: "int kn = k" "0 < kn" "kn < 64 * l" using True prec by (simp_all add: kn_def k_def nat_less_iff)
    have kp: "prec = 64 * int l - int kn" by (simp add: kn(1)) (simp add: k_def)
    have Qlo: "2 ^ (64 * l - kn - 1) \<le> Q"
    proof -
      have "64 * l - 1 = kn + (64 * l - kn - 1)" using kn(3) by simp
      then have "2 ^ (64 * l - 1) = (2 :: int) ^ kn * 2 ^ (64 * l - kn - 1)" by (metis power_add)
      then show ?thesis using M(1) unfolding Q_def kn_def [symmetric] by (intro div_pos_geq_mult) simp_all
    qed
    obtain r1 Q1 d where r1: "(if b then round_up r l prec else Some r) = Some r1" "length (bf_tab r1) = length (bf_tab r)"
        "bf_sign r1 = bf_sign r" "bf_expn r1 = bf_expn r + int d" "d \<le> 1" "mpv (take l (bf_tab r1)) div 2 ^ kn = Q1"
        "Q1 * 2 ^ d = Q + of_bool b" "2 ^ (64 * l - kn - 1) \<le> Q1"
    proof (cases b)
      case bT: True
      obtain r1 where r1: "round_up r l prec = Some r1" "length (bf_tab r1) = length (bf_tab r)" "bf_sign r1 = bf_sign r"
        and alt: "(Q + 1 < 2 ^ (64 * l - kn) \<and> bf_expn r1 = bf_expn r \<and> mpv (take l (bf_tab r1)) div 2 ^ kn = Q + 1) \<or>
          (Q + 1 = 2 ^ (64 * l - kn) \<and> bf_expn r1 = bf_expn r + 1 \<and> 2 * (mpv (take l (bf_tab r1)) div 2 ^ kn) = Q + 1)"
        using round_up_ok [OF l(1) kn(3) kp] unfolding M_def [symmetric] kn_def [symmetric] Q_def by blast
      from alt show ?thesis
      proof
        assume h: "Q + 1 < 2 ^ (64 * l - kn) \<and> bf_expn r1 = bf_expn r \<and> mpv (take l (bf_tab r1)) div 2 ^ kn = Q + 1"
        show ?thesis by (rule that [of r1 0 "Q + 1"]) (use bT r1 h Qlo in simp_all)
      next
        assume h: "Q + 1 = 2 ^ (64 * l - kn) \<and> bf_expn r1 = bf_expn r + 1 \<and> 2 * (mpv (take l (bf_tab r1)) div 2 ^ kn) = Q + 1"
        define Q1 where "Q1 = mpv (take l (bf_tab r1)) div 2 ^ kn"
        have "Suc (64 * l - kn - 1) = 64 * l - kn" using kn(3) by simp
        then have "2 * Q1 = 2 * 2 ^ (64 * l - kn - 1)" using h unfolding Q1_def by (metis power_Suc)
        then have "Q1 = 2 ^ (64 * l - kn - 1)" by simp
        then show ?thesis by (intro that [of r1 1 Q1]) (use bT r1 h in \<open>simp_all add: Q1_def\<close>)
      qed
    next
      case False
      show ?thesis by (rule that [of r 0 Q]) (use False Qlo in \<open>simp_all add: Q_def M_def kn_def\<close>)
    qed
    have Q1p: "0 < Q1" using r1(8) zero_less_power [of "2 :: int" "64 * l - kn - 1"] by linarith
    have "l \<le> length (bf_tab r1)" using l(1) r1(2) by simp
    from keep_bits_ok [OF f this prec] obtain r' where r': "keep_bits f r1 l prec = Some r'" "bf_sign r' = bf_sign r1" "bf_expn r' = bf_expn r1"
      "0 < length (bf_tab r')" "length (bf_tab r') \<le> l" "bf_tab r' ! 0 \<noteq> 0" "B64 ^ (l - length (bf_tab r')) * mpv (bf_tab r') = Q1 * 2 ^ kn"
      unfolding k_def [symmetric] kn_def [symmetric] r1(6) using Q1p by auto
    have "2 ^ (64 * l - 1) \<le> Q1 * 2 ^ kn"
    proof -
      have "64 * l - 1 = (64 * l - kn - 1) + kn" using kn(3) by simp
      then have "2 ^ (64 * l - 1) = 2 ^ (64 * l - kn - 1) * (2 :: int) ^ kn" by (metis power_add)
      then show ?thesis using r1(8) by simp
    qed
    then have "bit (last (bf_tab r')) 63" using normal_from_value [OF r'(4,5) refl r'(7)] by simp
    then have norm: "bf_normal r'" using r'(2,4,6) r1(3) sg by (auto simp: bf_normal_def)
    have "bf_val r' = scaled (bf_sign r) Q1 (bf_expn r1 - 64 * int l + int kn)"
      unfolding bf_val_def r'(2,3) r1(3) by (rule scaled_shift [OF r'(7,5)])
    also have "\<dots> = scaled (bf_sign r) Q1 ((e + int kn) + int d)" by (simp add: r1(4) e_def algebra_simps)
    also have "\<dots> = scaled (bf_sign r) (Q + of_bool b) (e + int kn)" by (simp only: scaled_pow r1(7) [symmetric])
    finally have val: "bf_val r' = scaled (bf_sign r) (Q + of_bool b) (e + int kn)" .
    have b: "b \<longleftrightarrow> rnd_up mode (bf_sign r = 1) Q F (2 ^ kn)" using True by (simp add: b_def Q_def F_def kn_def)
    note rs = rounded_to_scaled [OF QF(1-3)[folded kn_def] QF(4)[folded kn_def] Mp]
    have ek: "bf_expn r - prec = e + int kn" by (simp add: kp e_def)
    have "bf_val r' = rounded_to mode (bf_expn r - prec) x" unfolding val ek x rs(1) b ..
    moreover have "F \<noteq> 0 \<longleftrightarrow> bf_val r' \<noteq> x" unfolding val x rs(2)
      using b QF(3) rnd_up_0 [of "2 ^ kn" mode "bf_sign r = 1" Q] by (cases b) (auto simp: kn_def)
    moreover have "bf_get_rnd_add r l prec mode = Some (b, mode = BF_RNDF \<or> F \<noteq> 0)"
      using add True by (simp add: b_def F_def)
    ultimately show ?thesis using r1 r' norm by (intro exI conjI) (assumption | simp)+
  next
    case False
    then have k0: "nat k = 0" by simp
    from keep_bits_ok [OF f l(1) prec] obtain r' where r': "keep_bits f r l prec = Some r'" "bf_sign r' = bf_sign r" "bf_expn r' = bf_expn r"
      "0 < length (bf_tab r')" "length (bf_tab r') \<le> l" "bf_tab r' ! 0 \<noteq> 0" "B64 ^ (l - length (bf_tab r')) * mpv (bf_tab r') = M * 2 ^ 0"
      unfolding k_def [symmetric] k0 M_def [symmetric] using Mp by auto
    have "bit (last (bf_tab r')) 63" using normal_from_value [OF r'(4,5) refl r'(7)] M(1) by simp
    then have norm: "bf_normal r'" using r'(2,4,6) sg by (auto simp: bf_normal_def)
    have val: "bf_val r' = x" unfolding bf_val_def r'(2,3) x using scaled_shift [OF r'(7,5)] by (simp add: e_def)
    define kn where "kn = nat (- k)"
    have kn: "int kn = - k" using False by (simp add: kn_def)
    have x': "x = scaled (bf_sign r) (M * 2 ^ kn) (e - int kn)" unfolding x scaled_pow by simp
    have "0 < M * 2 ^ kn" using Mp by simp
    then have "rounded_to mode (e - int kn + int 0) x = scaled (bf_sign r) (M * 2 ^ kn + of_bool (rnd_up mode (bf_sign r = 1) (M * 2 ^ kn) 0 (2 ^ 0))) (e - int kn + int 0)"
      unfolding x' by (intro rounded_to_scaled) simp_all
    then have "rounded_to mode (bf_expn r - prec) x = x" using rnd_up_0 [of 1] x' by (simp add: kn k_def e_def)
    then show ?thesis using add False r' norm val by auto
  qed
qed


text \<open>At no digit: the result is zero or one unit.\<close>

lemma round_no_digit_ok:
  fixes prec :: int
  assumes f: "shrinks f" and l: "l \<le> length (bf_tab r)" "0 < l" "bit (bf_tab r ! (l - 1)) 63" and sg: "bf_sign r \<le> 1" and prec: "prec \<le> 0"
  defines "x \<equiv> bf_val (r\<lparr>bf_tab := take l (bf_tab r)\<rparr>)"
  shows "\<exists>up. bf_get_rnd_add r l prec mode = Some (up, True) \<and>
    rounded_to mode (bf_expn r - prec) x = scaled (bf_sign r) (of_bool up) (bf_expn r - prec) \<and>
    rounded_to mode (bf_expn r - prec) x \<noteq> x"
proof -
  define M where "M = mpv (take l (bf_tab r))"
  define kn where "kn = nat (64 * int l - prec)"
  define e where "e = bf_expn r - 64 * int l"
  have kn: "int kn = 64 * int l - prec" "0 < kn" "64 * l \<le> kn" using prec l(2) unfolding kn_def by linarith+
  have tl: "take l (bf_tab r) \<noteq> []" "last (take l (bf_tab r)) = bf_tab r ! (l - 1)" using l take_Suc_conv_app_nth [of "l - 1" "bf_tab r"] by auto
  have M: "2 ^ (64 * l - 1) \<le> M" "M < 2 ^ (64 * l)" using top_bit [OF tl(1)] l mpv_take_less [OF l(1)] by (simp_all add: tl(2) M_def min_absorb2)
  then have Mp: "0 < M" using zero_less_power [of "2 :: int" "64 * l - 1"] by linarith
  have "(2 :: int) ^ (64 * l) \<le> 2 ^ kn" using kn(3) by simp
  then have Mk: "M < 2 ^ kn" using M(2) by linarith
  have x: "x = scaled (bf_sign r) M e" using l by (simp add: x_def bf_val_def M_def e_def min_absorb2)
  define up where "up = rnd_up mode (bf_sign r = 1) 0 M (2 ^ kn)"
  have dm: "M div 2 ^ kn = 0" "M mod 2 ^ kn = M" using Mp Mk by (simp_all add: div_pos_pos_trivial mod_pos_pos_trivial)
  have "bf_get_rnd_add r l prec mode = Some (up, mode = BF_RNDF \<or> M \<noteq> 0)"
    using get_rnd_add_ok [OF l(1) sg, of prec mode] Mp kn(1,2) by (simp add: M_def [symmetric] kn_def [symmetric] dm up_def)
  then have "bf_get_rnd_add r l prec mode = Some (up, True)" using Mp by simp
  moreover have ek: "bf_expn r - prec = e + int kn" by (simp add: kn(1) e_def)
  have r: "rounded_to mode (e + int kn) x = scaled (bf_sign r) (of_bool up) (e + int kn)"
    unfolding x up_def using rounded_to_scaled(1) [where Q = 0 and F = M and k = kn and M = M and sg = "bf_sign r" and mode = mode and e = e] Mp Mk by simp
  moreover have "scaled (bf_sign r) (of_bool up) (e + int kn) \<noteq> x"
    unfolding x using rounded_to_scaled(2) [where Q = 0 and F = M and k = kn and M = M and sg = "bf_sign r" and up = up and e = e] Mp Mk by (cases up) auto
  ultimately show ?thesis unfolding ek by auto
qed

definition in_exp_range :: "u32 \<Rightarrow> int \<Rightarrow> bool" where
  "in_exp_range flags e \<longleftrightarrow> - (2 ^ (bf_get_exp_bits flags - 1)) + 3 \<le> e \<and> e < 2 ^ (bf_get_exp_bits flags - 1)"

definition bf_canonical :: "bf \<Rightarrow> bool" where
  "bf_canonical r \<longleftrightarrow> bf_normal r \<or> (bf_sign r \<le> 1 \<and> bf_tab r = [] \<and> bf_expn r = BF_EXP_ZERO)"

theorem bf_round1_ok:
  fixes prec1 :: int
  assumes f: "shrinks f" and l: "l \<le> length (bf_tab r)" "0 < l" "bit (bf_tab r ! (l - 1)) 63" and sg: "bf_sign r \<le> 1"
    and mode: "rnd_mode_of flags = Some mode" and e: "in_exp_range flags (bf_expn r)"
  defines "x \<equiv> bf_val (r\<lparr>bf_tab := take l (bf_tab r)\<rparr>)" and "prec \<equiv> prec_of r prec1 flags"
  shows "\<exists>ret' r'. bf_round1 f r prec1 flags l ret = Some (ret', r') \<and> bf_canonical r' \<and> bf_sign r' = bf_sign r \<and>
    bf_val r' = rounded_to mode (bf_expn r - prec) x \<and>
    ret' = (if mode = BF_RNDF \<or> bf_val r' \<noteq> x then ret OR BF_ST_INEXACT else ret) OR (if prec \<le> 0 then BF_ST_UNDERFLOW OR BF_ST_INEXACT else 0)"
proof -
  define er :: int where "er = 2 ^ (bf_get_exp_bits flags - 1)"
  have er: "- er + 3 \<le> bf_expn r" "bf_expn r < er" using e by (simp_all add: in_exp_range_def er_def)
  have pr: "(if flags AND BF_FLAG_RADPNT_PREC \<noteq> 0 then Some (if prec1 \<noteq> BF_PREC_INF then bf_expn r + prec1 else prec1)
          else if bf_expn r < - er + 3 \<and> flags AND BF_FLAG_SUBNORMAL \<noteq> 0 then
            (if prec1 \<noteq> BF_PREC_INF then Some (prec1 - (- er + 3 - bf_expn r)) else None)
          else Some prec1) = Some prec"
    using er by (auto simp: prec_def prec_of_def)
  show ?thesis
  proof (cases "prec \<le> 0")
    case False
    then have "1 \<le> prec" by simp
    from round_digits_ok [OF f l sg this, of mode] obtain up inex r1 r' where
      h: "bf_get_rnd_add r l prec mode = Some (up, inex)" "(if up then round_up r l prec else Some r) = Some r1"
      "keep_bits f r1 l prec = Some r'" "bf_normal r'" "bf_sign r1 = bf_sign r" "bf_sign r' = bf_sign r"
      "bf_expn r \<le> bf_expn r1" "bf_expn r1 \<le> bf_expn r + 1"
      "bf_val r' = rounded_to mode (bf_expn r - prec) x" "inex \<longleftrightarrow> mode = BF_RNDF \<or> bf_val r' \<noteq> x"
      unfolding x_def by blast
    have c: "\<not> (bf_expn r1 < - er + 3)" "\<not> (bf_expn r1 > er)" using h(7,8) er by linarith+
    have "bf_round1 f r prec1 flags l ret = Some (if inex then ret OR BF_ST_INEXACT else ret, r')"
      unfolding bf_round1_def Let_def er_def [symmetric] pr mode bind.bind_lunit h(1) prod.case h(2) if_not_P [OF False]
      using c h(3) by simp
    then show ?thesis using h(4,6,9) False h(10) by (simp add: bf_canonical_def)
  next
    case True
    from round_no_digit_ok [OF f l sg True, of mode] obtain up where
      h: "bf_get_rnd_add r l prec mode = Some (up, True)"
      "rounded_to mode (bf_expn r - prec) x = scaled (bf_sign r) (of_bool up) (bf_expn r - prec)"
      "rounded_to mode (bf_expn r - prec) x \<noteq> x"
      unfolding x_def by blast
    show ?thesis
    proof (cases up)
      case up: True
      define r' where "r' = r\<lparr>bf_tab := [push_bit 63 1], bf_expn := bf_expn r + (1 - prec)\<rparr>"
      have "1 \<le> length (bf_tab r)" using l by simp
      then have "bf_round1 f r prec1 flags l ret = Some (ret OR BF_ST_INEXACT OR BF_ST_UNDERFLOW OR BF_ST_INEXACT, r')"
        unfolding bf_round1_def Let_def er_def [symmetric] pr mode bind.bind_lunit h(1) prod.case if_P [OF True]
        using up bf_resize_shrink [OF f, of 1 r] by (cases "bf_tab r") (simp_all add: wr_def r'_def or.assoc)
      moreover define w :: limb where "w = push_bit 63 1"
      have w: "uint w = 1 * 2 ^ 63" unfolding w_def unsigned_push_bit_eq by (simp add: push_bit_of_1 take_bit_eq_mod)
      have "r' = r\<lparr>bf_tab := [w], bf_expn := bf_expn r + (1 - prec)\<rparr>" by (simp add: r'_def w_def)
      then have "bf_val r' = scaled (bf_sign r) (uint w) (bf_expn r - prec - int 63)" by (simp add: bf_val_def algebra_simps)
      then have "bf_val r' = scaled (bf_sign r) (1 * 2 ^ 63) (bf_expn r - prec - int 63)" unfolding w .
      then have "bf_val r' = scaled (bf_sign r) 1 (bf_expn r - prec)" unfolding scaled_pow by simp
      moreover have "bf_normal r'" using sg by (simp add: bf_normal_def r'_def bit_simps)
      ultimately show ?thesis using h(2,3) up True by (intro exI [of _ "ret OR BF_ST_INEXACT OR BF_ST_UNDERFLOW OR BF_ST_INEXACT"] exI [of _ r'])
        (simp add: bf_canonical_def r'_def or.assoc)
    next
      case up: False
      define r' where "r' = r\<lparr>bf_tab := [], bf_expn := BF_EXP_ZERO\<rparr>"
      have "bf_set_zero f r (bf_sign r) = r'" using l by (simp add: bf_set_zero_def bf_resize_def r'_def)
      then have "bf_round1 f r prec1 flags l ret = Some (ret OR BF_ST_INEXACT OR BF_ST_UNDERFLOW OR BF_ST_INEXACT, r')"
        unfolding bf_round1_def Let_def er_def [symmetric] pr mode bind.bind_lunit h(1) prod.case if_P [OF True]
        using up by (simp add: or.assoc)
      moreover have "bf_val r' = scaled (bf_sign r) 0 (bf_expn r - prec)" by (simp add: bf_val_def r'_def scaled_def)
      ultimately show ?thesis using h(2,3) up True sg by (intro exI [of _ "ret OR BF_ST_INEXACT OR BF_ST_UNDERFLOW OR BF_ST_INEXACT"] exI [of _ r'])
        (simp add: bf_canonical_def r'_def or.assoc)
    qed
  qed
qed

end
