(* ===== verification/BigMul.thy ===== *)
theory BigMul
  imports BigRound
begin

text \<open>
  libbf.c: \<open>bf_normalize_and_round\<close>, multiplication and division give the correctly rounded result.
\<close>

unbundle bit_operations_syntax

subsection \<open>Exponents\<close>

definition exponent_of :: "rat \<Rightarrow> int \<Rightarrow> bool" where
  "exponent_of x e \<longleftrightarrow> 2 powi (e - 1) \<le> \<bar>x\<bar> \<and> \<bar>x\<bar> < 2 powi e"

lemma exponent_unique: "exponent_of x e \<Longrightarrow> exponent_of x e' \<Longrightarrow> e = e'"
proof (rule ccontr)
  assume a: "exponent_of x e" "exponent_of x e'" "e \<noteq> e'"
  have *: False if "exponent_of x e" "exponent_of x e'" "e < e'" for e e'
  proof -
    have "(2 :: rat) powi e \<le> 2 powi (e' - 1)" using that(3) by (intro power_int_increasing) simp_all
    then show False using that(1,2) unfolding exponent_of_def by linarith
  qed
  show False using a * [of e e'] * [of e' e] by linarith
qed

lemma abs_scaled: "0 \<le> m \<Longrightarrow> \<bar>scaled sg m e\<bar> = of_int m * 2 powi e"
  by (simp add: scaled_def abs_mult)

lemma exponent_scaled:
  assumes "2 ^ (n - 1) \<le> M" "M < 2 ^ n" "0 < n"
  shows "exponent_of (scaled sg M e) (e + int n)"
proof -
  define P where "P = (2 :: rat) powi e"
  have P: "0 < P" by (simp add: P_def)
  have M0: "0 \<le> M" using assms(1) zero_le_power [of "2 :: int" "n - 1"] by linarith
  have p: "2 powi (e + int n) = P * 2 ^ n" "2 powi (e + int n - 1) = P * 2 ^ (n - 1)"
  proof -
    have "e + int n - 1 = e + int (n - 1)" using assms(3) by simp
    then show "2 powi (e + int n - 1) = P * 2 ^ (n - 1)" by (simp only: powi_add_nat P_def)
  qed (simp add: P_def powi_add_nat)
  have "(of_int (2 ^ (n - 1)) :: rat) \<le> of_int M" "(of_int M :: rat) < of_int (2 ^ n)" using assms(1,2) by (simp_all only: of_int_le_iff of_int_less_iff)
  then have "P * 2 ^ (n - 1) \<le> P * of_int M" "P * of_int M < P * 2 ^ n" using P by simp_all
  then show ?thesis unfolding exponent_of_def abs_scaled [OF M0] p P_def [symmetric] by (simp add: mult.commute)
qed

text \<open>The exponent of the unit of the last digit that is kept.\<close>

definition ulp_at :: "u32 \<Rightarrow> int \<Rightarrow> int \<Rightarrow> int" where
  "ulp_at flags prec1 e = (if flags AND BF_FLAG_RADPNT_PREC \<noteq> 0 \<and> prec1 \<noteq> BF_PREC_INF then - prec1 else e - prec1)"

definition correctly_rounded :: "bf_rnd \<Rightarrow> u32 \<Rightarrow> int \<Rightarrow> rat \<Rightarrow> int \<Rightarrow> u32 \<times> bf \<Rightarrow> bool" where
  "correctly_rounded mode flags prec1 x e res =
     (let u = ulp_at flags prec1 e; ret = fst res; y = bf_val (snd res) in
      bf_canonical (snd res) \<and> y = rounded_to mode u x \<and>
      ret = (if mode = BF_RNDF \<or> y \<noteq> x then BF_ST_INEXACT else 0) OR (if e \<le> u then BF_ST_UNDERFLOW OR BF_ST_INEXACT else 0))"

subsection \<open>Normalisation\<close>

lemma top_limbs_ok:
  "n \<le> length tab \<Longrightarrow> \<exists>l. top_limbs tab n = Some l \<and> l \<le> n \<and> mpv (take n tab) = mpv (take l tab) \<and> (0 < l \<longrightarrow> tab ! (l - 1) \<noteq> 0)"
proof (induction n)
  case (Suc n)
  show ?case
  proof (cases "tab ! n = 0")
    case True
    from Suc obtain l where "top_limbs tab n = Some l" "l \<le> n" "mpv (take n tab) = mpv (take l tab)" "0 < l \<longrightarrow> tab ! (l - 1) \<noteq> 0" by auto
    then show ?thesis using True Suc.prems by (intro exI [of _ l]) (simp add: rd_def mpv_take_Suc)
  qed (use Suc.prems in \<open>auto simp: rd_def\<close>)
qed simp

lemma normalize_ok:
  assumes f: "shrinks f" and sg: "bf_sign r \<le> 1" and mode: "rnd_mode_of flags = Some mode" and nz: "mpv (bf_tab r) \<noteq> 0"
    and range: "\<And>e. exponent_of (bf_val r) e \<Longrightarrow> in_exp_range flags e"
  shows "\<exists>e res. exponent_of (bf_val r) e \<and> bf_normalize_and_round f r prec1 flags = Some res \<and>
    correctly_rounded mode flags prec1 (bf_val r) e res \<and> bf_sign (snd res) = bf_sign r"
proof -
  define tab where "tab = bf_tab r"
  obtain l where l: "top_limbs tab (length tab) = Some l" "l \<le> length tab" "mpv tab = mpv (take l tab)" "0 < l \<longrightarrow> tab ! (l - 1) \<noteq> 0"
    using top_limbs_ok [of "length tab" tab] by auto
  have lp: "0 < l" using nz l(3) unfolding tab_def by (cases l) auto
  define v s where "v = tab ! (l - 1)" and "s = clz v"
  have v: "v \<noteq> 0" using l(4) lp by (simp add: v_def)
  note c = clz_ok [OF v, folded s_def]
  define M where "M = mpv (take l tab)"
  obtain n where n: "l = Suc n" using lp by (cases l) auto
  have M: "M = mpv (take n tab) + B64 ^ n * uint v" unfolding M_def n v_def using l(2) n by (simp add: mpv_take_Suc)
  obtain tab' where t: "if s = 0 then tab' = tab else mp_shl_loop tab l s 0 = Some tab'"
      "length tab' = length tab" "mpv (take l tab') = M * 2 ^ s"
  proof (cases "s = 0")
    case True
    then show ?thesis by (intro that [of tab]) (simp_all add: tab_def M_def)
  next
    case False
    have hi: "uint v div 2 ^ (64 - s) = 0"
    proof -
      have "(2 :: int) ^ (64 - s) * 2 ^ s = B64" using c(1) by (simp flip: power_add)
      then have "uint v * 2 ^ s < 2 ^ (64 - s) * 2 ^ s" using c(3) by simp
      then have "uint v < 2 ^ (64 - s)" by simp
      then show ?thesis by (intro div_pos_pos_trivial) simp_all
    qed
    obtain t where "mp_shl_loop tab l s 0 = Some t" "length t = length tab"
      "mpv (take l t) + B64 ^ l * (uint v div 2 ^ (64 - s)) = M * 2 ^ s + uint (0 :: limb) div 2 ^ (64 - s)"
      using mp_shl_loop_ok [of s l tab 0] False c(1) l(2) lp unfolding M_def v_def by auto
    then show ?thesis using False hi by (intro that [of t]) simp_all
  qed
  define r2 where "r2 = r\<lparr>bf_tab := tab', bf_expn := bf_expn r - int ((length tab - l) * 64) - int s\<rparr>"
  have l2: "l \<le> length (bf_tab r2)" using t(2) l(2) by (simp add: r2_def)
  have Ms: "2 ^ (64 * l - 1) \<le> M * 2 ^ s"
  proof -
    have "B64 ^ n * B64 \<le> B64 ^ n * (2 * (uint v * 2 ^ s))" using c(2) by (intro mult_left_mono) simp_all
    also have "\<dots> = 2 * ((B64 ^ n * uint v) * 2 ^ s)" by (simp add: algebra_simps)
    also have "\<dots> \<le> 2 * (M * 2 ^ s)" unfolding M by simp
    finally have "B64 ^ n * B64 \<le> 2 * (M * 2 ^ s)" .
    moreover have "2 * 2 ^ (64 * l - 1) = B64 ^ n * B64"
    proof -
      have "Suc (64 * l - 1) = 64 * n + 64" using n by simp
      then have "2 * (2 :: int) ^ (64 * l - 1) = 2 ^ (64 * n + 64)" by (simp only: power_Suc [symmetric])
      then show ?thesis by (simp add: power_add power_mult)
    qed
    ultimately show ?thesis by linarith
  qed
  have tl: "take l tab' \<noteq> []" "last (take l tab') = tab' ! (l - 1)" "length (take l tab') = l"
    using lp l2 take_Suc_conv_app_nth [of "l - 1" tab'] by (auto simp: r2_def)
  have top: "bit (bf_tab r2 ! (l - 1)) 63" using top_bit [OF tl(1)] Ms t(3) unfolding tl(2,3) by (simp add: r2_def)
  have val: "bf_val (r2\<lparr>bf_tab := take l (bf_tab r2)\<rparr>) = bf_val r"
  proof -
    have "bf_val (r2\<lparr>bf_tab := take l (bf_tab r2)\<rparr>) = scaled (bf_sign r) (M * 2 ^ s) (bf_expn r - int ((length tab - l) * 64) - int s - 64 * int l)"
      unfolding bf_val_def using tl(3) t(3) by (simp add: r2_def)
    also have "\<dots> = scaled (bf_sign r) M (bf_expn r - 64 * int (length tab))" unfolding scaled_pow using l(2) by (simp add: of_nat_diff algebra_simps)
    finally show ?thesis by (simp add: bf_val_def M_def l(3) tab_def [symmetric])
  qed
  have ex: "exponent_of (bf_val r) (bf_expn r2)"
  proof -
    have "M * 2 ^ s < 2 ^ (64 * l)" using mpv_take_less [OF l2] t(3) by (simp add: r2_def)
    then have "exponent_of (scaled (bf_sign r) (M * 2 ^ s) (bf_expn r2 - 64 * int l)) (bf_expn r2 - 64 * int l + int (64 * l))"
      using Ms lp by (intro exponent_scaled) simp_all
    moreover have "bf_val (r2\<lparr>bf_tab := take l (bf_tab r2)\<rparr>) = scaled (bf_sign r) (M * 2 ^ s) (bf_expn r2 - 64 * int l)"
      unfolding bf_val_def using tl(3) t(3) by (simp add: r2_def)
    ultimately show ?thesis unfolding val by simp
  qed
  have norm: "bf_normalize_and_round f r prec1 flags = bf_round1 f r2 prec1 flags l 0"
  proof -
    have "rd (bf_tab r) (l - 1) = Some v" using lp l(2) by (simp add: rd_def v_def tab_def)
    then show ?thesis using l(1) lp t(1) unfolding bf_normalize_and_round_def
      by (cases "s = 0") (simp_all add: Let_def s_def [symmetric] tab_def r2_def)
  qed
  have sg2: "bf_sign r2 \<le> 1" "bf_sign r2 = bf_sign r" using sg by (simp_all add: r2_def)
  from bf_round1_ok [OF f l2 lp top sg2(1) mode range [OF ex], of prec1 0] obtain ret' r' where
    h: "bf_round1 f r2 prec1 flags l 0 = Some (ret', r')" "bf_canonical r'" "bf_sign r' = bf_sign r2"
      "bf_val r' = rounded_to mode (bf_expn r2 - prec_of r2 prec1 flags) (bf_val r)"
      "ret' = (if mode = BF_RNDF \<or> bf_val r' \<noteq> bf_val r then 0 OR BF_ST_INEXACT else 0) OR (if prec_of r2 prec1 flags \<le> 0 then BF_ST_UNDERFLOW OR BF_ST_INEXACT else 0)"
    unfolding val by blast
  have u: "ulp_at flags prec1 (bf_expn r2) = bf_expn r2 - prec_of r2 prec1 flags" by (simp add: ulp_at_def prec_of_def)
  have "correctly_rounded mode flags prec1 (bf_val r) (bf_expn r2) (ret', r')"
    unfolding correctly_rounded_def Let_def u fst_conv snd_conv using h(2,4,5) by simp
  then show ?thesis using ex norm h(1,3) sg2(2) by (intro exI [of _ "bf_expn r2"] exI [of _ "(ret', r')"]) simp
qed


subsection \<open>Multiplication\<close>

abbreviation (input) FFT_MUL_THRESHOLD :: nat where "FFT_MUL_THRESHOLD \<equiv> 100"

definition bf_init :: bf where
  "bf_init = \<lparr>bf_sign = 0, bf_expn = BF_EXP_ZERO, bf_tab = []\<rparr>"

text \<open>
  The parameter \<open>overlap\<close> says that the result is one of the operands; the multiplication by
  transforms, used from \<open>FFT_MUL_THRESHOLD\<close> limbs on, is the parameter \<open>fft_mul\<close>.
\<close>

definition bf_mul ::
  "bf_realloc_func \<Rightarrow> (limb list \<Rightarrow> limb list \<Rightarrow> limb list option) \<Rightarrow> bf \<Rightarrow> bool \<Rightarrow> bf \<Rightarrow> bf \<Rightarrow> int \<Rightarrow> u32 \<Rightarrow> (u32 \<times> bf) option" where
  "bf_mul f fft_mul r overlap a b prec flags =
     (let (a, b) = (if length (bf_tab a) < length (bf_tab b) then (b, a) else (a, b));
          r_sign = bf_sign a XOR bf_sign b in
      if length (bf_tab b) = 0 then
        (if bf_expn a = BF_EXP_NAN \<or> bf_expn b = BF_EXP_NAN then Some (0, bf_set_nan f r)
         else if bf_expn a = BF_EXP_INF \<or> bf_expn b = BF_EXP_INF then
           (if (bf_expn a = BF_EXP_INF \<and> bf_expn b = BF_EXP_ZERO) \<or> (bf_expn a = BF_EXP_ZERO \<and> bf_expn b = BF_EXP_INF)
            then Some (BF_ST_INVALID_OP, bf_set_nan f r) else Some (0, bf_set_inf f r r_sign))
         else Some (0, bf_set_zero f r r_sign))
      else
        let precl = nat ((prec + 2 + int LIMB_BITS - 1) div int LIMB_BITS);
            a_len = (if flags AND 7 = 6 then min (length (bf_tab a)) precl else length (bf_tab a));
            b_len = (if flags AND 7 = 6 then min (length (bf_tab b)) precl else length (bf_tab b));
            a_tab = drop (length (bf_tab a) - a_len) (bf_tab a);
            b_tab = drop (length (bf_tab b) - b_len) (bf_tab b);
            finish = (\<lambda>r tab. bf_normalize_and_round f
              (r\<lparr>bf_tab := tab, bf_sign := r_sign, bf_expn := bf_expn a + bf_expn b\<rparr>) prec flags) in
        if b_len \<ge> FFT_MUL_THRESHOLD then
          (case fft_mul a_tab b_tab of None \<Rightarrow> Some (BF_ST_MEM_ERROR, bf_set_nan f r) | Some tab \<Rightarrow> finish r tab)
        else
          let r = (if overlap then bf_init else r) in
          (case bf_resize f r (a_len + b_len) of (e, r) \<Rightarrow>
             if e \<noteq> 0 then Some (BF_ST_MEM_ERROR, bf_set_nan f r)
             else do { tab \<leftarrow> mp_mul_basecase (bf_tab r) a_tab a_len b_tab b_len; finish r tab }))"

text \<open>An allocator that does not fail.\<close>

definition reallocates :: "bf_realloc_func \<Rightarrow> bool" where
  "reallocates f \<longleftrightarrow> (\<forall>t n. \<exists>t'. f t n = Some t' \<and> length t' = n \<and> take n t = take (length t) t')"

lemma reallocates_shrinks: "reallocates f \<Longrightarrow> shrinks f"
  unfolding reallocates_def shrinks_def by (metis length_take min_absorb2 take_all_iff)

lemma bf_resize_total:
  assumes "reallocates f"
  obtains t where "bf_resize f r n = (0, r\<lparr>bf_tab := t\<rparr>)" "length t = n"
proof -
  obtain t' where "f (bf_tab r) n = Some t'" "length t' = n" using assms unfolding reallocates_def by blast
  then show thesis
  proof (cases "n = length (bf_tab r)")
    case True
    then show thesis by (intro that [of "bf_tab r"]) (simp_all add: bf_resize_def)
  next
    case False
    with \<open>f (bf_tab r) n = Some t'\<close> \<open>length t' = n\<close> show thesis
      by (intro that [of "if n = 0 then [] else t'"]) (simp_all add: bf_resize_def)
  qed
qed

lemma scaled_mult:
  assumes "sa \<le> 1" "sb \<le> 1"
  shows "scaled sa m e * scaled sb n e' = scaled (sa XOR sb) (m * n) (e + e')"
proof -
  have "sa = 0 \<or> sa = 1" "sb = 0 \<or> sb = 1" using assms by auto
  then show ?thesis by (auto simp: scaled_def power_int_add)
qed

lemma normal_value:
  assumes "bf_normal r"
  shows "exponent_of (bf_val r) (bf_expn r)" "0 < mpv (bf_tab r)" "2 ^ (64 * length (bf_tab r) - 1) \<le> mpv (bf_tab r)"
proof -
  have t: "bf_tab r \<noteq> []" "bit (last (bf_tab r)) 63" using assms by (simp_all add: bf_normal_def)
  show m: "2 ^ (64 * length (bf_tab r) - 1) \<le> mpv (bf_tab r)" using top_bit [OF t(1)] t(2) by simp
  then show "0 < mpv (bf_tab r)" using zero_less_power [of "2 :: int" "64 * length (bf_tab r) - 1"] by linarith
  have "mpv (bf_tab r) < 2 ^ (64 * length (bf_tab r))" using mpv_less [of "bf_tab r"] by (simp add: power_mult)
  then show "exponent_of (bf_val r) (bf_expn r)"
    using exponent_scaled [OF m, of "bf_sign r" "bf_expn r - 64 * int (length (bf_tab r))"] t(1) by (simp add: bf_val_def)
qed

lemma exponent_mult:
  assumes "exponent_of x e" "exponent_of y e'" "exponent_of (x * y) e''"
  shows "e'' = e + e' \<or> e'' = e + e' - 1"
proof -
  have lo: "2 powi (e - 1) * 2 powi (e' - 1) \<le> \<bar>x\<bar> * \<bar>y\<bar>" and hi: "\<bar>x\<bar> * \<bar>y\<bar> < 2 powi e * 2 powi e'"
    using assms(1,2) unfolding exponent_of_def by (auto intro!: mult_mono mult_strict_mono intro: le_less_trans)
  have z: "\<not> (2 :: rat) powi i < 2 powi j" if "j \<le> i" for i j
    using power_int_increasing [OF that, of "2 :: rat"] by simp
  have p: "(2 :: rat) powi (e - 1 + (e' - 1)) = 2 powi (e - 1) * 2 powi (e' - 1)" "(2 :: rat) powi (e + e') = 2 powi e * 2 powi e'"
    by (rule power_int_add; simp)+
  have "(2 :: rat) powi (e - 1 + (e' - 1)) < 2 powi e''" using lo assms(3) unfolding exponent_of_def p abs_mult by linarith
  then have "e - 1 + (e' - 1) < e''" using z by (meson not_le)
  moreover have "(2 :: rat) powi (e'' - 1) < 2 powi (e + e')" using hi assms(3) unfolding exponent_of_def p abs_mult by linarith
  then have "e'' - 1 < e + e'" using z by (meson not_le)
  ultimately show ?thesis by linarith
qed

theorem bf_mul_ok:
  assumes f: "reallocates f" and a: "bf_normal a" and b: "bf_normal b"
    and mode: "rnd_mode_of flags = Some mode" "mode \<noteq> BF_RNDF"
    and small: "min (length (bf_tab a)) (length (bf_tab b)) < FFT_MUL_THRESHOLD"
    and range: "in_exp_range flags (bf_expn a + bf_expn b - 1)" "in_exp_range flags (bf_expn a + bf_expn b)"
  shows "\<exists>e res. exponent_of (bf_val a * bf_val b) e \<and> bf_mul f fft_mul r overlap a b prec flags = Some res \<and>
    correctly_rounded mode flags prec (bf_val a * bf_val b) e res \<and> bf_sign (snd res) = bf_sign a XOR bf_sign b"
proof -
  have m6: "flags AND 7 \<noteq> 6" using mode by (auto simp: rnd_mode_of_def Let_def split: if_splits)
  define x y where "x = (if length (bf_tab a) < length (bf_tab b) then b else a)"
    and "y = (if length (bf_tab a) < length (bf_tab b) then a else b)"
  have xy: "(if length (bf_tab a) < length (bf_tab b) then (b, a) else (a, b)) = (x, y)" by (simp add: x_def y_def)
  have n: "bf_normal x" "bf_normal y" using a b by (simp_all add: x_def y_def)
  have sy: "length (bf_tab y) < FFT_MUL_THRESHOLD" "0 < length (bf_tab y)" using small n(2) by (auto simp: y_def bf_normal_def)
  have s: "bf_sign x XOR bf_sign y = bf_sign a XOR bf_sign b" "bf_expn x + bf_expn y = bf_expn a + bf_expn b"
    "bf_val x * bf_val y = bf_val a * bf_val b" by (simp_all add: x_def y_def xor.commute mult.commute add.commute)
  define r0 where "r0 = (if overlap then bf_init else r)"
  define la lb where "la = length (bf_tab x)" and "lb = length (bf_tab y)"
  obtain t where t: "bf_resize f r0 (la + lb) = (0, r0\<lparr>bf_tab := t\<rparr>)" "length t = la + lb" by (rule bf_resize_total [OF f])
  obtain tab where tab: "mp_mul_basecase t (bf_tab x) la (bf_tab y) lb = Some tab" "length tab = la + lb"
      "mpv (take (la + lb) tab) = mpv (take la (bf_tab x)) * mpv (take lb (bf_tab y))"
    using mp_mul_basecase_ok [of la "bf_tab x" lb "bf_tab y" t] sy(2) t(2) by (auto simp: la_def lb_def)
  define r1 where "r1 = r0\<lparr>bf_tab := tab, bf_sign := bf_sign a XOR bf_sign b, bf_expn := bf_expn a + bf_expn b\<rparr>"
  have mul: "bf_mul f fft_mul r overlap a b prec flags = bf_normalize_and_round f r1 prec flags"
    using m6 sy t tab(1) unfolding bf_mul_def Let_def xy prod.case
    by (simp add: r0_def [symmetric] la_def [symmetric] lb_def [symmetric] s r1_def)
  have sg: "bf_sign a XOR bf_sign b \<le> 1"
  proof -
    have "bf_sign a = 0 \<or> bf_sign a = 1" "bf_sign b = 0 \<or> bf_sign b = 1" using a b by (auto simp: bf_normal_def)
    then show ?thesis by auto
  qed
  have val: "bf_val r1 = bf_val a * bf_val b"
  proof -
    have "bf_val x * bf_val y = scaled (bf_sign x XOR bf_sign y) (mpv (bf_tab x) * mpv (bf_tab y)) (bf_expn x - 64 * int la + (bf_expn y - 64 * int lb))"
      unfolding bf_val_def la_def lb_def using n by (intro scaled_mult) (simp_all add: bf_normal_def)
    also have "bf_expn x - 64 * int la + (bf_expn y - 64 * int lb) = bf_expn a + bf_expn b - 64 * int (la + lb)" using s(2) by simp
    also have "mpv (bf_tab x) * mpv (bf_tab y) = mpv tab" using tab(2,3) by (simp add: la_def lb_def)
    finally show ?thesis unfolding s using tab(2) by (simp add: bf_val_def r1_def)
  qed
  have nz: "mpv (bf_tab r1) \<noteq> 0" using tab(2,3) normal_value(2) [OF n(1)] normal_value(2) [OF n(2)] by (simp add: r1_def la_def lb_def)
  have "in_exp_range flags e" if "exponent_of (bf_val r1) e" for e
    using exponent_mult [OF normal_value(1) [OF a] normal_value(1) [OF b], of e] that range unfolding val by auto
  from normalize_ok [OF reallocates_shrinks [OF f] _ mode(1) nz this, of prec] sg show ?thesis
    unfolding mul val by (simp add: r1_def)
qed


text \<open>\<open>bf_round\<close> on a normalized number.\<close>

lemma bf_round_ok:
  assumes f: "shrinks f" and r: "bf_normal r" and mode: "rnd_mode_of flags = Some mode" and e: "in_exp_range flags (bf_expn r)"
  shows "\<exists>res. bf_round f r prec flags = Some res \<and>
    correctly_rounded mode flags prec (bf_val r) (bf_expn r) res \<and> bf_sign (snd res) = bf_sign r"
proof -
  have ne: "bf_tab r \<noteq> []" "0 < length (bf_tab r)" and sg: "bf_sign r \<le> 1" and top: "bit (bf_tab r ! (length (bf_tab r) - 1)) 63"
    using r by (auto simp: bf_normal_def last_conv_nth)
  have rr: "r\<lparr>bf_tab := take (length (bf_tab r)) (bf_tab r)\<rparr> = r" by simp
  from bf_round1_ok [OF f order_refl ne(2) top sg mode e, of prec 0] obtain ret' r' where
    h: "bf_round1 f r prec flags (length (bf_tab r)) 0 = Some (ret', r')" "bf_canonical r'" "bf_sign r' = bf_sign r"
      "bf_val r' = rounded_to mode (bf_expn r - prec_of r prec flags) (bf_val r)"
      "ret' = (if mode = BF_RNDF \<or> bf_val r' \<noteq> bf_val r then 0 OR BF_ST_INEXACT else 0) OR (if prec_of r prec flags \<le> 0 then BF_ST_UNDERFLOW OR BF_ST_INEXACT else 0)"
    unfolding rr by blast
  have u: "ulp_at flags prec (bf_expn r) = bf_expn r - prec_of r prec flags" by (simp add: ulp_at_def prec_of_def)
  have "correctly_rounded mode flags prec (bf_val r) (bf_expn r) (ret', r')"
    unfolding correctly_rounded_def Let_def u fst_conv snd_conv using h(2,4,5) by simp
  moreover have "bf_round f r prec flags = Some (ret', r')" unfolding bf_round_def if_not_P [OF ne(1)] by (rule h(1))
  ultimately show ?thesis using h(3) by (intro exI [of _ "(ret', r')"]) simp
qed

subsection \<open>A concrete allocator and concrete numbers\<close>

definition limb_realloc :: bf_realloc_func where
  "limb_realloc t n = Some (take n t @ replicate (n - length t) 0)"

lemma reallocates_limb_realloc: "reallocates limb_realloc"
  by (simp add: reallocates_def limb_realloc_def min_def)

definition bf_three :: bf where
  "bf_three = \<lparr>bf_sign = 0, bf_expn = 2, bf_tab = [0xC000000000000000]\<rparr>"

definition bf_ten :: bf where
  "bf_ten = \<lparr>bf_sign = 0, bf_expn = 4, bf_tab = [0xA000000000000000]\<rparr>"

lemma bf_examples_normal: "bf_normal bf_three" "bf_normal bf_ten"
  by code_simp+

end
