(* ===== verification/BigDiv.thy ===== *)
theory BigDiv
  imports BigMul
begin

text \<open>libbf.c: division of two numbers, rounded correctly from a quotient with a sticky bit.\<close>

unbundle bit_operations_syntax

subsection \<open>The code\<close>

text \<open>
  \<open>mp_divnorm\<close>; the division by the inverse of the divisor, for large operands, is the parameter
  \<open>large\<close>.  The outer option is an access out of range, the inner one the failure of an allocation.
\<close>

definition mp_divnorm ::
  "(limb list \<Rightarrow> nat \<Rightarrow> limb list \<Rightarrow> nat \<Rightarrow> (limb list \<times> limb list) option) \<Rightarrow>
   limb list \<Rightarrow> nat \<Rightarrow> limb list \<Rightarrow> nat \<Rightarrow> (limb list \<times> limb list) option option" where
  "mp_divnorm large taba na tabb nb =
     (if nb \<noteq> 1 \<and> min (na - nb) nb \<ge> DIVNORM_LARGE_THRESHOLD then Some (large taba na tabb nb)
      else do { res \<leftarrow> mp_divnorm_base taba na tabb nb; Some (Some res) })"

definition bf_div1 ::
  "bf_realloc_func \<Rightarrow> (limb list \<Rightarrow> nat \<Rightarrow> limb list \<Rightarrow> nat \<Rightarrow> (limb list \<times> limb list) option) \<Rightarrow>
   bf \<Rightarrow> bf \<Rightarrow> bf \<Rightarrow> int \<Rightarrow> u32 \<Rightarrow> (u32 \<times> bf) option" where
  "bf_div1 f large r a b prec flags =
     (let r_sign = bf_sign a XOR bf_sign b in
      if bf_expn a \<ge> BF_EXP_INF \<or> bf_expn b \<ge> BF_EXP_INF then
        (if bf_expn a = BF_EXP_NAN \<or> bf_expn b = BF_EXP_NAN then Some (0, bf_set_nan f r)
         else if bf_expn a = BF_EXP_INF \<and> bf_expn b = BF_EXP_INF then Some (BF_ST_INVALID_OP, bf_set_nan f r)
         else if bf_expn a = BF_EXP_INF then Some (0, bf_set_inf f r r_sign)
         else Some (0, bf_set_zero f r r_sign))
      else if bf_expn a = BF_EXP_ZERO then
        (if bf_expn b = BF_EXP_ZERO then Some (BF_ST_INVALID_OP, bf_set_nan f r) else Some (0, bf_set_zero f r r_sign))
      else if bf_expn b = BF_EXP_ZERO then Some (BF_ST_DIVIDE_ZERO, bf_set_inf f r r_sign)
      else
        let precl = nat ((prec + 2 + int LIMB_BITS - 1) div int LIMB_BITS);
            nb = length (bf_tab b);
            n = max (length (bf_tab a)) precl;
            na = n + nb;
            fail = (\<lambda>r. Some (BF_ST_MEM_ERROR, bf_set_nan f r)) in
        (case f [] (na + 1) of
           None \<Rightarrow> fail r
         | Some taba \<Rightarrow>
             let d = na - length (bf_tab a);
                 taba = splice_at taba 0 (replicate d 0 @ bf_tab a) in
             (case bf_resize f r (n + 1) of (e, r) \<Rightarrow>
                if e \<noteq> 0 then fail r
                else do {
                  res \<leftarrow> mp_divnorm large taba na (bf_tab b) nb;
                  case res of
                    None \<Rightarrow> fail r
                  | Some (tabq, taba) \<Rightarrow>
                      do {
                        let r = r\<lparr>bf_tab := splice_at (bf_tab r) 0 tabq\<rparr>;
                        nz \<leftarrow> mp_scan_nz taba nb;
                        x \<leftarrow> rd (bf_tab r) 0;
                        let r = (if nz then r\<lparr>bf_tab := (bf_tab r)[0 := x OR 1]\<rparr> else r);
                        let r = r\<lparr>bf_expn := bf_expn a - bf_expn b + int LIMB_BITS, bf_sign := r_sign\<rparr>;
                        bf_normalize_and_round f r prec flags
                      }
                })))"

definition bf_op2 :: "bool \<Rightarrow> (bf \<Rightarrow> (u32 \<times> bf) option) \<Rightarrow> bf \<Rightarrow> (u32 \<times> bf) option" where
  "bf_op2 overlap func r = (if overlap then func bf_init else func r)"

definition bf_div ::
  "bf_realloc_func \<Rightarrow> (limb list \<Rightarrow> nat \<Rightarrow> limb list \<Rightarrow> nat \<Rightarrow> (limb list \<times> limb list) option) \<Rightarrow>
   bf \<Rightarrow> bool \<Rightarrow> bf \<Rightarrow> bf \<Rightarrow> int \<Rightarrow> u32 \<Rightarrow> (u32 \<times> bf) option" where
  "bf_div f large r overlap a b prec flags = bf_op2 overlap (\<lambda>r. bf_div1 f large r a b prec flags) r"

subsection \<open>The sticky bit\<close>

lemma mp_scan_nz_ok: "n \<le> length tab \<Longrightarrow> mp_scan_nz tab n = Some (mpv (take n tab) \<noteq> 0)"
proof (induction tab n rule: mp_scan_nz.induct)
  case (2 x tab n)
  show ?case
  proof (cases "x = 0")
    case False
    then have "0 < uint x" by (simp add: less_le unsigned_eq_0_iff)
    moreover have "0 \<le> B64 * mpv (take n tab)" by simp
    ultimately have "uint x + B64 * mpv (take n tab) \<noteq> 0" by linarith
    then show ?thesis using False by simp
  qed (use 2 in simp)
qed simp_all

lemma sticky_value: "tab \<noteq> [] \<Longrightarrow> mpv (tab[0 := tab ! 0 OR 1]) = mpv tab + of_bool (even (mpv tab))"
proof -
  assume "tab \<noteq> []"
  then obtain x t where t: "tab = x # t" by (cases tab) auto
  have "uint (x OR 1) = uint x OR 1" by (simp only: unsigned_or_eq unsigned_1)
  then have "uint (x OR 1) = uint x + of_bool (even (uint x))" by (simp only: or_one_eq)
  then show ?thesis by (simp add: t)
qed

lemma sticky_rnd:
  fixes q R b :: int
  assumes k: "2 \<le> k" and R: "0 \<le> R" "R < b" and q: "0 \<le> q"
  defines "g \<equiv> q mod 2 ^ k" and "q' \<equiv> (if R \<noteq> 0 then q + of_bool (even q) else q)"
  shows "q' div 2 ^ k = q div 2 ^ k" and "rnd_up mode neg Q (b * g + R) (b * 2 ^ k) = rnd_up mode neg Q (q' mod 2 ^ k) (2 ^ k)"
    and "b * g + R = 0 \<longleftrightarrow> q' mod 2 ^ k = 0"
proof -
  define H where "H = (2 :: int) ^ (k - 1)"
  have D: "(2 :: int) ^ k = 2 * H" unfolding H_def using k by (simp flip: power_Suc)
  have H: "even H" "0 < H" using k by (simp_all add: H_def)
  have eg: "even g \<longleftrightarrow> even q" unfolding g_def D by (simp add: dvd_mod_iff)
  have g: "0 \<le> g" "g < 2 * H" using H(2) by (simp_all add: g_def D)
  define g' where "g' = (if R \<noteq> 0 then g + of_bool (even g) else g)"
  have g': "0 \<le> g'" "g' < 2 * H" using g by (auto simp: g'_def elim!: evenE)
  have "q = 2 ^ k * (q div 2 ^ k) + g" by (simp add: g_def)
  then have q': "q' = 2 ^ k * (q div 2 ^ k) + g'" by (auto simp: q'_def g'_def eg)
  have m: "q' mod 2 ^ k = g'" unfolding q' using g' by (simp add: D mod_pos_pos_trivial)
  show "q' div 2 ^ k = q div 2 ^ k" unfolding q' using g' by (simp add: D div_pos_pos_trivial)
  have b: "0 < b" using R by simp
  have bg: "0 \<le> b * g" using b g(1) by simp
  show z: "b * g + R = 0 \<longleftrightarrow> q' mod 2 ^ k = 0" unfolding m g'_def using b g(1) R(1) bg
    by (auto simp: add_nonneg_eq_0_iff)
  have "(b * (2 * H) < 2 * (b * g + R) \<longleftrightarrow> 2 * H < 2 * g') \<and> (2 * (b * g + R) = b * (2 * H) \<longleftrightarrow> 2 * g' = 2 * H)"
  proof (cases "R = 0")
    case True
    then show ?thesis using b by (simp add: g'_def)
  next
    case False
    have par: "H < g' \<longleftrightarrow> H \<le> g" "g' \<noteq> H" using False H(1) by (cases "even g"; simp add: g'_def; presburger)+
    have "H \<le> g \<Longrightarrow> b * H \<le> b * g" "\<not> H \<le> g \<Longrightarrow> b * (g + 1) \<le> b * H" using b by simp_all
    then have "b * H < b * g + R \<longleftrightarrow> H \<le> g" "b * g + R \<noteq> b * H"
      using False R by (cases "H \<le> g"; simp add: distrib_left; linarith)+
    then show ?thesis using par by auto
  qed
  then have up: "b * (2 * H) < 2 * (b * g + R) \<longleftrightarrow> 2 * H < 2 * g'" and eq: "2 * (b * g + R) = b * (2 * H) \<longleftrightarrow> 2 * g' = 2 * H"
    by blast+
  have le: "b * (2 * H) \<le> 2 * (b * g + R) \<longleftrightarrow> 2 * H \<le> 2 * g'" using up eq by linarith
  show "rnd_up mode neg Q (b * g + R) (b * 2 ^ k) = rnd_up mode neg Q (q' mod 2 ^ k) (2 ^ k)"
    unfolding rnd_up_def D using z m up eq le by (cases mode) (simp_all add: D)
qed


subsection \<open>The quotient is rounded correctly\<close>

lemma exponent_quotient:
  assumes "exponent_of x e" "exponent_of y e'" "exponent_of (x / y) e''"
  shows "e'' = e - e' \<or> e'' = e - e' + 1"
proof -
  have "0 < \<bar>y\<bar>" using assms(2) unfolding exponent_of_def by (meson less_le_trans zero_less_power_int zero_less_numeral)
  then have "x / y * y = x" by simp
  then have "e = e'' + e' \<or> e = e'' + e' - 1" using exponent_mult [OF assms(3,2)] assms(1) by metis
  then show ?thesis by auto
qed

lemma bit_length_exists: "0 < (q :: int) \<Longrightarrow> \<exists>m. 0 < m \<and> 2 ^ (m - 1) \<le> q \<and> q < 2 ^ m"
proof -
  assume q: "0 < q"
  have "int (nat q) < int (2 ^ nat q)" by (simp only: of_nat_less_iff less_exp)
  then have "\<exists>m. q < 2 ^ m" using q by (intro exI [of _ "nat q"]) simp
  then have m: "q < 2 ^ (LEAST m. q < 2 ^ m)" by (rule LeastI_ex)
  define m where "m = (LEAST m. q < 2 ^ m)"
  have "0 < m" using m q unfolding m_def [symmetric] by (cases m) simp_all
  then have "\<not> q < 2 ^ (m - 1)" unfolding m_def by (intro not_less_Least) simp
  then show ?thesis using \<open>0 < m\<close> m unfolding m_def [symmetric] by auto
qed

text \<open>
  \<open>N\<close> is the dividend, \<open>b\<close> the divisor, \<open>q\<close> and \<open>R\<close> quotient and remainder: when at least two
  digits of the quotient are dropped, the quotient with the sticky bit is rounded to the same number
  as the exact one.
\<close>

lemma sticky_rounding:
  fixes q R b N :: int
  assumes N: "q * b + R = N" "0 \<le> R" "R < b" "0 < q" and m: "2 ^ (m - 1) \<le> q" "q < 2 ^ m" "k + p = m" "2 \<le> k" "0 < p"
    and x: "x = (if sg = 1 then -1 else 1) * (of_int N / of_int b * 2 powi e)"
  defines "q' \<equiv> (if R \<noteq> 0 then q + of_bool (even q) else q)"
  shows "exponent_of x (e + int m)" "exponent_of (scaled sg q' e) (e + int m)"
    "rounded_to mode (e + int k) x = rounded_to mode (e + int k) (scaled sg q' e)"
    "rounded_to mode (e + int k) x = x \<longleftrightarrow> rounded_to mode (e + int k) (scaled sg q' e) = scaled sg q' e"
proof -
  define g g' Q where "g = q mod 2 ^ k" and "g' = q' mod 2 ^ k" and "Q = q div 2 ^ k"
  note st = sticky_rnd [OF m(4) N(2,3) less_imp_le [OF N(4)], folded q'_def g_def g'_def Q_def]
  have b: "0 < b" using N(2,3) by simp
  have m2: "2 \<le> m - 1" using m by linarith
  have pe: "even ((2 :: int) ^ m)" "even ((2 :: int) ^ (m - 1))" using m2 m by simp_all
  have q'lt: "q' < 2 ^ m"
  proof (cases "R \<noteq> 0 \<and> even q")
    case True
    then have "q + 1 \<noteq> 2 ^ m" using pe(1) by (metis even_plus_one_iff)
    then show ?thesis using True m(2) by (simp add: q'_def)
  qed (use m(2) in \<open>auto simp: q'_def\<close>)
  have q'ge: "q \<le> q'" by (simp add: q'_def)
  have q'0: "0 < q'" using q'ge N(4) by linarith
  show "exponent_of (scaled sg q' e) (e + int m)" using m(1) q'ge q'lt m2 by (intro exponent_scaled) simp_all
  have Np: "0 < N" using N b by (metis add_pos_nonneg mult_pos_pos)
  show "exponent_of x (e + int m)"
  proof -
    have lo: "2 ^ (m - 1) * b \<le> N" using m(1) b N(1,2) mult_right_mono [of "2 ^ (m - 1)" q b] by linarith
    have "(q + 1) * b \<le> 2 ^ m * b" using m(2) b by (intro mult_right_mono) simp_all
    then have hi: "N < 2 ^ m * b" using N(1,3) by (simp add: distrib_right)
    have "(of_int (2 ^ (m - 1) * b) :: rat) \<le> of_int N" "(of_int N :: rat) < of_int (2 ^ m * b)"
      using lo hi by (simp_all only: of_int_le_iff of_int_less_iff)
    then have h: "2 ^ (m - 1) \<le> (of_int N / of_int b :: rat)" "(of_int N / of_int b :: rat) < 2 ^ m"
      using b by (simp_all add: field_simps)
    define P where "P = (2 :: rat) powi e"
    have P: "0 < P" by (simp add: P_def)
    have p: "2 powi (e + int m) = P * (2 :: rat) ^ m" unfolding P_def by (rule powi_add_nat)
    have "e + int m - 1 = e + int (m - 1)" using m2 by simp
    then have p1: "2 powi (e + int m - 1) = P * (2 :: rat) ^ (m - 1)" by (simp only: powi_add_nat P_def)
    have ax: "\<bar>x\<bar> = P * (of_int N / of_int b)" unfolding x using Np b by (simp add: abs_mult P_def)
    show ?thesis unfolding exponent_of_def p p1 ax
      using mult_left_mono [OF h(1), of P] mult_strict_left_mono [OF h(2) P] P by simp
  qed
  have Q0: "0 \<le> Q" using N(4) by (simp add: Q_def pos_imp_zdiv_nonneg_iff)
  have g: "0 \<le> g" "g < 2 ^ k" "0 \<le> g'" "g' < 2 ^ k" by (simp_all add: g_def g'_def)
  have F: "0 \<le> b * g + R" "b * g + R < b * 2 ^ k"
  proof -
    show "0 \<le> b * g + R" using b g N(2) by simp
    have "b * (g + 1) \<le> b * 2 ^ k" using b g(2) by (intro mult_left_mono) simp_all
    then show "b * g + R < b * 2 ^ k" using N(3) by (simp add: distrib_left)
  qed
  have NQ: "N = Q * (b * 2 ^ k) + (b * g + R)"
  proof -
    have "q = Q * 2 ^ k + g" by (simp only: Q_def g_def div_mult_mod_eq)
    then have "q * b = (Q * 2 ^ k + g) * b" by (simp only:)
    then show ?thesis using N(1) by (simp add: algebra_simps)
  qed
  have q'Q: "q' = Q * 2 ^ k + g'" unfolding st(1) [symmetric] g'_def by (simp only: div_mult_mod_eq)
  note rx = rounded_to_quotient [OF Q0 F NQ Np b x]
  note rq = rounded_to_scaled [OF Q0 g(3,4) q'Q q'0]
  define up where "up = rnd_up mode (sg = 1) Q g' (2 ^ k)"
  have u: "rnd_up mode (sg = 1) Q (b * g + R) (b * 2 ^ k) = up" unfolding up_def by (rule st(2))
  show "rounded_to mode (e + int k) x = rounded_to mode (e + int k) (scaled sg q' e)"
    unfolding rx(1) rq(1) u up_def ..
  show "rounded_to mode (e + int k) x = x \<longleftrightarrow> rounded_to mode (e + int k) (scaled sg q' e) = scaled sg q' e"
    unfolding rx(1) rq(1) u up_def [symmetric] rx(2) rq(2) using st(3) F(2) g(4) by (cases up) auto
qed


lemma mpv_replicate_0 [simp]: "mpv (replicate d 0 @ xs) = B64 ^ d * mpv xs"
  by (induction d) simp_all

lemma scaled_quotient:
  assumes "sa \<le> 1" "sb \<le> 1" "0 < n"
  shows "scaled sa m e / scaled sb n e' = (if sa XOR sb = 1 then -1 else 1) * (of_int m / of_int n * 2 powi (e - e'))"
proof -
  have "sa = 0 \<or> sa = 1" "sb = 0 \<or> sb = 1" using assms by auto
  then show ?thesis by (auto simp: scaled_def power_int_diff)
qed

text \<open>The number of limbs of the quotient is enough for the precision and two more digits.\<close>

definition quotient_limbs :: "bf \<Rightarrow> int \<Rightarrow> nat" where
  "quotient_limbs a prec = max (length (bf_tab a)) (nat ((prec + 2 + int LIMB_BITS - 1) div int LIMB_BITS))"

lemma quotient_limbs_enough: "prec + 2 \<le> 64 * int (quotient_limbs a prec)"
proof -
  have "prec + 2 \<le> 64 * ((prec + 2 + 63) div 64)" by presburger
  then show ?thesis by (simp add: quotient_limbs_def)
qed

definition divides_small :: "bf \<Rightarrow> bf \<Rightarrow> int \<Rightarrow> bool" where
  "divides_small a b prec \<longleftrightarrow>
     length (bf_tab b) = 1 \<or> min (quotient_limbs a prec) (length (bf_tab b)) < DIVNORM_LARGE_THRESHOLD"

theorem bf_div_ok:
  assumes f: "reallocates f" and a: "bf_normal a" and b: "bf_normal b"
    and exps: "bf_expn a < BF_EXP_INF" "bf_expn b < BF_EXP_INF" "BF_EXP_ZERO < bf_expn a" "BF_EXP_ZERO < bf_expn b"
    and mode: "rnd_mode_of flags = Some mode" and flags: "flags AND BF_FLAG_RADPNT_PREC = 0" and prec: "1 \<le> prec"
    and small: "divides_small a b prec"
    and range: "in_exp_range flags (bf_expn a - bf_expn b)" "in_exp_range flags (bf_expn a - bf_expn b + 1)"
  shows "\<exists>e res. exponent_of (bf_val a / bf_val b) e \<and> bf_div f large r overlap a b prec flags = Some res \<and>
    correctly_rounded mode flags prec (bf_val a / bf_val b) e res \<and> bf_sign (snd res) = bf_sign a XOR bf_sign b"
proof -
  define n nb la A B where "n = quotient_limbs a prec" and "nb = length (bf_tab b)" and "la = length (bf_tab a)"
    and "A = mpv (bf_tab a)" and "B = mpv (bf_tab b)"
  have la: "0 < la" "la \<le> n" and nb: "0 < nb" using a b by (auto simp: n_def la_def nb_def quotient_limbs_def bf_normal_def)
  define na d where "na = n + nb" and "d = na - la"
  have d: "la + d = na" using la nb by (simp add: d_def na_def)
  have A: "0 < A" "2 ^ (64 * la - 1) \<le> A" and B: "0 < B" "B < 2 ^ (64 * nb)"
    using normal_value [OF a] normal_value [OF b] mpv_less [of "bf_tab b"] by (simp_all add: A_def la_def B_def nb_def power_mult)
  define r0 where "r0 = (if overlap then bf_init else r)"
  define sg where "sg = bf_sign a XOR bf_sign b"
  obtain t0 where t0: "f [] (na + 1) = Some t0" "length t0 = na + 1" using f unfolding reallocates_def by blast
  define taba where "taba = splice_at t0 0 (replicate d 0 @ bf_tab a)"
  have taba: "length taba = na + 1" "take na taba = replicate d 0 @ bf_tab a"
    using t0(2) d by (simp_all add: taba_def splice_at_def la_def)
  define N where "N = B64 ^ d * A"
  have "bit (last (bf_tab b)) 63" "bf_tab b \<noteq> []" using b by (simp_all add: bf_normal_def)
  then have b1: "B64 \<le> 2 * uint (bf_tab b ! (nb - 1))" using msb_limb [of "last (bf_tab b)"] by (simp add: nb_def last_conv_nth)
  have "nb \<le> na" "na \<le> length taba" using taba(1) by (simp_all add: na_def)
  from mp_divnorm_base_ok [OF nb _ b1 this] obtain tabq tabr where
    dv: "mp_divnorm_base taba na (bf_tab b) nb = Some (tabq, tabr)" "length tabq = Suc n" "length tabr = na + 1"
    "mpv tabq * B + mpv (take nb tabr) = N" "mpv (take nb tabr) < B"
    using taba by (auto simp: na_def nb_def B_def N_def A_def)
  have dv': "mp_divnorm large taba na (bf_tab b) nb = Some (Some (tabq, tabr))"
    using small dv(1) unfolding mp_divnorm_def by (auto simp: divides_small_def na_def n_def [symmetric] nb_def [symmetric])
  define q R where "q = mpv tabq" and "R = mpv (take nb tabr)"
  have scan: "mp_scan_nz tabr nb = Some (R \<noteq> 0)" using mp_scan_nz_ok [of nb tabr] dv(3) by (simp add: R_def na_def)
  have qne: "tabq \<noteq> []" using dv(2) by auto
  define tab where "tab = (if R \<noteq> 0 then tabq[0 := tabq ! 0 OR 1] else tabq)"
  define q' where "q' = (if R \<noteq> 0 then q + of_bool (even q) else q)"
  have tab: "mpv tab = q'" "length tab = Suc n" using sticky_value [OF qne] dv(2) by (auto simp: tab_def q'_def q_def)
  define r1 where "r1 = r0\<lparr>bf_tab := tab, bf_expn := bf_expn a - bf_expn b + 64, bf_sign := sg\<rparr>"
  obtain t1 where t1: "bf_resize f r0 (n + 1) = (0, r0\<lparr>bf_tab := t1\<rparr>)" "length t1 = n + 1" by (rule bf_resize_total [OF f])
  have sp: "splice_at t1 0 tabq = tabq" using t1(2) dv(2) by (simp add: splice_at_def)
  have nn: "max (length (bf_tab a)) (nat ((prec + 2 + int LIMB_BITS - 1) div int LIMB_BITS)) = n" by (simp add: n_def quotient_limbs_def)
  have zero: "bf_expn a \<noteq> BF_EXP_ZERO" "bf_expn b \<noteq> BF_EXP_ZERO" "\<not> (bf_expn a \<ge> BF_EXP_INF \<or> bf_expn b \<ge> BF_EXP_INF)"
    using exps by auto
  have "bf_div1 f large r0 a b prec flags = bf_normalize_and_round f r1 prec flags"
    unfolding bf_div1_def Let_def if_not_P [OF zero(1)] if_not_P [OF zero(2)] if_not_P [OF zero(3)]
    unfolding nn nb_def [symmetric] unfolding la_def [symmetric] na_def [symmetric] unfolding t0(1) option.case d_def [symmetric]
    unfolding taba_def [symmetric] t1(1) prod.case dv'
    using qne by (simp add: scan sp rd_def r1_def tab_def sg_def)
  then have div: "bf_div f large r overlap a b prec flags = bf_normalize_and_round f r1 prec flags"
    by (auto simp: bf_div_def bf_op2_def r0_def)
  define e0 where "e0 = bf_expn a - bf_expn b - 64 * int n"
  have val1: "bf_val r1 = scaled sg q' e0" by (simp add: bf_val_def r1_def tab e0_def algebra_simps)
  define x where "x = bf_val a / bf_val b"
  have x: "x = (if sg = 1 then -1 else 1) * (of_int N / of_int B * 2 powi e0)"
  proof -
    have s: "bf_sign a \<le> 1" "bf_sign b \<le> 1" using a b by (simp_all add: bf_normal_def)
    have "bf_expn a - 64 * int la - (bf_expn b - 64 * int nb) = e0 + int (64 * d)" using d by (simp add: e0_def na_def algebra_simps flip: d)
    then have "x = (if sg = 1 then -1 else 1) * (of_int A / of_int B * (2 powi e0 * 2 ^ (64 * d)))"
      unfolding x_def bf_val_def A_def [symmetric] B_def [symmetric] la_def [symmetric] nb_def [symmetric] scaled_quotient [OF s B(1)] sg_def
      by (simp only: powi_add_nat)
    moreover have "(2 :: rat) ^ (64 * d) = of_int (B64 ^ d)" unfolding power_mult by simp
    ultimately show ?thesis unfolding N_def of_int_mult by (simp only: times_divide_eq_left times_divide_eq_right ac_simps)
  qed
  have qlo: "2 ^ (64 * n - 1) \<le> q"
  proof -
    have "64 * d + (64 * la - 1) = (64 * n - 1) + 64 * nb" using la nb d by (simp add: na_def)
    then have "(2 :: int) ^ (64 * n - 1) * 2 ^ (64 * nb) = 2 ^ (64 * d) * 2 ^ (64 * la - 1)" by (simp only: power_add [symmetric])
    also have "(2 :: int) ^ (64 * d) = B64 ^ d" unfolding power_mult by simp
    also have "B64 ^ d * 2 ^ (64 * la - 1) \<le> N" unfolding N_def using A(2) by simp
    also have "N < (q + 1) * B" using dv(4,5) by (simp add: q_def R_def distrib_right)
    also have "\<dots> \<le> (q + 1) * 2 ^ (64 * nb)" using B(2) by (intro mult_left_mono) (simp_all add: q_def add_nonneg_nonneg)
    finally show ?thesis by simp
  qed
  then have qp: "0 < q" using zero_less_power [of "2 :: int" "64 * n - 1"] by linarith
  obtain m where m: "0 < m" "2 ^ (m - 1) \<le> q" "q < 2 ^ m" using bit_length_exists [OF qp] by blast
  have m64: "64 * n \<le> m"
  proof -
    have "(2 :: int) ^ (64 * n - 1) < 2 ^ m" using qlo m(3) by linarith
    then show ?thesis by simp
  qed
  define k where "k = m - nat prec"
  have k: "k + nat prec = m" "2 \<le> k" "0 < nat prec" using quotient_limbs_enough [of prec a] m64 prec by (auto simp: k_def n_def [symmetric])
  note st = sticky_rounding [OF dv(4) [folded q_def R_def] _ dv(5) [folded R_def] qp m(2,3) k x, folded q'_def]
  have R0: "0 \<le> R" by (simp add: R_def)
  have q'p: "0 < q'" using qp by (simp add: q'_def)
  have sg1: "bf_sign r1 \<le> 1"
  proof -
    have "bf_sign a = 0 \<or> bf_sign a = 1" "bf_sign b = 0 \<or> bf_sign b = 1" using a b by (auto simp: bf_normal_def)
    then show ?thesis by (auto simp: r1_def sg_def)
  qed
  have e1: "e = e0 + int m" if "exponent_of (scaled sg q' e0) e" for e using exponent_unique [OF that st(2) [OF R0]] .
  have "e0 + int m = bf_expn a - bf_expn b \<or> e0 + int m = bf_expn a - bf_expn b + 1"
    using exponent_quotient [OF normal_value(1) [OF a] normal_value(1) [OF b]] st(1) [OF R0] unfolding x_def by blast
  then have rg: "in_exp_range flags (e0 + int m)" using range by auto
  have nz: "mpv (bf_tab r1) \<noteq> 0" using q'p tab(1) by (simp add: r1_def)
  have rg': "in_exp_range flags e" if "exponent_of (bf_val r1) e" for e using e1 [OF that [unfolded val1]] rg by simp
  from normalize_ok [OF reallocates_shrinks [OF f] sg1 mode nz rg', of prec] obtain e res where
    h: "exponent_of (scaled sg q' e0) e" "bf_normalize_and_round f r1 prec flags = Some res"
    "correctly_rounded mode flags prec (scaled sg q' e0) e res" "bf_sign (snd res) = bf_sign r1"
    unfolding val1 by blast
  have u: "ulp_at flags prec e = e0 + int k" using e1 [OF h(1)] flags k(1,3) by (simp add: ulp_at_def)
  have "correctly_rounded mode flags prec x e res"
    using h(3) st(3,4) [OF R0] unfolding correctly_rounded_def Let_def u by auto
  then show ?thesis using st(1) [OF R0] e1 [OF h(1)] h(2,4) div
    by (intro exI [of _ e] exI [of _ res]) (simp add: x_def [symmetric] r1_def sg_def)
qed

end
