(* ===== verification/RegexpVM.thy ===== *)
theory RegexpVM
  imports CaseConv CUtils "HOL-Library.Monad_Syntax"
begin

text \<open>
  libregexp.c: the interpreter of the regular expression bytecode.  A position in the subject is an
  index into its code units (bytes for \<open>cbuf_type\<close> 0), a position in the bytecode an index into
  \<open>bc_buf\<close>; \<open>None\<close> is an access outside of a buffer, a failed assertion or \<open>abort\<close>.  The stack of
  the saved states is a list with its top first, and \<open>state_stack_size\<close> the number of states that
  the memory allocated for it holds.
\<close>

unbundle bit_operations_syntax

subsection \<open>Characters of the subject\<close>

definition is_line_terminator :: "u32 \<Rightarrow> bool" where
  "is_line_terminator c \<longleftrightarrow> c = 10 \<or> c = 13 \<or> c = 0x2028 \<or> c = 0x2029"

definition is_word_char :: "u32 \<Rightarrow> bool" where
  "is_word_char c \<longleftrightarrow> (48 \<le> c \<and> c \<le> 57) \<or> (97 \<le> c \<and> c \<le> 122) \<or> (65 \<le> c \<and> c \<le> 90) \<or> c = 95"

abbreviation (input) is_hi :: "u32 \<Rightarrow> bool" where "is_hi c \<equiv> c \<ge> 0xd800 \<and> c < 0xdc00"
abbreviation (input) is_lo :: "u32 \<Rightarrow> bool" where "is_lo c \<equiv> c \<ge> 0xdc00 \<and> c < 0xe000"

definition from_surrogates :: "u32 \<Rightarrow> u32 \<Rightarrow> u32" where
  "from_surrogates c c1 = (push_bit 10 (c AND 0x3ff) OR (c1 AND 0x3ff)) + 0x10000"

record re_ctx =
  re_bc_buf :: "u8 list"
  re_cbuf :: "u16 list"
  re_cbuf_type :: nat
  re_capture_count :: nat
  re_stack_size_max :: nat
  re_multi_line :: bool
  re_ignore_case :: bool
  re_is_utf16 :: bool
  re_realloc_ok :: "nat \<Rightarrow> bool"

abbreviation cbuf_end :: "re_ctx \<Rightarrow> nat" where "cbuf_end s \<equiv> length (re_cbuf s)"

definition unit_at :: "re_ctx \<Rightarrow> nat \<Rightarrow> u32 option" where
  "unit_at s p = map_option ucast (rd (re_cbuf s) p)"

definition GET_CHAR :: "re_ctx \<Rightarrow> nat \<Rightarrow> nat \<Rightarrow> (u32 \<times> nat) option" where
  "GET_CHAR s p e =
     do {
       c \<leftarrow> unit_at s p;
       if re_cbuf_type s = 0 then Some (c, p + 1)
       else if is_hi c \<and> re_cbuf_type s = 2 \<and> p + 1 < e then
         do { c1 \<leftarrow> unit_at s (p + 1); Some (if is_lo c1 then (from_surrogates c c1, p + 2) else (c, p + 1)) }
       else Some (c, p + 1)
     }"

definition PEEK_CHAR :: "re_ctx \<Rightarrow> nat \<Rightarrow> nat \<Rightarrow> u32 option" where
  "PEEK_CHAR s p e =
     do {
       c \<leftarrow> unit_at s p;
       if re_cbuf_type s = 0 then Some c
       else if is_hi c \<and> re_cbuf_type s = 2 \<and> p + 1 < e then
         do { c1 \<leftarrow> unit_at s (p + 1); Some (if is_lo c1 then from_surrogates c c1 else c) }
       else Some c
     }"

definition PEEK_PREV_CHAR :: "re_ctx \<Rightarrow> nat \<Rightarrow> nat \<Rightarrow> u32 option" where
  "PEEK_PREV_CHAR s p start =
     (if p = 0 then None
      else do {
        c \<leftarrow> unit_at s (p - 1);
        if re_cbuf_type s = 0 then Some c
        else if is_lo c \<and> re_cbuf_type s = 2 \<and> p \<ge> start + 2 then
          do { c1 \<leftarrow> unit_at s (p - 2); Some (if is_hi c1 then from_surrogates c1 c else c) }
        else Some c
      })"

definition GET_PREV_CHAR :: "re_ctx \<Rightarrow> nat \<Rightarrow> nat \<Rightarrow> (u32 \<times> nat) option" where
  "GET_PREV_CHAR s p start =
     (if p = 0 then None
      else do {
        let p = p - 1;
        c \<leftarrow> unit_at s p;
        if re_cbuf_type s = 0 then Some (c, p)
        else if is_lo c \<and> re_cbuf_type s = 2 \<and> p > start then
          do { c1 \<leftarrow> unit_at s (p - 1); Some (if is_hi c1 then (from_surrogates c1 c, p - 1) else (c, p)) }
        else Some (c, p)
      })"

definition PREV_CHAR :: "re_ctx \<Rightarrow> nat \<Rightarrow> nat \<Rightarrow> nat option" where
  "PREV_CHAR s p start =
     (if p = 0 then None
      else let p = p - 1 in
        if re_cbuf_type s = 0 then Some p
        else if re_cbuf_type s = 2 then
          do {
            c \<leftarrow> unit_at s p;
            if is_lo c \<and> p > start then do { c \<leftarrow> unit_at s (p - 1); Some (if is_hi c then p - 1 else p) }
            else Some p
          }
        else Some p)"

subsection \<open>Bytecode\<close>

datatype REOPCode =
    REOP_invalid | REOP_char | REOP_char32 | REOP_dot | REOP_any | REOP_line_start | REOP_line_end
  | REOP_goto | REOP_split_goto_first | REOP_split_next_first | REOP_match | REOP_save_start
  | REOP_save_end | REOP_save_reset | REOP_loop | REOP_push_i32 | REOP_drop | REOP_word_boundary
  | REOP_not_word_boundary | REOP_back_reference | REOP_backward_back_reference | REOP_range
  | REOP_range32 | REOP_lookahead | REOP_negative_lookahead | REOP_push_char_pos | REOP_check_advance
  | REOP_prev | REOP_simple_greedy_quant

definition REOPCodes :: "REOPCode list" where
  "REOPCodes =
     [REOP_invalid, REOP_char, REOP_char32, REOP_dot, REOP_any, REOP_line_start, REOP_line_end,
      REOP_goto, REOP_split_goto_first, REOP_split_next_first, REOP_match, REOP_save_start,
      REOP_save_end, REOP_save_reset, REOP_loop, REOP_push_i32, REOP_drop, REOP_word_boundary,
      REOP_not_word_boundary, REOP_back_reference, REOP_backward_back_reference, REOP_range,
      REOP_range32, REOP_lookahead, REOP_negative_lookahead, REOP_push_char_pos, REOP_check_advance,
      REOP_prev, REOP_simple_greedy_quant]"

definition reop_at :: "u8 list \<Rightarrow> nat \<Rightarrow> REOPCode option" where
  "reop_at bc pc = do { b \<leftarrow> rd bc pc; rd REOPCodes (unat b) }"

text \<open>The target of a jump: a signed displacement from the end of the operand.\<close>

definition jump_to :: "nat \<Rightarrow> u32 \<Rightarrow> nat option" where
  "jump_to pc val = (let p = int pc + sint val in if p < 0 then None else Some (nat p))"

subsection \<open>Threads and saved states\<close>

record re_thread =
  th_capture :: "nat option list"
  th_stack :: "u64 list"
  th_stack_len :: nat
  th_pc :: nat
  th_cptr :: nat

datatype REExecStateEnum = RE_EXEC_STATE_SPLIT | RE_EXEC_STATE_LOOKAHEAD | RE_EXEC_STATE_NEGATIVE_LOOKAHEAD | RE_EXEC_STATE_GREEDY_QUANT

record REExecState =
  rs_type :: REExecStateEnum
  rs_stack_len :: u8
  rs_count :: int
  rs_cptr :: nat
  rs_pc :: nat
  rs_capture :: "nat option list"
  rs_stack :: "u64 list"

type_synonym re_states = "REExecState list \<times> nat"

text \<open>\<open>Inl\<close> is the failed reallocation (result -1).\<close>

definition push_state :: "re_ctx \<Rightarrow> re_states \<Rightarrow> re_thread \<Rightarrow> nat \<Rightarrow> nat \<Rightarrow> REExecStateEnum \<Rightarrow> int \<Rightarrow> (unit + re_states)" where
  "push_state s ss t pc cptr type n =
     (let (states, size) = ss;
          rs = \<lparr>rs_type = type, rs_stack_len = of_nat (th_stack_len t), rs_count = n, rs_cptr = cptr, rs_pc = pc,
                rs_capture = take (2 * re_capture_count s) (th_capture t), rs_stack = take (th_stack_len t) (th_stack t)\<rparr> in
      if length states + 1 > size then
        let new_size = (let n = size * 3 div 2 in if n < 8 then 8 else n) in
        if re_realloc_ok s new_size then Inr (rs # states, new_size) else Inl ()
      else Inr (rs # states, size))"

definition rs_capture_back :: "REExecState \<Rightarrow> re_thread \<Rightarrow> re_thread" where
  "rs_capture_back rs t = t\<lparr>th_capture := rs_capture rs @ drop (length (rs_capture rs)) (th_capture t)\<rparr>"

definition rs_stack_back :: "REExecState \<Rightarrow> re_thread \<Rightarrow> re_thread" where
  "rs_stack_back rs t =
     (let n = unat (rs_stack_len rs) in
      t\<lparr>th_stack_len := n, th_stack := take n (rs_stack rs) @ drop n (th_stack t)\<rparr>)"

fun go_backward :: "re_ctx \<Rightarrow> nat \<Rightarrow> nat \<Rightarrow> nat option" where
  "go_backward s cptr 0 = Some cptr"
| "go_backward s cptr (Suc n) = do { cptr \<leftarrow> PREV_CHAR s cptr 0; go_backward s cptr n }"

text \<open>
  The loop \<open>recurse\<close>: it drops states until one of them says where to go on (\<open>Inr\<close>, the thread and
  the states that remain), or none is left (\<open>Inl\<close> the result).
\<close>

fun unwind :: "re_ctx \<Rightarrow> bool \<Rightarrow> re_thread \<Rightarrow> REExecState list \<Rightarrow> (bool \<times> re_thread + re_thread \<times> REExecState list) option" where
  "unwind s ret t [] = Some (Inl (ret, t))"
| "unwind s ret t (rs # states) =
     (case rs_type rs of
        RE_EXEC_STATE_SPLIT \<Rightarrow>
          if \<not> ret then Some (Inr ((rs_stack_back rs (rs_capture_back rs t))\<lparr>th_pc := rs_pc rs, th_cptr := rs_cptr rs\<rparr>, states))
          else unwind s ret t states
      | RE_EXEC_STATE_GREEDY_QUANT \<Rightarrow>
          if \<not> ret then
            do {
              let t = rs_stack_back rs (rs_capture_back rs t);
              char_count \<leftarrow> get_u32 (re_bc_buf s) (rs_pc rs + 12);
              cptr \<leftarrow> go_backward s (rs_cptr rs) (unat char_count);
              next_pos \<leftarrow> get_u32 (re_bc_buf s) (rs_pc rs);
              pc \<leftarrow> jump_to (rs_pc rs + 16) next_pos;
              let rs = rs\<lparr>rs_cptr := cptr, rs_count := rs_count rs - 1\<rparr>;
              Some (Inr (t\<lparr>th_pc := pc, th_cptr := cptr\<rparr>, if rs_count rs = 0 then states else rs # states))
            }
          else unwind s ret t states
      | _ \<Rightarrow>
          let ret = (rs_type rs = RE_EXEC_STATE_LOOKAHEAD \<and> ret) \<or> (rs_type rs = RE_EXEC_STATE_NEGATIVE_LOOKAHEAD \<and> \<not> ret) in
          if ret then
            let t = (if rs_type rs = RE_EXEC_STATE_LOOKAHEAD then t else rs_capture_back rs t) in
            Some (Inr ((rs_stack_back rs t)\<lparr>th_pc := rs_pc rs, th_cptr := rs_cptr rs\<rparr>, states))
          else unwind s ret t states)"

subsection \<open>One instruction\<close>

text \<open>
  What an instruction does: it lets the thread go on or fail, it ends a match, it saves a state (for
  an alternative, or for what follows a lookahead) and goes on, or it starts a greedy loop over a
  simple atom, whose instruction is at \<open>pc\<close>.
\<close>

datatype re_act =
    AGo re_thread
  | AFail re_thread
  | AMatch re_thread
  | APush REExecStateEnum nat re_thread
  | AQuant nat u32 u32 re_thread

definition canon_if :: "re_ctx \<Rightarrow> u32 \<Rightarrow> u32 option" where
  "canon_if s c = (if re_ignore_case s then lre_canonicalize c (re_is_utf16 s) else Some c)"

definition test_char :: "re_ctx \<Rightarrow> u32 \<Rightarrow> re_thread \<Rightarrow> re_act option" where
  "test_char s val t =
     (if th_cptr t \<ge> cbuf_end s then Some (AFail t)
      else do {
        (c, cptr) \<leftarrow> GET_CHAR s (th_cptr t) (cbuf_end s);
        c \<leftarrow> canon_if s c;
        let t = t\<lparr>th_cptr := cptr\<rparr>;
        Some (if val \<noteq> c then AFail t else AGo t)
      })"

fun back_ref_loop :: "re_ctx \<Rightarrow> nat \<Rightarrow> nat \<Rightarrow> nat \<Rightarrow> nat \<Rightarrow> (bool \<times> nat) option" where
  "back_ref_loop s 0 cptr1 cptr1_end cptr = (if cptr1 < cptr1_end then None else Some (True, cptr))"
| "back_ref_loop s (Suc n) cptr1 cptr1_end cptr =
     (if cptr1 < cptr1_end then
        if cptr \<ge> cbuf_end s then Some (False, cptr)
        else do {
          (c1, cptr1) \<leftarrow> GET_CHAR s cptr1 cptr1_end;
          (c2, cptr) \<leftarrow> GET_CHAR s cptr (cbuf_end s);
          c1 \<leftarrow> canon_if s c1;
          c2 \<leftarrow> canon_if s c2;
          if c1 \<noteq> c2 then Some (False, cptr) else back_ref_loop s n cptr1 cptr1_end cptr
        }
      else Some (True, cptr))"

fun back_back_ref_loop :: "re_ctx \<Rightarrow> nat \<Rightarrow> nat \<Rightarrow> nat \<Rightarrow> nat \<Rightarrow> (bool \<times> nat) option" where
  "back_back_ref_loop s 0 cptr1 cptr1_start cptr = (if cptr1 > cptr1_start then None else Some (True, cptr))"
| "back_back_ref_loop s (Suc n) cptr1 cptr1_start cptr =
     (if cptr1 > cptr1_start then
        if cptr = 0 then Some (False, cptr)
        else do {
          (c1, cptr1) \<leftarrow> GET_PREV_CHAR s cptr1 cptr1_start;
          (c2, cptr) \<leftarrow> GET_PREV_CHAR s cptr 0;
          c1 \<leftarrow> canon_if s c1;
          c2 \<leftarrow> canon_if s c2;
          if c1 \<noteq> c2 then Some (False, cptr) else back_back_ref_loop s n cptr1 cptr1_start cptr
        }
      else Some (True, cptr))"

text \<open>The binary search in the intervals of a class; \<open>get\<close> reads an operand of \<open>w\<close> bytes.\<close>

fun range_loop :: "(nat \<Rightarrow> u32 option) \<Rightarrow> nat \<Rightarrow> nat \<Rightarrow> u32 \<Rightarrow> nat \<Rightarrow> u32 \<Rightarrow> u32 \<Rightarrow> bool option" where
  "range_loop get w pc c 0 idx_min idx_max = (if idx_min \<le> idx_max then None else Some False)"
| "range_loop get w pc c (Suc n) idx_min idx_max =
     (if idx_min \<le> idx_max then
        do {
          let idx = (idx_min + idx_max) div 2;
          low \<leftarrow> get (pc + unat idx * (2 * w));
          high \<leftarrow> get (pc + unat idx * (2 * w) + w);
          if c < low then range_loop get w pc c n idx_min (idx - 1)
          else if c > high then range_loop get w pc c n (idx + 1) idx_max
          else Some True
        }
      else Some False)"

definition test_range :: "re_ctx \<Rightarrow> bool \<Rightarrow> re_thread \<Rightarrow> re_act option" where
  "test_range s is32 t =
     do {
       let get = (if is32 then get_u32 else get_u16) (re_bc_buf s);
       let w = (if is32 then 4 else 2);
       n \<leftarrow> get_u16 (re_bc_buf s) (th_pc t);
       let pc = th_pc t + 2;
       if th_cptr t \<ge> cbuf_end s then Some (AFail t)
       else do {
         (c, cptr) \<leftarrow> GET_CHAR s (th_cptr t) (cbuf_end s);
         c \<leftarrow> canon_if s c;
         let t = t\<lparr>th_cptr := cptr\<rparr>;
         low \<leftarrow> get pc;
         if c < low then Some (AFail t)
         else do {
           let idx_max = n - 1;
           high \<leftarrow> get (pc + unat idx_max * (2 * w) + w);
           m \<leftarrow> (if \<not> is32 \<and> c \<ge> 0xffff \<and> high = 0xffff then Some True
                else if c > high then Some False
                else range_loop get w pc c (unat n) 0 idx_max);
           Some (if m then AGo (t\<lparr>th_pc := pc + (2 * w) * unat n\<rparr>) else AFail t)
         }
       }
     }"

definition push_val :: "u64 \<Rightarrow> re_thread \<Rightarrow> re_thread option" where
  "push_val v t =
     (if th_stack_len t < length (th_stack t)
      then Some (t\<lparr>th_stack := (th_stack t)[th_stack_len t := v], th_stack_len := th_stack_len t + 1\<rparr>) else None)"

fun reset_captures :: "nat option list \<Rightarrow> nat \<Rightarrow> nat \<Rightarrow> nat option list" where
  "reset_captures capture v 0 = capture"
| "reset_captures capture v (Suc n) = reset_captures (capture[2 * v := None, 2 * v + 1 := None]) (v + 1) n"

definition word_boundary_test :: "re_ctx \<Rightarrow> bool \<Rightarrow> re_thread \<Rightarrow> re_act option" where
  "word_boundary_test s not_op t =
     do {
       v1 \<leftarrow> (if th_cptr t = 0 then Some False else map_option is_word_char (PEEK_PREV_CHAR s (th_cptr t) 0));
       v2 \<leftarrow> (if th_cptr t \<ge> cbuf_end s then Some False else map_option is_word_char (PEEK_CHAR s (th_cptr t) (cbuf_end s)));
       Some (if (v1 \<noteq> v2) = not_op then AFail t else AGo t)
     }"

definition back_reference :: "re_ctx \<Rightarrow> bool \<Rightarrow> re_thread \<Rightarrow> re_act option" where
  "back_reference s backward t =
     do {
       b \<leftarrow> rd (re_bc_buf s) (th_pc t);
       let val = unat b;
       let t = t\<lparr>th_pc := th_pc t + 1\<rparr>;
       if val \<ge> re_capture_count s then Some (AFail t)
       else do {
         start \<leftarrow> rd (th_capture t) (2 * val);
         stop \<leftarrow> rd (th_capture t) (2 * val + 1);
         case (start, stop) of
           (Some cptr1_start, Some cptr1_end) \<Rightarrow>
             do {
               (m, cptr) \<leftarrow> (if \<not> backward then back_ref_loop s (cptr1_end - cptr1_start) cptr1_start cptr1_end (th_cptr t)
                             else back_back_ref_loop s (cptr1_end - cptr1_start) cptr1_end cptr1_start (th_cptr t));
               let t = t\<lparr>th_cptr := cptr\<rparr>;
               Some (if m then AGo t else AFail t)
             }
         | _ \<Rightarrow> Some (AGo t)
       }
     }"

definition re_instr :: "re_ctx \<Rightarrow> re_thread \<Rightarrow> re_act option" where
  "re_instr s t =
     do {
       let bc = re_bc_buf s;
       opcode \<leftarrow> reop_at bc (th_pc t);
       let pc = th_pc t + 1;
       let cptr = th_cptr t;
       case opcode of
         REOP_match \<Rightarrow> Some (AMatch (t\<lparr>th_pc := pc\<rparr>))
       | REOP_char32 \<Rightarrow> do { val \<leftarrow> get_u32 bc pc; test_char s val (t\<lparr>th_pc := pc + 4\<rparr>) }
       | REOP_char \<Rightarrow> do { val \<leftarrow> get_u16 bc pc; test_char s val (t\<lparr>th_pc := pc + 2\<rparr>) }
       | REOP_split_goto_first \<Rightarrow>
           do { val \<leftarrow> get_u32 bc pc; pc' \<leftarrow> jump_to (pc + 4) val;
                Some (APush RE_EXEC_STATE_SPLIT (pc + 4) (t\<lparr>th_pc := pc'\<rparr>)) }
       | REOP_split_next_first \<Rightarrow>
           do { val \<leftarrow> get_u32 bc pc; pc1 \<leftarrow> jump_to (pc + 4) val;
                Some (APush RE_EXEC_STATE_SPLIT pc1 (t\<lparr>th_pc := pc + 4\<rparr>)) }
       | REOP_lookahead \<Rightarrow>
           do { val \<leftarrow> get_u32 bc pc; pc1 \<leftarrow> jump_to (pc + 4) val;
                Some (APush RE_EXEC_STATE_LOOKAHEAD pc1 (t\<lparr>th_pc := pc + 4\<rparr>)) }
       | REOP_negative_lookahead \<Rightarrow>
           do { val \<leftarrow> get_u32 bc pc; pc1 \<leftarrow> jump_to (pc + 4) val;
                Some (APush RE_EXEC_STATE_NEGATIVE_LOOKAHEAD pc1 (t\<lparr>th_pc := pc + 4\<rparr>)) }
       | REOP_goto \<Rightarrow> do { val \<leftarrow> get_u32 bc pc; pc' \<leftarrow> jump_to (pc + 4) val; Some (AGo (t\<lparr>th_pc := pc'\<rparr>)) }
       | REOP_line_start \<Rightarrow>
           (let t = t\<lparr>th_pc := pc\<rparr> in
            if cptr = 0 then Some (AGo t)
            else if \<not> re_multi_line s then Some (AFail t)
            else do { c \<leftarrow> PEEK_PREV_CHAR s cptr 0; Some (if is_line_terminator c then AGo t else AFail t) })
       | REOP_line_end \<Rightarrow>
           (let t = t\<lparr>th_pc := pc\<rparr> in
            if cptr = cbuf_end s then Some (AGo t)
            else if \<not> re_multi_line s then Some (AFail t)
            else do { c \<leftarrow> PEEK_CHAR s cptr (cbuf_end s); Some (if is_line_terminator c then AGo t else AFail t) })
       | REOP_dot \<Rightarrow>
           (let t = t\<lparr>th_pc := pc\<rparr> in
            if cptr = cbuf_end s then Some (AFail t)
            else do { (c, cptr) \<leftarrow> GET_CHAR s cptr (cbuf_end s);
                      let t = t\<lparr>th_cptr := cptr\<rparr>; Some (if is_line_terminator c then AFail t else AGo t) })
       | REOP_any \<Rightarrow>
           (let t = t\<lparr>th_pc := pc\<rparr> in
            if cptr = cbuf_end s then Some (AFail t)
            else do { (c, cptr) \<leftarrow> GET_CHAR s cptr (cbuf_end s); Some (AGo (t\<lparr>th_cptr := cptr\<rparr>)) })
       | REOP_save_start \<Rightarrow>
           do { val \<leftarrow> rd bc pc;
                if unat val < re_capture_count s
                then Some (AGo (t\<lparr>th_pc := pc + 1, th_capture := (th_capture t)[2 * unat val := Some cptr]\<rparr>)) else None }
       | REOP_save_end \<Rightarrow>
           do { val \<leftarrow> rd bc pc;
                if unat val < re_capture_count s
                then Some (AGo (t\<lparr>th_pc := pc + 1, th_capture := (th_capture t)[2 * unat val + 1 := Some cptr]\<rparr>)) else None }
       | REOP_save_reset \<Rightarrow>
           do { val \<leftarrow> rd bc pc; val2 \<leftarrow> rd bc (pc + 1);
                if unat val2 < re_capture_count s
                then Some (AGo (t\<lparr>th_pc := pc + 2, th_capture := reset_captures (th_capture t) (unat val) (Suc (unat val2) - unat val)\<rparr>))
                else None }
       | REOP_push_i32 \<Rightarrow>
           do { val \<leftarrow> get_u32 bc pc; t \<leftarrow> push_val (ucast val) (t\<lparr>th_pc := pc + 4\<rparr>); Some (AGo t) }
       | REOP_drop \<Rightarrow>
           (if th_stack_len t = 0 then None else Some (AGo (t\<lparr>th_pc := pc, th_stack_len := th_stack_len t - 1\<rparr>)))
       | REOP_loop \<Rightarrow>
           do { val \<leftarrow> get_u32 bc pc;
                if th_stack_len t = 0 then None
                else do {
                  x \<leftarrow> rd (th_stack t) (th_stack_len t - 1);
                  let t = t\<lparr>th_stack := (th_stack t)[th_stack_len t - 1 := x - 1]\<rparr>;
                  pc' \<leftarrow> (if x - 1 \<noteq> 0 then jump_to (pc + 4) val else Some (pc + 4));
                  Some (AGo (t\<lparr>th_pc := pc'\<rparr>))
                } }
       | REOP_push_char_pos \<Rightarrow> do { t \<leftarrow> push_val (of_nat cptr) (t\<lparr>th_pc := pc\<rparr>); Some (AGo t) }
       | REOP_check_advance \<Rightarrow>
           (if th_stack_len t = 0 then None
            else do {
              x \<leftarrow> rd (th_stack t) (th_stack_len t - 1);
              let t = t\<lparr>th_pc := pc, th_stack_len := th_stack_len t - 1\<rparr>;
              Some (if x = of_nat cptr then AFail t else AGo t)
            })
       | REOP_word_boundary \<Rightarrow> word_boundary_test s False (t\<lparr>th_pc := pc\<rparr>)
       | REOP_not_word_boundary \<Rightarrow> word_boundary_test s True (t\<lparr>th_pc := pc\<rparr>)
       | REOP_back_reference \<Rightarrow> back_reference s False (t\<lparr>th_pc := pc\<rparr>)
       | REOP_backward_back_reference \<Rightarrow> back_reference s True (t\<lparr>th_pc := pc\<rparr>)
       | REOP_range \<Rightarrow> test_range s False (t\<lparr>th_pc := pc\<rparr>)
       | REOP_range32 \<Rightarrow> test_range s True (t\<lparr>th_pc := pc\<rparr>)
       | REOP_prev \<Rightarrow>
           (if cptr = 0 then Some (AFail (t\<lparr>th_pc := pc\<rparr>))
            else do { cptr \<leftarrow> PREV_CHAR s cptr 0; Some (AGo (t\<lparr>th_pc := pc, th_cptr := cptr\<rparr>)) })
       | REOP_simple_greedy_quant \<Rightarrow>
           do { next_pos \<leftarrow> get_u32 bc pc; quant_min \<leftarrow> get_u32 bc (pc + 4); quant_max \<leftarrow> get_u32 bc (pc + 8);
                pc' \<leftarrow> jump_to (pc + 16) next_pos;
                Some (AQuant (pc + 16) quant_min quant_max (t\<lparr>th_pc := pc'\<rparr>)) }
       | REOP_invalid \<Rightarrow> None
     }"

subsection \<open>The interpreter\<close>

text \<open>
  The interpreter runs with fuel.  Its result is a match, no match, the failure of an allocation,
  undefined behaviour, or \<open>RTimeout\<close>, when the fuel is used up.  The thread in a result carries the
  captures, and the position that is returned for \<open>no_recurse\<close>.
\<close>

datatype re_result = RMatch re_thread re_states | RNoMatch re_thread re_states | RMemory | RUndef | RTimeout

text \<open>The loop over the atom of a simple quantifier: \<open>Inr\<close> are the iterations, the thread and the states.\<close>

fun quant_loop :: "(re_thread \<Rightarrow> re_states \<Rightarrow> re_result) \<Rightarrow> nat \<Rightarrow> u32 \<Rightarrow> nat \<Rightarrow> re_thread \<Rightarrow> re_states \<Rightarrow> int \<Rightarrow> (re_result + int \<times> re_thread \<times> re_states)" where
  "quant_loop exec pc1 quant_max 0 t ss q = Inl RTimeout"
| "quant_loop exec pc1 quant_max (Suc n) t ss q =
     (case exec (t\<lparr>th_pc := pc1\<rparr>) ss of
        RMatch t' ss \<Rightarrow>
          let t = t\<lparr>th_cptr := th_cptr t', th_capture := th_capture t', th_stack := th_stack t'\<rparr>; q = q + 1 in
          if q \<ge> uint quant_max \<and> quant_max \<noteq> 0x7fffffff then Inr (q, t, ss) else quant_loop exec pc1 quant_max n t ss q
      | RNoMatch t' ss \<Rightarrow> Inr (q, t\<lparr>th_capture := th_capture t', th_stack := th_stack t'\<rparr>, ss)
      | res \<Rightarrow> Inl res)"

fun lre_exec_backtrack :: "nat \<Rightarrow> re_ctx \<Rightarrow> bool \<Rightarrow> re_thread \<Rightarrow> re_states \<Rightarrow> re_result" where
  "lre_exec_backtrack 0 s no_recurse t ss = RTimeout"
| "lre_exec_backtrack (Suc n) s no_recurse t ss =
     (let end_match = (\<lambda>ret t ss.
            if no_recurse then (if ret then RMatch t ss else RNoMatch t ss)
            else (case unwind s ret t (fst ss) of
                    None \<Rightarrow> RUndef
                  | Some (Inl (ret, t)) \<Rightarrow> if ret then RMatch t ([], snd ss) else RNoMatch t ([], snd ss)
                  | Some (Inr (t, states)) \<Rightarrow> lre_exec_backtrack n s no_recurse t (states, snd ss))) in
      case re_instr s t of
        None \<Rightarrow> RUndef
      | Some (AGo t) \<Rightarrow> lre_exec_backtrack n s no_recurse t ss
      | Some (AMatch t) \<Rightarrow> end_match True t ss
      | Some (AFail t) \<Rightarrow> end_match False t ss
      | Some (APush type pc1 t) \<Rightarrow>
          (case push_state s ss t pc1 (th_cptr t) type 0 of
             Inl _ \<Rightarrow> RMemory
           | Inr ss \<Rightarrow> lre_exec_backtrack n s no_recurse t ss)
      | Some (AQuant pc1 quant_min quant_max t) \<Rightarrow>
          (case quant_loop (lre_exec_backtrack n s True) pc1 quant_max n t ss 0 of
             Inl res \<Rightarrow> res
           | Inr (q, t, ss) \<Rightarrow>
               if q < uint quant_min then end_match False t ss
               else if q > uint quant_min then
                 (case push_state s ss t (pc1 - 16) (th_cptr t) RE_EXEC_STATE_GREEDY_QUANT (q - uint quant_min) of
                    Inl _ \<Rightarrow> RMemory
                  | Inr ss \<Rightarrow> lre_exec_backtrack n s no_recurse t ss)
               else lre_exec_backtrack n s no_recurse t ss))"

text \<open>\<open>lre_exec\<close>; the memory of the stack is the parameter \<open>stack\<close>.\<close>

definition re_context :: "u8 list \<Rightarrow> u16 list \<Rightarrow> nat \<Rightarrow> (nat \<Rightarrow> bool) \<Rightarrow> re_ctx option" where
  "re_context bc_buf cbuf cbuf_type realloc_ok =
     do {
       re_flags \<leftarrow> rd bc_buf 0;
       capture_count \<leftarrow> rd bc_buf 1;
       stack_size \<leftarrow> rd bc_buf 2;
       let is_utf16 = re_flags AND 16 \<noteq> 0;
       Some \<lparr>re_bc_buf = bc_buf, re_cbuf = cbuf, re_cbuf_type = (if cbuf_type = 1 \<and> is_utf16 then 2 else cbuf_type),
             re_capture_count = unat capture_count, re_stack_size_max = unat stack_size,
             re_multi_line = (re_flags AND 4 \<noteq> 0), re_ignore_case = (re_flags AND 2 \<noteq> 0), re_is_utf16 = is_utf16,
             re_realloc_ok = realloc_ok\<rparr>
     }"

definition lre_exec :: "nat \<Rightarrow> u8 list \<Rightarrow> u16 list \<Rightarrow> nat \<Rightarrow> nat \<Rightarrow> (nat \<Rightarrow> bool) \<Rightarrow> u64 list \<Rightarrow> re_result option" where
  "lre_exec fuel bc_buf cbuf cindex cbuf_type realloc_ok stack =
     do {
       s \<leftarrow> re_context bc_buf cbuf cbuf_type realloc_ok;
       let t = \<lparr>th_capture = replicate (2 * re_capture_count s) None, th_stack = take (re_stack_size_max s) stack,
                th_stack_len = 0, th_pc = 7, th_cptr = cindex\<rparr>;
       Some (lre_exec_backtrack fuel s False t ([], 0))
     }"

end
