(* ===== verification/RegexpVerify.thy ===== *)
theory RegexpVerify
  imports RegexpVM
begin

text \<open>
  libregexp.c: the linear analyses of the bytecode that the compiler makes, and a verifier for the
  properties of compiled bytecode that the interpreter relies on.
\<close>

unbundle bit_operations_syntax

subsection \<open>The analyses of the compiler\<close>

definition reopcode_size :: "REOPCode \<Rightarrow> nat" where
  "reopcode_size opcode =
     (case opcode of
        REOP_invalid \<Rightarrow> 1 | REOP_char \<Rightarrow> 3 | REOP_char32 \<Rightarrow> 5 | REOP_dot \<Rightarrow> 1 | REOP_any \<Rightarrow> 1 | REOP_line_start \<Rightarrow> 1
      | REOP_line_end \<Rightarrow> 1 | REOP_goto \<Rightarrow> 5 | REOP_split_goto_first \<Rightarrow> 5 | REOP_split_next_first \<Rightarrow> 5 | REOP_match \<Rightarrow> 1
      | REOP_save_start \<Rightarrow> 2 | REOP_save_end \<Rightarrow> 2 | REOP_save_reset \<Rightarrow> 3 | REOP_loop \<Rightarrow> 5 | REOP_push_i32 \<Rightarrow> 5
      | REOP_drop \<Rightarrow> 1 | REOP_word_boundary \<Rightarrow> 1 | REOP_not_word_boundary \<Rightarrow> 1 | REOP_back_reference \<Rightarrow> 2
      | REOP_backward_back_reference \<Rightarrow> 2 | REOP_range \<Rightarrow> 3 | REOP_range32 \<Rightarrow> 3 | REOP_lookahead \<Rightarrow> 5
      | REOP_negative_lookahead \<Rightarrow> 5 | REOP_push_char_pos \<Rightarrow> 1 | REOP_check_advance \<Rightarrow> 1 | REOP_prev \<Rightarrow> 1
      | REOP_simple_greedy_quant \<Rightarrow> 17)"

text \<open>The size of the instruction at a position, with the intervals of a class.\<close>

definition instr_len :: "u8 list \<Rightarrow> nat \<Rightarrow> REOPCode \<Rightarrow> nat option" where
  "instr_len bc pos opcode =
     (case opcode of
        REOP_range \<Rightarrow> do { val \<leftarrow> get_u16 bc (pos + 1); Some (reopcode_size opcode + unat val * 4) }
      | REOP_range32 \<Rightarrow> do { val \<leftarrow> get_u16 bc (pos + 1); Some (reopcode_size opcode + unat val * 8) }
      | _ \<Rightarrow> Some (reopcode_size opcode))"

text \<open>\<open>re_need_check_advance\<close> and \<open>re_is_simple_quantifier\<close>, on the bytes from \<open>pos\<close> to \<open>bc_end\<close>.\<close>

fun need_check_loop :: "u8 list \<Rightarrow> nat \<Rightarrow> nat \<Rightarrow> nat \<Rightarrow> bool \<Rightarrow> bool option" where
  "need_check_loop bc bc_end 0 pos ret = (if pos < bc_end then None else Some ret)"
| "need_check_loop bc bc_end (Suc n) pos ret =
     (if pos < bc_end then
        do {
          opcode \<leftarrow> reop_at bc pos;
          len \<leftarrow> instr_len bc pos opcode;
          if opcode \<in> {REOP_range, REOP_range32, REOP_char, REOP_char32, REOP_dot, REOP_any}
          then need_check_loop bc bc_end n (pos + len) False
          else if opcode \<in> {REOP_line_start, REOP_line_end, REOP_push_i32, REOP_push_char_pos, REOP_drop,
              REOP_word_boundary, REOP_not_word_boundary, REOP_prev, REOP_save_start, REOP_save_end,
              REOP_save_reset, REOP_back_reference, REOP_backward_back_reference}
          then need_check_loop bc bc_end n (pos + len) ret
          else Some True
        }
      else Some ret)"

definition re_need_check_advance :: "u8 list \<Rightarrow> nat \<Rightarrow> nat \<Rightarrow> bool option" where
  "re_need_check_advance bc start bc_buf_len = need_check_loop bc (start + bc_buf_len) bc_buf_len start True"

fun simple_quant_loop :: "u8 list \<Rightarrow> nat \<Rightarrow> nat \<Rightarrow> nat \<Rightarrow> int \<Rightarrow> int option" where
  "simple_quant_loop bc bc_end 0 pos n = (if pos < bc_end then None else Some n)"
| "simple_quant_loop bc bc_end (Suc k) pos n =
     (if pos < bc_end then
        do {
          opcode \<leftarrow> reop_at bc pos;
          len \<leftarrow> instr_len bc pos opcode;
          if opcode \<in> {REOP_range, REOP_range32, REOP_char, REOP_char32, REOP_dot, REOP_any}
          then simple_quant_loop bc bc_end k (pos + len) (n + 1)
          else if opcode \<in> {REOP_line_start, REOP_line_end, REOP_word_boundary, REOP_not_word_boundary}
          then simple_quant_loop bc bc_end k (pos + len) n
          else Some (-1)
        }
      else Some n)"

definition re_is_simple_quantifier :: "u8 list \<Rightarrow> nat \<Rightarrow> nat \<Rightarrow> int option" where
  "re_is_simple_quantifier bc start bc_buf_len = simple_quant_loop bc (start + bc_buf_len) bc_buf_len start 0"

fun stack_size_loop :: "u8 list \<Rightarrow> nat \<Rightarrow> nat \<Rightarrow> nat \<Rightarrow> int \<Rightarrow> int \<Rightarrow> int option" where
  "stack_size_loop bc bc_end 0 pos stack_size stack_size_max = (if pos < bc_end then None else Some stack_size_max)"
| "stack_size_loop bc bc_end (Suc n) pos stack_size stack_size_max =
     (if pos < bc_end then
        do {
          opcode \<leftarrow> reop_at bc pos;
          if pos + reopcode_size opcode > bc_end then None
          else do {
            len \<leftarrow> instr_len bc pos opcode;
            if opcode \<in> {REOP_push_i32, REOP_push_char_pos} then
              let stack_size = stack_size + 1 in
              if stack_size > stack_size_max then
                if stack_size > 255 then Some (-1) else stack_size_loop bc bc_end n (pos + len) stack_size stack_size
              else stack_size_loop bc bc_end n (pos + len) stack_size stack_size_max
            else if opcode \<in> {REOP_drop, REOP_check_advance} then
              if stack_size > 0 then stack_size_loop bc bc_end n (pos + len) (stack_size - 1) stack_size_max else None
            else stack_size_loop bc bc_end n (pos + len) stack_size stack_size_max
          }
        }
      else Some stack_size_max)"

definition compute_stack_size :: "u8 list \<Rightarrow> nat \<Rightarrow> int option" where
  "compute_stack_size bc bc_buf_len = stack_size_loop bc bc_buf_len bc_buf_len 7 0 0"

subsection \<open>A verifier\<close>

text \<open>
  The instructions in the order of the bytecode, each with the depth of the stack at its start that
  the linear analysis computes.
\<close>

fun bc_scan :: "u8 list \<Rightarrow> nat \<Rightarrow> nat \<Rightarrow> nat \<Rightarrow> nat \<Rightarrow> (nat \<times> nat) list option" where
  "bc_scan bc bc_end 0 pos d = (if pos < bc_end then None else Some [])"
| "bc_scan bc bc_end (Suc n) pos d =
     (if pos < bc_end then
        do {
          opcode \<leftarrow> reop_at bc pos;
          len \<leftarrow> instr_len bc pos opcode;
          xs \<leftarrow> bc_scan bc bc_end n (pos + len)
             (if opcode \<in> {REOP_push_i32, REOP_push_char_pos} then d + 1
              else if opcode \<in> {REOP_drop, REOP_check_advance} then d - 1 else d);
          Some ((pos, d) # xs)
        }
      else Some [])"

text \<open>Reaching \<open>pc\<close> with a stack of depth \<open>d\<close> is right.\<close>

definition enters :: "(nat \<times> nat) list \<Rightarrow> nat option \<Rightarrow> nat \<Rightarrow> bool" where
  "enters L pc d \<longleftrightarrow> (case pc of None \<Rightarrow> False | Some pc \<Rightarrow> map_of L pc = Some d)"

definition jump_ok :: "re_ctx \<Rightarrow> (nat \<times> nat) list \<Rightarrow> nat \<Rightarrow> nat \<Rightarrow> bool" where
  "jump_ok s L pos d \<longleftrightarrow>
     (case get_u32 (re_bc_buf s) (pos + 1) of None \<Rightarrow> False | Some val \<Rightarrow> enters L (jump_to (pos + 5) val) d)"

definition quant_ok :: "re_ctx \<Rightarrow> (nat \<times> nat) list \<Rightarrow> nat \<Rightarrow> nat \<Rightarrow> bool" where
  "quant_ok s L pos d \<longleftrightarrow>
     (case (get_u32 (re_bc_buf s) (pos + 1), get_u32 (re_bc_buf s) (pos + 5), get_u32 (re_bc_buf s) (pos + 9), get_u32 (re_bc_buf s) (pos + 13)) of
        (Some next_pos, Some quant_min, Some quant_max, Some char_count) \<Rightarrow>
          0 < sint next_pos \<and> 0 < char_count \<and> enters L (Some (pos + 17)) d \<and> enters L (jump_to (pos + 17) next_pos) d \<and>
          re_is_simple_quantifier (re_bc_buf s) (pos + 17) (unat next_pos - 1) = Some (uint char_count) \<and>
          reop_at (re_bc_buf s) (pos + 17 + unat next_pos - 1) = Some REOP_match \<and>
          enters L (Some (pos + 17 + unat next_pos - 1)) d
      | _ \<Rightarrow> False)"

definition operand8_ok :: "re_ctx \<Rightarrow> nat \<Rightarrow> bool" where
  "operand8_ok s p \<longleftrightarrow> (case rd (re_bc_buf s) p of None \<Rightarrow> False | Some v \<Rightarrow> unat v < re_capture_count s)"

definition instr_verified :: "re_ctx \<Rightarrow> (nat \<times> nat) list \<Rightarrow> nat \<times> nat \<Rightarrow> bool" where
  "instr_verified s L x \<longleftrightarrow>
     (let (pos, d) = x; bc = re_bc_buf s in
      case reop_at bc pos of
        None \<Rightarrow> False
      | Some opcode \<Rightarrow>
        (case instr_len bc pos opcode of
           None \<Rightarrow> False
         | Some len \<Rightarrow>
             pos + len \<le> length bc \<and>
             (case opcode of
                REOP_invalid \<Rightarrow> False
              | REOP_match \<Rightarrow> True
              | REOP_goto \<Rightarrow> jump_ok s L pos d
              | REOP_split_goto_first \<Rightarrow> enters L (Some (pos + len)) d \<and> jump_ok s L pos d
              | REOP_split_next_first \<Rightarrow> enters L (Some (pos + len)) d \<and> jump_ok s L pos d
              | REOP_lookahead \<Rightarrow> enters L (Some (pos + len)) d \<and> jump_ok s L pos d
              | REOP_negative_lookahead \<Rightarrow> enters L (Some (pos + len)) d \<and> jump_ok s L pos d
              | REOP_loop \<Rightarrow> 0 < d \<and> enters L (Some (pos + len)) d \<and> jump_ok s L pos d
              | REOP_push_i32 \<Rightarrow> d < re_stack_size_max s \<and> enters L (Some (pos + len)) (d + 1)
              | REOP_push_char_pos \<Rightarrow> d < re_stack_size_max s \<and> enters L (Some (pos + len)) (d + 1)
              | REOP_drop \<Rightarrow> 0 < d \<and> enters L (Some (pos + len)) (d - 1)
              | REOP_check_advance \<Rightarrow> 0 < d \<and> enters L (Some (pos + len)) (d - 1)
              | REOP_save_start \<Rightarrow> operand8_ok s (pos + 1) \<and> enters L (Some (pos + len)) d
              | REOP_save_end \<Rightarrow> operand8_ok s (pos + 1) \<and> enters L (Some (pos + len)) d
              | REOP_save_reset \<Rightarrow> operand8_ok s (pos + 2) \<and> enters L (Some (pos + len)) d
              | REOP_range \<Rightarrow> get_u16 bc (pos + 1) \<noteq> Some 0 \<and> enters L (Some (pos + len)) d
              | REOP_range32 \<Rightarrow> get_u16 bc (pos + 1) \<noteq> Some 0 \<and> enters L (Some (pos + len)) d
              | REOP_simple_greedy_quant \<Rightarrow> quant_ok s L pos d
              | _ \<Rightarrow> enters L (Some (pos + len)) d)))"

definition bc_instrs :: "re_ctx \<Rightarrow> (nat \<times> nat) list option" where
  "bc_instrs s =
     do {
       n \<leftarrow> get_u32 (re_bc_buf s) 3;
       bc_scan (re_bc_buf s) (7 + unat n) (7 + unat n) 7 0
     }"

definition bc_verified :: "re_ctx \<Rightarrow> bool" where
  "bc_verified s \<longleftrightarrow> re_stack_size_max s \<le> 255 \<and>
     (case bc_instrs s of None \<Rightarrow> False | Some L \<Rightarrow> enters L (Some 7) 0 \<and> list_all (instr_verified s L) L)"

end
