(* ===== verification/RegexpSafe.thy ===== *)
theory RegexpSafe
  imports RegexpVerify
begin

text \<open>
  The interpreter on verified bytecode: every access is inside of its buffer, no assertion fails and
  the stack never overflows.
\<close>

unbundle bit_operations_syntax

subsection \<open>Characters\<close>

definition boundary :: "re_ctx \<Rightarrow> nat \<Rightarrow> bool" where
  "boundary s p \<longleftrightarrow> p \<le> cbuf_end s \<and>
     \<not> (re_cbuf_type s = 2 \<and> 0 < p \<and> p < cbuf_end s \<and> is_lo (ucast (re_cbuf s ! p)) \<and> is_hi (ucast (re_cbuf s ! (p - 1))))"

lemma unit_at_in [simp]: "p < cbuf_end s \<Longrightarrow> unit_at s p = Some (ucast (re_cbuf s ! p))"
  by (simp add: unit_at_def)

lemma unit_at_0 [simp]: "re_cbuf s \<noteq> [] \<Longrightarrow> unit_at s 0 = Some (ucast (re_cbuf s ! 0))"
  by (simp add: unit_at_def)

lemma unit_at_0' [simp]: "Suc n < cbuf_end s \<Longrightarrow> unit_at s 0 = Some (ucast (re_cbuf s ! 0))"
  by (rule unit_at_in) linarith

lemma hi_not_lo: "is_hi c \<Longrightarrow> \<not> is_lo c" by auto

lemma GET_CHAR_ok:
  assumes "p < e" "e \<le> cbuf_end s"
  shows "\<exists>c p'. GET_CHAR s p e = Some (c, p') \<and> p < p' \<and> p' \<le> e"
  using assms by (auto simp: GET_CHAR_def)

lemma GET_CHAR_boundary:
  assumes "boundary s p" "GET_CHAR s p (cbuf_end s) = Some (c, p')" "p < cbuf_end s"
  shows "boundary s p'" "PREV_CHAR s p' 0 = Some p"
  using assms by (auto simp: GET_CHAR_def boundary_def PREV_CHAR_def Let_def split: if_splits)

lemma PEEK_CHAR_ok: "p < e \<Longrightarrow> e \<le> cbuf_end s \<Longrightarrow> \<exists>c. PEEK_CHAR s p e = Some c"
  by (auto simp: PEEK_CHAR_def)

lemma PEEK_PREV_CHAR_ok: "0 < p \<Longrightarrow> p \<le> cbuf_end s \<Longrightarrow> \<exists>c. PEEK_PREV_CHAR s p start = Some c"
  by (auto simp: PEEK_PREV_CHAR_def)

lemma PREV_CHAR_ok:
  assumes "0 < p" "boundary s p"
  shows "\<exists>p'. PREV_CHAR s p 0 = Some p' \<and> p' < p \<and> boundary s p'"
  using assms by (auto simp: PREV_CHAR_def boundary_def Let_def)

lemma GET_PREV_CHAR_ok:
  assumes "0 < p" "p \<le> cbuf_end s"
  shows "\<exists>c p'. GET_PREV_CHAR s p start = Some (c, p') \<and> p' < p \<and> (start < p \<longrightarrow> start \<le> p')"
  using assms by (auto simp: GET_PREV_CHAR_def Let_def)

lemma GET_PREV_CHAR_boundary:
  assumes "0 < p" "boundary s p" "GET_PREV_CHAR s p 0 = Some (c, p')"
  shows "boundary s p'"
  using assms by (auto simp: GET_PREV_CHAR_def boundary_def Let_def split: if_splits)

lemma canon_if_ok: "\<exists>d. canon_if s c = Some d"
  using lre_canonicalize_total by (auto simp: canon_if_def)


subsection \<open>Loops\<close>

lemma back_ref_loop_ok:
  assumes "cptr1_end \<le> cbuf_end s" "cptr1_end - cptr1 \<le> n" "boundary s cptr"
  shows "\<exists>m cptr'. back_ref_loop s n cptr1 cptr1_end cptr = Some (m, cptr') \<and> boundary s cptr'"
  using assms
proof (induction s n cptr1 cptr1_end cptr rule: back_ref_loop.induct)
  case (2 s n cptr1 cptr1_end cptr)
  show ?case
  proof (cases "cptr1 < cptr1_end \<and> cptr < cbuf_end s")
    case True
    obtain c1 p1 where 1: "GET_CHAR s cptr1 cptr1_end = Some (c1, p1)" "cptr1 < p1" "p1 \<le> cptr1_end"
      using GET_CHAR_ok [of cptr1 cptr1_end s] True 2(2) by auto
    obtain c2 p2 where p2: "GET_CHAR s cptr (cbuf_end s) = Some (c2, p2)" using GET_CHAR_ok [of cptr "cbuf_end s" s] True by auto
    have b: "boundary s p2" using GET_CHAR_boundary(1) [OF 2(4) p2] True by simp
    obtain d1 d2 where d: "canon_if s c1 = Some d1" "canon_if s c2 = Some d2" using canon_if_ok by metis
    show ?thesis
    proof (cases "d1 = d2")
      case eq: True
      have "\<not> cbuf_end s \<le> cptr" using True by simp
      moreover have "cptr1_end - p1 \<le> n" using 1(2,3) 2(3) by linarith
      ultimately show ?thesis using 2(1) [OF _ _ 1(1) refl p2 refl d] True 1 p2 d eq b 2(2) by simp
    qed (use True 1 p2 d b in auto)
  next
    case False
    then show ?thesis using 2(4) by auto
  qed
qed auto

lemma back_back_ref_loop_ok:
  assumes "cptr1 \<le> cbuf_end s" "cptr1 - cptr1_start \<le> n" "boundary s cptr"
  shows "\<exists>m cptr'. back_back_ref_loop s n cptr1 cptr1_start cptr = Some (m, cptr') \<and> boundary s cptr'"
  using assms
proof (induction s n cptr1 cptr1_start cptr rule: back_back_ref_loop.induct)
  case (2 s n cptr1 cptr1_start cptr)
  show ?case
  proof (cases "cptr1 > cptr1_start \<and> cptr > 0")
    case True
    have ce: "cptr \<le> cbuf_end s" using 2(4) by (simp add: boundary_def)
    obtain c1 p1 where 1: "GET_PREV_CHAR s cptr1 cptr1_start = Some (c1, p1)" "p1 < cptr1" "cptr1_start \<le> p1"
      using GET_PREV_CHAR_ok [of cptr1 s cptr1_start] True 2(2) by auto
    obtain c2 p2 where p2: "GET_PREV_CHAR s cptr 0 = Some (c2, p2)" using GET_PREV_CHAR_ok [of cptr s 0] True ce by auto
    have b: "boundary s p2" using GET_PREV_CHAR_boundary [OF _ 2(4) p2] True by simp
    obtain d1 d2 where d: "canon_if s c1 = Some d1" "canon_if s c2 = Some d2" using canon_if_ok by metis
    show ?thesis
    proof (cases "d1 = d2")
      case eq: True
      have "p1 - cptr1_start \<le> n" "p1 \<le> cbuf_end s" using 1(2,3) 2(2,3) by linarith+
      then show ?thesis using 2(1) [OF _ _ 1(1) refl p2 refl d] True 1 p2 d eq b by simp
    qed (use True 1 p2 d b in auto)
  next
    case False
    then show ?thesis using 2(4) by auto
  qed
qed auto

lemma range_loop_ok:
  assumes "\<And>i. i < N \<Longrightarrow> get (pc + i * (2 * w)) \<noteq> None \<and> get (pc + i * (2 * w) + w) \<noteq> None" "N \<le> 65536"
    and "get pc = Some low0" "low0 \<le> c"
    and "unat idx_max < N" "unat idx_max + 1 - unat idx_min \<le> k" "unat idx_min \<le> N"
  shows "\<exists>m. range_loop get w pc c k idx_min idx_max = Some m"
  using assms(5-)
proof (induction k arbitrary: idx_min idx_max)
  case 0
  then have "unat idx_max < unat idx_min" by linarith
  then show ?case by (auto simp: word_le_nat_alt)
next
  case (Suc k)
  show ?case
  proof (cases "idx_min \<le> idx_max")
    case True
    define idx where "idx = (idx_min + idx_max) div 2"
    have le: "unat idx_min \<le> unat idx_max" using True by (simp add: word_le_nat_alt)
    have "unat (idx_min + idx_max) = unat idx_min + unat idx_max"
      by (rule unat_add_lem [THEN iffD1]) (use Suc.prems(1) assms(2) le in simp)
    then have u: "unat idx = (unat idx_min + unat idx_max) div 2" by (simp add: idx_def unat_div)
    have i: "unat idx_min \<le> unat idx" "unat idx \<le> unat idx_max" using le unfolding u by linarith+
    then have iN: "unat idx < N" using Suc.prems(1) by linarith
    obtain low high where g: "get (pc + unat idx * (2 * w)) = Some low" "get (pc + unat idx * (2 * w) + w) = Some high"
      using assms(1) [OF iN] by auto
    consider "c < low" | "\<not> c < low" "c > high" | "\<not> c < low" "\<not> c > high" by blast
    then show ?thesis
    proof cases
      case 1
      have "unat idx \<noteq> 0"
      proof
        assume "unat idx = 0"
        then have "low = low0" using g(1) assms(3) by simp
        then show False using 1 assms(4) by simp
      qed
      then have um: "unat (idx - 1) = unat idx - 1" by (simp add: unat_minus_one unat_gt_0)
      have "\<exists>m. range_loop get w pc c k idx_min (idx - 1) = Some m"
        by (rule Suc.IH) (use um \<open>unat idx \<noteq> 0\<close> i iN Suc.prems in linarith)+
      then show ?thesis using True g 1 by (simp add: idx_def [symmetric])
    next
      case 2
      have "unat (idx + 1) = unat idx + 1" 
        using unat_add_lem [THEN iffD1, of idx 1] iN assms(2) by simp
      then have "\<exists>m. range_loop get w pc c k (idx + 1) idx_max = Some m"
        by (intro Suc.IH) (use i iN Suc.prems in linarith)+
      then show ?thesis using True g 2 by (simp add: idx_def [symmetric])
    next
      case 3
      then show ?thesis using True g by (auto simp: idx_def [symmetric])
    qed
  qed auto
qed


lemma get_u16_less:
  assumes "get_u16 bc p = Some v"
  shows "unat v < 65536"
proof -
  have "take_bit 16 v = v"
    using assms by (auto simp: get_u16_def split: if_splits) (simp add: word_bits)
  then have "unat v = take_bit 16 (unat v)" by (metis unsigned_take_bit_eq)
  then show ?thesis using take_bit_nat_less_exp [of 16 "unat v"] by simp
qed

subsection \<open>Well-formed threads and saved states\<close>

definition arrays_ok :: "re_ctx \<Rightarrow> re_thread \<Rightarrow> bool" where
  "arrays_ok s t \<longleftrightarrow> length (th_capture t) = 2 * re_capture_count s \<and> length (th_stack t) = re_stack_size_max s \<and>
     (\<forall>p \<in> set (th_capture t). \<forall>q. p = Some q \<longrightarrow> q \<le> cbuf_end s)"

definition thread_ok :: "re_ctx \<Rightarrow> (nat \<times> nat) list \<Rightarrow> re_thread \<Rightarrow> bool" where
  "thread_ok s L t \<longleftrightarrow> arrays_ok s t \<and> th_stack_len t \<le> re_stack_size_max s \<and>
     map_of L (th_pc t) = Some (th_stack_len t) \<and> boundary s (th_cptr t)"

definition act_ok :: "re_ctx \<Rightarrow> (nat \<times> nat) list \<Rightarrow> re_act \<Rightarrow> bool" where
  "act_ok s L act \<longleftrightarrow>
     (case act of
        AGo t \<Rightarrow> thread_ok s L t
      | AFail t \<Rightarrow> arrays_ok s t
      | AMatch t \<Rightarrow> arrays_ok s t
      | APush type pc t \<Rightarrow> thread_ok s L t \<and> enters L (Some pc) (th_stack_len t) \<and> type \<noteq> RE_EXEC_STATE_GREEDY_QUANT
      | AQuant pc qmin qmax t \<Rightarrow> thread_ok s L t \<and> 17 \<le> pc \<and> quant_ok s L (pc - 17) (th_stack_len t) \<and>
          get_u32 (re_bc_buf s) (pc - 12) = Some qmin \<and> get_u32 (re_bc_buf s) (pc - 8) = Some qmax)"

lemma act_ok_simps [simp]:
  "act_ok s L (AGo t) = thread_ok s L t"
  "act_ok s L (AFail t) = arrays_ok s t"
  "act_ok s L (AMatch t) = arrays_ok s t"
  by (simp_all add: act_ok_def)

lemma enters_Some [simp]: "enters L (Some pc) d \<longleftrightarrow> map_of L pc = Some d"
  by (simp add: enters_def)

lemma entersE:
  assumes "enters L p d"
  obtains pc where "p = Some pc" "map_of L pc = Some d"
  using assms by (auto simp: enters_def split: option.splits)

lemma jump_okE:
  assumes "jump_ok s L pos d"
  obtains val pc where "get_u32 (re_bc_buf s) (Suc pos) = Some val" "jump_to (pos + 5) val = Some pc" "map_of L pc = Some d"
  using assms by (auto simp: jump_ok_def enters_def split: option.splits)

lemma arrays_ok_upd [simp]:
  "arrays_ok s (t\<lparr>th_pc := pc\<rparr>) = arrays_ok s t"
  "arrays_ok s (t\<lparr>th_cptr := p\<rparr>) = arrays_ok s t"
  "arrays_ok s (t\<lparr>th_stack_len := d\<rparr>) = arrays_ok s t"
  by (simp_all add: arrays_ok_def)

lemma arrays_ok_pc_first [simp]:
  "arrays_ok s (t\<lparr>th_pc := pc, th_capture := c\<rparr>) = arrays_ok s (t\<lparr>th_capture := c\<rparr>)"
  "arrays_ok s (t\<lparr>th_pc := pc, th_stack := x\<rparr>) = arrays_ok s (t\<lparr>th_stack := x\<rparr>)"
  "arrays_ok s (t\<lparr>th_stack := x, th_pc := pc\<rparr>) = arrays_ok s (t\<lparr>th_stack := x\<rparr>)"
  "arrays_ok s (t\<lparr>th_stack := x, th_stack_len := d\<rparr>) = arrays_ok s (t\<lparr>th_stack := x\<rparr>)"
  by (simp_all add: arrays_ok_def)

lemma arrays_ok_stack [simp]: "arrays_ok s t \<Longrightarrow> arrays_ok s (t\<lparr>th_stack := (th_stack t)[i := x]\<rparr>)"
  by (simp add: arrays_ok_def)

lemma arrays_ok_capture:
  assumes "arrays_ok s t" "p \<le> cbuf_end s"
  shows "arrays_ok s (t\<lparr>th_capture := (th_capture t)[i := Some p]\<rparr>)"
proof -
  have "set ((th_capture t)[i := Some p]) \<subseteq> insert (Some p) (set (th_capture t))" by (rule set_update_subset_insert)
  then show ?thesis using assms by (auto simp: arrays_ok_def)
qed

lemma set_reset_captures: "set (reset_captures c v n) \<subseteq> insert None (set c)"
proof (induction c v n rule: reset_captures.induct)
  case (2 c v n)
  have "set (c[2 * v := None, 2 * v + 1 := None]) \<subseteq> insert None (set c)"
    using set_update_subset_insert [of "c[2 * v := None]" "2 * v + 1" None] set_update_subset_insert [of c "2 * v" None] by blast
  then show ?case using 2 by auto
qed auto

lemma length_reset_captures [simp]: "length (reset_captures c v n) = length c"
  by (induction c v n rule: reset_captures.induct) auto

lemma arrays_ok_reset:
  assumes "arrays_ok s t"
  shows "arrays_ok s (t\<lparr>th_capture := reset_captures (th_capture t) v n\<rparr>)"
  using assms set_reset_captures [of "th_capture t" v n] by (fastforce simp: arrays_ok_def)

lemma go_backward_add: "go_backward s p (m + n) = (case go_backward s p m of None \<Rightarrow> None | Some q \<Rightarrow> go_backward s q n)"
  by (induction m arbitrary: p) (auto split: option.splits bind_splits)

subsection \<open>The instructions\<close>

text \<open>A test of the next character only moves the position of the thread, over that character.\<close>

definition moved :: "re_ctx \<Rightarrow> re_thread \<Rightarrow> nat \<Rightarrow> nat \<Rightarrow> re_act \<Rightarrow> bool" where
  "moved s t pc n act \<longleftrightarrow>
     (\<exists>t'. act = AFail t' \<and> th_capture t' = th_capture t \<and> th_stack t' = th_stack t) \<or>
     (\<exists>p. act = AGo (t\<lparr>th_pc := pc, th_cptr := p\<rparr>) \<and> boundary s p \<and> go_backward s p n = Some (th_cptr t))"

lemma moved_fail [simp]: "th_capture t' = th_capture t \<Longrightarrow> th_stack t' = th_stack t \<Longrightarrow> moved s t pc n (AFail t')"
  by (simp add: moved_def)

lemma moved_go: "boundary s p \<Longrightarrow> go_backward s p n = Some (th_cptr t) \<Longrightarrow> moved s t pc n (AGo (t\<lparr>th_pc := pc, th_cptr := p\<rparr>))"
  by (auto simp: moved_def)

lemma next_char:
  assumes "boundary s p" "p < cbuf_end s"
  obtains c q where "GET_CHAR s p (cbuf_end s) = Some (c, q)" "boundary s q" "go_backward s q (Suc 0) = Some p"
  using GET_CHAR_ok [of p "cbuf_end s" s] GET_CHAR_boundary [of s p] assms by (auto 0 4)

lemma test_char_moved:
  assumes "boundary s (th_cptr t)"
  shows "\<exists>act. test_char s v t = Some act \<and> moved s t (th_pc t) 1 act"
proof (cases "th_cptr t < cbuf_end s")
  case True
  obtain c q where q: "GET_CHAR s (th_cptr t) (cbuf_end s) = Some (c, q)" "boundary s q" "go_backward s q (Suc 0) = Some (th_cptr t)"
    by (rule next_char [OF assms True])
  obtain d where d: "canon_if s c = Some d" using canon_if_ok by blast
  have "moved s t (th_pc t) 1 (AGo (t\<lparr>th_cptr := q\<rparr>))" using moved_go [of s q 1 t "th_pc t"] q by simp
  then show ?thesis using True q d by (simp add: test_char_def Let_def)
qed (simp add: test_char_def)

lemma test_range_moved:
  assumes "boundary s (th_cptr t)" and n: "get_u16 (re_bc_buf s) (th_pc t) = Some n" "n \<noteq> 0"
    and w: "w = (if is32 then 4 else 2)" and len: "th_pc t + 2 + unat n * (2 * w) \<le> length (re_bc_buf s)"
  shows "\<exists>act. test_range s is32 t = Some act \<and> moved s t (th_pc t + 2 + 2 * w * unat n) 1 act"
proof (cases "th_cptr t < cbuf_end s")
  case True
  define get where "get = (if is32 then get_u32 else get_u16) (re_bc_buf s)"
  define pc where "pc = th_pc t + 2"
  obtain c q where q: "GET_CHAR s (th_cptr t) (cbuf_end s) = Some (c, q)" "boundary s q" "go_backward s q (Suc 0) = Some (th_cptr t)"
    by (rule next_char [OF assms(1) True])
  obtain d where d: "canon_if s c = Some d" using canon_if_ok by blast
  have get: "get (pc + i * (2 * w)) \<noteq> None \<and> get (pc + i * (2 * w) + w) \<noteq> None" if "i < unat n" for i
  proof -
    have "(i + 1) * (2 * w) \<le> unat n * (2 * w)" using that by (intro mult_right_mono) auto
    then have "pc + i * (2 * w) + 2 * w \<le> length (re_bc_buf s)" using len unfolding pc_def by (simp add: algebra_simps)
    then show ?thesis using w by (cases is32) (auto simp: get_def get_u16_def get_u32_def)
  qed
  have n0: "0 < unat n" using n(2) by (simp add: unat_gt_0)
  have n1: "unat (n - 1) = unat n - 1" using n(2) by (simp add: unat_minus_one)
  obtain low where low: "get pc = Some low" using get [OF n0] by auto
  obtain high where high: "get (pc + unat (n - 1) * (2 * w) + w) = Some high" using get [of "unat (n - 1)"] n0 n1 by auto
  have n16: "unat n \<le> 65536" using get_u16_less [OF n(1)] by simp
  have loop: "\<exists>m. range_loop get w pc d (unat n) 0 (n - 1) = Some m" if "\<not> d < low"
    by (rule range_loop_ok [OF get n16 low]) (use that n0 n1 in auto)
  have go: "moved s t (pc + 2 * w * unat n) 1 (AGo (t\<lparr>th_cptr := q, th_pc := pc + 2 * w * unat n\<rparr>))"
    using moved_go [of s q 1 t "pc + 2 * w * unat n"] q by (cases t) simp
  show ?thesis
    unfolding test_range_def get_def [symmetric] w [symmetric] n(1) Let_def
    using True q d low high loop go by (cases "d < low") (auto simp: pc_def)
next
  case False
  show ?thesis unfolding test_range_def n(1) Let_def using False by simp
qed

end
