(* ===== verification/RegexpStep.thy ===== *)
theory RegexpStep
  imports RegexpSafe
begin

text \<open>Every instruction of verified bytecode is defined, and keeps the threads well-formed.\<close>

unbundle bit_operations_syntax

definition consuming :: "REOPCode \<Rightarrow> bool" where
  "consuming opcode \<longleftrightarrow> opcode \<in> {REOP_range, REOP_range32, REOP_char, REOP_char32, REOP_dot, REOP_any}"

definition asserting :: "REOPCode \<Rightarrow> bool" where
  "asserting opcode \<longleftrightarrow> opcode \<in> {REOP_line_start, REOP_line_end, REOP_word_boundary, REOP_not_word_boundary}"

lemma moved_pc [simp]: "moved s (t\<lparr>th_pc := x\<rparr>) pc n act = moved s t pc n act"
  by (simp add: moved_def)

lemma Suc_add_num [simp]: "Suc (n + numeral k) = n + numeral (k + num.One)"
  by (simp add: add_Suc_right [symmetric] del: add_Suc_right)

lemma Suc3 [simp]: "Suc (Suc (Suc n)) = n + 3"
  by simp

lemma get_u16_Some: "p + 2 \<le> length bc \<Longrightarrow> \<exists>v. get_u16 bc p = Some v"
  by (simp add: get_u16_def)

lemma get_u32_Some: "p + 4 \<le> length bc \<Longrightarrow> \<exists>v. get_u32 bc p = Some v"
  by (simp add: get_u32_def)

lemma moved_stay: "boundary s (th_cptr t) \<Longrightarrow> moved s t pc 0 (AGo (t\<lparr>th_pc := pc\<rparr>))"
  unfolding moved_def by (rule disjI2, rule exI [of _ "th_cptr t"]) (cases t, simp)

lemma boundary_le: "boundary s p \<Longrightarrow> p \<le> cbuf_end s"
  by (simp add: boundary_def)

lemma word_boundary_moved:
  assumes "boundary s (th_cptr t)"
  shows "\<exists>act. word_boundary_test s b t = Some act \<and> moved s t (th_pc t) 0 act"
proof -
  obtain v1 where v1: "(if th_cptr t = 0 then Some False else map_option is_word_char (PEEK_PREV_CHAR s (th_cptr t) 0)) = Some v1"
    using PEEK_PREV_CHAR_ok [of "th_cptr t" s 0] boundary_le [OF assms] by (cases "th_cptr t = 0") auto
  obtain v2 where v2: "(if th_cptr t \<ge> cbuf_end s then Some False else map_option is_word_char (PEEK_CHAR s (th_cptr t) (cbuf_end s))) = Some v2"
    using PEEK_CHAR_ok [of "th_cptr t" "cbuf_end s" s] assms by (cases "th_cptr t \<ge> cbuf_end s") (auto simp: not_le)
  show ?thesis unfolding word_boundary_test_def v1 v2 using moved_stay [OF assms, of "th_pc t"] by simp
qed

lemma get_char_act:
  assumes "boundary s (th_cptr t)" "th_cptr t < cbuf_end s"
  obtains c q where "GET_CHAR s (th_cptr t) (cbuf_end s) = Some (c, q)"
    "\<And>pc. moved s t pc (Suc 0) (AGo (t\<lparr>th_pc := pc, th_cptr := q\<rparr>))"
  using next_char [OF assms] moved_go [of s _ "Suc 0" t] by metis

lemma simple_instr:
  assumes op: "reop_at (re_bc_buf s) (th_pc t) = Some opcode" and len: "instr_len (re_bc_buf s) (th_pc t) opcode = Some len"
    and "th_pc t + len \<le> length (re_bc_buf s)" and b: "boundary s (th_cptr t)"
    and r: "opcode \<in> {REOP_range, REOP_range32} \<Longrightarrow> get_u16 (re_bc_buf s) (th_pc t + 1) \<noteq> Some 0"
    and "consuming opcode \<or> asserting opcode"
  shows "\<exists>act. re_instr s t = Some act \<and> moved s t (th_pc t + len) (if consuming opcode then 1 else 0) act"
proof -
  note d = re_instr_def reopcode_size_def instr_len_def consuming_def asserting_def op
  have p: "0 < th_cptr t \<Longrightarrow> \<exists>c. PEEK_PREV_CHAR s (th_cptr t) 0 = Some c"
    using PEEK_PREV_CHAR_ok b by (simp add: boundary_le)
  have q: "th_cptr t \<noteq> cbuf_end s \<Longrightarrow> \<exists>c. PEEK_CHAR s (th_cptr t) (cbuf_end s) = Some c"
    using PEEK_CHAR_ok [of "th_cptr t" "cbuf_end s" s] boundary_le [OF b] by simp
  have n: "th_cptr t \<noteq> cbuf_end s \<Longrightarrow> th_cptr t < cbuf_end s" using boundary_le [OF b] by simp
  have g: "\<exists>c q. GET_CHAR s (th_cptr t) (cbuf_end s) = Some (c, q) \<and> (\<forall>pc. moved s t pc (Suc 0) (AGo (t\<lparr>th_pc := pc, th_cptr := q\<rparr>)))"
    if "th_cptr t \<noteq> cbuf_end s"
    using get_char_act [OF b n [OF that]] by metis
  have rng: ?thesis if opc: "opcode = (if is32 then REOP_range32 else REOP_range)" for is32
  proof -
    define w where "w = (if is32 then 4 else 2 :: nat)"
    obtain v where v: "get_u16 (re_bc_buf s) (th_pc t + 1) = Some v" "v \<noteq> 0" "len = 3 + unat v * (2 * w)"
      using opc len r by (cases is32) (auto simp: instr_len_def reopcode_size_def w_def split: bind_splits)
    have "\<exists>act. test_range s is32 (t\<lparr>th_pc := th_pc t + 1\<rparr>) = Some act \<and> moved s (t\<lparr>th_pc := th_pc t + 1\<rparr>) (th_pc t + 1 + 2 + 2 * w * unat v) 1 act"
      using test_range_moved [of s "t\<lparr>th_pc := th_pc t + 1\<rparr>" v w is32] b v assms(3) w_def by simp
    then show ?thesis using opc v(3) by (cases is32) (auto simp: d ac_simps)
  qed
  show ?thesis
  proof (cases opcode)
    case REOP_range then show ?thesis using rng [of False] by simp
  next
    case REOP_range32 then show ?thesis using rng [of True] by simp
  next
    case REOP_char
    with assms test_char_moved [of s "t\<lparr>th_pc := th_pc t + 3\<rparr>"] get_u16_Some [of "th_pc t + 1" "re_bc_buf s"] show ?thesis by (auto simp: d)
  next
    case REOP_char32
    with assms test_char_moved [of s "t\<lparr>th_pc := th_pc t + 5\<rparr>"] get_u32_Some [of "th_pc t + 1" "re_bc_buf s"] show ?thesis by (auto simp: d)
  next
    case REOP_dot
    with assms g show ?thesis by (cases "th_cptr t = cbuf_end s") (auto simp: d Let_def)
  next
    case REOP_any
    with assms g show ?thesis by (cases "th_cptr t = cbuf_end s") (auto simp: d Let_def)
  next
    case REOP_line_start
    with assms p moved_stay [OF b] show ?thesis by (auto simp: d Let_def)
  next
    case REOP_line_end
    with assms q moved_stay [OF b] show ?thesis by (auto simp: d Let_def)
  next
    case REOP_word_boundary
    with assms word_boundary_moved [of s "t\<lparr>th_pc := Suc (th_pc t)\<rparr>" False] show ?thesis by (auto simp: d)
  next
    case REOP_not_word_boundary
    with assms word_boundary_moved [of s "t\<lparr>th_pc := Suc (th_pc t)\<rparr>" True] show ?thesis by (auto simp: d)
  qed (use assms(6) in \<open>simp_all add: consuming_def asserting_def\<close>)
qed

lemma act_ok_moved:
  assumes "moved s t pc n act" "arrays_ok s t" "map_of L pc = Some (th_stack_len t)" "th_stack_len t \<le> re_stack_size_max s"
  shows "act_ok s L act"
  using assms by (auto simp: moved_def thread_ok_def) (auto simp: arrays_ok_def)

lemma back_reference_ok:
  assumes t: "arrays_ok s t" "boundary s (th_cptr t)" and pc: "th_pc t < length (re_bc_buf s)"
    and L: "map_of L (th_pc t + 1) = Some (th_stack_len t)" "th_stack_len t \<le> re_stack_size_max s"
  shows "\<exists>act. back_reference s bw t = Some act \<and> act_ok s L act"
proof -
  define val where "val = unat (re_bc_buf s ! th_pc t)"
  show ?thesis
  proof (cases "val < re_capture_count s")
    case True
    then have len: "2 * val + 1 < length (th_capture t)" using t(1) by (simp add: arrays_ok_def)
    show ?thesis
    proof (cases "th_capture t ! (2 * val)"; cases "th_capture t ! (2 * val + 1)")
      fix p q
      assume pq: "th_capture t ! (2 * val) = Some p" "th_capture t ! (2 * val + 1) = Some q"
      have "Some q \<in> set (th_capture t)" using len pq(2) nth_mem [of "2 * val + 1" "th_capture t"] by simp
      then have q: "q \<le> cbuf_end s" using t(1) by (auto simp: arrays_ok_def)
      obtain m r where l: "(if \<not> bw then back_ref_loop s (q - p) p q (th_cptr t) else back_back_ref_loop s (q - p) q p (th_cptr t)) = Some (m, r)"
        and r: "boundary s r"
        using back_ref_loop_ok [OF q _ t(2), of p "q - p"] back_back_ref_loop_ok [OF q _ t(2), of p "q - p"] by (cases bw) auto
      then show ?thesis using True pc len pq t L l
        by (auto simp: back_reference_def rd_def val_def [symmetric] Let_def thread_ok_def)
    qed (use True pc len t L in \<open>auto simp: back_reference_def rd_def val_def [symmetric] Let_def thread_ok_def\<close>)
  qed (use t pc in \<open>simp add: back_reference_def rd_def val_def [symmetric] Let_def\<close>)
qed

lemma jump_ok_to:
  assumes "jump_ok s L pos d"
  shows "\<exists>val pc. get_u32 (re_bc_buf s) (Suc pos) = Some val \<and> jump_to (pos + 5) val = Some pc \<and> map_of L pc = Some d"
  using assms by (rule jump_okE) blast

lemma operand8_okE:
  assumes "operand8_ok s p"
  shows "\<exists>v. rd (re_bc_buf s) p = Some v \<and> unat v < re_capture_count s"
  using assms by (auto simp: operand8_ok_def split: option.splits)

lemma re_instr_ok:
  assumes v: "list_all (instr_verified s L) L" and t: "thread_ok s L t"
  shows "\<exists>act. re_instr s t = Some act \<and> act_ok s L act"
proof -
  define d where "d = th_stack_len t"
  have a: "arrays_ok s t" and b: "boundary s (th_cptr t)" and dm: "d \<le> re_stack_size_max s" and L: "map_of L (th_pc t) = Some d"
    using t by (simp_all add: thread_ok_def d_def)
  have "(th_pc t, d) \<in> set L" using L by (rule map_of_SomeD)
  then have iv: "instr_verified s L (th_pc t, d)" using v by (simp add: list_all_iff)
  then obtain opcode len where op: "reop_at (re_bc_buf s) (th_pc t) = Some opcode"
    and len: "instr_len (re_bc_buf s) (th_pc t) opcode = Some len" "th_pc t + len \<le> length (re_bc_buf s)"
    by (auto simp: instr_verified_def Let_def split: option.splits)
  note iv = iv [unfolded instr_verified_def Let_def prod.case op option.case len(1)]
  have sa: "length (th_stack t) = re_stack_size_max s" using a by (simp add: arrays_ok_def)
  note simps = re_instr_def op Let_def thread_ok_def a b L d_def [symmetric]
  show ?thesis
  proof (cases "consuming opcode \<or> asserting opcode")
    case True
    have "map_of L (th_pc t + len) = Some d" using True iv by (auto simp: consuming_def asserting_def)
    moreover have "get_u16 (re_bc_buf s) (th_pc t + 1) \<noteq> Some 0" if "opcode \<in> {REOP_range, REOP_range32}"
      using that iv by auto
    ultimately show ?thesis
      using simple_instr [OF op len b _ True] act_ok_moved [OF _ a, of "th_pc t + len" _ _ L] dm by (auto simp: d_def)
  next
    case False
    show ?thesis
    proof (cases opcode)
      case REOP_back_reference
      with iv len op show ?thesis
        using back_reference_ok [of s "t\<lparr>th_pc := th_pc t + 1\<rparr>" L False] a b dm
        by (simp add: simps) (simp add: instr_len_def reopcode_size_def d_def)
    next
      case REOP_backward_back_reference
      with iv len op show ?thesis
        using back_reference_ok [of s "t\<lparr>th_pc := th_pc t + 1\<rparr>" L True] a b dm
        by (simp add: simps) (simp add: instr_len_def reopcode_size_def d_def)
    next
      case REOP_prev
      with iv len show ?thesis
        using PREV_CHAR_ok [of "th_cptr t" s] a b dm
        by (cases "th_cptr t = 0") (auto simp: simps instr_len_def reopcode_size_def)
    next
      case REOP_simple_greedy_quant
      with iv len op show ?thesis using a b dm L
        by (auto simp: simps act_ok_def quant_ok_def elim!: entersE split: option.splits) (simp_all add: add.commute)
    next
      case REOP_save_start
      with iv len op show ?thesis using a b dm operand8_okE [of s "Suc (th_pc t)"] arrays_ok_capture [OF a boundary_le [OF b]]
        by (auto simp: simps instr_len_def reopcode_size_def)
    next
      case REOP_save_end
      with iv len op show ?thesis using a b dm operand8_okE [of s "Suc (th_pc t)"] arrays_ok_capture [OF a boundary_le [OF b]]
        by (auto simp: simps instr_len_def reopcode_size_def)
    next
      case REOP_save_reset
      with iv len op show ?thesis using a b dm operand8_okE [of s "th_pc t + 2"] arrays_ok_reset [OF a]
        by (auto simp: simps instr_len_def reopcode_size_def rd_def)
    next
      case REOP_push_i32
      with iv len op show ?thesis using a b dm get_u32_Some [of "th_pc t + 1" "re_bc_buf s"] sa
        by (auto simp: simps instr_len_def reopcode_size_def push_val_def)
    next
      case REOP_push_char_pos
      with iv len op show ?thesis using a b dm sa
        by (auto simp: simps instr_len_def reopcode_size_def push_val_def)
    next
      case REOP_drop
      with iv len op show ?thesis using a b dm sa
        by (auto simp: simps instr_len_def reopcode_size_def)
    next
      case REOP_check_advance
      with iv len op show ?thesis using a b dm sa
        by (auto simp: simps instr_len_def reopcode_size_def rd_def)
    next
      case REOP_loop
      with iv len op show ?thesis using a b dm sa jump_ok_to [of s L "th_pc t" d]
        by (auto simp: simps instr_len_def reopcode_size_def rd_def)
    qed (use False iv len op a b dm jump_ok_to [of s L "th_pc t" d] in
          \<open>auto simp: simps instr_len_def reopcode_size_def act_ok_def consuming_def asserting_def\<close>)
  qed
qed

end
