(* ===== verification/RegexpSem.thy ===== *)
theory RegexpSem
  imports RegexpStep
begin

text \<open>
  What a bytecode means, without the explicit stack of saved states: a thread matches, with the
  thread at the end of the match, or it fails.
\<close>

unbundle bit_operations_syntax

subsection \<open>The semantics\<close>

text \<open>
  \<open>re_eval s t u\<close>: the thread \<open>t\<close> ends in a match with the thread \<open>u\<close>, or fails (\<open>None\<close>).
  \<open>re_reps\<close> collects the positions after each iteration of the atom of a greedy loop, of which there
  are \<open>q\<close> already, and \<open>re_alts\<close> tries to go on from each of some positions in turn.
\<close>

inductive re_eval :: "re_ctx \<Rightarrow> re_thread \<Rightarrow> re_thread option \<Rightarrow> bool"
  and re_reps :: "re_ctx \<Rightarrow> nat \<Rightarrow> u32 \<Rightarrow> re_thread \<Rightarrow> int \<Rightarrow> nat list \<Rightarrow> bool"
  and re_alts :: "re_ctx \<Rightarrow> re_thread \<Rightarrow> nat list \<Rightarrow> re_thread option \<Rightarrow> bool"
where
  eval_go: "re_instr s t = Some (AGo t') \<Longrightarrow> re_eval s t' u \<Longrightarrow> re_eval s t u"
| eval_fail: "re_instr s t = Some (AFail t') \<Longrightarrow> re_eval s t None"
| eval_match: "re_instr s t = Some (AMatch t') \<Longrightarrow> re_eval s t (Some t')"
| eval_split_first: "re_instr s t = Some (APush RE_EXEC_STATE_SPLIT pc t') \<Longrightarrow> re_eval s t' (Some u) \<Longrightarrow> re_eval s t (Some u)"
| eval_split_second: "re_instr s t = Some (APush RE_EXEC_STATE_SPLIT pc t') \<Longrightarrow> re_eval s t' None \<Longrightarrow>
    re_eval s (t'\<lparr>th_pc := pc\<rparr>) u \<Longrightarrow> re_eval s t u"
| eval_look: "re_instr s t = Some (APush RE_EXEC_STATE_LOOKAHEAD pc t') \<Longrightarrow> re_eval s t' (Some v) \<Longrightarrow>
    re_eval s (t'\<lparr>th_capture := th_capture v, th_pc := pc\<rparr>) u \<Longrightarrow> re_eval s t u"
| eval_look_fails: "re_instr s t = Some (APush RE_EXEC_STATE_LOOKAHEAD pc t') \<Longrightarrow> re_eval s t' None \<Longrightarrow> re_eval s t None"
| eval_neg: "re_instr s t = Some (APush RE_EXEC_STATE_NEGATIVE_LOOKAHEAD pc t') \<Longrightarrow> re_eval s t' None \<Longrightarrow>
    re_eval s (t'\<lparr>th_pc := pc\<rparr>) u \<Longrightarrow> re_eval s t u"
| eval_neg_fails: "re_instr s t = Some (APush RE_EXEC_STATE_NEGATIVE_LOOKAHEAD pc t') \<Longrightarrow> re_eval s t' (Some v) \<Longrightarrow> re_eval s t None"
| eval_quant: "re_instr s t = Some (AQuant pc qmin qmax t') \<Longrightarrow> re_reps s pc qmax t' 0 ps \<Longrightarrow>
    re_alts s t' (rev (drop (unat qmin) (th_cptr t' # ps))) u \<Longrightarrow> re_eval s t u"
| reps_stop: "re_eval s (t\<lparr>th_pc := pc\<rparr>) None \<Longrightarrow> re_reps s pc qmax t q []"
| reps_last: "re_eval s (t\<lparr>th_pc := pc\<rparr>) (Some v) \<Longrightarrow> q + 1 \<ge> uint qmax \<and> qmax \<noteq> 0x7fffffff \<Longrightarrow> re_reps s pc qmax t q [th_cptr v]"
| reps_more: "re_eval s (t\<lparr>th_pc := pc\<rparr>) (Some v) \<Longrightarrow> \<not> (q + 1 \<ge> uint qmax \<and> qmax \<noteq> 0x7fffffff) \<Longrightarrow>
    re_reps s pc qmax (t\<lparr>th_cptr := th_cptr v\<rparr>) (q + 1) ps \<Longrightarrow> re_reps s pc qmax t q (th_cptr v # ps)"
| alts_none: "re_alts s t [] None"
| alts_here: "re_eval s (t\<lparr>th_cptr := p\<rparr>) (Some u) \<Longrightarrow> re_alts s t (p # ps) (Some u)"
| alts_next: "re_eval s (t\<lparr>th_cptr := p\<rparr>) None \<Longrightarrow> re_alts s t ps u \<Longrightarrow> re_alts s t (p # ps) u"

inductive_cases re_evalE: "re_eval s t u"
inductive_cases re_repsE: "re_reps s pc qmax t q ps"
inductive_cases re_altsE: "re_alts s t ps u"

lemma re_eval_deterministic:
  "re_eval s t u \<Longrightarrow> re_eval s t u' \<Longrightarrow> u' = u"
  "re_reps s pc qmax t q ps \<Longrightarrow> re_reps s pc qmax t q ps' \<Longrightarrow> ps' = ps"
  "re_alts s t cs u \<Longrightarrow> re_alts s t cs u' \<Longrightarrow> u' = u"
proof (induction arbitrary: u' and ps' and u' rule: re_eval_re_reps_re_alts.inducts)
  case (eval_go s t t' u) from eval_go.prems show ?case
    by (rule re_evalE) (use eval_go.hyps in \<open>auto dest: eval_go.IH\<close>)
next
  case (eval_fail s t t') from eval_fail.prems show ?case
    by (rule re_evalE) (use eval_fail.hyps in auto)
next
  case (eval_match s t t') from eval_match.prems show ?case
    by (rule re_evalE) (use eval_match.hyps in auto)
next
  case (eval_split_first s t pc t' u) from eval_split_first.prems show ?case
    by (rule re_evalE) (use eval_split_first.hyps in \<open>auto dest: eval_split_first.IH\<close>)
next
  case (eval_split_second s t pc t' u) from eval_split_second.prems show ?case
    by (rule re_evalE) (use eval_split_second.hyps in \<open>auto dest: eval_split_second.IH\<close>)
next
  case (eval_look s t pc t' v u) from eval_look.prems show ?case
    by (rule re_evalE) (use eval_look.hyps in \<open>auto dest: eval_look.IH\<close>)
next
  case (eval_look_fails s t pc t') from eval_look_fails.prems show ?case
    by (rule re_evalE) (use eval_look_fails.hyps in \<open>auto dest: eval_look_fails.IH\<close>)
next
  case (eval_neg s t pc t' u) from eval_neg.prems show ?case
    by (rule re_evalE) (use eval_neg.hyps in \<open>auto dest: eval_neg.IH\<close>)
next
  case (eval_neg_fails s t pc t' v) from eval_neg_fails.prems show ?case
    by (rule re_evalE) (use eval_neg_fails.hyps in \<open>auto dest: eval_neg_fails.IH\<close>)
next
  case (eval_quant s t pc qmin qmax t' ps u) from eval_quant.prems show ?case
    by (rule re_evalE) (use eval_quant.hyps in \<open>auto dest: eval_quant.IH\<close>)
next
  case (reps_stop s t pc qmax q) from reps_stop.prems show ?case
    by (rule re_repsE) (use reps_stop.hyps in \<open>auto dest: reps_stop.IH\<close>)
next
  case (reps_last s t pc v q qmax) from reps_last.prems show ?case
    by (rule re_repsE) (use reps_last.hyps in \<open>auto dest: reps_last.IH\<close>)
next
  case (reps_more s t pc v q qmax ps) from reps_more.prems show ?case
    by (rule re_repsE) (use reps_more.hyps(2) reps_more.IH in \<open>metis option.distinct(1) option.inject\<close>)+
next
  case (alts_none s t) from alts_none.prems show ?case
    by (rule re_altsE) auto
next
  case (alts_here s t p u ps) from alts_here.prems show ?case
    by (rule re_altsE) (use alts_here.hyps in \<open>auto dest: alts_here.IH\<close>)
next
  case (alts_next s t p ps u) from alts_next.prems show ?case
    by (rule re_altsE) (use alts_next.hyps in \<open>auto dest: alts_next.IH\<close>)
qed

subsection \<open>Threads that differ above the top of the stack\<close>

text \<open>The entries of the stack array above its top are left over from other threads, and never read.\<close>

definition similar :: "re_thread \<Rightarrow> re_thread \<Rightarrow> bool" where
  "similar t t' \<longleftrightarrow> th_capture t' = th_capture t \<and> th_pc t' = th_pc t \<and> th_cptr t' = th_cptr t \<and> th_stack_len t' = th_stack_len t \<and>
     length (th_stack t') = length (th_stack t) \<and> take (th_stack_len t) (th_stack t') = take (th_stack_len t) (th_stack t)"

lemma similar_refl [simp]: "similar t t"
  by (simp add: similar_def)

fun similar_act :: "re_act \<Rightarrow> re_act \<Rightarrow> bool" where
  "similar_act (AGo t) a = (\<exists>t'. a = AGo t' \<and> similar t t')"
| "similar_act (AFail t) a = (\<exists>t'. a = AFail t')"
| "similar_act (AMatch t) a = (\<exists>t'. a = AMatch t' \<and> th_capture t' = th_capture t \<and> th_cptr t' = th_cptr t)"
| "similar_act (APush ty pc t) a = (\<exists>t'. a = APush ty pc t' \<and> similar t t')"
| "similar_act (AQuant pc qmin qmax t) a = (\<exists>t'. a = AQuant pc qmin qmax t' \<and> similar t t')"

lemma take_eq_nth: "take n xs = take n ys \<Longrightarrow> i < n \<Longrightarrow> length xs = length ys \<Longrightarrow> xs ! i = ys ! i"
  by (metis nth_take)

lemma take_eq_le: "take n xs = take n ys \<Longrightarrow> m \<le> n \<Longrightarrow> take m xs = take m ys"
  by (metis min.absorb1 take_take)

lemma similar_char:
  assumes "similar t t'" "test_char s v t = Some a"
  shows "\<exists>a'. test_char s v t' = Some a' \<and> similar_act a a'"
  using assms by (auto simp: test_char_def similar_def Let_def split: if_split_asm Option.bind_split_asm)

lemma similar_range:
  assumes "similar t t'" "test_range s b t = Some a"
  shows "\<exists>a'. test_range s b t' = Some a' \<and> similar_act a a'"
  using assms by (auto simp: test_range_def similar_def Let_def split: if_split_asm Option.bind_split_asm)

lemma similar_back_reference:
  assumes "similar t t'" "back_reference s b t = Some a"
  shows "\<exists>a'. back_reference s b t' = Some a' \<and> similar_act a a'"
  using assms by (auto simp: back_reference_def similar_def Let_def split: if_split_asm Option.bind_split_asm option.split_asm)

lemma similar_word_boundary:
  assumes "similar t t'" "word_boundary_test s b t = Some a"
  shows "\<exists>a'. word_boundary_test s b t' = Some a' \<and> similar_act a a'"
  using assms by (auto simp: word_boundary_test_def similar_def Let_def split: if_split_asm Option.bind_split_asm option.split_asm)

lemma similar_pc: "similar t t' \<Longrightarrow> similar (t\<lparr>th_pc := pc\<rparr>) (t'\<lparr>th_pc := pc\<rparr>)"
  by (simp add: similar_def)

lemma similar_instr:
  assumes "similar t t'" "re_instr s t = Some a"
  shows "\<exists>a'. re_instr s t' = Some a' \<and> similar_act a a'"
proof -
  have pc: "th_pc t' = th_pc t" using assms(1) by (simp add: similar_def)
  obtain opcode where op: "reop_at (re_bc_buf s) (th_pc t) = Some opcode" 
    using assms(2) unfolding re_instr_def Let_def by (auto split: Option.bind_split_asm)
  note i = assms(2) [unfolded re_instr_def op Let_def bind.bind_lunit]
  note d = re_instr_def op pc Let_def
  note sim = assms(1) [unfolded similar_def]
  show ?thesis
  proof (cases opcode)
    case REOP_char
    with i similar_char [OF similar_pc [OF assms(1)]] show ?thesis by (auto simp: d split: Option.bind_split_asm)
  next
    case REOP_char32
    with i similar_char [OF similar_pc [OF assms(1)]] show ?thesis by (auto simp: d split: Option.bind_split_asm)
  next
    case REOP_range
    with i similar_range [OF similar_pc [OF assms(1)]] show ?thesis by (auto simp: d split: Option.bind_split_asm)
  next
    case REOP_range32
    with i similar_range [OF similar_pc [OF assms(1)]] show ?thesis by (auto simp: d split: Option.bind_split_asm)
  next
    case REOP_back_reference
    with i similar_back_reference [OF similar_pc [OF assms(1)]] show ?thesis by (auto simp: d split: Option.bind_split_asm)
  next
    case REOP_backward_back_reference
    with i similar_back_reference [OF similar_pc [OF assms(1)]] show ?thesis by (auto simp: d split: Option.bind_split_asm)
  next
    case REOP_word_boundary
    with i similar_word_boundary [OF similar_pc [OF assms(1)]] show ?thesis by (auto simp: d split: Option.bind_split_asm)
  next
    case REOP_not_word_boundary
    with i similar_word_boundary [OF similar_pc [OF assms(1)]] show ?thesis by (auto simp: d split: Option.bind_split_asm)
  next
    case REOP_push_i32
    with i sim show ?thesis by (auto simp: d similar_def push_val_def take_Suc_conv_app_nth split: if_split_asm Option.bind_split_asm)
  next
    case REOP_push_char_pos
    with i sim show ?thesis by (auto simp: d similar_def push_val_def take_Suc_conv_app_nth split: if_split_asm Option.bind_split_asm)
  next
    case REOP_drop
    with i sim take_eq_le [of "th_stack_len t" "th_stack t'" "th_stack t" "th_stack_len t - 1"] show ?thesis
      by (auto simp: d similar_def split: if_split_asm Option.bind_split_asm)
  next
    case REOP_check_advance
    have "th_stack t' ! (th_stack_len t - 1) = th_stack t ! (th_stack_len t - 1)" if "th_stack_len t \<noteq> 0"
      by (rule take_eq_nth [of "th_stack_len t"]) (use sim that in auto)
    with i sim REOP_check_advance take_eq_le [of "th_stack_len t" "th_stack t'" "th_stack t" "th_stack_len t - 1"] show ?thesis
      by (auto simp: d similar_def rd_def split: if_split_asm Option.bind_split_asm)
  next
    case REOP_loop
    have "th_stack t' ! (th_stack_len t - 1) = th_stack t ! (th_stack_len t - 1)" if "th_stack_len t \<noteq> 0"
      by (rule take_eq_nth [of "th_stack_len t"]) (use sim that in auto)
    with i sim REOP_loop show ?thesis
      by (auto simp: d similar_def rd_def take_update_swap split: if_split_asm Option.bind_split_asm)
  qed (use i sim in \<open>auto simp: d similar_def split: if_split_asm Option.bind_split_asm\<close>)
qed

text \<open>Similar threads have the same outcome.\<close>

definition same_end :: "re_thread option \<Rightarrow> re_thread option \<Rightarrow> bool" where
  "same_end u u' \<longleftrightarrow> map_option (\<lambda>t. (th_capture t, th_cptr t)) u' = map_option (\<lambda>t. (th_capture t, th_cptr t)) u"

lemma same_end_None [simp]: "same_end None u \<longleftrightarrow> u = None"
  by (auto simp: same_end_def)

lemma same_end_Some: "same_end (Some t) u \<Longrightarrow> \<exists>t'. u = Some t' \<and> th_capture t' = th_capture t \<and> th_cptr t' = th_cptr t"
  by (auto simp: same_end_def)

lemma similar_cptr: "similar t t' \<Longrightarrow> similar (t\<lparr>th_cptr := p\<rparr>) (t'\<lparr>th_cptr := p\<rparr>)"
  by (simp add: similar_def)

lemma similar_capture: "similar t t' \<Longrightarrow> similar (t\<lparr>th_capture := c\<rparr>) (t'\<lparr>th_capture := c\<rparr>)"
  by (simp add: similar_def)

lemma re_eval_similar:
  "re_eval s t u \<Longrightarrow> similar t t2 \<Longrightarrow> \<exists>u2. re_eval s t2 u2 \<and> same_end u u2"
  "re_reps s pc qmax t q ps \<Longrightarrow> similar t t2 \<Longrightarrow> re_reps s pc qmax t2 q ps"
  "re_alts s t cs u \<Longrightarrow> similar t t2 \<Longrightarrow> \<exists>u2. re_alts s t2 cs u2 \<and> same_end u u2"
proof (induction arbitrary: t2 and t2 and t2 rule: re_eval_re_reps_re_alts.inducts)
  case (eval_go s t t' u)
  obtain t2' where "re_instr s t2 = Some (AGo t2')" "similar t' t2'" using similar_instr [OF eval_go.prems eval_go.hyps(1)] by auto
  then show ?case using eval_go.IH re_eval_re_reps_re_alts.eval_go by blast
next
  case (eval_fail s t t')
  then show ?case using similar_instr [OF eval_fail.prems eval_fail.hyps(1)] by (auto intro!: exI [of _ None] intro: re_eval_re_reps_re_alts.eval_fail)
next
  case (eval_match s t t')
  then obtain t2' where "re_instr s t2 = Some (AMatch t2')" "th_capture t2' = th_capture t'" "th_cptr t2' = th_cptr t'"
    using similar_instr [OF eval_match.prems eval_match.hyps(1)] by auto
  then show ?case by (intro exI [of _ "Some t2'"]) (auto simp: same_end_def intro: re_eval_re_reps_re_alts.eval_match)
next
  case (eval_split_first s t pc t' u)
  obtain t2' where i: "re_instr s t2 = Some (APush RE_EXEC_STATE_SPLIT pc t2')" and sim: "similar t' t2'"
    using similar_instr [OF eval_split_first.prems eval_split_first.hyps(1)] by auto
  show ?case using eval_split_first.IH [OF sim] re_eval_re_reps_re_alts.eval_split_first [OF i] by (auto dest!: same_end_Some simp: same_end_def)
next
  case (eval_split_second s t pc t' u)
  obtain t2' where i: "re_instr s t2 = Some (APush RE_EXEC_STATE_SPLIT pc t2')" and sim: "similar t' t2'"
    using similar_instr [OF eval_split_second.prems eval_split_second.hyps(1)] by auto
  show ?case using eval_split_second.IH(1) [OF sim] eval_split_second.IH(2) [OF similar_pc [OF sim]]
      re_eval_re_reps_re_alts.eval_split_second [OF i] by auto
next
  case (eval_look s t pc t' v u)
  obtain t2' where i: "re_instr s t2 = Some (APush RE_EXEC_STATE_LOOKAHEAD pc t2')" and sim: "similar t' t2'"
    using similar_instr [OF eval_look.prems eval_look.hyps(1)] by auto
  obtain v2 where v2: "re_eval s t2' (Some v2)" "th_capture v2 = th_capture v"
    using eval_look.IH(1) [OF sim] by (auto dest!: same_end_Some)
  show ?case using eval_look.IH(2) [OF similar_pc [OF similar_capture [OF sim]]] re_eval_re_reps_re_alts.eval_look [OF i v2(1)] v2(2) by auto
next
  case (eval_look_fails s t pc t')
  obtain t2' where i: "re_instr s t2 = Some (APush RE_EXEC_STATE_LOOKAHEAD pc t2')" and sim: "similar t' t2'"
    using similar_instr [OF eval_look_fails.prems eval_look_fails.hyps(1)] by auto
  show ?case using eval_look_fails.IH [OF sim] re_eval_re_reps_re_alts.eval_look_fails [OF i] by auto
next
  case (eval_neg s t pc t' u)
  obtain t2' where i: "re_instr s t2 = Some (APush RE_EXEC_STATE_NEGATIVE_LOOKAHEAD pc t2')" and sim: "similar t' t2'"
    using similar_instr [OF eval_neg.prems eval_neg.hyps(1)] by auto
  show ?case using eval_neg.IH(1) [OF sim] eval_neg.IH(2) [OF similar_pc [OF sim]] re_eval_re_reps_re_alts.eval_neg [OF i] by auto
next
  case (eval_neg_fails s t pc t' v)
  obtain t2' where i: "re_instr s t2 = Some (APush RE_EXEC_STATE_NEGATIVE_LOOKAHEAD pc t2')" and sim: "similar t' t2'"
    using similar_instr [OF eval_neg_fails.prems eval_neg_fails.hyps(1)] by auto
  show ?case using eval_neg_fails.IH [OF sim] re_eval_re_reps_re_alts.eval_neg_fails [OF i] by (auto dest!: same_end_Some)
next
  case (eval_quant s t pc qmin qmax t' ps u)
  obtain t2' where i: "re_instr s t2 = Some (AQuant pc qmin qmax t2')" and sim: "similar t' t2'"
    using similar_instr [OF eval_quant.prems eval_quant.hyps(1)] by auto
  have c: "th_cptr t2' = th_cptr t'" using sim by (simp add: similar_def)
  show ?case using eval_quant.IH(2) [OF sim] re_eval_re_reps_re_alts.eval_quant [OF i eval_quant.IH(1) [OF sim]] unfolding c by blast
next
  case (reps_stop s pc t qmax q)
  then show ?case using reps_stop.IH [OF similar_pc] by (auto intro: re_eval_re_reps_re_alts.reps_stop)
next
  case (reps_last s pc t v q qmax)
  obtain v2 where "re_eval s (t2\<lparr>th_pc := pc\<rparr>) (Some v2)" "th_cptr v2 = th_cptr v"
    using reps_last.IH [OF similar_pc [OF reps_last.prems]] by (auto dest!: same_end_Some)
  then show ?case using re_eval_re_reps_re_alts.reps_last [where s = s and pc = pc and t = t2 and v = v2 and q = q and qmax = qmax] reps_last.hyps(2) by simp
next
  case (reps_more s pc t v q qmax ps)
  obtain v2 where "re_eval s (t2\<lparr>th_pc := pc\<rparr>) (Some v2)" "th_cptr v2 = th_cptr v"
    using reps_more.IH(1) [OF similar_pc [OF reps_more.prems]] by (auto dest!: same_end_Some)
  then show ?case
    using re_eval_re_reps_re_alts.reps_more [where s = s and pc = pc and t = t2 and v = v2 and q = q and qmax = qmax and ps = ps] reps_more.hyps(2) reps_more.IH(2) [OF similar_cptr [OF reps_more.prems]] by simp
next
  case (alts_none s t)
  show ?case by (auto intro: re_eval_re_reps_re_alts.alts_none)
next
  case (alts_here s p t u ps)
  obtain v2 where v2: "re_eval s (t2\<lparr>th_cptr := p\<rparr>) (Some v2)" "same_end (Some u) (Some v2)"
    using alts_here.IH [OF similar_cptr [OF alts_here.prems]] by (auto dest: same_end_Some)
  show ?case using re_eval_re_reps_re_alts.alts_here [OF v2(1), of ps] v2(2) by blast
next
  case (alts_next s p t ps u)
  have "re_eval s (t2\<lparr>th_cptr := p\<rparr>) None" using alts_next.IH(1) [OF similar_cptr [OF alts_next.prems]] by simp
  then show ?case using alts_next.IH(2) [OF alts_next.prems] re_eval_re_reps_re_alts.alts_next by blast
qed

end
