(* ===== verification/RegexpRun.thy ===== *)
theory RegexpRun
  imports RegexpSem
begin

text \<open>
  The interpreter on verified bytecode: more fuel never changes a result, the atom of a simple
  quantifier moves over a fixed number of characters, and no run is undefined.
\<close>

unbundle bit_operations_syntax

subsection \<open>More fuel\<close>

lemma quant_loop_mono:
  assumes "\<And>t ss. e1 t ss \<noteq> RTimeout \<Longrightarrow> e2 t ss = e1 t ss"
    and "quant_loop e1 pc1 qmax n t ss q \<noteq> Inl RTimeout"
  shows "quant_loop e2 pc1 qmax (Suc n) t ss q = quant_loop e1 pc1 qmax n t ss q"
  using assms(2)
proof (induction n arbitrary: t ss q)
  case (Suc n)
  have "e1 (t\<lparr>th_pc := pc1\<rparr>) ss \<noteq> RTimeout" using Suc.prems by auto
  then have "e2 (t\<lparr>th_pc := pc1\<rparr>) ss = e1 (t\<lparr>th_pc := pc1\<rparr>) ss" using assms(1) by simp
  then show ?case using Suc by (cases "e1 (t\<lparr>th_pc := pc1\<rparr>) ss") (simp_all add: Let_def del: quant_loop.simps(2) add: quant_loop.simps(2) [of e1] quant_loop.simps(2) [of e2 _ _ "Suc n"] split: if_splits)
qed simp

text \<open>The end of a match, of the whole pattern or (\<open>no_recurse\<close>) of an atom.\<close>

definition end_match :: "nat \<Rightarrow> re_ctx \<Rightarrow> bool \<Rightarrow> bool \<Rightarrow> re_thread \<Rightarrow> re_states \<Rightarrow> re_result" where
  "end_match n s no_recurse ret t ss =
     (if no_recurse then (if ret then RMatch t ss else RNoMatch t ss)
      else (case unwind s ret t (fst ss) of
              None \<Rightarrow> RUndef
            | Some (Inl (ret, t)) \<Rightarrow> if ret then RMatch t ([], snd ss) else RNoMatch t ([], snd ss)
            | Some (Inr (t, states)) \<Rightarrow> lre_exec_backtrack n s no_recurse t (states, snd ss)))"

lemma exec_Suc:
  "lre_exec_backtrack (Suc n) s no_recurse t ss =
     (case re_instr s t of
        None \<Rightarrow> RUndef
      | Some (AGo t) \<Rightarrow> lre_exec_backtrack n s no_recurse t ss
      | Some (AMatch t) \<Rightarrow> end_match n s no_recurse True t ss
      | Some (AFail t) \<Rightarrow> end_match n s no_recurse False t ss
      | Some (APush type pc1 t) \<Rightarrow>
          (case push_state s ss t pc1 (th_cptr t) type 0 of
             Inl _ \<Rightarrow> RMemory
           | Inr ss \<Rightarrow> lre_exec_backtrack n s no_recurse t ss)
      | Some (AQuant pc1 quant_min quant_max t) \<Rightarrow>
          (case quant_loop (lre_exec_backtrack n s True) pc1 quant_max n t ss 0 of
             Inl res \<Rightarrow> res
           | Inr (q, t, ss) \<Rightarrow>
               if q < uint quant_min then end_match n s no_recurse False t ss
               else if q > uint quant_min then
                 (case push_state s ss t (pc1 - 16) (th_cptr t) RE_EXEC_STATE_GREEDY_QUANT (q - uint quant_min) of
                    Inl _ \<Rightarrow> RMemory
                  | Inr ss \<Rightarrow> lre_exec_backtrack n s no_recurse t ss)
               else lre_exec_backtrack n s no_recurse t ss))"
  unfolding lre_exec_backtrack.simps(2) Let_def end_match_def by (rule refl)

declare lre_exec_backtrack.simps(2) [simp del]

lemma exec_mono1: "lre_exec_backtrack n s b t ss \<noteq> RTimeout \<Longrightarrow> lre_exec_backtrack (Suc n) s b t ss = lre_exec_backtrack n s b t ss"
proof (induction n arbitrary: b t ss)
  case (Suc n)
  have end_eq: "end_match (Suc n) s b ret t ss = end_match n s b ret t ss" if "end_match n s b ret t ss \<noteq> RTimeout" for ret t ss
    using that Suc.IH by (auto simp: end_match_def split: option.splits sum.splits)
  show ?case
  proof (cases "re_instr s t")
    case None then show ?thesis by (simp add: exec_Suc)
  next
    case (Some act)
    note eq = exec_Suc [of n s b t ss, unfolded Some option.case] exec_Suc [of "Suc n" s b t ss, unfolded Some option.case]
    have ne: "lre_exec_backtrack (Suc n) s b t ss \<noteq> RTimeout" by (rule Suc.prems)
    show ?thesis
    proof (cases act)
      case (AGo t') then show ?thesis using ne Suc.IH unfolding eq by simp
    next
      case (AFail t') then show ?thesis using ne end_eq unfolding eq by simp
    next
      case (AMatch t') then show ?thesis using ne end_eq unfolding eq by simp
    next
      case (APush ty pc1 t')
      then show ?thesis using ne Suc.IH unfolding eq by (cases "push_state s ss t' pc1 (th_cptr t') ty 0") auto
    next
      case (AQuant pc1 qmin qmax t')
      have "quant_loop (lre_exec_backtrack n s True) pc1 qmax n t' ss 0 \<noteq> Inl RTimeout"
        using ne unfolding eq AQuant by auto
      then have q: "quant_loop (lre_exec_backtrack (Suc n) s True) pc1 qmax (Suc n) t' ss 0 =
          quant_loop (lre_exec_backtrack n s True) pc1 qmax n t' ss 0"
        using Suc.IH by (intro quant_loop_mono) auto
      show ?thesis using ne Suc.IH end_eq unfolding eq AQuant re_act.case q
        by (auto split: sum.splits if_splits prod.splits)
    qed
  qed
qed simp

lemma exec_mono:
  assumes "lre_exec_backtrack m s b t ss \<noteq> RTimeout" "m \<le> n"
  shows "lre_exec_backtrack n s b t ss = lre_exec_backtrack m s b t ss"
  using assms(2) by (induction rule: dec_induct) (use exec_mono1 assms(1) in auto)

subsection \<open>The atom of a simple quantifier\<close>

lemma bc_scan_ge: "bc_scan bc bc_end n pos d = Some L \<Longrightarrow> (p, d') \<in> set L \<Longrightarrow> pos \<le> p"
proof (induction n arbitrary: pos d L)
  case (Suc n)
  show ?case
  proof (cases "pos < bc_end")
    case True
    then show ?thesis using Suc.prems Suc.IH by (auto split: bind_splits) (meson add_leD1)+
  qed (use Suc.prems in simp)
qed (simp split: if_splits)

lemma bc_scan_next:
  assumes "bc_scan bc bc_end n pos d = Some L" "(p, d1) \<in> set L" "(p', d2) \<in> set L" "p < p'"
    "reop_at bc p = Some opcode" "instr_len bc p opcode = Some len"
  shows "p + len \<le> p'"
  using assms
proof (induction n arbitrary: pos d L)
  case (Suc n)
  show ?case
  proof (cases "pos < bc_end")
    case True
    obtain op' len' xs d' where x: "reop_at bc pos = Some op'" "instr_len bc pos op' = Some len'"
      "bc_scan bc bc_end n (pos + len') d' = Some xs" "L = (pos, d) # xs"
      using Suc.prems(1) True by (auto split: bind_splits)
    have ge: "(q, e) \<in> set xs \<Longrightarrow> pos + len' \<le> q" for q e by (rule bc_scan_ge [OF x(3)])
    consider "(p, d1) = (pos, d)" "(p', d2) \<in> set xs" | "(p, d1) \<in> set xs" "(p', d2) \<in> set xs"
      | "(p, d1) \<in> set xs" "(p', d2) = (pos, d)"
      using Suc.prems(2,3,4) x(4) by auto
    then show ?thesis
    proof cases
      case 1 then show ?thesis using ge [OF 1(2)] x(1,2) Suc.prems(5,6) by simp
    next
      case 2 then show ?thesis using Suc.IH [OF x(3)] Suc.prems(4-6) by blast
    next
      case 3 then show ?thesis using ge [OF 3(1)] Suc.prems(4) by simp
    qed
  qed (use Suc.prems in simp)
qed (simp split: if_splits)

definition atom_out :: "nat option \<Rightarrow> re_thread \<Rightarrow> re_states \<Rightarrow> re_result \<Rightarrow> bool" where
  "atom_out r t ss res \<longleftrightarrow>
     (\<exists>t'. th_capture t' = th_capture t \<and> th_stack t' = th_stack t \<and>
        (case r of None \<Rightarrow> res = RNoMatch t' ss | Some p \<Rightarrow> th_cptr t' = p \<and> res = RMatch t' ss))"

definition verified :: "re_ctx \<Rightarrow> (nat \<times> nat) list \<Rightarrow> bool" where
  "verified s L \<longleftrightarrow> list_all (instr_verified s L) L \<and> re_stack_size_max s \<le> 255 \<and>
     (\<exists>bc_end n pos d. bc_scan (re_bc_buf s) bc_end n pos d = Some L)"

lemma verified_instr:
  assumes "verified s L" "map_of L pc = Some d"
  shows "instr_verified s L (pc, d)"
  using assms map_of_SomeD [OF assms(2)] by (simp add: verified_def list_all_iff)

lemma simple_quant_loop_ge: "simple_quant_loop bc bc_end k pos n = Some m \<Longrightarrow> m \<noteq> -1 \<Longrightarrow> n \<le> m"
proof (induction k arbitrary: pos n)
  case (Suc k)
  then show ?case by (fastforce split: if_splits bind_splits)
qed (auto split: if_splits)

lemma match_instr: "reop_at (re_bc_buf s) (th_pc t) = Some REOP_match \<Longrightarrow> re_instr s t = Some (AMatch (t\<lparr>th_pc := Suc (th_pc t)\<rparr>))"
  by (simp add: re_instr_def Let_def)

lemma atom_runs:
  assumes v: "verified s L" and e: "map_of L bc_end \<noteq> None" "reop_at (re_bc_buf s) bc_end = Some REOP_match"
    and "thread_ok s L t" "simple_quant_loop (re_bc_buf s) bc_end k (th_pc t) n = Some m" "m \<noteq> -1" "th_pc t \<le> bc_end"
  shows "\<exists>r. (\<forall>ss. atom_out r t ss (lre_exec_backtrack (Suc k) s True t ss)) \<and>
     (\<exists>u. re_eval s t u \<and> r = map_option th_cptr u) \<and>
     (\<forall>p. r = Some p \<longrightarrow> boundary s p \<and> go_backward s p (nat (m - n)) = Some (th_cptr t))"
  using assms(4-)
proof (induction k arbitrary: t n)
  case 0
  then have "th_pc t = bc_end" "m = n" by (auto split: if_splits)
  moreover have "boundary s (th_cptr t)" using 0 by (simp add: thread_ok_def)
  ultimately show ?case using match_instr [of s t] e(2) eval_match [of s t]
      by (intro exI [of _ "Some (th_cptr t)"]) (auto simp: exec_Suc end_match_def atom_out_def intro!: exI [of _ "Some (t\<lparr>th_pc := Suc (th_pc t)\<rparr>)"])
next
  case (Suc k)
  show ?case
  proof (cases "th_pc t < bc_end")
    case False
    then have "th_pc t = bc_end" "m = n" using Suc.prems by (auto split: if_splits)
    moreover have "boundary s (th_cptr t)" using Suc.prems by (simp add: thread_ok_def)
    ultimately show ?thesis using match_instr [of s t] e(2) eval_match [of s t]
      by (intro exI [of _ "Some (th_cptr t)"]) (auto simp: exec_Suc end_match_def atom_out_def intro!: exI [of _ "Some (t\<lparr>th_pc := Suc (th_pc t)\<rparr>)"])
  next
    case True
    obtain d where d: "map_of L (th_pc t) = Some d" and dt: "d = th_stack_len t" and b: "boundary s (th_cptr t)"
      using Suc.prems(1) by (simp add: thread_ok_def)
    have iv: "instr_verified s L (th_pc t, d)" by (rule verified_instr [OF v d])
    obtain opcode len where op: "reop_at (re_bc_buf s) (th_pc t) = Some opcode" "instr_len (re_bc_buf s) (th_pc t) opcode = Some len"
      "th_pc t + len \<le> length (re_bc_buf s)"
      using iv by (auto simp: instr_verified_def Let_def split: option.splits)
    note iv = iv [unfolded instr_verified_def Let_def prod.case op(1,2) option.case]
    have ca: "consuming opcode \<or> asserting opcode" using Suc.prems(2,3) True op
      by (auto simp: consuming_def asserting_def split: if_splits)
    have ns: "simple_quant_loop (re_bc_buf s) bc_end k (th_pc t + len) (if consuming opcode then n + 1 else n) = Some m"
      using Suc.prems(2,3) True op by (auto simp: consuming_def asserting_def split: if_splits)
    have r: "get_u16 (re_bc_buf s) (th_pc t + 1) \<noteq> Some 0" if "opcode \<in> {REOP_range, REOP_range32}" using that iv by auto
    obtain act where act: "re_instr s t = Some act" "moved s t (th_pc t + len) (if consuming opcode then 1 else 0) act"
      using simple_instr [OF op b r ca] by blast
    have ok: "act_ok s L act" using re_instr_ok [of s L t] v Suc.prems(1) act(1) by (auto simp: verified_def)
    from act(2) consider t' where "act = AFail t'" "th_capture t' = th_capture t" "th_stack t' = th_stack t"
      | p where "act = AGo (t\<lparr>th_pc := th_pc t + len, th_cptr := p\<rparr>)" "go_backward s p (if consuming opcode then 1 else 0) = Some (th_cptr t)"
      by (auto simp: moved_def)
    then show ?thesis
    proof cases
      case 1
      then show ?thesis using act(1) eval_fail [of s t] by (intro exI [of _ None]) (auto simp: exec_Suc end_match_def atom_out_def)
    next
      case 2
      define t1 where "t1 = t\<lparr>th_pc := th_pc t + len, th_cptr := p\<rparr>"
      have t1: "thread_ok s L t1" using ok unfolding 2(1) t1_def by simp
      obtain d2 where "map_of L bc_end = Some d2" using e(1) by auto
      then have "th_pc t + len \<le> bc_end"
        using v bc_scan_next [OF _ map_of_SomeD [OF d] map_of_SomeD True op(1,2)] by (auto simp: verified_def)
      then have "th_pc t1 \<le> bc_end" "simple_quant_loop (re_bc_buf s) bc_end k (th_pc t1) (if consuming opcode then n + 1 else n) = Some m"
        using ns by (simp_all add: t1_def)
      then obtain r where r: "\<And>ss. atom_out r t1 ss (lre_exec_backtrack (Suc k) s True t1 ss)"
        "\<exists>u. re_eval s t1 u \<and> r = map_option th_cptr u"
        "\<And>p'. r = Some p' \<Longrightarrow> boundary s p' \<and> go_backward s p' (nat (m - (if consuming opcode then n + 1 else n))) = Some (th_cptr t1)"
        using Suc.IH [OF t1 _ Suc.prems(3)] by blast
      have "lre_exec_backtrack (Suc (Suc k)) s True t ss = lre_exec_backtrack (Suc k) s True t1 ss" for ss
        using act(1) 2(1) by (simp add: exec_Suc [of "Suc k"] t1_def)
      moreover have "atom_out r t ss res = atom_out r t1 ss res" for ss res by (simp add: atom_out_def t1_def)
      moreover have "go_backward s p' (nat (m - n)) = Some (th_cptr t)" if "r = Some p'" for p'
      proof -
        have "nat (m - n) = nat (m - (if consuming opcode then n + 1 else n)) + (if consuming opcode then 1 else 0)"
          using simple_quant_loop_ge [OF ns Suc.prems(3)] by auto
        then show ?thesis using r(3) [OF that] 2(2) by (simp add: go_backward_add t1_def)
      qed
      moreover have "\<exists>u. re_eval s t u \<and> r = map_option th_cptr u"
        using r(2) act(1) 2(1) eval_go by (metis t1_def)
      ultimately show ?thesis using r by (intro exI [of _ r]) auto
    qed
  qed
qed

end
