(* ===== verification/RegexpEquiv.thy ===== *)
theory RegexpEquiv
  imports RegexpRun
begin

text \<open>
  The interpreter, with its explicit stack of saved states, computes the outcome of the semantics
  of \<open>RegexpSem\<close>, and every outcome of the semantics is computed.
\<close>

unbundle bit_operations_syntax

subsection \<open>Saving and restoring threads\<close>

definition saved :: "re_thread \<Rightarrow> nat \<Rightarrow> REExecStateEnum \<Rightarrow> int \<Rightarrow> REExecState" where
  "saved t pc type n =
     \<lparr>rs_type = type, rs_stack_len = of_nat (th_stack_len t), rs_count = n, rs_cptr = th_cptr t, rs_pc = pc,
      rs_capture = th_capture t, rs_stack = take (th_stack_len t) (th_stack t)\<rparr>"

lemma saved_simps [simp]:
  "rs_type (saved t pc ty k) = ty" "rs_count (saved t pc ty k) = k" "rs_cptr (saved t pc ty k) = th_cptr t"
  "rs_pc (saved t pc ty k) = pc" "(saved t pc ty k)\<lparr>rs_cptr := p, rs_count := j\<rparr> = saved (t\<lparr>th_cptr := p\<rparr>) pc ty j"
  by (simp_all add: saved_def)

definition restored :: "re_thread \<Rightarrow> re_thread \<Rightarrow> re_thread" where
  "restored t r = r\<lparr>th_capture := th_capture t, th_stack_len := th_stack_len t,
     th_stack := take (th_stack_len t) (th_stack t) @ drop (th_stack_len t) (th_stack r)\<rparr>"

definition fits :: "re_ctx \<Rightarrow> re_thread \<Rightarrow> bool" where
  "fits s t \<longleftrightarrow> arrays_ok s t \<and> th_stack_len t \<le> re_stack_size_max s \<and> re_stack_size_max s \<le> 255"

lemma push_state_saved:
  assumes "arrays_ok s t"
  shows "push_state s (states, z0) t pc (th_cptr t) ty k = Inl () \<or>
    (\<exists>z. push_state s (states, z0) t pc (th_cptr t) ty k = Inr (saved t pc ty k # states, z))"
  using assms by (auto simp: push_state_def Let_def saved_def arrays_ok_def)

lemma push_state_ok: "(\<And>n. re_realloc_ok s n) \<Longrightarrow> push_state s ss t pc p ty k \<noteq> Inl ()"
  by (auto simp: push_state_def Let_def split: prod.splits)

lemma unat_u8: "n \<le> 255 \<Longrightarrow> unat (of_nat n :: u8) = n"
  by (simp add: unat_of_nat)

lemma restored_saved:
  assumes "fits s t" "arrays_ok s r"
  shows "rs_stack_back (saved t pc ty k) (rs_capture_back (saved t pc ty k) r) = restored t r"
    "rs_stack_back (saved t pc ty k) r = (restored t r)\<lparr>th_capture := th_capture r\<rparr>"
  using assms unat_u8 [of "th_stack_len t"]
  by (simp_all add: fits_def arrays_ok_def rs_stack_back_def rs_capture_back_def saved_def restored_def Let_def)

lemma arrays_ok_restored:
  assumes "fits s t" "arrays_ok s r"
  shows "arrays_ok s (restored t r)"
  using assms by (auto simp: fits_def arrays_ok_def restored_def)

lemma similar_restored:
  assumes "similar t t'" "fits s t'" "arrays_ok s r"
  shows "similar (t\<lparr>th_pc := pc\<rparr>) ((restored t' r)\<lparr>th_pc := pc, th_cptr := th_cptr t'\<rparr>)"
    "similar (t\<lparr>th_capture := c, th_pc := pc\<rparr>) ((restored t' r)\<lparr>th_capture := c, th_pc := pc, th_cptr := th_cptr t'\<rparr>)"
    "similar (t\<lparr>th_cptr := p\<rparr>) ((restored t' r)\<lparr>th_pc := th_pc t, th_cptr := p\<rparr>)"
  using assms by (auto simp: similar_def fits_def arrays_ok_def restored_def)

lemma thread_ok_fits: "verified s L \<Longrightarrow> thread_ok s L t \<Longrightarrow> fits s t"
  by (simp add: thread_ok_def fits_def verified_def)

lemma thread_ok_restored:
  assumes "verified s L" "thread_ok s L t" "arrays_ok s r" "map_of L pc = Some (th_stack_len t)" "boundary s p"
  shows "thread_ok s L ((restored t r)\<lparr>th_pc := pc, th_cptr := p\<rparr>)"
    "thread_ok s L ((restored t r)\<lparr>th_capture := th_capture r, th_pc := pc, th_cptr := p\<rparr>)"
  using assms arrays_ok_restored [OF thread_ok_fits [OF assms(1,2)] assms(3)]
  by (auto simp: thread_ok_def) (auto simp: restored_def arrays_ok_def)

subsection \<open>Unwinding\<close>

lemma end_saved:
  assumes "fits s t" "arrays_ok s r"
  shows "end_match m s False True r (saved t pc RE_EXEC_STATE_SPLIT k # states, z) = end_match m s False True r (states, z)"
    "end_match m s False True r (saved t pc RE_EXEC_STATE_GREEDY_QUANT k # states, z) = end_match m s False True r (states, z)"
    "end_match m s False False r (saved t pc RE_EXEC_STATE_SPLIT k # states, z) =
       lre_exec_backtrack m s False ((restored t r)\<lparr>th_pc := pc, th_cptr := th_cptr t\<rparr>) (states, z)"
    "end_match m s False True r (saved t pc RE_EXEC_STATE_LOOKAHEAD k # states, z) =
       lre_exec_backtrack m s False ((restored t r)\<lparr>th_capture := th_capture r, th_pc := pc, th_cptr := th_cptr t\<rparr>) (states, z)"
    "end_match m s False False r (saved t pc RE_EXEC_STATE_LOOKAHEAD k # states, z) = end_match m s False False r (states, z)"
    "end_match m s False False r (saved t pc RE_EXEC_STATE_NEGATIVE_LOOKAHEAD k # states, z) =
       lre_exec_backtrack m s False ((restored t r)\<lparr>th_pc := pc, th_cptr := th_cptr t\<rparr>) (states, z)"
    "end_match m s False True r (saved t pc RE_EXEC_STATE_NEGATIVE_LOOKAHEAD k # states, z) = end_match m s False False r (states, z)"
  using restored_saved [OF assms, of pc _ k]
  unfolding end_match_def fst_conv snd_conv by simp_all

definition goes_back :: "re_ctx \<Rightarrow> nat \<Rightarrow> nat list \<Rightarrow> bool" where
  "goes_back s n cs \<longleftrightarrow> successively (\<lambda>p q. go_backward s p n = Some q) cs \<and> (\<forall>p \<in> set cs. boundary s p)"

definition quant_states :: "re_thread \<Rightarrow> nat \<Rightarrow> nat list \<Rightarrow> REExecState list" where
  "quant_states t pc rest = (if rest = [] then [] else [saved t pc RE_EXEC_STATE_GREEDY_QUANT (int (length rest))])"

lemma end_quant_states:
  assumes "fits s t" "arrays_ok s r"
  shows "end_match m s False True r (quant_states t pc rest @ states, z) = end_match m s False True r (states, z)"
    "end_match m s False ret r (quant_states t pc [] @ states, z) = end_match m s False ret r (states, z)"
  by (simp_all add: quant_states_def end_saved [OF assms])

lemma end_quant_back:
  assumes "fits s t" "arrays_ok s r"
    and "get_u32 (re_bc_buf s) (pc + 12) = Some char_count" "get_u32 (re_bc_buf s) pc = Some next_pos"
    and "jump_to (pc + 16) next_pos = Some pc'" "go_backward s (th_cptr t) (unat char_count) = Some p"
  shows "end_match m s False False r (quant_states t pc (p # rest) @ states, z) =
     lre_exec_backtrack m s False ((restored t r)\<lparr>th_pc := pc', th_cptr := p\<rparr>)
       (quant_states (t\<lparr>th_cptr := p\<rparr>) pc rest @ states, z)"
  using restored_saved(1) [OF assms(1,2), of pc RE_EXEC_STATE_GREEDY_QUANT "int (length (p # rest))"] assms(3-)
  unfolding end_match_def by (cases rest) (simp_all add: quant_states_def Let_def)

subsection \<open>The loop over a simple atom\<close>

lemma goes_back_snoc:
  assumes "goes_back s n (rev (c # ps))" "go_backward s c n = Some a" "boundary s a"
  shows "goes_back s n (rev (a # c # ps))"
  using assms by (auto simp: goes_back_def successively_append_iff)

lemma goes_back_drop:
  assumes "goes_back s n (rev cs)"
  shows "goes_back s n (rev (drop k cs))"
proof -
  have "rev cs = rev (drop k cs) @ rev (take k cs)" by (simp add: rev_append [symmetric])
  then show ?thesis using assms by (auto simp: goes_back_def successively_append_iff dest: in_set_dropD)
qed

lemma quant_okE:
  assumes "quant_ok s L pos d" "get_u32 (re_bc_buf s) (pos + 13) = Some cc"
  obtains next_pos :: u32 where "0 < sint next_pos" "re_is_simple_quantifier (re_bc_buf s) (pos + 17) (unat next_pos - 1) = Some (uint cc)"
    "reop_at (re_bc_buf s) (pos + 17 + unat next_pos - 1) = Some REOP_match"
    "map_of L (pos + 17 + unat next_pos - 1) = Some d" "map_of L (pos + 17) = Some d"
proof -
  obtain next_pos where n: "get_u32 (re_bc_buf s) (pos + 1) = Some next_pos" using assms by (auto simp: quant_ok_def split: option.splits)
  show thesis
    by (rule that [of next_pos]) (use assms n in \<open>simp_all add: quant_ok_def split: option.split_asm\<close>)
qed

lemma atom_out_ne: "atom_out r t ss res \<Longrightarrow> res \<noteq> RTimeout"
  by (cases r) (auto simp: atom_out_def)

lemma atom_at:
  assumes v: "verified s L" and q: "quant_ok s L pos (th_stack_len t)" and f: "fits s t" and b: "boundary s (th_cptr t)"
    and cc: "get_u32 (re_bc_buf s) (pos + 13) = Some cc"
  shows "\<exists>N u. re_eval s (t\<lparr>th_pc := pos + 17\<rparr>) u \<and>
     (\<forall>v. u = Some v \<longrightarrow> boundary s (th_cptr v) \<and> go_backward s (th_cptr v) (unat cc) = Some (th_cptr t)) \<and>
     (\<forall>n ss. n < N \<and> lre_exec_backtrack n s True (t\<lparr>th_pc := pos + 17\<rparr>) ss = RTimeout \<or>
        atom_out (map_option th_cptr u) t ss (lre_exec_backtrack n s True (t\<lparr>th_pc := pos + 17\<rparr>) ss))"
proof -
  define t1 where "t1 = t\<lparr>th_pc := pos + 17\<rparr>"
  obtain next_pos :: u32 where np: "0 < sint next_pos" and
    sq: "re_is_simple_quantifier (re_bc_buf s) (pos + 17) (unat next_pos - 1) = Some (uint cc)"
    and e: "reop_at (re_bc_buf s) (pos + 17 + unat next_pos - 1) = Some REOP_match"
      "map_of L (pos + 17 + unat next_pos - 1) = Some (th_stack_len t)" "map_of L (pos + 17) = Some (th_stack_len t)"
    by (rule quant_okE [OF q cc])
  define k where "k = unat next_pos - 1"
  have "next_pos \<noteq> 0" using np by auto
  then have "0 < unat next_pos" by (rule unat_gt_0 [THEN iffD2])
  then have ke: "pos + 17 + unat next_pos - 1 = pos + 17 + k" unfolding k_def by linarith
  have t1: "thread_ok s L t1" using e(3) f b by (simp add: t1_def thread_ok_def fits_def)
  have me: "map_of L (pos + 17 + k) \<noteq> None" and e': "reop_at (re_bc_buf s) (pos + 17 + k) = Some REOP_match"
    using e unfolding ke by simp_all
  have sq': "simple_quant_loop (re_bc_buf s) (pos + 17 + k) k (th_pc t1) 0 = Some (uint cc)"
    using sq by (simp add: re_is_simple_quantifier_def k_def t1_def)
  have le: "th_pc t1 \<le> pos + 17 + k" by (simp add: t1_def)
  have "0 \<le> uint cc" by simp
  then have cn: "uint cc \<noteq> -1" by linarith
  from atom_runs [OF v me e' t1 sq' cn le]
  obtain r where r0: "(\<forall>ss. atom_out r t1 ss (lre_exec_backtrack (Suc k) s True t1 ss)) \<and>
    (\<exists>u. re_eval s t1 u \<and> r = map_option th_cptr u) \<and>
    (\<forall>p. r = Some p \<longrightarrow> boundary s p \<and> go_backward s p (nat (uint cc - 0)) = Some (th_cptr t1))" ..
  note r = r0 [THEN conjunct1, THEN spec] r0 [THEN conjunct2, THEN conjunct1] r0 [THEN conjunct2, THEN conjunct2, THEN spec, THEN mp]
  obtain u where u: "re_eval s t1 u" "r = map_option th_cptr u" using r(2) by blast
  have A: "n < Suc k \<and> lre_exec_backtrack n s True t1 ss = RTimeout \<or> atom_out r t ss (lre_exec_backtrack n s True t1 ss)" for n ss
  proof -
    have a: "atom_out r t ss res = atom_out r t1 ss res" for res by (simp add: atom_out_def t1_def)
    have nt: "lre_exec_backtrack (Suc k) s True t1 ss \<noteq> RTimeout" by (rule atom_out_ne [OF r(1)])
    show ?thesis
    proof (cases "n \<le> Suc k")
      case True
      show ?thesis
      proof (cases "lre_exec_backtrack n s True t1 ss = RTimeout")
        case to: True
        then have "n \<noteq> Suc k" using nt by blast
        then show ?thesis using to True by simp
      next
        case False
        then show ?thesis using exec_mono [OF False True] r(1) [of ss] unfolding a by simp
      qed
    next
      case False
      then show ?thesis using exec_mono [OF nt, of n] r(1) [of ss] unfolding a by simp
    qed
  qed
  have B: "boundary s (th_cptr v) \<and> go_backward s (th_cptr v) (unat cc) = Some (th_cptr t)" if "u = Some v" for v
    using r(3) [of "th_cptr v"] u(2) that by (simp add: t1_def)
  show ?thesis
    by (rule exI [of _ "Suc k"], rule exI [of _ u], intro conjI allI impI)
      (fact u(1) [unfolded t1_def], (rule conjunct1 [OF B], assumption), (rule conjunct2 [OF B], assumption), rule A [unfolded u(2) t1_def])
qed

lemma fits_cptr [simp]: "fits s (t\<lparr>th_cptr := p\<rparr>) = fits s t"
  by (simp add: fits_def)

lemma same_arrays: "(t::re_thread)\<lparr>th_cptr := p, th_capture := th_capture t, th_stack := th_stack t\<rparr> = t\<lparr>th_cptr := p\<rparr>"
  by (cases t) simp

lemma quant_loop_sound:
  assumes v: "verified s L" and cc: "get_u32 (re_bc_buf s) (pos + 13) = Some cc"
    and "quant_ok s L pos (th_stack_len t)" "fits s t" "boundary s (th_cptr t)"
  shows "quant_loop (lre_exec_backtrack M s True) (pos + 17) qmax n t ss q = Inl RTimeout \<or>
    (\<exists>ps. quant_loop (lre_exec_backtrack M s True) (pos + 17) qmax n t ss q =
        Inr (q + int (length ps), t\<lparr>th_cptr := last (th_cptr t # ps)\<rparr>, ss) \<and>
      re_reps s (pos + 17) qmax t q ps \<and> goes_back s (unat cc) (rev (th_cptr t # ps)))"
  using assms(3-)
proof (induction n arbitrary: t q)
  case (Suc n)
  obtain N u where u: "re_eval s (t\<lparr>th_pc := pos + 17\<rparr>) u"
    "\<And>v. u = Some v \<Longrightarrow> boundary s (th_cptr v) \<and> go_backward s (th_cptr v) (unat cc) = Some (th_cptr t)"
    "lre_exec_backtrack M s True (t\<lparr>th_pc := pos + 17\<rparr>) ss = RTimeout \<or>
      atom_out (map_option th_cptr u) t ss (lre_exec_backtrack M s True (t\<lparr>th_pc := pos + 17\<rparr>) ss)"
    using atom_at [OF v Suc.prems cc] by metis
  have here: "goes_back s (unat cc) (rev [th_cptr t])" using Suc.prems(3) by (simp add: goes_back_def)
  show ?case
  proof (cases "lre_exec_backtrack M s True (t\<lparr>th_pc := pos + 17\<rparr>) ss = RTimeout")
    case False
    then obtain t' where t': "th_capture t' = th_capture t" "th_stack t' = th_stack t"
      "case u of None \<Rightarrow> lre_exec_backtrack M s True (t\<lparr>th_pc := pos + 17\<rparr>) ss = RNoMatch t' ss
         | Some v \<Rightarrow> th_cptr t' = th_cptr v \<and> lre_exec_backtrack M s True (t\<lparr>th_pc := pos + 17\<rparr>) ss = RMatch t' ss"
      using u(3) by (auto simp: atom_out_def split: option.splits)
    show ?thesis
    proof (cases u)
      case None
      then show ?thesis using t' reps_stop [of s "pos + 17" t qmax q] u(1) here by (intro disjI2 exI [of _ "[]"]) simp
    next
      case (Some w)
      define t1 where "t1 = t\<lparr>th_cptr := th_cptr w\<rparr>"
      have t1: "t\<lparr>th_cptr := th_cptr t', th_capture := th_capture t', th_stack := th_stack t'\<rparr> = t1"
        using t' Some by (simp add: t1_def same_arrays)
      have b1: "boundary s (th_cptr t1)" "go_backward s (th_cptr w) (unat cc) = Some (th_cptr t)"
        using u(2) [OF Some] by (simp_all add: t1_def)
      have here1: "goes_back s (unat cc) (rev [th_cptr t, th_cptr w])"
        using goes_back_snoc [of s _ "th_cptr w" "[]"] b1 Suc.prems(3) by (simp add: goes_back_def t1_def)
      have step: "quant_loop (lre_exec_backtrack M s True) (pos + 17) qmax (Suc n) t ss q =
          (if q + 1 \<ge> uint qmax \<and> qmax \<noteq> 0x7fffffff then Inr (q + 1, t1, ss)
           else quant_loop (lre_exec_backtrack M s True) (pos + 17) qmax n t1 ss (q + 1))"
        using t' Some by (simp add: Let_def same_arrays t1_def)
      show ?thesis
      proof (cases "q + 1 \<ge> uint qmax \<and> qmax \<noteq> 0x7fffffff")
        case True
        have "re_reps s (pos + 17) qmax t q [th_cptr w]" by (rule reps_last [OF u(1) [unfolded Some] True])
        then show ?thesis using True here1 unfolding step by (intro disjI2 exI [of _ "[th_cptr w]"]) (simp add: t1_def)
      next
        case False
        from Suc.IH [of t1 "q + 1"] Suc.prems b1(1)
        have "quant_loop (lre_exec_backtrack M s True) (pos + 17) qmax n t1 ss (q + 1) = Inl RTimeout \<or>
            (\<exists>ps. quant_loop (lre_exec_backtrack M s True) (pos + 17) qmax n t1 ss (q + 1) =
               Inr (q + 1 + int (length ps), t1\<lparr>th_cptr := last (th_cptr t1 # ps)\<rparr>, ss) \<and>
             re_reps s (pos + 17) qmax t1 (q + 1) ps \<and> goes_back s (unat cc) (rev (th_cptr t1 # ps)))"
          by (simp add: t1_def)
        then show ?thesis
        proof
          assume "quant_loop (lre_exec_backtrack M s True) (pos + 17) qmax n t1 ss (q + 1) = Inl RTimeout"
          then show ?thesis unfolding step if_not_P [OF False] by simp
        next
          assume "\<exists>ps. quant_loop (lre_exec_backtrack M s True) (pos + 17) qmax n t1 ss (q + 1) =
               Inr (q + 1 + int (length ps), t1\<lparr>th_cptr := last (th_cptr t1 # ps)\<rparr>, ss) \<and>
             re_reps s (pos + 17) qmax t1 (q + 1) ps \<and> goes_back s (unat cc) (rev (th_cptr t1 # ps))"
          then obtain ps where ps: "quant_loop (lre_exec_backtrack M s True) (pos + 17) qmax n t1 ss (q + 1) =
               Inr (q + 1 + int (length ps), t1\<lparr>th_cptr := last (th_cptr t1 # ps)\<rparr>, ss)"
            "re_reps s (pos + 17) qmax t1 (q + 1) ps" "goes_back s (unat cc) (rev (th_cptr w # ps))"
            by (auto simp: t1_def)
          have "re_reps s (pos + 17) qmax t q (th_cptr w # ps)"
            by (rule reps_more [OF u(1) [unfolded Some] False ps(2) [unfolded t1_def]])
          moreover have "goes_back s (unat cc) (rev (th_cptr t # th_cptr w # ps))"
            by (rule goes_back_snoc [OF ps(3) b1(2) Suc.prems(3)])
          ultimately show ?thesis using ps(1) unfolding step if_not_P [OF False]
            by (intro disjI2 exI [of _ "th_cptr w # ps"]) (simp add: t1_def)
        qed
      qed
    qed
  qed simp
qed simp

end
