(* ===== verification/RegexpSound.thy ===== *)
theory RegexpSound
  imports RegexpEquiv
begin

text \<open>Every result of the interpreter on verified bytecode is the outcome of the semantics.\<close>

unbundle bit_operations_syntax

definition result_of :: "re_ctx \<Rightarrow> re_thread option \<Rightarrow> re_thread \<Rightarrow> bool" where
  "result_of s u r \<longleftrightarrow> arrays_ok s r \<and> (\<forall>v. u = Some v \<longrightarrow> th_capture r = th_capture v \<and> th_cptr r = th_cptr v)"

text \<open>A run that gives \<open>res\<close> comes to the end of a match whose outcome is in \<open>Q\<close>, unless it is cut off.\<close>

definition reaches :: "re_ctx \<Rightarrow> nat \<Rightarrow> (re_thread option \<Rightarrow> bool) \<Rightarrow> REExecState list \<Rightarrow> re_result \<Rightarrow> bool" where
  "reaches s n Q states res \<longleftrightarrow> res = RTimeout \<or> res = RMemory \<or>
     (\<exists>u r z m. m < n \<and> Q u \<and> result_of s u r \<and> end_match m s False (u \<noteq> None) r (states, z) = res)"

definition sound_at :: "re_ctx \<Rightarrow> (nat \<times> nat) list \<Rightarrow> nat \<Rightarrow> bool" where
  "sound_at s L n \<longleftrightarrow> (\<forall>t t2 states z. thread_ok s L t2 \<longrightarrow> similar t t2 \<longrightarrow>
     reaches s n (re_eval s t) states (lre_exec_backtrack n s False t2 (states, z)))"

lemma reachesI: "m < n \<Longrightarrow> Q u \<Longrightarrow> result_of s u r \<Longrightarrow> end_match m s False (u \<noteq> None) r (states, z) = res \<Longrightarrow> reaches s n Q states res"
  unfolding reaches_def by blast

lemma reachesE:
  assumes "reaches s n Q states res"
  obtains "res = RTimeout \<or> res = RMemory"
  | u r z m where "m < n" "Q u" "result_of s u r" "end_match m s False (u \<noteq> None) r (states, z) = res"
  using assms unfolding reaches_def by blast

lemma reaches_mono:
  assumes "reaches s m Q states res" "m \<le> n" "\<And>u. Q u \<Longrightarrow> Q' u"
  shows "reaches s n Q' states res"
  using assms(1)
proof (cases rule: reachesE)
  case 1 then show ?thesis unfolding reaches_def by blast
next
  case (2 u r z k)
  from 2(1) assms(2) have "k < n" by (rule order_less_le_trans)
  from reachesI [where Q = Q' and u = u, OF this assms(3) [OF 2(2)] 2(3,4)] show ?thesis .
qed

lemma reaches_cut: "res = RTimeout \<or> res = RMemory \<Longrightarrow> reaches s n Q states res"
  unfolding reaches_def by blast

lemma sound_atD:
  assumes "sound_at s L n" "thread_ok s L t2" "similar t t2"
  shows "reaches s n (re_eval s t) states (lre_exec_backtrack n s False t2 (states, z))"
  using assms unfolding sound_at_def by blast

lemma goes_back_Cons2:
  "goes_back s n (p # q # cs) \<longleftrightarrow> boundary s p \<and> go_backward s p n = Some q \<and> goes_back s n (q # cs)"
  by (auto simp: goes_back_def)

lemma alts_sound:
  assumes v: "verified s L" and IH: "\<And>m. m < n \<Longrightarrow> sound_at s L m"
    and ops: "get_u32 (re_bc_buf s) (pc + 12) = Some cc" "get_u32 (re_bc_buf s) pc = Some next_pos"
      "jump_to (pc + 16) next_pos = Some (th_pc t)"
    and "m < n" "thread_ok s L t2" "thread_ok s L t0" "similar (t\<lparr>th_cptr := c\<rparr>) t2" "similar (t\<lparr>th_cptr := c\<rparr>) t0"
      "goes_back s (unat cc) (c # rest)"
  shows "reaches s n (re_alts s t (c # rest)) states (lre_exec_backtrack m s False t2 (quant_states t0 pc rest @ states, z))"
  using assms(6-)
proof (induction rest arbitrary: c t2 t0 m z)
  case Nil
  from sound_atD [OF IH [OF Nil(1)] Nil(2) Nil(4), of "quant_states t0 pc [] @ states" z] show ?case
  proof (cases rule: reachesE)
    case 1 then show ?thesis by (rule reaches_cut)
  next
    case (2 u r z' m')
    have "re_alts s t [c] u" using 2(2) alts_here [of s c t] alts_next [of s c t "[]" None] alts_none by (cases u) auto
    then show ?thesis using 2 Nil(1) by (intro reachesI [of m' n _ u s r states z']) (auto simp: quant_states_def)
  qed
next
  case (Cons p rest)
  have f0: "fits s t0" by (rule thread_ok_fits [OF v Cons.prems(3)])
  have c0: "th_cptr t0 = c" using Cons.prems(5) by (simp add: similar_def)
  have gb: "go_backward s (th_cptr t0) (unat cc) = Some p" "goes_back s (unat cc) (p # rest)" "boundary s p"
    using Cons.prems(6) c0 by (auto simp: goes_back_Cons2) (auto simp: goes_back_def)
  from sound_atD [OF IH [OF Cons.prems(1)] Cons.prems(2) Cons.prems(4), of "quant_states t0 pc (p # rest) @ states" z] show ?case
  proof (cases rule: reachesE)
    case 1 then show ?thesis by (rule reaches_cut)
  next
    case (2 u r z' m')
    have r: "arrays_ok s r" using 2(3) by (simp add: result_of_def)
    show ?thesis
    proof (cases u)
      case (Some w)
      then have "re_alts s t (c # p # rest) u" using 2(2) alts_here by auto
      then show ?thesis using 2 Cons.prems(1) Some
        by (intro reachesI [of m' n _ u s r states z']) (auto simp: end_quant_states(1) [OF f0 r])
    next
      case None
      define t3 where "t3 = (restored t0 r)\<lparr>th_pc := th_pc t, th_cptr := p\<rparr>"
      have L: "map_of L (th_pc t) = Some (th_stack_len t0)" using Cons.prems(3,5) by (simp add: thread_ok_def similar_def)
      have sim: "similar (t\<lparr>th_cptr := p\<rparr>) t3"
        using similar_restored(3) [OF Cons.prems(5) f0 r, of p] by (simp add: t3_def)
      have ok: "thread_ok s L t3" unfolding t3_def by (rule thread_ok_restored(1) [OF v Cons.prems(3) r L gb(3)])
      have ok0: "thread_ok s L (t0\<lparr>th_cptr := p\<rparr>)" using Cons.prems(3) gb(3) by (simp add: thread_ok_def)
      have sim0: "similar (t\<lparr>th_cptr := p\<rparr>) (t0\<lparr>th_cptr := p\<rparr>)" using Cons.prems(5) by (simp add: similar_def)
      have "m' < n" using 2(1) Cons.prems(1) by simp
      from Cons.IH [OF this ok ok0 sim sim0 gb(2)]
      have "reaches s n (re_alts s t (p # rest)) states
          (lre_exec_backtrack m' s False t3 (quant_states (t0\<lparr>th_cptr := p\<rparr>) pc rest @ states, z'))" .
      then have "reaches s n (re_alts s t (p # rest)) states (end_match m' s False False r (quant_states t0 pc (p # rest) @ states, z'))"
        unfolding t3_def end_quant_back [OF f0 r ops gb(1)] .
      moreover have "re_eval s (t\<lparr>th_cptr := c\<rparr>) None" using 2(2) None by simp
      ultimately show ?thesis using 2(4) None by (auto intro: reaches_mono alts_next)
    qed
  qed
qed

lemma result_of_fail: "arrays_ok s r \<Longrightarrow> result_of s None r"
  by (simp add: result_of_def)

lemma push_soundI:
  assumes "arrays_ok s t" "\<And>z. reaches s n Q states (lre_exec_backtrack m s False t (saved t pc ty k # states, z))"
  shows "reaches s n Q states (case push_state s (states, z0) t pc (th_cptr t) ty k of Inl _ \<Rightarrow> RMemory
     | Inr ss \<Rightarrow> lre_exec_backtrack m s False t ss)"
  using push_state_saved [OF assms(1), of states z0 pc ty k] assms(2) by (auto intro: reaches_cut)

lemma split_sound:
  assumes v: "verified s L" and IH: "\<And>m. m < n \<Longrightarrow> sound_at s L m" and mn: "m < n"
    and i: "re_instr s t = Some (APush RE_EXEC_STATE_SPLIT pc t1)"
    and t2: "thread_ok s L t2" "similar t1 t2" "map_of L pc = Some (th_stack_len t2)"
  shows "reaches s n (re_eval s t) states (lre_exec_backtrack m s False t2 (saved t2 pc RE_EXEC_STATE_SPLIT k # states, z))"
proof -
  have f: "fits s t2" by (rule thread_ok_fits [OF v t2(1)])
  have b: "boundary s (th_cptr t2)" using t2(1) by (simp add: thread_ok_def)
  from sound_atD [OF IH [OF mn] t2(1,2), of "saved t2 pc RE_EXEC_STATE_SPLIT k # states" z] show ?thesis
  proof (cases rule: reachesE)
    case 1 then show ?thesis by (rule reaches_cut)
  next
    case (2 u r z' m')
    have r: "arrays_ok s r" using 2(3) by (simp add: result_of_def)
    have m': "m' < n" using 2(1) mn by simp
    show ?thesis
    proof (cases u)
      case (Some w)
      have "re_eval s t u" using eval_split_first [OF i] 2(2) Some by simp
      then show ?thesis using 2(3,4) Some by (intro reachesI [of m' n _ u s r states z', OF m']) (simp_all add: end_saved [OF f r])
    next
      case None
      have "reaches s m' (re_eval s (t1\<lparr>th_pc := pc\<rparr>)) states res"
        if "res = lre_exec_backtrack m' s False ((restored t2 r)\<lparr>th_pc := pc, th_cptr := th_cptr t2\<rparr>) (states, z')" for res
        unfolding that by (rule sound_atD [OF IH [OF m'] thread_ok_restored(1) [OF v t2(1) r t2(3) b] similar_restored(1) [OF t2(2) f r]])
      then show ?thesis using 2(2,4) None m' eval_split_second [OF i]
        by (auto simp: end_saved [OF f r] intro: reaches_mono)
    qed
  qed
qed

lemma look_sound:
  assumes v: "verified s L" and IH: "\<And>m. m < n \<Longrightarrow> sound_at s L m" and mn: "m < n"
    and i: "re_instr s t = Some (APush RE_EXEC_STATE_LOOKAHEAD pc t1)"
    and t2: "thread_ok s L t2" "similar t1 t2" "map_of L pc = Some (th_stack_len t2)"
  shows "reaches s n (re_eval s t) states (lre_exec_backtrack m s False t2 (saved t2 pc RE_EXEC_STATE_LOOKAHEAD k # states, z))"
proof -
  have f: "fits s t2" by (rule thread_ok_fits [OF v t2(1)])
  have b: "boundary s (th_cptr t2)" using t2(1) by (simp add: thread_ok_def)
  from sound_atD [OF IH [OF mn] t2(1,2), of "saved t2 pc RE_EXEC_STATE_LOOKAHEAD k # states" z] show ?thesis
  proof (cases rule: reachesE)
    case 1 then show ?thesis by (rule reaches_cut)
  next
    case (2 u r z' m')
    have r: "arrays_ok s r" using 2(3) by (simp add: result_of_def)
    have m': "m' < n" using 2(1) mn by simp
    show ?thesis
    proof (cases u)
      case None
      have "re_eval s t None" using eval_look_fails [OF i] 2(2) None by simp
      then show ?thesis using 2(4) None result_of_fail [OF r]
        by (intro reachesI [of m' n _ None s r states z', OF m']) (simp_all add: end_saved [OF f r])
    next
      case (Some w)
      have c: "th_capture r = th_capture w" using 2(3) Some by (simp add: result_of_def)
      have "reaches s m' (re_eval s (t1\<lparr>th_capture := th_capture r, th_pc := pc\<rparr>)) states res"
        if "res = lre_exec_backtrack m' s False ((restored t2 r)\<lparr>th_capture := th_capture r, th_pc := pc, th_cptr := th_cptr t2\<rparr>) (states, z')" for res
        unfolding that
        by (rule sound_atD [OF IH [OF m'] thread_ok_restored(2) [OF v t2(1) r t2(3) b] similar_restored(2) [OF t2(2) f r]])
      moreover have "re_eval s t u'" if "re_eval s (t1\<lparr>th_capture := th_capture r, th_pc := pc\<rparr>) u'" for u'
        using eval_look [OF i _ that [unfolded c]] 2(2) Some by simp
      ultimately show ?thesis using 2(4) Some m'
        by (auto simp: end_saved [OF f r] intro: reaches_mono)
    qed
  qed
qed

lemma neg_sound:
  assumes v: "verified s L" and IH: "\<And>m. m < n \<Longrightarrow> sound_at s L m" and mn: "m < n"
    and i: "re_instr s t = Some (APush RE_EXEC_STATE_NEGATIVE_LOOKAHEAD pc t1)"
    and t2: "thread_ok s L t2" "similar t1 t2" "map_of L pc = Some (th_stack_len t2)"
  shows "reaches s n (re_eval s t) states (lre_exec_backtrack m s False t2 (saved t2 pc RE_EXEC_STATE_NEGATIVE_LOOKAHEAD k # states, z))"
proof -
  have f: "fits s t2" by (rule thread_ok_fits [OF v t2(1)])
  have b: "boundary s (th_cptr t2)" using t2(1) by (simp add: thread_ok_def)
  from sound_atD [OF IH [OF mn] t2(1,2), of "saved t2 pc RE_EXEC_STATE_NEGATIVE_LOOKAHEAD k # states" z] show ?thesis
  proof (cases rule: reachesE)
    case 1 then show ?thesis by (rule reaches_cut)
  next
    case (2 u r z' m')
    have r: "arrays_ok s r" using 2(3) by (simp add: result_of_def)
    have m': "m' < n" using 2(1) mn by simp
    show ?thesis
    proof (cases u)
      case (Some w)
      have "re_eval s t None" using eval_neg_fails [OF i] 2(2) Some by simp
      then show ?thesis using 2(4) Some result_of_fail [OF r]
        by (intro reachesI [of m' n _ None s r states z', OF m']) (simp_all add: end_saved [OF f r])
    next
      case None
      have "reaches s m' (re_eval s (t1\<lparr>th_pc := pc\<rparr>)) states res"
        if "res = lre_exec_backtrack m' s False ((restored t2 r)\<lparr>th_pc := pc, th_cptr := th_cptr t2\<rparr>) (states, z')" for res
        unfolding that by (rule sound_atD [OF IH [OF m'] thread_ok_restored(1) [OF v t2(1) r t2(3) b] similar_restored(1) [OF t2(2) f r]])
      then show ?thesis using 2(2,4) None m' eval_neg [OF i]
        by (auto simp: end_saved [OF f r] intro: reaches_mono)
    qed
  qed
qed

lemma not_quant [simp]:
  "test_char s v t \<noteq> Some (AQuant pc qmin qmax t')" "test_range s b t \<noteq> Some (AQuant pc qmin qmax t')"
  "word_boundary_test s b t \<noteq> Some (AQuant pc qmin qmax t')" "back_reference s b t \<noteq> Some (AQuant pc qmin qmax t')"
  by (auto simp: test_char_def test_range_def word_boundary_test_def back_reference_def Let_def
      split: Option.bind_split_asm if_split_asm option.split_asm)

lemma quant_instr:
  assumes "re_instr s t = Some (AQuant pc qmin qmax t')"
  shows "pc = th_pc t + 17 \<and> (\<exists>next_pos. get_u32 (re_bc_buf s) (Suc (th_pc t)) = Some next_pos \<and> jump_to pc next_pos = Some (th_pc t'))"
proof -
  obtain opcode where op: "reop_at (re_bc_buf s) (th_pc t) = Some opcode"
    using assms unfolding re_instr_def Let_def by (auto split: Option.bind_split_asm)
  show ?thesis
    using assms unfolding re_instr_def op Let_def Option.bind.bind_lunit
    by (cases opcode) (auto split: Option.bind_split_asm if_split_asm)
qed

lemma similar_sym: "similar t t' \<Longrightarrow> similar t' t"
  by (simp add: similar_def)

lemma rev_drop_last:
  assumes "k < length xs"
  obtains rest where "rev (drop k xs) = last xs # rest" "length rest = length xs - k - 1"
proof -
  have "rev (drop k xs) \<noteq> []" using assms by simp
  moreover have "hd (rev (drop k xs)) = last xs" using assms by (simp add: hd_rev last_drop)
  moreover have "length (tl (rev (drop k xs))) = length xs - k - 1" by simp
  ultimately show thesis using that [of "tl (rev (drop k xs))"] by (metis list.collapse)
qed

lemma quant_sound:
  assumes v: "verified s L" and IH: "\<And>m. m < n \<Longrightarrow> sound_at s L m" and n: "n = Suc m"
    and i: "re_instr s t = Some (AQuant pc qmin qmax t')" "similar t' t2'" and ok: "act_ok s L (AQuant pc qmin qmax t2')"
    and i2: "re_instr s t2 = Some (AQuant pc qmin qmax t2')"
  shows "reaches s n (re_eval s t) states (lre_exec_backtrack n s False t2 (states, z))"
proof -
  define pos where "pos = th_pc t2"
  obtain next_pos where np: "get_u32 (re_bc_buf s) (pos + 1) = Some next_pos" "jump_to (pos + 17) next_pos = Some (th_pc t2')" "pc = pos + 17"
    using quant_instr [OF i2] by (auto simp: pos_def)
  have t2': "thread_ok s L t2'" and q: "quant_ok s L pos (th_stack_len t2')" using ok np(3) by (simp_all add: act_ok_def)
  obtain cc where cc: "get_u32 (re_bc_buf s) (pos + 13) = Some cc" using q by (auto simp: quant_ok_def split: option.splits)
  have f: "fits s t2'" by (rule thread_ok_fits [OF v t2'])
  have b: "boundary s (th_cptr t2')" using t2' by (simp add: thread_ok_def)
  have c: "th_cptr t2' = th_cptr t'" "th_pc t2' = th_pc t'" using i(2) by (simp_all add: similar_def)
  have mn: "m < n" using n by simp
  note exec = exec_Suc [of m s False t2 "(states, z)", folded n, unfolded i2 option.case re_act.case np(3)]
  from quant_loop_sound [OF v cc q f b, of m qmax m "(states, z)" 0] show ?thesis
  proof (elim disjE exE conjE)
    assume "quant_loop (lre_exec_backtrack m s True) (pos + 17) qmax m t2' (states, z) 0 = Inl RTimeout"
    then show ?thesis unfolding exec by (simp add: reaches_cut)
  next
    fix ps
    assume ql: "quant_loop (lre_exec_backtrack m s True) (pos + 17) qmax m t2' (states, z) 0 =
        Inr (0 + int (length ps), t2'\<lparr>th_cptr := last (th_cptr t2' # ps)\<rparr>, (states, z))"
      and reps: "re_reps s (pos + 17) qmax t2' 0 ps" and gb: "goes_back s (unat cc) (rev (th_cptr t2' # ps))"
    define t3 where "t3 = t2'\<lparr>th_cptr := last (th_cptr t2' # ps)\<rparr>"
    define cs where "cs = rev (drop (unat qmin) (th_cptr t' # ps))"
    have ev: "re_eval s t u" if "re_alts s t' cs u" for u
      using eval_quant [OF i(1)] re_eval_similar(2) [OF reps similar_sym [OF i(2)]] that unfolding np(3) cs_def by blast
    have last: "last (th_cptr t2' # ps) \<in> set (rev (th_cptr t2' # ps))" by (metis last_in_set list.distinct(1) set_rev)
    then have b3: "boundary s (th_cptr t3)" using gb by (auto simp: goes_back_def t3_def)
    have t3: "thread_ok s L t3" using t2' b3 by (simp add: thread_ok_def t3_def)
    note exec = exec [unfolded ql sum.case prod.case, folded t3_def]
    have un: "uint qmin = int (unat qmin)" by (rule uint_nat)
    show ?thesis
    proof (cases "length ps < unat qmin")
      case True
      then have "cs = []" by (simp add: cs_def)
      then have "re_eval s t None" using ev alts_none by blast
      moreover have "int (length ps) < uint qmin" using True unfolding un by (simp only: of_nat_less_iff)
      ultimately show ?thesis unfolding exec using result_of_fail [of s t3] t3
        by (intro reachesI [of m n _ None s t3 states z, OF mn]) (simp_all add: thread_ok_def)
    next
      case False
      then have lt: "unat qmin < length (th_cptr t' # ps)" by simp
      obtain rest where "rev (drop (unat qmin) (th_cptr t' # ps)) = last (th_cptr t' # ps) # rest"
        "length rest = length (th_cptr t' # ps) - unat qmin - 1"
        by (rule rev_drop_last [OF lt])
      then have rest: "cs = last (th_cptr t' # ps) # rest" "length rest = length ps - unat qmin"
        by (simp_all add: cs_def)
      have cl: "last (th_cptr t' # ps) = th_cptr t3" using c by (simp add: t3_def)
      have sim: "similar (t'\<lparr>th_cptr := th_cptr t3\<rparr>) t3" using similar_cptr [OF i(2)] by (simp add: t3_def)
      have gbc: "goes_back s (unat cc) (th_cptr t3 # rest)"
        using goes_back_drop [OF gb, of "unat qmin"] rest(1) unfolding cl [symmetric] cs_def c(1) by simp
      have ops: "get_u32 (re_bc_buf s) (pos + 1 + 12) = Some cc" "get_u32 (re_bc_buf s) (pos + 1) = Some next_pos"
        "jump_to (pos + 1 + 16) next_pos = Some (th_pc t')"
        using cc np c by (simp_all add: ac_simps)
      have alts: "reaches s n (re_eval s t) states (lre_exec_backtrack m s False t3 (quant_states t3 (pos + 1) rest @ states, z'))" for z'
        by (rule reaches_mono [OF alts_sound [OF v IH ops mn t3 t3 sim sim gbc] order_refl]) (use ev rest(1) cl in simp_all)
      show ?thesis
      proof (cases "length ps = unat qmin")
        case True
        then have "rest = []" using rest(2) by simp
        have "\<not> int (length ps) < uint qmin" "\<not> uint qmin < int (length ps)" using True unfolding un by linarith+
        then show ?thesis using alts [of z] \<open>rest = []\<close> unfolding exec by (simp add: quant_states_def)
      next
        case gt: False
        have k: "int (length ps) - uint qmin = int (length rest)" using rest(2) False unfolding un by linarith
        have ne: "rest \<noteq> []" using rest(2) gt False by auto
        have "reaches s n (re_eval s t) states (case push_state s (states, z) t3 (pos + 1) (th_cptr t3) RE_EXEC_STATE_GREEDY_QUANT (int (length rest)) of
            Inl _ \<Rightarrow> RMemory | Inr ss \<Rightarrow> lre_exec_backtrack m s False t3 ss)"
          by (rule push_soundI) (use t3 alts ne in \<open>simp_all add: thread_ok_def quant_states_def\<close>)
        moreover have "int (length ps) > uint qmin" "\<not> int (length ps) < uint qmin" using gt False unfolding un by linarith+
        ultimately show ?thesis unfolding exec using k by simp
      qed
    qed
  qed
qed

lemma exec_sound:
  assumes v: "verified s L"
  shows "sound_at s L n"
proof (induction n rule: less_induct)
  case (less n)
  show ?case
  proof (cases n)
    case 0 then show ?thesis by (simp add: sound_at_def reaches_cut)
  next
    case (Suc m)
    then have mn: "m < n" by simp
    show ?thesis unfolding sound_at_def
    proof (intro allI impI)
      fix t t2 states z
      assume t2: "thread_ok s L t2" and sim: "similar t t2"
      obtain act where act: "re_instr s t2 = Some act" "act_ok s L act"
        using re_instr_ok [of s L t2] v t2 by (auto simp: verified_def)
      obtain a where a: "re_instr s t = Some a" "similar_act act a"
        using similar_instr [OF similar_sym [OF sim] act(1)] by blast
      note exec = exec_Suc [of m s False t2 "(states, z)", folded Suc, unfolded act(1) option.case]
      show "reaches s n (re_eval s t) states (lre_exec_backtrack n s False t2 (states, z))"
      proof (cases act)
        case (AGo t2')
        then obtain t' where t': "re_instr s t = Some (AGo t')" "similar t' t2'" using a by (auto dest: similar_sym)
        have "reaches s m (re_eval s t') states (lre_exec_backtrack m s False t2' (states, z))"
          by (rule sound_atD [OF less.IH [OF mn] _ t'(2)]) (use act(2) AGo in simp)
        then show ?thesis unfolding exec AGo using mn eval_go [OF t'(1)] by (auto intro: reaches_mono)
      next
        case (AFail t2')
        then obtain t' where "re_instr s t = Some (AFail t')" using a by auto
        then have "re_eval s t None" by (rule eval_fail)
        then show ?thesis unfolding exec AFail using act(2) AFail
          by (intro reachesI [of m n _ None s t2' states z, OF mn]) (simp_all add: result_of_fail)
      next
        case (AMatch t2')
        then obtain t' where t': "re_instr s t = Some (AMatch t')" "th_capture t' = th_capture t2'" "th_cptr t' = th_cptr t2'" using a by auto
        then have "re_eval s t (Some t')" by (blast intro: eval_match)
        then show ?thesis unfolding exec AMatch using act(2) AMatch t'
          by (intro reachesI [of m n _ "Some t'" s t2' states z, OF mn]) (simp_all add: result_of_def)
      next
        case (APush ty pc t2')
        then obtain t' where t': "re_instr s t = Some (APush ty pc t')" "similar t' t2'" using a by (auto dest: similar_sym)
        have ok: "thread_ok s L t2'" "map_of L pc = Some (th_stack_len t2')" "ty \<noteq> RE_EXEC_STATE_GREEDY_QUANT"
          using act(2) APush by (simp_all add: act_ok_def)
        have "reaches s n (re_eval s t) states (lre_exec_backtrack m s False t2' (saved t2' pc ty 0 # states, z))" for z
        proof (cases ty)
          case RE_EXEC_STATE_SPLIT
          show ?thesis unfolding RE_EXEC_STATE_SPLIT
            by (rule split_sound [OF v less.IH mn t'(1) [unfolded RE_EXEC_STATE_SPLIT] ok(1) t'(2) ok(2)])
        next
          case RE_EXEC_STATE_LOOKAHEAD
          show ?thesis unfolding RE_EXEC_STATE_LOOKAHEAD
            by (rule look_sound [OF v less.IH mn t'(1) [unfolded RE_EXEC_STATE_LOOKAHEAD] ok(1) t'(2) ok(2)])
        next
          case RE_EXEC_STATE_NEGATIVE_LOOKAHEAD
          show ?thesis unfolding RE_EXEC_STATE_NEGATIVE_LOOKAHEAD
            by (rule neg_sound [OF v less.IH mn t'(1) [unfolded RE_EXEC_STATE_NEGATIVE_LOOKAHEAD] ok(1) t'(2) ok(2)])
        qed (use ok(3) in simp)
        then show ?thesis unfolding exec APush re_act.case
          by (intro push_soundI) (use ok(1) in \<open>simp_all add: thread_ok_def\<close>)
      next
        case (AQuant pc qmin qmax t2')
        then obtain t' where "re_instr s t = Some (AQuant pc qmin qmax t')" "similar t' t2'" using a by (auto dest: similar_sym)
        then show ?thesis using quant_sound [OF v less.IH Suc] act AQuant by blast
      qed
    qed
  qed
qed

end
