(* ===== verification/RegexpComplete.thy ===== *)
theory RegexpComplete
  imports RegexpSound
begin

text \<open>With enough fuel the interpreter returns for every thread that has an outcome.\<close>

unbundle bit_operations_syntax

definition finishes :: "re_ctx \<Rightarrow> re_thread \<Rightarrow> re_states \<Rightarrow> bool" where
  "finishes s t ss \<longleftrightarrow> (\<exists>n. lre_exec_backtrack n s False t ss \<noteq> RTimeout)"

definition end_finishes :: "re_ctx \<Rightarrow> re_thread option \<Rightarrow> REExecState list \<Rightarrow> bool" where
  "end_finishes s u states \<longleftrightarrow>
     (\<forall>r z. result_of s u r \<longrightarrow> (\<exists>m. end_match m s False (u \<noteq> None) r (states, z) \<noteq> RTimeout))"

lemma finishesI: "lre_exec_backtrack n s False t ss \<noteq> RTimeout \<Longrightarrow> finishes s t ss"
  by (auto simp: finishes_def)

lemma end_finishesD: "end_finishes s u states \<Longrightarrow> result_of s u r \<Longrightarrow> \<exists>m. end_match m s False (u \<noteq> None) r (states, z) \<noteq> RTimeout"
  by (simp add: end_finishes_def)

lemma push_finishes:
  assumes "arrays_ok s t" "\<And>z. finishes s t (saved t pc ty k # states, z)"
  shows "\<exists>n. (case push_state s (states, z0) t pc (th_cptr t) ty k of Inl _ \<Rightarrow> RMemory
     | Inr ss \<Rightarrow> lre_exec_backtrack n s False t ss) \<noteq> RTimeout"
  using push_state_saved [OF assms(1), of states z0 pc ty k] assms(2) by (auto simp: finishes_def)

lemma push_finishes':
  assumes "re_instr s t = Some (APush ty pc t')" "arrays_ok s t'" "\<And>z. finishes s t' (saved t' pc ty 0 # states, z)"
  shows "finishes s t (states, z0)"
proof -
  obtain n where "(case push_state s (states, z0) t' pc (th_cptr t') ty 0 of Inl _ \<Rightarrow> RMemory
     | Inr ss \<Rightarrow> lre_exec_backtrack n s False t' ss) \<noteq> RTimeout"
    using push_finishes [OF assms(2,3)] by blast
  then show ?thesis using assms(1) by (intro finishesI [of "Suc n"]) (simp add: exec_Suc)
qed

lemma end_finishes_saved:
  assumes "fits s t"
  shows "end_finishes s (Some v) states \<Longrightarrow> end_finishes s (Some v) (saved t pc RE_EXEC_STATE_SPLIT k # states)"
    "end_finishes s (Some v) states \<Longrightarrow> end_finishes s (Some v) (quant_states t pc rest @ states)"
    "end_finishes s None states \<Longrightarrow> end_finishes s None (saved t pc RE_EXEC_STATE_LOOKAHEAD k # states)"
    "end_finishes s None states \<Longrightarrow> end_finishes s (Some v) (saved t pc RE_EXEC_STATE_NEGATIVE_LOOKAHEAD k # states)"
  using assms by (auto simp: end_finishes_def result_of_def end_saved end_quant_states)

lemma end_finishes_restored:
  assumes "fits s t"
    and "\<And>r z. arrays_ok s r \<Longrightarrow> finishes s ((restored t r)\<lparr>th_pc := pc, th_cptr := th_cptr t\<rparr>) (states, z)"
  shows "end_finishes s None (saved t pc RE_EXEC_STATE_SPLIT k # states)"
    "end_finishes s None (saved t pc RE_EXEC_STATE_NEGATIVE_LOOKAHEAD k # states)"
  using assms by (auto simp: end_finishes_def result_of_def end_saved finishes_def)

text \<open>The iterations of an atom.\<close>

lemma quant_loop_finishes:
  assumes v: "verified s L" and cc: "get_u32 (re_bc_buf s) (pos + 13) = Some cc"
    and "quant_ok s L pos (th_stack_len t)" "fits s t" "boundary s (th_cptr t)" "re_reps s (pos + 17) qmax t q ps"
  shows "\<exists>N. \<forall>M \<ge> N. \<forall>n \<ge> N. \<forall>ss. quant_loop (lre_exec_backtrack M s True) (pos + 17) qmax n t ss q \<noteq> Inl RTimeout"
  using assms(3-)
proof (induction ps arbitrary: t q)
  case Nil
  obtain N u where u: "re_eval s (t\<lparr>th_pc := pos + 17\<rparr>) u"
    "\<And>n ss. n < N \<and> lre_exec_backtrack n s True (t\<lparr>th_pc := pos + 17\<rparr>) ss = RTimeout \<or>
      atom_out (map_option th_cptr u) t ss (lre_exec_backtrack n s True (t\<lparr>th_pc := pos + 17\<rparr>) ss)"
    using atom_at [OF v Nil(1-3) cc] by blast
  have un: "u = None" using Nil(4) re_eval_deterministic(1) [OF u(1)] by (auto elim: re_repsE)
  have "quant_loop (lre_exec_backtrack M s True) (pos + 17) qmax n t ss q \<noteq> Inl RTimeout" if "M \<ge> Suc N" "n \<ge> Suc N" for M n ss
  proof -
    obtain k where "n = Suc k" using \<open>n \<ge> Suc N\<close> by (cases n) auto
    moreover have "atom_out None t ss (lre_exec_backtrack M s True (t\<lparr>th_pc := pos + 17\<rparr>) ss)"
      using u(2) [of M ss] that(1) un by simp
    ultimately show ?thesis by (auto simp: atom_out_def)
  qed
  then show ?case by blast
next
  case (Cons p ps)
  obtain N u where u: "re_eval s (t\<lparr>th_pc := pos + 17\<rparr>) u"
    "\<And>v. u = Some v \<Longrightarrow> boundary s (th_cptr v) \<and> go_backward s (th_cptr v) (unat cc) = Some (th_cptr t)"
    "\<And>n ss. n < N \<and> lre_exec_backtrack n s True (t\<lparr>th_pc := pos + 17\<rparr>) ss = RTimeout \<or>
      atom_out (map_option th_cptr u) t ss (lre_exec_backtrack n s True (t\<lparr>th_pc := pos + 17\<rparr>) ss)"
    using atom_at [OF v Cons.prems(1-3) cc] by blast
  obtain w where w: "u = Some w" "p = th_cptr w"
    and more: "\<not> (q + 1 \<ge> uint qmax \<and> qmax \<noteq> 0x7fffffff) \<Longrightarrow> re_reps s (pos + 17) qmax (t\<lparr>th_cptr := p\<rparr>) (q + 1) ps"
    using Cons.prems(4) re_eval_deterministic(1) [OF u(1)] by (auto elim: re_repsE)
  have b: "boundary s p" using u(2) w by simp
  obtain N2 where N2: "\<not> (q + 1 \<ge> uint qmax \<and> qmax \<noteq> 0x7fffffff) \<Longrightarrow> M \<ge> N2 \<Longrightarrow> n \<ge> N2 \<Longrightarrow>
      quant_loop (lre_exec_backtrack M s True) (pos + 17) qmax n (t\<lparr>th_cptr := p\<rparr>) ss (q + 1) \<noteq> Inl RTimeout" for M n ss
  proof (cases "q + 1 \<ge> uint qmax \<and> qmax \<noteq> 0x7fffffff")
    case True then show ?thesis using that [of 0] by blast
  next
    case False
    have "\<exists>N. \<forall>M \<ge> N. \<forall>n \<ge> N. \<forall>ss. quant_loop (lre_exec_backtrack M s True) (pos + 17) qmax n (t\<lparr>th_cptr := p\<rparr>) ss (q + 1) \<noteq> Inl RTimeout"
      by (rule Cons.IH) (use Cons.prems(1,2) b more [OF False] in simp_all)
    then show ?thesis using that by blast
  qed
  have "quant_loop (lre_exec_backtrack M s True) (pos + 17) qmax n t ss q \<noteq> Inl RTimeout"
    if "M \<ge> Suc (max N N2)" "n \<ge> Suc (max N N2)" for M n ss
  proof -
    obtain k where k: "n = Suc k" "k \<ge> N2" using \<open>n \<ge> Suc (max N N2)\<close> by (cases n) auto
    have "atom_out (Some p) t ss (lre_exec_backtrack M s True (t\<lparr>th_pc := pos + 17\<rparr>) ss)"
      using u(3) [of M ss] that(1) w by auto
    then obtain t' where t': "th_capture t' = th_capture t" "th_stack t' = th_stack t" "th_cptr t' = p"
      "lre_exec_backtrack M s True (t\<lparr>th_pc := pos + 17\<rparr>) ss = RMatch t' ss"
      by (auto simp: atom_out_def)
    show ?thesis using N2 [of M k ss] that(1) k(2) t' unfolding k(1) by (auto simp: Let_def same_arrays)
  qed
  then show ?case by blast
qed

subsection \<open>Every outcome is computed\<close>

lemma quant_finishes:
  assumes v: "verified s L" and i: "re_instr s t = Some (AQuant pc qmin qmax t')" "similar t' t2'" "re_reps s pc qmax t' 0 ps"
    and ok: "act_ok s L (AQuant pc qmin qmax t2')" and i2: "re_instr s t2 = Some (AQuant pc qmin qmax t2')"
    and fail: "length ps < unat qmin \<Longrightarrow> end_finishes s None states"
    and go: "\<And>c rest cc next_pos t3 z. rev (drop (unat qmin) (th_cptr t' # ps)) = c # rest \<Longrightarrow>
      get_u32 (re_bc_buf s) (pc - 16 + 12) = Some cc \<Longrightarrow> get_u32 (re_bc_buf s) (pc - 16) = Some next_pos \<Longrightarrow>
      jump_to (pc - 16 + 16) next_pos = Some (th_pc t') \<Longrightarrow> thread_ok s L t3 \<Longrightarrow> similar (t'\<lparr>th_cptr := c\<rparr>) t3 \<Longrightarrow>
      goes_back s (unat cc) (c # rest) \<Longrightarrow> finishes s t3 (quant_states t3 (pc - 16) rest @ states, z)"
  shows "finishes s t2 (states, z)"
proof -
  define pos where "pos = th_pc t2"
  obtain next_pos where np: "get_u32 (re_bc_buf s) (pos + 1) = Some next_pos" "jump_to (pos + 17) next_pos = Some (th_pc t2')" "pc = pos + 17"
    using quant_instr [OF i2] by (auto simp: pos_def)
  have t2': "thread_ok s L t2'" and q: "quant_ok s L pos (th_stack_len t2')" using ok np(3) by (simp_all add: act_ok_def)
  obtain cc where cc: "get_u32 (re_bc_buf s) (pos + 13) = Some cc" using q by (auto simp: quant_ok_def split: option.splits)
  have f: "fits s t2'" by (rule thread_ok_fits [OF v t2'])
  have b: "boundary s (th_cptr t2')" using t2' by (simp add: thread_ok_def)
  have c: "th_cptr t2' = th_cptr t'" "th_pc t2' = th_pc t'" using i(2) by (simp_all add: similar_def)
  have reps: "re_reps s (pos + 17) qmax t2' 0 ps" using re_eval_similar(2) [OF i(3) i(2)] np(3) by simp
  obtain N where N: "\<And>M n ss. M \<ge> N \<Longrightarrow> n \<ge> N \<Longrightarrow> quant_loop (lre_exec_backtrack M s True) (pos + 17) qmax n t2' ss 0 \<noteq> Inl RTimeout"
    using quant_loop_finishes [OF v cc q f b reps] by blast
  define t3 where "t3 = t2'\<lparr>th_cptr := last (th_cptr t2' # ps)\<rparr>"
  have ql: "quant_loop (lre_exec_backtrack M s True) (pos + 17) qmax M t2' (states, z) 0 = Inr (int (length ps), t3, (states, z))"
    and gb: "goes_back s (unat cc) (rev (th_cptr t2' # ps))" if "M \<ge> N" for M
    using quant_loop_sound [OF v cc q f b, of M qmax M "(states, z)" 0] N [OF that that, of "(states, z)"] re_eval_deterministic(2) [OF reps]
    by (auto simp: t3_def)
  have "last (th_cptr t2' # ps) \<in> set (rev (th_cptr t2' # ps))" by (metis last_in_set list.distinct(1) set_rev)
  then have b3: "boundary s (th_cptr t3)" using gb [OF order_refl] by (auto simp: goes_back_def t3_def)
  have t3: "thread_ok s L t3" using t2' b3 by (simp add: thread_ok_def t3_def)
  have un: "uint qmin = int (unat qmin)" by (rule uint_nat)
  have exec: "lre_exec_backtrack (Suc M) s False t2 (states, z) =
      (if int (length ps) < uint qmin then end_match M s False False t3 (states, z)
       else if int (length ps) > uint qmin then
         (case push_state s (states, z) t3 (pos + 1) (th_cptr t3) RE_EXEC_STATE_GREEDY_QUANT (int (length ps) - uint qmin) of
            Inl _ \<Rightarrow> RMemory | Inr ss \<Rightarrow> lre_exec_backtrack M s False t3 ss)
       else lre_exec_backtrack M s False t3 (states, z))" if "M \<ge> N" for M
    using exec_Suc [of M s False t2 "(states, z)", unfolded i2 option.case re_act.case np(3) ql [OF that] sum.case prod.case] by simp
  have endm: "end_match (max N m) s False ret r ss \<noteq> RTimeout" if "end_match m s False ret r ss \<noteq> RTimeout" for m ret r ss
    using that exec_mono [of m s False _ _ "max N m"] by (auto simp: end_match_def split: option.splits sum.splits)
  show ?thesis
  proof (cases "length ps < unat qmin")
    case True
    have "result_of s None t3" using t3 by (simp add: thread_ok_def result_of_def)
    then obtain m where m: "end_match m s False False t3 (states, z) \<noteq> RTimeout"
      using end_finishesD [OF fail [OF True]] by auto
    have "int (length ps) < uint qmin" using True unfolding un by linarith
    then show ?thesis using endm [OF m] exec [of "max N m"] by (intro finishesI [of "Suc (max N m)"]) simp
  next
    case False
    then have lt: "unat qmin < length (th_cptr t' # ps)" by simp
    obtain rest where "rev (drop (unat qmin) (th_cptr t' # ps)) = last (th_cptr t' # ps) # rest"
      "length rest = length (th_cptr t' # ps) - unat qmin - 1"
      by (rule rev_drop_last [OF lt])
    then have rest: "rev (drop (unat qmin) (th_cptr t' # ps)) = th_cptr t3 # rest" "length rest = length ps - unat qmin"
      using c by (simp_all add: t3_def)
    have gbc: "goes_back s (unat cc) (th_cptr t3 # rest)"
      using goes_back_drop [OF gb [OF order_refl], of "unat qmin"] rest(1) c(1) by simp
    have sim: "similar (t'\<lparr>th_cptr := th_cptr t3\<rparr>) t3" using similar_cptr [OF i(2)] by (simp add: t3_def)
    have fin: "finishes s t3 (quant_states t3 (pos + 1) rest @ states, z')" for z'
      using go [OF rest(1) _ _ _ t3 sim gbc, of next_pos z'] cc np c by (simp add: ac_simps)
    show ?thesis
    proof (cases "length ps = unat qmin")
      case True
      then have "rest = []" using rest(2) by simp
      then obtain m where m: "lre_exec_backtrack m s False t3 (states, z) \<noteq> RTimeout"
        using fin [of z] by (auto simp: quant_states_def finishes_def)
      have "\<not> int (length ps) < uint qmin" "\<not> uint qmin < int (length ps)" using True unfolding un by linarith+
      then show ?thesis using exec_mono [OF m, of "max N m"] m exec [of "max N m"] by (intro finishesI [of "Suc (max N m)"]) simp
    next
      case gt: False
      have k: "int (length ps) - uint qmin = int (length rest)" using rest(2) False unfolding un by linarith
      have ne: "rest \<noteq> []" using rest(2) gt False by auto
      have cond: "int (length ps) > uint qmin" "\<not> int (length ps) < uint qmin" using gt False unfolding un by linarith+
      have "finishes s t3 (saved t3 (pos + 1) RE_EXEC_STATE_GREEDY_QUANT (int (length rest)) # states, z')" for z'
        using fin [of z'] ne by (simp add: quant_states_def)
      then obtain m where m: "(case push_state s (states, z) t3 (pos + 1) (th_cptr t3) RE_EXEC_STATE_GREEDY_QUANT (int (length rest)) of
            Inl _ \<Rightarrow> RMemory | Inr ss \<Rightarrow> lre_exec_backtrack m s False t3 ss) \<noteq> RTimeout"
        using push_finishes [of s t3 "pos + 1" RE_EXEC_STATE_GREEDY_QUANT "int (length rest)" states z] t3 by (auto simp: thread_ok_def)
      then have "(case push_state s (states, z) t3 (pos + 1) (th_cptr t3) RE_EXEC_STATE_GREEDY_QUANT (int (length rest)) of
            Inl _ \<Rightarrow> RMemory | Inr ss \<Rightarrow> lre_exec_backtrack (max N m) s False t3 ss) \<noteq> RTimeout"
        using exec_mono [of m s False t3 _ "max N m"] by (auto split: sum.splits)
      then show ?thesis using cond k exec [of "max N m"] by (intro finishesI [of "Suc (max N m)"]) simp
    qed
  qed
qed

lemma push_thread:
  assumes v: "verified s L" and t2: "thread_ok s L t2" "similar t t2" and i: "re_instr s t = Some (APush ty pc t')"
  shows "\<exists>t2'. re_instr s t2 = Some (APush ty pc t2') \<and> similar t' t2' \<and> thread_ok s L t2' \<and> fits s t2' \<and>
    (\<forall>r. arrays_ok s r \<longrightarrow>
      (thread_ok s L ((restored t2' r)\<lparr>th_pc := pc, th_cptr := th_cptr t2'\<rparr>) \<and>
       similar (t'\<lparr>th_pc := pc\<rparr>) ((restored t2' r)\<lparr>th_pc := pc, th_cptr := th_cptr t2'\<rparr>)) \<and>
      (thread_ok s L ((restored t2' r)\<lparr>th_capture := th_capture r, th_pc := pc, th_cptr := th_cptr t2'\<rparr>) \<and>
       similar (t'\<lparr>th_capture := th_capture r, th_pc := pc\<rparr>)
         ((restored t2' r)\<lparr>th_capture := th_capture r, th_pc := pc, th_cptr := th_cptr t2'\<rparr>)))"
proof -
  obtain t2' where t2': "re_instr s t2 = Some (APush ty pc t2')" "similar t' t2'" using similar_instr [OF t2(2) i] by auto
  have ok: "thread_ok s L t2'" "map_of L pc = Some (th_stack_len t2')"
    using re_instr_ok [of s L t2] v t2(1) t2'(1) by (auto simp: verified_def act_ok_def)
  have f: "fits s t2'" by (rule thread_ok_fits [OF v ok(1)])
  have b: "boundary s (th_cptr t2')" using ok(1) by (simp add: thread_ok_def)
  show ?thesis using t2' ok(1) f thread_ok_restored [OF v ok(1) _ ok(2) b] similar_restored(1,2) [OF t2'(2) f] by blast
qed

lemma re_eval_finishes:
  "re_eval s t u \<Longrightarrow> verified s L \<Longrightarrow> thread_ok s L t2 \<Longrightarrow> similar t t2 \<Longrightarrow> end_finishes s u states \<Longrightarrow> finishes s t2 (states, z)"
  "re_reps s qpc qmax t q ps \<Longrightarrow> True"
  "re_alts s t cs u \<Longrightarrow> verified s L \<Longrightarrow> cs = c # rest \<Longrightarrow>
     get_u32 (re_bc_buf s) (pc + 12) = Some cc \<Longrightarrow> get_u32 (re_bc_buf s) pc = Some next_pos \<Longrightarrow>
     jump_to (pc + 16) next_pos = Some (th_pc t) \<Longrightarrow> thread_ok s L t2 \<Longrightarrow> thread_ok s L t0 \<Longrightarrow>
     similar (t\<lparr>th_cptr := c\<rparr>) t2 \<Longrightarrow> similar (t\<lparr>th_cptr := c\<rparr>) t0 \<Longrightarrow> goes_back s (unat cc) (c # rest) \<Longrightarrow>
     end_finishes s u states \<Longrightarrow> finishes s t2 (quant_states t0 pc rest @ states, z)"
proof (induction arbitrary: t2 states z and t2 states z and c rest pc cc next_pos t2 t0 states z rule: re_eval_re_reps_re_alts.inducts)
  case (eval_go s t t' u)
  obtain t2' where t2': "re_instr s t2 = Some (AGo t2')" "similar t' t2'" using similar_instr [OF eval_go.prems(3) eval_go.hyps(1)] by auto
  have "thread_ok s L t2'" using re_instr_ok [of s L t2] eval_go.prems(1,2) t2'(1) by (auto simp: verified_def)
  then obtain n where "lre_exec_backtrack n s False t2' (states, z) \<noteq> RTimeout"
    using eval_go.IH [OF eval_go.prems(1) _ t2'(2) eval_go.prems(4)] by (auto simp: finishes_def)
  then show ?case using t2'(1) by (intro finishesI [of "Suc n"]) (simp add: exec_Suc)
next
  case (eval_fail s t t')
  obtain t2' where t2': "re_instr s t2 = Some (AFail t2')" using similar_instr [OF eval_fail.prems(3) eval_fail.hyps(1)] by auto
  have "result_of s None t2'" using re_instr_ok [of s L t2] eval_fail.prems(1,2) t2' by (auto simp: verified_def result_of_def)
  then obtain m where "end_match m s False False t2' (states, z) \<noteq> RTimeout" using end_finishesD [OF eval_fail.prems(4)] by auto
  then show ?case using t2' by (intro finishesI [of "Suc m"]) (simp add: exec_Suc)
next
  case (eval_match s t t')
  obtain t2' where t2': "re_instr s t2 = Some (AMatch t2')" "th_capture t2' = th_capture t'" "th_cptr t2' = th_cptr t'"
    using similar_instr [OF eval_match.prems(3) eval_match.hyps(1)] by auto
  have "result_of s (Some t') t2'" using re_instr_ok [of s L t2] eval_match.prems(1,2) t2' by (auto simp: verified_def result_of_def)
  then obtain m where "end_match m s False True t2' (states, z) \<noteq> RTimeout" using end_finishesD [OF eval_match.prems(4)] by auto
  then show ?case using t2' by (intro finishesI [of "Suc m"]) (simp add: exec_Suc)
next
  case (eval_split_first s t pc t' u)
  note p = push_thread [OF eval_split_first.prems(1-3) eval_split_first.hyps(1)]
  from p obtain t2' where t2': "re_instr s t2 = Some (APush RE_EXEC_STATE_SPLIT pc t2')" "similar t' t2'" "thread_ok s L t2'" "fits s t2'" by blast
  show ?case
    by (rule push_finishes' [OF t2'(1)])
      (use t2' eval_split_first.prems eval_split_first.IH end_finishes_saved(1) [OF t2'(4)] in \<open>simp_all add: fits_def\<close>)
next
  case (eval_split_second s t pc t' u)
  note p = push_thread [OF eval_split_second.prems(1-3) eval_split_second.hyps(1)]
  from p obtain t2' where t2': "re_instr s t2 = Some (APush RE_EXEC_STATE_SPLIT pc t2')" "similar t' t2'" "thread_ok s L t2'" "fits s t2'"
    and rst: "\<And>r. arrays_ok s r \<Longrightarrow> thread_ok s L ((restored t2' r)\<lparr>th_pc := pc, th_cptr := th_cptr t2'\<rparr>) \<and>
      similar (t'\<lparr>th_pc := pc\<rparr>) ((restored t2' r)\<lparr>th_pc := pc, th_cptr := th_cptr t2'\<rparr>)" by blast
  have "end_finishes s None (saved t2' pc RE_EXEC_STATE_SPLIT k # states)" for k
    by (rule end_finishes_restored(1) [OF t2'(4)]) (use eval_split_second.IH(2) eval_split_second.prems rst in blast)
  then show ?case
    by (intro push_finishes' [OF t2'(1)]) (use t2' eval_split_second.prems(1) eval_split_second.IH(1) in \<open>simp_all add: fits_def\<close>)
next
  case (eval_look s t pc t' v u)
  note p = push_thread [OF eval_look.prems(1-3) eval_look.hyps(1)]
  from p obtain t2' where t2': "re_instr s t2 = Some (APush RE_EXEC_STATE_LOOKAHEAD pc t2')" "similar t' t2'" "thread_ok s L t2'" "fits s t2'"
    and rst: "\<And>r. arrays_ok s r \<Longrightarrow> thread_ok s L ((restored t2' r)\<lparr>th_capture := th_capture r, th_pc := pc, th_cptr := th_cptr t2'\<rparr>) \<and>
      similar (t'\<lparr>th_capture := th_capture r, th_pc := pc\<rparr>) ((restored t2' r)\<lparr>th_capture := th_capture r, th_pc := pc, th_cptr := th_cptr t2'\<rparr>)"
    by blast
  have "end_finishes s (Some v) (saved t2' pc RE_EXEC_STATE_LOOKAHEAD k # states)" for k
    unfolding end_finishes_def
  proof (intro allI impI)
    fix r z
    assume r: "result_of s (Some v) r"
    then have a: "arrays_ok s r" and c: "th_capture r = th_capture v" by (simp_all add: result_of_def)
    have "finishes s ((restored t2' r)\<lparr>th_capture := th_capture r, th_pc := pc, th_cptr := th_cptr t2'\<rparr>) (states, z)"
      using eval_look.IH(2) [OF eval_look.prems(1) _ _ eval_look.prems(4)] rst [OF a] unfolding c by blast
    then show "\<exists>m. end_match m s False (Some v \<noteq> None) r (saved t2' pc RE_EXEC_STATE_LOOKAHEAD k # states, z) \<noteq> RTimeout"
      by (simp add: end_saved [OF t2'(4) a] finishes_def)
  qed
  then show ?case
    by (intro push_finishes' [OF t2'(1)]) (use t2' eval_look.prems(1) eval_look.IH(1) in \<open>simp_all add: fits_def\<close>)
next
  case (eval_look_fails s t pc t')
  note p = push_thread [OF eval_look_fails.prems(1-3) eval_look_fails.hyps(1)]
  from p obtain t2' where t2': "re_instr s t2 = Some (APush RE_EXEC_STATE_LOOKAHEAD pc t2')" "similar t' t2'" "thread_ok s L t2'" "fits s t2'" by blast
  show ?case
    by (rule push_finishes' [OF t2'(1)])
      (use t2' eval_look_fails.prems eval_look_fails.IH end_finishes_saved(3) [OF t2'(4)] in \<open>simp_all add: fits_def\<close>)
next
  case (eval_neg s t pc t' u)
  note p = push_thread [OF eval_neg.prems(1-3) eval_neg.hyps(1)]
  from p obtain t2' where t2': "re_instr s t2 = Some (APush RE_EXEC_STATE_NEGATIVE_LOOKAHEAD pc t2')" "similar t' t2'" "thread_ok s L t2'" "fits s t2'"
    and rst: "\<And>r. arrays_ok s r \<Longrightarrow> thread_ok s L ((restored t2' r)\<lparr>th_pc := pc, th_cptr := th_cptr t2'\<rparr>) \<and>
      similar (t'\<lparr>th_pc := pc\<rparr>) ((restored t2' r)\<lparr>th_pc := pc, th_cptr := th_cptr t2'\<rparr>)" by blast
  have "end_finishes s None (saved t2' pc RE_EXEC_STATE_NEGATIVE_LOOKAHEAD k # states)" for k
    by (rule end_finishes_restored(2) [OF t2'(4)]) (use eval_neg.IH(2) eval_neg.prems rst in blast)
  then show ?case
    by (intro push_finishes' [OF t2'(1)]) (use t2' eval_neg.prems(1) eval_neg.IH(1) in \<open>simp_all add: fits_def\<close>)
next
  case (eval_neg_fails s t pc t' v)
  note p = push_thread [OF eval_neg_fails.prems(1-3) eval_neg_fails.hyps(1)]
  from p obtain t2' where t2': "re_instr s t2 = Some (APush RE_EXEC_STATE_NEGATIVE_LOOKAHEAD pc t2')" "similar t' t2'" "thread_ok s L t2'" "fits s t2'" by blast
  show ?case
    by (rule push_finishes' [OF t2'(1)])
      (use t2' eval_neg_fails.prems eval_neg_fails.IH end_finishes_saved(4) [OF t2'(4)] in \<open>simp_all add: fits_def\<close>)
next
  case (eval_quant s t pc' qmin qmax t' ps u)
  obtain t2' where t2': "re_instr s t2 = Some (AQuant pc' qmin qmax t2')" "similar t' t2'"
    using similar_instr [OF eval_quant.prems(3) eval_quant.hyps(1)] by auto
  have ok: "act_ok s L (AQuant pc' qmin qmax t2')" using re_instr_ok [of s L t2] eval_quant.prems(1,2) t2'(1) by (auto simp: verified_def)
  show ?case
  proof (rule quant_finishes [OF eval_quant.prems(1) eval_quant.hyps(1) t2'(2) eval_quant.hyps(2) ok t2'(1)])
    assume "length ps < unat qmin"
    then have "u = None" using eval_quant.hyps(3) by (auto elim: re_altsE)
    then show "end_finishes s None states" using eval_quant.prems(4) by simp
  next
    fix c rest cc next_pos t3 z
    assume "rev (drop (unat qmin) (th_cptr t' # ps)) = c # rest"
      "get_u32 (re_bc_buf s) (pc' - 16 + 12) = Some cc" "get_u32 (re_bc_buf s) (pc' - 16) = Some next_pos"
      "jump_to (pc' - 16 + 16) next_pos = Some (th_pc t')" "thread_ok s L t3" "similar (t'\<lparr>th_cptr := c\<rparr>) t3"
      "goes_back s (unat cc) (c # rest)"
    then show "finishes s t3 (quant_states t3 (pc' - 16) rest @ states, z)"
      using eval_quant.IH(2) eval_quant.prems(1,4) by blast
  qed
next
  case (alts_none s t) then show ?case by simp
next
  case (alts_here s p t u ps)
  have f: "fits s t0" by (rule thread_ok_fits [OF alts_here.prems(1,7)])
  show ?case
    by (rule alts_here.IH) (use alts_here.prems end_finishes_saved(2) [OF f] in simp_all)
next
  case (alts_next s p t ps u)
  have f: "fits s t0" by (rule thread_ok_fits [OF alts_next.prems(1,7)])
  have cp: "p = c" "ps = rest" using alts_next.prems(2) by simp_all
  have c0: "th_cptr t0 = c" using alts_next.prems(9) by (simp add: similar_def)
  have "end_finishes s None (quant_states t0 pc rest @ states)"
  proof (cases rest)
    case Nil
    then have "u = None" using alts_next.hyps(2) cp by (auto elim: re_altsE)
    then show ?thesis using alts_next.prems(11) Nil by (simp add: quant_states_def)
  next
    case (Cons q rest')
    show ?thesis unfolding end_finishes_def
    proof (intro allI impI)
      fix r z assume "result_of s None r"
      then have r: "arrays_ok s r" by (simp add: result_of_def)
      have gb: "go_backward s (th_cptr t0) (unat cc) = Some q" "goes_back s (unat cc) (q # rest')" "boundary s q"
        using alts_next.prems(10) c0 Cons by (auto simp: goes_back_Cons2) (auto simp: goes_back_def)
      have L: "map_of L (th_pc t) = Some (th_stack_len t0)" using alts_next.prems(7,9) by (simp add: thread_ok_def similar_def)
      have ok0: "thread_ok s L (t0\<lparr>th_cptr := q\<rparr>)" using alts_next.prems(7) gb(3) by (simp add: thread_ok_def)
      have sim0: "similar (t\<lparr>th_cptr := q\<rparr>) (t0\<lparr>th_cptr := q\<rparr>)" using alts_next.prems(9) by (simp add: similar_def)
      have sim: "similar (t\<lparr>th_cptr := q\<rparr>) ((restored t0 r)\<lparr>th_pc := th_pc t, th_cptr := q\<rparr>)"
        using similar_restored(3) [OF alts_next.prems(9) f r, of q] by simp
      have "finishes s ((restored t0 r)\<lparr>th_pc := th_pc t, th_cptr := q\<rparr>) (quant_states (t0\<lparr>th_cptr := q\<rparr>) pc rest' @ states, z)"
        by (rule alts_next.IH(2) [OF alts_next.prems(1) _ alts_next.prems(3-5) thread_ok_restored(1) [OF alts_next.prems(1,7) r L gb(3)]
              ok0 sim sim0 gb(2) alts_next.prems(11)]) (simp add: cp Cons)
      then show "\<exists>m. end_match m s False (None \<noteq> None) r (quant_states t0 pc rest @ states, z) \<noteq> RTimeout"
        unfolding Cons using end_quant_back [OF f r alts_next.prems(3-5) gb(1)] by (simp add: finishes_def)
    qed
  qed
  then show ?case using alts_next.IH(1) alts_next.prems(1,6,8) unfolding cp by blast
qed simp_all

subsection \<open>The whole match\<close>

text \<open>The thread that \<open>lre_exec\<close> starts.\<close>

definition initial_thread :: "re_ctx \<Rightarrow> u64 list \<Rightarrow> nat \<Rightarrow> re_thread" where
  "initial_thread s stack cindex =
     \<lparr>th_capture = replicate (2 * re_capture_count s) None, th_stack = take (re_stack_size_max s) stack,
      th_stack_len = 0, th_pc = 7, th_cptr = cindex\<rparr>"

lemma bc_verified_L:
  assumes "bc_verified s"
  obtains L where "verified s L" "map_of L 7 = Some 0"
proof -
  obtain n L where "bc_scan (re_bc_buf s) (7 + n) (7 + n) 7 0 = Some L" "map_of L 7 = Some 0"
    "list_all (instr_verified s L) L" "re_stack_size_max s \<le> 255"
    using assms by (auto simp: bc_verified_def bc_instrs_def split: option.splits bind_splits)
  then have "verified s L" unfolding verified_def by blast
  then show thesis using that \<open>map_of L 7 = Some 0\<close> by blast
qed

lemma initial_thread_ok:
  assumes "map_of L 7 = Some 0" "boundary s cindex" "re_stack_size_max s \<le> length stack"
  shows "thread_ok s L (initial_thread s stack cindex)"
  using assms by (auto simp: thread_ok_def arrays_ok_def initial_thread_def)

lemma lre_exec_run:
  "re_context bc cbuf ty ok = Some s \<Longrightarrow>
   lre_exec n bc cbuf cindex ty ok stack = Some (lre_exec_backtrack n s False (initial_thread s stack cindex) ([], 0))"
  by (simp add: lre_exec_def initial_thread_def Let_def)



definition captures_in :: "re_ctx \<Rightarrow> re_thread \<Rightarrow> bool" where
  "captures_in s t \<longleftrightarrow> length (th_capture t) = 2 * re_capture_count s \<and>
     list_all (\<lambda>p. case p of None \<Rightarrow> True | Some q \<Rightarrow> q \<le> cbuf_end s) (th_capture t)"

lemma run_outcome:
  assumes "bc_verified s" "boundary s cindex" "re_stack_size_max s \<le> length stack"
    and "res = lre_exec_backtrack n s False (initial_thread s stack cindex) ([], 0)"
  obtains "res = RTimeout \<or> res = RMemory"
  | u r z where "re_eval s (initial_thread s stack cindex) u" "result_of s u r"
      "res = (if u = None then RNoMatch r ([], z) else RMatch r ([], z))"
proof -
  obtain L where L: "verified s L" "map_of L 7 = Some 0" by (rule bc_verified_L [OF assms(1)])
  have "reaches s n (re_eval s (initial_thread s stack cindex)) [] res"
    unfolding assms(4) by (rule sound_atD [OF exec_sound [OF L(1)] initial_thread_ok [OF L(2) assms(2,3)] similar_refl])
  then show thesis
  proof (cases rule: reachesE)
    case 1 then show thesis by (rule that(1))
  next
    case (2 u r z m)
    then show thesis using that(2) [of u r z] by (auto simp: end_match_def split: if_split_asm)
  qed
qed



lemma exec_safe:
  assumes "re_context bc_buf cbuf cbuf_type realloc_ok = Some s" "bc_verified s" "boundary s cindex" "re_stack_size_max s \<le> length stack"
    and "lre_exec fuel bc_buf cbuf cindex cbuf_type realloc_ok stack = Some res"
  shows "res \<noteq> RUndef \<and> (\<forall>t ss. res = RMatch t ss \<longrightarrow> captures_in s t)"
proof -
  have res: "res = lre_exec_backtrack fuel s False (initial_thread s stack cindex) ([], 0)"
    using assms(5) lre_exec_run [OF assms(1)] by simp
  show ?thesis
    by (rule run_outcome [OF assms(2-4) res])
      (auto simp: captures_in_def result_of_def arrays_ok_def list_all_iff split: if_splits option.splits)
qed

lemma quant_loop_memory:
  assumes "\<And>t ss. exec t ss \<noteq> RMemory" "quant_loop exec pc qmax n t ss q = Inl res"
  shows "res \<noteq> RMemory"
  using assms(2)
proof (induction n arbitrary: t ss q)
  case (Suc n)
  then show ?case using assms(1) [of "t\<lparr>th_pc := pc\<rparr>" ss] by (auto simp: Let_def split: re_result.split_asm if_split_asm)
qed simp

lemma exec_memory:
  assumes "\<And>n. re_realloc_ok s n"
  shows "lre_exec_backtrack n s b t ss \<noteq> RMemory"
proof (induction n arbitrary: b t ss)
  case (Suc n)
  have e: "end_match n s b ret t ss \<noteq> RMemory" for ret t ss
    using Suc by (auto simp: end_match_def split: option.splits sum.splits)
  have p: "(case push_state s ss t pc p ty k of Inl _ \<Rightarrow> RMemory | Inr ss \<Rightarrow> lre_exec_backtrack n s b t ss) \<noteq> RMemory" for ss t pc p ty k
    using push_state_ok [OF assms, of ss t pc p ty k] Suc by (cases "push_state s ss t pc p ty k") auto
  have q: "res \<noteq> RMemory" if "quant_loop (lre_exec_backtrack n s True) pc qmax n t ss 0 = Inl res" for pc qmax t ss res
    by (rule quant_loop_memory [OF _ that]) (rule Suc)
  show ?case
  proof (cases "re_instr s t")
    case (Some act)
    show ?thesis
    proof (cases act)
      case (AQuant pc qmin qmax t')
      show ?thesis unfolding exec_Suc Some option.case AQuant re_act.case
        using e p q Suc by (auto split: sum.splits)
    qed (use e p Suc Some in \<open>simp_all add: exec_Suc\<close>)
  qed (simp add: exec_Suc)
qed simp

lemma eval_run:
  assumes "bc_verified s" "boundary s cindex" "re_stack_size_max s \<le> length stack" "\<And>n. re_realloc_ok s n"
    and u: "re_eval s (initial_thread s stack cindex) u"
  obtains n r z where "result_of s u r"
    "lre_exec_backtrack n s False (initial_thread s stack cindex) ([], 0) = (if u = None then RNoMatch r ([], z) else RMatch r ([], z))"
proof -
  obtain L where L: "verified s L" "map_of L 7 = Some 0" by (rule bc_verified_L [OF assms(1)])
  have "end_finishes s u []" by (auto simp: end_finishes_def end_match_def)
  then obtain n where n: "lre_exec_backtrack n s False (initial_thread s stack cindex) ([], 0) \<noteq> RTimeout"
    using re_eval_finishes(1) [OF u L(1) initial_thread_ok [OF L(2) assms(2,3)] similar_refl] by (auto simp: finishes_def)
  show thesis
  proof (rule run_outcome [OF assms(1-3) refl, of n])
    assume "lre_exec_backtrack n s False (initial_thread s stack cindex) ([], 0) = RTimeout \<or>
      lre_exec_backtrack n s False (initial_thread s stack cindex) ([], 0) = RMemory"
    then show thesis using n exec_memory [OF assms(4)] by blast
  next
    fix u' r z
    assume "re_eval s (initial_thread s stack cindex) u'" and r: "result_of s u' r"
      and run: "lre_exec_backtrack n s False (initial_thread s stack cindex) ([], 0) = (if u' = None then RNoMatch r ([], z) else RMatch r ([], z))"
    then have "u' = u" using re_eval_deterministic(1) [OF u] by blast
    then show thesis using that r run by blast
  qed
qed

lemma exec_is_semantics:
  assumes "re_context bc_buf cbuf cbuf_type realloc_ok = Some s" "bc_verified s" "boundary s cindex" "re_stack_size_max s \<le> length stack"
    and "\<And>n. realloc_ok n"
  shows "(\<exists>fuel t ss. lre_exec fuel bc_buf cbuf cindex cbuf_type realloc_ok stack = Some (RMatch t ss) \<and> th_capture t = c) =
      (\<exists>t. re_eval s (initial_thread s stack cindex) (Some t) \<and> th_capture t = c) \<and>
    (\<exists>fuel t ss. lre_exec fuel bc_buf cbuf cindex cbuf_type realloc_ok stack = Some (RNoMatch t ss)) =
      re_eval s (initial_thread s stack cindex) None"
proof -
  have ok: "\<And>n. re_realloc_ok s n" using assms(1,5) by (auto simp: re_context_def Let_def split: bind_splits)
  note run = lre_exec_run [OF assms(1)]
  show ?thesis
  proof (intro conjI iffI; (elim exE conjE)?)
    fix fuel t ss
    assume m: "lre_exec fuel bc_buf cbuf cindex cbuf_type realloc_ok stack = Some (RMatch t ss)" and c: "th_capture t = c"
    have eq: "RMatch t ss = lre_exec_backtrack fuel s False (initial_thread s stack cindex) ([], 0)" using m run by simp
    show "\<exists>t. re_eval s (initial_thread s stack cindex) (Some t) \<and> th_capture t = c"
    proof (rule run_outcome [OF assms(2-4) eq])
      fix u r z
      assume u: "re_eval s (initial_thread s stack cindex) u" "result_of s u r" "RMatch t ss = (if u = None then RNoMatch r ([], z) else RMatch r ([], z))"
      then obtain v where v: "u = Some v" "r = t" by (cases u) auto
      then have "th_capture v = c" using u(2) c by (simp add: result_of_def)
      then show ?thesis using u(1) v(1) by blast
    qed simp
  next
    fix t
    assume t: "re_eval s (initial_thread s stack cindex) (Some t)" and c: "th_capture t = c"
    obtain n r z where r: "result_of s (Some t) r" "lre_exec_backtrack n s False (initial_thread s stack cindex) ([], 0) = RMatch r ([], z)"
      using eval_run [OF assms(2-4) ok t] by (metis option.distinct(1))
    have "th_capture r = c" using r(1) c by (simp add: result_of_def)
    moreover have "lre_exec n bc_buf cbuf cindex cbuf_type realloc_ok stack = Some (RMatch r ([], z))" using run r(2) by simp
    ultimately show "\<exists>fuel t ss. lre_exec fuel bc_buf cbuf cindex cbuf_type realloc_ok stack = Some (RMatch t ss) \<and> th_capture t = c"
      by blast
  next
    fix fuel t ss
    assume m: "lre_exec fuel bc_buf cbuf cindex cbuf_type realloc_ok stack = Some (RNoMatch t ss)"
    have eq: "RNoMatch t ss = lre_exec_backtrack fuel s False (initial_thread s stack cindex) ([], 0)" using m run by simp
    show "re_eval s (initial_thread s stack cindex) None"
      by (rule run_outcome [OF assms(2-4) eq]) (auto split: if_split_asm)
  next
    assume t: "re_eval s (initial_thread s stack cindex) None"
    obtain n r z where "lre_exec_backtrack n s False (initial_thread s stack cindex) ([], 0) = RNoMatch r ([], z)"
      using eval_run [OF assms(2-4) ok t] by (metis option.distinct(1))
    then show "\<exists>fuel t ss. lre_exec fuel bc_buf cbuf cindex cbuf_type realloc_ok stack = Some (RNoMatch t ss)"
      using run by auto
  qed
qed

end
