(* ===== verification/RegexpFacts.thy ===== *)
theory RegexpFacts
  imports RegexpComplete
begin

text \<open>
  The search in the intervals of a class is membership, the stack size that the compiler computes is
  enough, and a loop over an empty atom need not end.
\<close>

unbundle bit_operations_syntax

subsection \<open>Classes\<close>

lemma range_loop_membership:
  assumes get: "\<And>i. i < N \<Longrightarrow> get (pc + i * (2 * w)) = Some (lo i) \<and> get (pc + i * (2 * w) + w) = Some (hi i)"
    and ne: "\<And>i. i < N \<Longrightarrow> lo i \<le> hi i" and sorted: "\<And>i j. i < j \<Longrightarrow> j < N \<Longrightarrow> hi i < lo j"
    and N: "N \<le> 65536" and low: "lo 0 \<le> c"
    and "unat imax < N" "unat imax + 1 - unat imin \<le> k" "unat imin \<le> N"
  shows "range_loop get w pc c k imin imax = Some (\<exists>i \<in> {unat imin..unat imax}. lo i \<le> c \<and> c \<le> hi i)"
  using assms(6-)
proof (induction k arbitrary: imin imax)
  case 0
  then have "unat imax < unat imin" by linarith
  then show ?case by (auto simp: word_le_nat_alt)
next
  case (Suc k)
  show ?case
  proof (cases "imin \<le> imax")
    case True
    define idx where "idx = (imin + imax) div 2"
    have le: "unat imin \<le> unat imax" using True by (simp add: word_le_nat_alt)
    have "unat (imin + imax) = unat imin + unat imax"
      by (rule unat_add_lem [THEN iffD1]) (use Suc.prems(1) N le in simp)
    then have u: "unat idx = (unat imin + unat imax) div 2" by (simp add: idx_def unat_div)
    have i: "unat imin \<le> unat idx" "unat idx \<le> unat imax" using le unfolding u by linarith+
    then have iN: "unat idx < N" using Suc.prems(1) by linarith
    have step: "range_loop get w pc c (Suc k) imin imax =
        (if c < lo (unat idx) then range_loop get w pc c k imin (idx - 1)
         else if c > hi (unat idx) then range_loop get w pc c k (idx + 1) imax else Some True)"
      using True get [OF iN] by (simp add: idx_def [symmetric])
    consider "c < lo (unat idx)" | "\<not> c < lo (unat idx)" "c > hi (unat idx)" | "\<not> c < lo (unat idx)" "\<not> c > hi (unat idx)" by blast
    then show ?thesis
    proof cases
      case 1
      have i0: "unat idx \<noteq> 0" using 1 low by (metis linorder_not_less)
      then have um: "unat (idx - 1) = unat idx - 1" by (simp add: unat_minus_one unat_gt_0)
      have above: "\<not> lo j \<le> c" if "unat idx \<le> j" "j < N" for j
      proof (cases "j = unat idx")
        case False
        then have "hi (unat idx) < lo j" using sorted [of "unat idx" j] that by simp
        then show ?thesis using ne [OF iN] 1 by auto
      qed (use 1 in simp)
      have "range_loop get w pc c k imin (idx - 1) = Some (\<exists>i \<in> {unat imin..unat (idx - 1)}. lo i \<le> c \<and> c \<le> hi i)"
        by (rule Suc.IH) (use um i0 i iN Suc.prems in linarith)+
      also have "(\<exists>i \<in> {unat imin..unat (idx - 1)}. lo i \<le> c \<and> c \<le> hi i) = (\<exists>i \<in> {unat imin..unat imax}. lo i \<le> c \<and> c \<le> hi i)"
        unfolding um
      proof (intro iffI; elim bexE)
        fix j assume "j \<in> {unat imin..unat imax}" "lo j \<le> c \<and> c \<le> hi j"
        moreover from this have "j < unat idx" using above [of j] Suc.prems(1) by (meson atLeastAtMost_iff le_less_trans not_le)
        ultimately show "\<exists>i \<in> {unat imin..unat idx - 1}. lo i \<le> c \<and> c \<le> hi i" by (intro bexI [of _ j]) auto
      qed (use i i0 in \<open>auto intro!: bexI\<close>)
      finally show ?thesis using 1 unfolding step by simp
    next
      case 2
      have ua: "unat (idx + 1) = unat idx + 1" using unat_add_lem [THEN iffD1, of idx 1] iN N by simp
      have below: "\<not> c \<le> hi j" if "j \<le> unat idx" for j
      proof (cases "j = unat idx")
        case False
        then have "hi j < lo (unat idx)" using sorted [of j "unat idx"] that iN by simp
        then show ?thesis using ne [OF iN] 2 by auto
      qed (use 2 in simp)
      have "range_loop get w pc c k (idx + 1) imax = Some (\<exists>i \<in> {unat (idx + 1)..unat imax}. lo i \<le> c \<and> c \<le> hi i)"
        by (rule Suc.IH) (use ua i iN Suc.prems in linarith)+
      also have "(\<exists>i \<in> {unat (idx + 1)..unat imax}. lo i \<le> c \<and> c \<le> hi i) = (\<exists>i \<in> {unat imin..unat imax}. lo i \<le> c \<and> c \<le> hi i)"
        unfolding ua
      proof (intro iffI; elim bexE)
        fix j assume "j \<in> {unat imin..unat imax}" "lo j \<le> c \<and> c \<le> hi j"
        moreover from this have "unat idx < j" using below [of j] by (meson not_le)
        ultimately show "\<exists>i \<in> {unat idx + 1..unat imax}. lo i \<le> c \<and> c \<le> hi i" by (intro bexI [of _ j]) auto
      qed (use i in \<open>auto intro!: bexI\<close>)
      finally show ?thesis using 2 unfolding step by simp
    next
      case 3
      then show ?thesis using i unfolding step by (auto intro!: bexI [of _ "unat idx"])
    qed
  next
    case False
    then have "unat imax < unat imin" by (simp add: word_le_nat_alt not_le)
    then show ?thesis using False by simp
  qed
qed

text \<open>The intervals of the class whose operands start at \<open>pc\<close>, and what it means to be well-formed.\<close>

definition class_get :: "re_ctx \<Rightarrow> bool \<Rightarrow> nat \<Rightarrow> u32 option" where
  "class_get s is32 = (if is32 then get_u32 else get_u16) (re_bc_buf s)"

definition class_low :: "re_ctx \<Rightarrow> bool \<Rightarrow> nat \<Rightarrow> nat \<Rightarrow> u32" where
  "class_low s is32 pc i = the (class_get s is32 (pc + i * (if is32 then 8 else 4)))"

definition class_high :: "re_ctx \<Rightarrow> bool \<Rightarrow> nat \<Rightarrow> nat \<Rightarrow> u32" where
  "class_high s is32 pc i = the (class_get s is32 (pc + i * (if is32 then 8 else 4) + (if is32 then 4 else 2)))"

definition intervals_wf :: "re_ctx \<Rightarrow> bool \<Rightarrow> nat \<Rightarrow> nat \<Rightarrow> bool" where
  "intervals_wf s is32 pc n \<longleftrightarrow> 0 < n \<and> n < 65536 \<and> pc + n * (if is32 then 8 else 4) \<le> length (re_bc_buf s) \<and>
     (\<forall>i < n. class_low s is32 pc i \<le> class_high s is32 pc i) \<and>
     (\<forall>i < n. \<forall>j < n. i < j \<longrightarrow> class_high s is32 pc i < class_low s is32 pc j)"

definition in_class :: "re_ctx \<Rightarrow> bool \<Rightarrow> nat \<Rightarrow> nat \<Rightarrow> u32 \<Rightarrow> bool" where
  "in_class s is32 pc n c \<longleftrightarrow> (\<exists>i < n. class_low s is32 pc i \<le> c \<and> c \<le> class_high s is32 pc i) \<or>
     (\<not> is32 \<and> 0xffff \<le> c \<and> class_high s is32 pc (n - 1) = 0xffff)"

lemma test_range_membership:
  assumes n: "get_u16 (re_bc_buf s) (th_pc t) = Some n" and wf: "intervals_wf s is32 (th_pc t + 2) (unat n)"
    and c: "th_cptr t < cbuf_end s" "GET_CHAR s (th_cptr t) (cbuf_end s) = Some (c, q)" "canon_if s c = Some d"
  shows "test_range s is32 t =
    Some (if in_class s is32 (th_pc t + 2) (unat n) d
          then AGo (t\<lparr>th_cptr := q, th_pc := th_pc t + 2 + (if is32 then 8 else 4) * unat n\<rparr>) else AFail (t\<lparr>th_cptr := q\<rparr>))"
proof -
  define pc where "pc = th_pc t + 2"
  define w where "w = (if is32 then 4 else 2 :: nat)"
  define get where "get = (if is32 then get_u32 else get_u16) (re_bc_buf s)"
  define lo where "lo = class_low s is32 pc"
  define hi where "hi = class_high s is32 pc"
  have w2: "(if is32 then 8 else 4) = 2 * w" by (simp add: w_def)
  have wf: "0 < unat n" "unat n < 65536" "pc + unat n * (2 * w) \<le> length (re_bc_buf s)"
    "\<And>i. i < unat n \<Longrightarrow> lo i \<le> hi i" "\<And>i j. i < j \<Longrightarrow> j < unat n \<Longrightarrow> hi i < lo j"
    using wf unfolding intervals_wf_def pc_def [symmetric] lo_def [symmetric] hi_def [symmetric] w2 by auto
  have g: "get (pc + i * (2 * w)) = Some (lo i) \<and> get (pc + i * (2 * w) + w) = Some (hi i)" if "i < unat n" for i
  proof -
    have "(i + 1) * (2 * w) \<le> unat n * (2 * w)" using that by (intro mult_right_mono) auto
    then have "pc + i * (2 * w) + 2 * w \<le> length (re_bc_buf s)" using wf(3) by (simp add: algebra_simps)
    then have "get (pc + i * (2 * w)) \<noteq> None" "get (pc + i * (2 * w) + w) \<noteq> None"
      by (cases is32; auto simp: get_def w_def get_u16_def get_u32_def)+
    then show ?thesis unfolding lo_def hi_def class_low_def class_high_def class_get_def get_def [symmetric] w2 w_def [symmetric] by auto
  qed
  have n1: "unat (n - 1) = unat n - 1" using wf(1) by (simp add: unat_minus_one unat_gt_0)
  have g0: "get pc = Some (lo 0)" using g [OF wf(1)] by simp
  have gl: "get (pc + unat (n - 1) * (2 * w) + w) = Some (hi (unat n - 1))" using g [of "unat n - 1"] wf(1) n1 by simp
  have loop: "range_loop get w pc d (unat n) 0 (n - 1) = Some (\<exists>i \<in> {0..unat n - 1}. lo i \<le> d \<and> d \<le> hi i)" if "\<not> d < lo 0"
    using range_loop_membership [of "unat n" get pc w lo hi d "n - 1" 0 "unat n"] g wf(1,2,4,5) that n1 by simp
  have outside: "(\<exists>i < unat n. lo i \<le> d \<and> d \<le> hi i) = False" if "d < lo 0 \<or> hi (unat n - 1) < d"
  proof -
    have "\<not> (lo i \<le> d \<and> d \<le> hi i)" if i: "i < unat n" for i
    proof -
      have "lo 0 \<le> lo i" using wf(4) [OF wf(1)] wf(5) [of 0 i] i by (cases "i = 0") auto
      moreover have "hi i \<le> hi (unat n - 1)"
      proof -
        have "unat n - 1 < unat n" "i = unat n - 1 \<or> i < unat n - 1" using i by linarith+
        then show ?thesis using wf(4) [of "unat n - 1"] wf(5) [of i "unat n - 1"] by auto
      qed
      ultimately show ?thesis using \<open>d < lo 0 \<or> hi (unat n - 1) < d\<close> by auto
    qed
    then show ?thesis by blast
  qed
  have le: "lo 0 \<le> hi (unat n - 1)" using wf(4) [OF wf(1)] wf(4) [of "unat n - 1"] wf(5) [of 0 "unat n - 1"] wf(1)
    by (cases "unat n - 1 = 0") auto
  have "i \<in> {0..unat n - 1} \<longleftrightarrow> i < unat n" for i using wf(1) unfolding atLeastAtMost_iff by linarith
  then have bex: "(\<exists>i \<in> {0..unat n - 1}. lo i \<le> d \<and> d \<le> hi i) = (\<exists>i < unat n. lo i \<le> d \<and> d \<le> hi i)" by blast
  have cls: "in_class s is32 pc (unat n) d \<longleftrightarrow> (\<exists>i < unat n. lo i \<le> d \<and> d \<le> hi i) \<or> (\<not> is32 \<and> 0xffff \<le> d \<and> hi (unat n - 1) = 0xffff)"
    by (simp add: in_class_def lo_def hi_def)
  have inf: "hi (unat n - 1) = 0xffff \<Longrightarrow> 0xffff \<le> d \<Longrightarrow> \<not> d < lo 0" using le by auto
  define M where "M = (\<exists>i < unat n. lo i \<le> d \<and> d \<le> hi i)"
  have m: "(if \<not> is32 \<and> d \<ge> 0xffff \<and> hi (unat n - 1) = 0xffff then Some True
      else if d > hi (unat n - 1) then Some False else range_loop get w pc d (unat n) 0 (n - 1)) =
      Some (M \<or> (\<not> is32 \<and> 0xffff \<le> d \<and> hi (unat n - 1) = 0xffff))" if "\<not> d < lo 0"
    using loop [OF that] outside unfolding bex M_def [symmetric] by auto
  have run: "test_range s is32 t =
      (if d < lo 0 then Some (AFail (t\<lparr>th_cptr := q\<rparr>))
       else do {
         m \<leftarrow> (if \<not> is32 \<and> d \<ge> 0xffff \<and> hi (unat n - 1) = 0xffff then Some True
              else if d > hi (unat n - 1) then Some False else range_loop get w pc d (unat n) 0 (n - 1));
         Some (if m then AGo (t\<lparr>th_cptr := q, th_pc := pc + (2 * w) * unat n\<rparr>) else AFail (t\<lparr>th_cptr := q\<rparr>))
       })"
    unfolding test_range_def n get_def [symmetric] w_def [symmetric] Option.bind.bind_lunit pc_def [symmetric] Let_def g0
    using c g0 gl by (simp add: Let_def)
  show ?thesis
  proof (cases "d < lo 0")
    case True
    then have "\<not> M" "\<not> (0xffff \<le> d \<and> hi (unat n - 1) = 0xffff)" using outside inf by (auto simp: M_def)
    then show ?thesis using True unfolding run pc_def [symmetric] cls M_def [symmetric] by auto
  next
    case False
    show ?thesis unfolding run if_not_P [OF False] m [OF False] Option.bind.bind_lunit pc_def [symmetric] cls M_def [symmetric] w2 by (rule refl)
  qed
qed

subsection \<open>The stack size\<close>

definition pushes :: "REOPCode \<Rightarrow> bool" where
  "pushes opcode \<longleftrightarrow> opcode \<in> {REOP_push_i32, REOP_push_char_pos}"

lemma stack_size_loop_bound:
  assumes "stack_size_loop bc bc_end k pos d mx = Some m" "m \<noteq> -1" "d \<le> mx" "bc_scan bc bc_end k pos (nat d) = Some L" "0 \<le> d"
  shows "mx \<le> m \<and> (\<forall>(p, e) \<in> set L. int e \<le> m \<and> (\<forall>opcode. reop_at bc p = Some opcode \<longrightarrow> pushes opcode \<longrightarrow> int e < m))"
  using assms
proof (induction k arbitrary: pos d mx L)
  case 0
  then show ?case by (auto split: if_splits)
next
  case (Suc k)
  show ?case
  proof (cases "pos < bc_end")
    case False
    then show ?thesis using Suc.prems by auto
  next
    case True
    obtain opcode len where op: "reop_at bc pos = Some opcode" "instr_len bc pos opcode = Some len"
      using Suc.prems(4) True by (auto split: bind_splits)
    define d1 where "d1 = (if pushes opcode then d + 1 else if opcode \<in> {REOP_drop, REOP_check_advance} then d - 1 else d)"
    define mx1 where "mx1 = (if pushes opcode \<and> d + 1 > mx then d + 1 else mx)"
    have loop: "stack_size_loop bc bc_end k (pos + len) d1 mx1 = Some m" and d1: "0 \<le> d1"
      using Suc.prems(1,2,5) True op by (auto simp: d1_def mx1_def pushes_def Let_def split: if_splits)
    have nd: "nat d1 = (if opcode \<in> {REOP_push_i32, REOP_push_char_pos} then nat d + 1
        else if opcode \<in> {REOP_drop, REOP_check_advance} then nat d - 1 else nat d)"
      using Suc.prems(5) by (auto simp: d1_def pushes_def)
    obtain xs where xs: "bc_scan bc bc_end k (pos + len) (nat d1) = Some xs" "L = (pos, nat d) # xs"
      using Suc.prems(4) True op unfolding nd by (auto split: bind_splits)
    have "d1 \<le> mx1" using Suc.prems(3) by (auto simp: d1_def mx1_def)
    from Suc.IH [OF loop Suc.prems(2) this xs(1) d1]
    have IH: "mx1 \<le> m" "\<forall>(p, e) \<in> set xs. int e \<le> m \<and> (\<forall>opcode. reop_at bc p = Some opcode \<longrightarrow> pushes opcode \<longrightarrow> int e < m)"
      by simp_all
    have "mx \<le> mx1" "pushes opcode \<Longrightarrow> d + 1 \<le> mx1" by (auto simp: mx1_def)
    then show ?thesis using IH Suc.prems(3,5) op(1) unfolding xs(2) by auto
  qed
qed

lemma computed_stack_suffices:
  assumes "get_u32 (re_bc_buf s) 3 = Some n" "compute_stack_size (re_bc_buf s) (7 + unat n) = Some m" "m \<noteq> -1" "bc_instrs s = Some L"
    and "(p, d) \<in> set L" "reop_at (re_bc_buf s) p = Some opcode"
  shows "int d \<le> m \<and> (opcode \<in> {REOP_push_i32, REOP_push_char_pos} \<longrightarrow> int d < m)"
  using stack_size_loop_bound [of "re_bc_buf s" "7 + unat n" "7 + unat n" 7 0 0 m L] assms
  by (auto simp: compute_stack_size_def bc_instrs_def pushes_def)

subsection \<open>An endless loop\<close>

text \<open>The bytecode that the compiler makes of \<open>(?:)*?b\<close> with the flag \<open>y\<close>.\<close>

definition lazy_empty_loop :: "u8 list" where
  "lazy_empty_loop = [32, 1, 0, 18, 0, 0, 0, 11, 0, 8, 5, 0, 0, 0, 7, 0xf6, 0xff, 0xff, 0xff, 1, 98, 0, 12, 0, 10]"

definition lazy_context :: "re_ctx" where
  "lazy_context = the (re_context lazy_empty_loop [97] 1 (\<lambda>n. True))"

definition lazy_thread :: "nat \<Rightarrow> re_thread" where
  "lazy_thread pc = \<lparr>th_capture = [Some 0, None], th_stack = [], th_stack_len = 0, th_pc = pc, th_cptr = 0\<rparr>"

lemma lazy_context: "re_context lazy_empty_loop [97] 1 (\<lambda>n. True) = Some lazy_context"
  by (simp add: lazy_context_def re_context_def lazy_empty_loop_def rd_def Let_def)

lemma lazy_verified: "bc_verified lazy_context"
  by code_simp

lemma lazy_steps:
  "re_instr lazy_context (initial_thread lazy_context [] 0) = Some (AGo (lazy_thread 9))"
  "re_instr lazy_context (lazy_thread 9) = Some (APush RE_EXEC_STATE_SPLIT 14 (lazy_thread 19))"
  "re_instr lazy_context (lazy_thread 19) = Some (AFail ((lazy_thread 21)\<lparr>th_pc := 22, th_cptr := 1\<rparr>))"
  "re_instr lazy_context (lazy_thread 14) = Some (AGo (lazy_thread 9))"
  by code_simp+

lemma lazy_fails: "re_eval lazy_context (lazy_thread 19) u \<Longrightarrow> u = None"
  by (erule re_evalE) (simp_all add: lazy_steps)

lemma lazy_pc: "(lazy_thread pc)\<lparr>th_pc := pc'\<rparr> = lazy_thread pc'"
  by (simp add: lazy_thread_def)

lemma lazy_no_outcome:
  "re_eval s t u \<Longrightarrow> s = lazy_context \<Longrightarrow> t \<noteq> lazy_thread 9 \<and> t \<noteq> lazy_thread 14"
  "re_reps s pc qmax t q ps \<Longrightarrow> True"
  "re_alts s t cs u \<Longrightarrow> True"
proof (induction rule: re_eval_re_reps_re_alts.inducts)
  case (eval_split_first s t pc t' u)
  then show ?case using lazy_fails [of "Some u"] by (auto simp: lazy_steps)
next
  case (eval_split_second s t pc t' u)
  then show ?case by (auto simp: lazy_steps lazy_pc)
qed (auto simp: lazy_steps)

lemma lazy_diverges: "lre_exec fuel lazy_empty_loop [97] 0 1 (\<lambda>n. True) [] = Some RTimeout"
proof -
  define res where "res = lre_exec_backtrack fuel lazy_context False (initial_thread lazy_context [] 0) ([], 0)"
  have none: "\<not> re_eval lazy_context (initial_thread lazy_context [] 0) u" for u
  proof
    assume "re_eval lazy_context (initial_thread lazy_context [] 0) u"
    then have "re_eval lazy_context (lazy_thread 9) u" by (rule re_evalE) (simp_all add: lazy_steps)
    then show False using lazy_no_outcome(1) by blast
  qed
  have b: "boundary lazy_context 0" by (simp add: boundary_def)
  have z: "re_stack_size_max lazy_context \<le> length ([] :: u64 list)" by code_simp
  have "re_realloc_ok lazy_context n" for n
    by (simp add: lazy_context_def re_context_def lazy_empty_loop_def rd_def Let_def)
  then have "res \<noteq> RMemory" unfolding res_def by (rule exec_memory)
  then have "res = RTimeout" using run_outcome [OF lazy_verified b z res_def] none by blast
  then show ?thesis using lre_exec_run [OF lazy_context, of fuel 0 "[]"] by (simp add: res_def)
qed

subsection \<open>An example\<close>

text \<open>The bytecode of \<open>a*ab\<close> with the flag \<open>y\<close>.\<close>

definition star_program :: "u8 list" where
  "star_program =
     [32, 1, 0, 32, 0, 0, 0, 11, 0, 28, 4, 0, 0, 0, 0, 0, 0, 0, 0xff, 0xff, 0xff, 0x7f, 1, 0, 0, 0, 1, 97, 0, 10,
      1, 97, 0, 1, 98, 0, 12, 0, 10]"

definition star_context :: "u16 list \<Rightarrow> re_ctx" where
  "star_context cbuf = the (re_context star_program cbuf 1 (\<lambda>n. True))"

lemma star_context: "re_context star_program cbuf 1 (\<lambda>n. True) = Some (star_context cbuf)"
  by (simp add: star_context_def re_context_def star_program_def rd_def Let_def)

lemma star_verified: "bc_verified (star_context [97, 97, 98])"
  by code_simp

lemma star_stack: "re_stack_size_max (star_context [97, 97, 98]) \<le> length ([] :: u64 list)"
  by code_simp

lemma star_run:
  "map_option (\<lambda>r. case r of RMatch t ss \<Rightarrow> th_capture t | _ \<Rightarrow> []) (lre_exec 16 star_program [97, 97, 98] 0 1 (\<lambda>n. True) []) =
   Some [Some 0, Some 3]"
  by code_simp

lemma star_matches:
  "\<exists>t ss. lre_exec 16 star_program [97, 97, 98] 0 1 (\<lambda>n. True) [] = Some (RMatch t ss) \<and> th_capture t = [Some 0, Some 3]"
proof -
  define res where "res = lre_exec 16 star_program [97, 97, 98] 0 1 (\<lambda>n. True) []"
  have run: "map_option (\<lambda>r. case r of RMatch t ss \<Rightarrow> th_capture t | _ \<Rightarrow> []) res = Some [Some 0, Some 3]"
    unfolding res_def by (rule star_run)
  then obtain r where r: "res = Some r" by (cases res) simp_all
  have "(case r of RMatch t ss \<Rightarrow> th_capture t | _ \<Rightarrow> []) = [Some 0, Some 3]" using run unfolding r by simp
  then show ?thesis unfolding res_def [symmetric] r by (cases r) simp_all
qed

text \<open>A class with the two intervals \<open>0-9\<close> and \<open>a-z\<close>, on the subject \<open>z\<close>.\<close>

definition class_program :: "u8 list" where
  "class_program = [32, 1, 0, 12, 0, 0, 0, 21, 2, 0, 48, 0, 57, 0, 97, 0, 122, 0, 10]"

definition class_context :: "re_ctx" where
  "class_context = the (re_context class_program [122] 1 (\<lambda>n. True))"

definition class_thread :: "re_thread" where
  "class_thread = \<lparr>th_capture = [None, None], th_stack = [], th_stack_len = 0, th_pc = 8, th_cptr = 0\<rparr>"

end
