(* ===== verification/Spec2Isabelle.thy ===== *)
theory Spec2Isabelle
  imports CUtils GCFreeCycles Utf8 Exchange CaseConv UniTable UnicodeByName RegexpCanon UnicodeAlloc BigDiv RegexpFacts
begin

text \<open>
  A model of the C core of the JavaScript engine QuickJS 2024-01-13, which this repository vendors
  under src/quickjs_package/quickjs-2024-01-13 (file names below are relative to it).  The rest of
  the repository packages the engine, Python and FFmpeg for Android and holds no code of its own to
  verify.

  The program and its parts.
    The engine (quickjs.c) is an interpreter with reference counted objects and a collector of
    cycles.  Below it are libraries that do not depend on it: sorting, strings, UTF-8 and a growing
    byte buffer (cutils.c, cutils.h), intrusive lists (list.h), Unicode tables and character ranges
    (libunicode.c, libunicode-table.h), regular expressions (libregexp.c) and arbitrary precision
    floating point numbers (libbf.c).  The model covers these libraries and the collector.  Regular
    expressions use the buffer, the UTF-8 decoder, the character ranges and the case conversion; the
    collector works on the lists; the character ranges sort with rqsort.

  The theories, from the bottom.
    Prelude: machine integers as words, reads and writes that may leave a buffer (\<open>None\<close>), the
      named collections of rewrite rules, and the locale \<open>realloc_contract\<close>, the laws of a
      reallocation function, interpreted for the one of the C library.
    CUtils (cutils.c, cutils.h): \<open>pstrcpy\<close>, \<open>pstrcat\<close>, \<open>strstart\<close>, \<open>has_suffix\<close>, the unaligned
      reads and writes, the byte swaps, \<open>from_hex\<close>, and \<open>DynBuf\<close> with its operations, proved in
      the locale \<open>dynbuf_alloc\<close>.
    Utf8: \<open>unicode_to_utf8\<close>, \<open>unicode_from_utf8\<close>.
    RQSort, Exchange (cutils.c): \<open>rqsort\<close> with its explicit stack, its partition, the heap sort that
      it falls back to and the insertion sort, on a list of elements (locale \<open>comparator\<close>); and the
      exchange functions chosen by \<open>exchange_func\<close>, on bytes.
    CharRange, RegexpCanon (libunicode.c): \<open>CharRange\<close>, its growth and its set operations (locale
      \<open>char_range_alloc\<close>), and \<open>cr_regexp_canonicalize\<close>.
    UnicodeTables, CaseConv: the tables of case conversion, \<open>lre_case_conv\<close>, \<open>lre_canonicalize\<close> and
      \<open>unicode_case1\<close>.
    UniTable, UnicodePropTables, UnicodeProps, UnicodeByName, UnicodeAlloc: the run-length tables and
      their two readers, the tables of libunicode-table.h, \<open>unicode_general_category\<close>,
      \<open>unicode_script\<close>, \<open>unicode_prop\<close> with the stack machine of the derived properties, what they
      compute for a name, and what they return when an allocation fails.
    LinkedList (list.h): the list operations as assignments to a store of links, and the sequence
      that a ring of links stands for.
    GCMark, GCFree, GC, GCFreeCycles (quickjs.c): the references of every kind of object and class,
      as \<open>mark_children\<close> visits them and as the finalizers release them; \<open>gc_decref\<close>, \<open>gc_scan\<close>,
      \<open>gc_free_cycles\<close> and \<open>JS_RunGC\<close> on the lists and the reference counts.
    LimbArith, LimbDiv (libbf.c): arrays of 64-bit limbs, with schoolbook multiplication and division.
    BigFloat, BigRound, BigMul, BigDiv (libbf.c): \<open>bf_t\<close>, \<open>bf_round\<close>, \<open>bf_normalize_and_round\<close>,
      \<open>bf_mul\<close> and \<open>bf_div\<close>.
    RegexpVM (libregexp.c): the bytecode and the interpreter \<open>lre_exec\<close>, \<open>lre_exec_backtrack\<close> with
      its stack of saved states and its loop for simple quantifiers.
    RegexpVerify: \<open>re_need_check_advance\<close>, \<open>re_is_simple_quantifier\<close>, \<open>compute_stack_size\<close>, and
      \<open>bc_verified\<close>, a check of a whole bytecode that states what the interpreter relies on: it is
      not in the program, which trusts its own compiler.
    RegexpSem: the meaning of a bytecode as an inductive relation without the stack of saved states.
    RegexpSafe, RegexpStep, RegexpRun, RegexpEquiv, RegexpSound, RegexpComplete, RegexpFacts: the
      interpreter on verified bytecode, and the two directions of its equivalence with the meaning.

  What the lemmas show.
    Regular expressions: on verified bytecode the interpreter never leaves a buffer nor its stack, and
      returns a match or its absence exactly when the meaning of the bytecode does; the search in a
      class is membership, and the computed stack size suffices.  A lazy loop over an atom that
      can be empty (\<open>lazy_empty_loop_never_returns\<close>) has no meaning: the interpreter never returns.
    Collector: what marking visits is what freeing releases, for the classes of quickjs.c; \<open>JS_RunGC\<close>
      returns, frees exactly what nothing outside refers to, and leaves a consistent heap.  The
      unreachable objects have to be well-formed and the keys of no weak map (\<open>typed_heap\<close>).
    Numbers: products and quotients of limb arrays are exact, and rounding, multiplication and
      division of finite, nonzero numbers give the correctly rounded number in normal form with the
      right status, for exponents without overflow and subnormal numbers (\<open>in_exp_range\<close>) and an
      allocator that does not fail.
    Unicode: ranges are in canonical form and denote the sets that the operations are named after;
      the lookups by index, by range and by name agree; failures are reported, except in
      \<open>unicode_script\<close>, which then runs forever or frees a block twice (its error path is the loop
      \<open>fail_loop\<close>), and in \<open>cr_regexp_canonicalize\<close>, whose theorem assumes that no allocation fails.
    Sorting, strings and buffers: sorting and permutation for a total preorder, safety and termination
      for any comparison function of two elements; round trips, bounds and error flags.

  How the state is represented.
    A buffer is a list and a pointer into it an index; a fixed width integer is a word, and an
    \<open>int\<close> or \<open>size_t\<close> that indexes a buffer a natural number or an integer, without its limits: the
    sizes of blocks that exist in memory stay below them, as long as the points of a character range
    are fewer than a third of the range of \<open>int\<close> (\<open>cr_realloc\<close> computes three times a size).  The
    comparison function of \<open>rqsort\<close> is a function of the two elements: its opaque argument, and
    comparisons with a state, are not modelled.  Allocation is a
    function, so that it may fail at any call.  An access outside of a buffer, a failed assertion and
    \<open>abort\<close> are \<open>None\<close>, so a theorem that a result is \<open>Some\<close> excludes them.

  Bounds and fuel.
    \<open>lre_exec\<close> has fuel, and \<open>RTimeout\<close> when it is used up: more fuel never changes another result
    (RegexpRun), and for every thread with an outcome there is enough fuel (RegexpComplete), so
    \<open>\<exists>fuel\<close> in a statement means that the program returns.  The releases of \<open>gc_free_cycles\<close> nest by
    the kinds of the objects (a context above shapes and variable references, these above the rest:
    \<open>rank\<close> in GCFreeCycles), so a fuel of 3 is never used up on the heaps of the theorems.  A digit of the quotient is corrected at most twice, so the loop
    \<open>add_back\<close> with a fuel of 3 always ends.  The segments of \<open>rqsort\<close> fit its stack of 50.

  Parameters.
    The reallocation functions, with the laws of \<open>realloc_contract\<close>; the multiplication by
    transforms (\<open>fft_mul\<close>, for factors of 100 limbs and more) and the division by an inverse
    (\<open>large\<close>), in \<open>bf_mul\<close> and \<open>bf_div\<close>.  The theorems on these two functions are about the sizes
    below the thresholds, where the parameters are not used.

  Not modelled.
    The parser and the emission of bytecode in libregexp.c; in libbf.c the transforms, the division by
    an inverse, addition, roots, transcendental functions, decimal numbers and conversions to and
    from text; normalization in libunicode.c; weak references (the lists of records of a key,
    \<open>delete_weak_ref\<close> and \<open>reset_weak_ref\<close>), the reference counts of the records of maps, the classes
    that a program adds (as quickjs-libc.c does with workers and timers), and the deferred frees
    of the phase \<open>JS_GC_PHASE_DECREF\<close>, in the collector; the parser, the bytecode
    interpreter and the built-in objects of quickjs.c; quickjs-libc.c and the tools qjs.c, qjsc.c and
    run-test262.c, which are input and output; and unicode_gen.c, which generates the tables at build
    time.
\<close>

unbundle bit_operations_syntax

subsection \<open>Regular expressions\<close>





text \<open>C3: The instructions REOP_range and REOP_range32 test membership: on a class with ordered, disjoint
  intervals the binary search accepts exactly the characters (canonicalized, when case is
  ignored) that lie in one of them, where the end 0xffff of a table of 16-bit intervals stands
  for infinity.\<close>

theorem test_range_is_membership:
  assumes "get_u16 (re_bc_buf s) (th_pc t) = Some n" "intervals_wf s is32 (th_pc t + 2) (unat n)"
    and "th_cptr t < cbuf_end s" "GET_CHAR s (th_cptr t) (cbuf_end s) = Some (c, q)" "canon_if s c = Some d"
  shows "test_range s is32 t =
    Some (if in_class s is32 (th_pc t + 2) (unat n) d
          then AGo (t\<lparr>th_cptr := q, th_pc := th_pc t + 2 + (if is32 then 8 else 4) * unat n\<rparr>) else AFail (t\<lparr>th_cptr := q\<rparr>))"
  using assms by (rule test_range_membership)

theorem test_range_is_membership_witness:
  "test_range class_context False class_thread = Some (AGo (class_thread\<lparr>th_cptr := 1, th_pc := 18\<rparr>))"
proof -
  have h: "get_u16 (re_bc_buf class_context) (th_pc class_thread) = Some 2" "th_cptr class_thread < cbuf_end class_context"
    "GET_CHAR class_context (th_cptr class_thread) (cbuf_end class_context) = Some (122, 1)" "canon_if class_context 122 = Some 122"
    by code_simp+
  have low: "class_low class_context False 10 0 = 48" "class_low class_context False 10 1 = 97"
    "class_high class_context False 10 0 = 57" "class_high class_context False 10 1 = 122" by code_simp+
  have len: "length (re_bc_buf class_context) = 19" by code_simp
  have lt2: "i < 2 \<longleftrightarrow> i = 0 \<or> i = 1" for i :: nat by auto
  have wf: "intervals_wf class_context False (th_pc class_thread + 2) (unat (2 :: u32))"
    using low len by (auto simp: intervals_wf_def class_thread_def lt2)
  have "in_class class_context False (th_pc class_thread + 2) (unat (2 :: u32)) 122"
    using low by (auto simp: in_class_def class_thread_def lt2 intro!: exI [of _ 1])
  then show ?thesis using test_range_is_membership [OF h(1) wf h(2-4)] by (simp add: class_thread_def)
qed

text \<open>C4: The stack size that compute_stack_size finds in one linear pass over the bytecode is enough: at
  every instruction the depth of the stack (by the same linear count that the verifier uses) is
  at most that size, and strictly smaller at an instruction that pushes.\<close>

theorem compute_stack_size_suffices:
  assumes "get_u32 (re_bc_buf s) 3 = Some n" "compute_stack_size (re_bc_buf s) (7 + unat n) = Some m" "m \<noteq> -1" "bc_instrs s = Some L"
    and "(p, d) \<in> set L" "reop_at (re_bc_buf s) p = Some opcode"
  shows "int d \<le> m \<and> (opcode \<in> {REOP_push_i32, REOP_push_char_pos} \<longrightarrow> int d < m)"
  using assms by (rule computed_stack_suffices)

theorem compute_stack_size_suffices_witness:
  "compute_stack_size (re_bc_buf (star_context [])) 39 = Some 0 \<and> (\<exists>d. map_of (the (bc_instrs (star_context []))) 29 = Some d \<and> int d \<le> 0)"
proof -
  have h: "get_u32 (re_bc_buf (star_context [])) 3 = Some 32" "compute_stack_size (re_bc_buf (star_context [])) (7 + unat (32 :: u32)) = Some 0"
    "(0 :: int) \<noteq> -1" "bc_instrs (star_context []) = Some (the (bc_instrs (star_context [])))"
    "map_of (the (bc_instrs (star_context []))) 29 = Some 0" "reop_at (re_bc_buf (star_context [])) 29 = Some REOP_match"
    by code_simp+
  then show ?thesis using compute_stack_size_suffices [OF h(1-4) map_of_SomeD [OF h(5)] h(6)] by simp
qed

text \<open>
  A lazy loop over an empty atom gets no check that the position advances (the compiler sets
  add_zero_advance_check to FALSE for the quantifiers that are not greedy), so the match does not
  end where the language requires that it fails.
\<close>

theorem lazy_empty_loop_never_returns:
  "lre_exec fuel lazy_empty_loop [97] 0 1 (\<lambda>n. True) [] = Some RTimeout"
  by (rule lazy_diverges)

subsection \<open>Linked lists and the garbage collector\<close>

definition two_links :: link_store where
  "two_links = map_of [(1, \<lparr>prev = 3, next = 2\<rparr>), (2, \<lparr>prev = 1, next = 3\<rparr>), (3, \<lparr>prev = 2, next = 1\<rparr>), (4, \<lparr>prev = 0, next = 0\<rparr>)]"

lemma two_links: "is_list two_links 1 [2, 3]"
  by (simp add: is_list_def two_links_def)

definition no_links :: link_store where
  "no_links = map_of [(1, \<lparr>prev = 1, next = 1\<rparr>), (4, \<lparr>prev = 0, next = 0\<rparr>)]"

lemma no_links: "is_list no_links 1 []"
  by (simp add: is_list_def no_links_def)

text \<open>A heap with an object 10 that refers to itself, an object 12 that is referenced from outside, and their shapes.\<close>

definition small_heap :: gc_objects where
  "small_heap = map_of
     [(10, GC_JS_OBJECT \<lparr>obj_shape = 11, obj_prop = [], obj_class = C_object_data (JS_OBJECT 10), first_weak_ref = None\<rparr>),
      (11, GC_SHAPE \<lparr>shape_proto = None, shape_prop = []\<rparr>),
      (12, GC_JS_OBJECT \<lparr>obj_shape = 13, obj_prop = [], obj_class = C_plain, first_weak_ref = None\<rparr>),
      (13, GC_SHAPE \<lparr>shape_proto = None, shape_prop = []\<rparr>)]"

definition small_children :: "gc_ptr \<Rightarrow> gc_ptr list" where
  "small_children p = (if p = 10 then [11, 10] else if p = 12 then [13] else [])"

definition small_state :: gc_state where
  "small_state =
     (map_of [(1, \<lparr>prev = 13, next = 10\<rparr>), (10, \<lparr>prev = 1, next = 11\<rparr>), (11, \<lparr>prev = 10, next = 12\<rparr>),
        (12, \<lparr>prev = 11, next = 13\<rparr>), (13, \<lparr>prev = 12, next = 1\<rparr>), (2, \<lparr>prev = 0, next = 0\<rparr>), (3, \<lparr>prev = 3, next = 3\<rparr>)],
      map_of (map (\<lambda>p. (p, \<lparr>ref_count = 1, gc_mark = 0\<rparr>)) [10, 11, 12, 13]))"

lemma small_edges: "in_edges small_children (set [10, 11, 12, 13]) p = (if p = 10 \<or> p = 11 \<or> p = 13 then 1 else 0)"
  "in_edges small_children {10, 11, 12, 13} p = (if p = 10 \<or> p = 11 \<or> p = 13 then 1 else 0)"
  by (auto simp: in_edges_def small_children_def)

lemma small_closed: "closed_heap small_heap [10, 11, 12, 13] small_children (\<lambda>_. 1)"
  unfolding closed_heap_def external_def small_edges
  by (simp add: small_heap_def mark_children_def mark_object_def class_gc_mark_def js_object_data_mark_def mark_ptr_def small_children_def)

lemma small_typed: "typed_heap small_heap [10, 11, 12, 13] small_children (\<lambda>_. 1)"
  by (rule typed_heapI)
    (auto simp: small_heap_def object_wf_def class_wf_def no_weak_ref_def rank_def small_children_def)

lemma small_start: "gc_start [10, 11, 12, 13] (\<lambda>_. 1) 1 2 3 small_state"
  by (simp add: gc_start_def is_list_def small_state_def counts_def marks_def)

lemma small_reached: "reached small_children [10, 11, 12, 13] (\<lambda>_. 1) = {12, 13}"
proof
  show "reached small_children [10, 11, 12, 13] (\<lambda>_. 1) \<subseteq> {12, 13}"
    by (rule reached_least) (auto simp: external_def small_edges small_children_def split: if_splits)
  have "12 \<in> reached small_children [10, 11, 12, 13] (\<lambda>_. 1)" by (rule reached_root) (simp_all add: external_def small_edges)
  moreover from this have "13 \<in> reached small_children [10, 11, 12, 13] (\<lambda>_. 1)"
    by (rule reached_child) (simp add: small_children_def)
  ultimately show "{12, 13} \<subseteq> reached small_children [10, 11, 12, 13] (\<lambda>_. 1)" by simp
qed

text \<open>C5: The operations of list.h, assignments to the links of a doubly linked ring, do on the sequence
  of the elements what their names say, on the empty ring as well: list_add inserts a new
  element in front, list_add_tail appends it, list_del takes an element out wherever it is (and
  clears its links), and list_empty tells whether the sequence is empty.\<close>

theorem list_operations:
  assumes "is_list h head xs"
  shows "list_empty h head = Some (xs = []) \<and>
    (\<forall>el. el \<notin> set (head # xs) \<and> h el \<noteq> None \<longrightarrow>
       (\<exists>h'. list_add h el head = Some h' \<and> is_list h' head (el # xs)) \<and>
       (\<exists>h'. list_add_tail h el head = Some h' \<and> is_list h' head (xs @ [el]))) \<and>
    (\<forall>x\<in>set xs. \<exists>h'. list_del h x = Some h' \<and> is_list h' head (remove1 x xs) \<and> h' x = Some \<lparr>prev = 0, next = 0\<rparr>)"
proof (intro conjI allI impI ballI)
  show "list_empty h head = Some (xs = [])" by (rule list_empty_ok [OF assms])
next
  fix el assume "el \<notin> set (head # xs) \<and> h el \<noteq> None"
  then obtain l where el: "el \<notin> set (head # xs)" "h el = Some l" by blast
  show "\<exists>h'. list_add h el head = Some h' \<and> is_list h' head (el # xs)"
    "\<exists>h'. list_add_tail h el head = Some h' \<and> is_list h' head (xs @ [el])"
    using list_add_ok [OF assms el] list_add_tail_ok [OF assms el] by blast+
next
  fix x assume "x \<in> set xs"
  then obtain us vs where xs: "xs = us @ x # vs" by (meson split_list)
  have "distinct xs" using assms by (simp add: is_list_def)
  then have "remove1 x xs = us @ vs" using xs by (simp add: remove1_append)
  then show "\<exists>h'. list_del h x = Some h' \<and> is_list h' head (remove1 x xs) \<and> h' x = Some \<lparr>prev = 0, next = 0\<rparr>"
    using list_del_ok [OF assms [unfolded xs]] by auto
qed

theorem list_operations_witness:
  "(\<exists>h'. list_add two_links 4 1 = Some h' \<and> is_list h' 1 [4, 2, 3]) \<and>
    (\<exists>h'. list_add_tail two_links 4 1 = Some h' \<and> is_list h' 1 [2, 3, 4]) \<and>
    (\<exists>h'. list_del two_links 3 = Some h' \<and> is_list h' 1 [2]) \<and> list_empty two_links 1 = Some False \<and>
    list_empty no_links 1 = Some True \<and> (\<exists>h'. list_add no_links 4 1 = Some h' \<and> is_list h' 1 [4])"
proof -
  have "two_links 4 \<noteq> None" "no_links 4 \<noteq> None" by (simp_all add: two_links_def no_links_def)
  then show ?thesis using list_operations [OF two_links] list_operations [OF no_links] by auto
qed

text \<open>C6: The loops of list.h end, and visit the elements once each in their order: list_for_each with a
  body that leaves the links alone, list_for_each_safe also with a body that takes each element
  out of the list.\<close>

theorem list_traversals:
  assumes "is_list h head xs"
  shows "list_for_each (keep_body g) head (h, a) = Some (h, fold g xs a) \<and>
    (\<exists>h'. list_for_each_safe (unlink_body g) head (h, a) = Some (h', fold g xs a) \<and> is_list h' head [])"
  by (intro conjI for_each_keep for_each_safe_unlink assms)

theorem list_traversals_witness:
  "\<exists>h'. list_for_each_safe (unlink_body (#)) 1 (two_links, []) = Some (h', [3, 2]) \<and> is_list h' 1 []"
  using list_traversals [OF two_links, of "(#)" "[]"] by simp

text \<open>C7: For every well-formed object the references that mark_children visits are, with their
  multiplicity, those that freeing the object gives up, for every type of object and every class
  of quickjs.c that has a finalizer: the collector neither forgets a reference nor takes one
  away twice. Well-formed (object_wf): the properties have the members of the union that their
  flags select and deleted ones hold no reference, emptied records of a map hold no reference, a
  completed generator has no function state, and an asynchronous function is completed or
  suspended, not running. Classes added by an embedder, as those of quickjs-libc.c, are not
  covered.\<close>

theorem finalizers_free_what_is_marked:
  assumes "object_wf objs gp"
  shows "\<exists>ms fs. mark_children objs gp = Some ms \<and> free_children objs gp = Some fs \<and> mset ms = mset fs"
  using assms by (rule mark_free_children)

theorem finalizers_free_what_is_marked_witness:
  "\<exists>ms fs. mark_children small_heap 10 = Some ms \<and> free_children small_heap 10 = Some fs \<and> mset ms = mset fs"
  by (rule finalizers_free_what_is_marked) (simp add: small_heap_def object_wf_def class_wf_def)

text \<open>C8: JS_RunGC returns on every heap whose reference counts are positive and cover the references
  between its objects, when the objects that no reference from outside reaches are well-formed
  (object_wf, so none is a running asynchronous function), have the types of the pointers to
  them and are the keys of no weak map: it frees exactly these objects, cycles included, and
  leaves the others allocated with the counts of the references that remain. No assertion of the
  collector fails and no freed object is released again. The objects that are reached may be
  anything, keys of weak maps and running functions included.\<close>

theorem JS_RunGC_frees_garbage:
  assumes "closed_heap objs xs E R" "typed_heap objs xs E R" "gc_start xs R gcl tmp zl s"
  shows "\<exists>s'. JS_RunGC objs gcl tmp zl s = Some s' \<and>
    (\<forall>p\<in>set xs. if p \<in> reached E xs R
       then \<exists>x. snd s' p = Some x \<and> ref_count x = R p - int (in_edges E (set xs - reached E xs R) p)
       else snd s' p = None)"
proof -
  from JS_RunGC_ok [OF assms] obtain s' ys where s': "JS_RunGC objs gcl tmp zl s = Some s'" "set ys = reached E xs R"
    "gc_start ys (kept_counts E xs R) gcl tmp zl s'" "\<forall>p\<in>set xs - set ys. snd s' p = None" by blast
  have "counts (snd s') ys (kept_counts E xs R)" using s'(3) by (simp add: gc_start_def)
  from countsD [OF this] s'(2) have "\<exists>x. snd s' p = Some x \<and> ref_count x = R p - int (in_edges E (set xs - reached E xs R) p)"
    if "p \<in> reached E xs R" for p using that by (simp add: kept_counts_def)
  with s'(1,2,4) show ?thesis by (intro exI [of _ s']) simp
qed

theorem JS_RunGC_frees_garbage_witness:
  "\<exists>s' x. JS_RunGC small_heap 1 2 3 small_state = Some s' \<and> snd s' 10 = None \<and> snd s' 11 = None \<and>
     snd s' 12 = Some x \<and> ref_count x = 1 \<and> snd s' 13 \<noteq> None"
proof -
  have g: "in_edges small_children (set [10, 11, 12, 13] - {12, 13}) p = (if p = 10 \<or> p = 11 then 1 else 0)" for p
    by (auto simp: in_edges_def small_children_def insert_Diff_if)
  from JS_RunGC_frees_garbage [OF small_closed small_typed small_start] show ?thesis
    unfolding small_reached g by auto
qed

text \<open>C9: On the same heaps (positive counts that cover the references; the unreachable objects
  well-formed, with the types of the pointers to them and the keys of no weak map) JS_RunGC
  keeps the heap consistent: afterwards the list of the objects holds exactly the objects that
  were reachable, with consistent links, cleared marks, references only to listed objects and
  positive counts that cover them; a second collection would find nothing to free.\<close>

theorem JS_RunGC_preserves_heap:
  assumes "closed_heap objs xs E R" "typed_heap objs xs E R" "gc_start xs R gcl tmp zl s"
  shows "\<exists>s' ys R'. JS_RunGC objs gcl tmp zl s = Some s' \<and> closed_heap objs ys E R' \<and> typed_heap objs ys E R' \<and>
    gc_start ys R' gcl tmp zl s' \<and> reached E ys R' = set ys \<and> set ys = reached E xs R"
proof -
  from JS_RunGC_ok [OF assms] obtain s' ys where s': "JS_RunGC objs gcl tmp zl s = Some s'" "set ys = reached E xs R"
    "closed_heap objs ys E (kept_counts E xs R)" "gc_start ys (kept_counts E xs R) gcl tmp zl s'" by blast
  have "typed_heap objs ys E (kept_counts E xs R)" by (rule kept_typed [OF assms(1) s'(2,3)])
  moreover have "reached E ys (kept_counts E xs R) = set ys" using kept_reached [OF assms(1) s'(2,3)] .
  ultimately show ?thesis using s' by blast
qed

theorem JS_RunGC_preserves_heap_witness:
  "\<exists>s' ys. JS_RunGC small_heap 1 2 3 small_state = Some s' \<and> set ys = {12, 13} \<and> is_list (fst s') 1 ys"
  using JS_RunGC_preserves_heap [OF small_closed small_typed small_start] unfolding small_reached gc_start_def by blast

subsection \<open>Arbitrary precision arithmetic\<close>

text \<open>C10: mp_mul_basecase writes the product of two arrays of limbs, of the sizes n and m, to the n + m
  limbs of the result, whatever they held, and leaves the limbs above alone.\<close>

theorem mp_mul_basecase_is_product:
  assumes "n \<le> length op1" "0 < m" "m \<le> length op2" "n + m \<le> length result"
  shows "\<exists>res. mp_mul_basecase result op1 n op2 m = Some res \<and> length res = length result \<and>
    drop (n + m) res = drop (n + m) result \<and>
    mpv (take (n + m) res) = mpv (take n op1) * mpv (take m op2)"
  using assms by (rule mp_mul_basecase_ok)

theorem mp_mul_basecase_is_product_witness:
  "\<exists>res. mp_mul_basecase [9, 9, 9, 9, 9] [-1, -1] 2 [-1, 5] 2 = Some res \<and> length res = 5 \<and> drop 4 res = [9] \<and>
    mpv (take 4 res) = mpv [-1, -1] * mpv [-1, 5]"
proof -
  have len: "(2::nat) \<le> length [- 1, - 1::64 word]" "(0::nat) < 2" "(2::nat) \<le> length [- 1, 5::64 word]"
    "(2::nat) + 2 \<le> length [9, 9, 9, 9, 9::64 word]"
    by simp_all
  have parts: "(2::nat) + 2 = 4" "length [9, 9, 9, 9, 9::64 word] = 5" "drop 4 [9, 9, 9, 9, 9::64 word] = [9]"
    "take 2 [- 1, - 1::64 word] = [- 1, - 1]" "take 2 [- 1, 5::64 word] = [- 1, 5]"
    by simp_all
  show ?thesis
    by (rule mp_mul_basecase_is_product [OF len, unfolded parts])
qed

text \<open>C11: udiv1norm, which divides a double limb by a normalized limb with one multiplication by a
  precomputed inverse and one correction, gives the quotient and the remainder of the division.\<close>

theorem udiv1norm_is_division:
  assumes "2 ^ 63 \<le> uint d" "a1 < d" "udiv1norm a1 a0 d (udiv1norm_init d) = (q, r)"
  shows "uint q = (uint a1 * 2 ^ 64 + uint a0) div uint d \<and> uint r = (uint a1 * 2 ^ 64 + uint a0) mod uint d"
  using udiv1norm_ok [OF _ assms(2,3)] assms(1) by simp

theorem udiv1norm_is_division_witness:
  "uint (fst (udiv1norm 7 5 0x8000000000000001 (udiv1norm_init 0x8000000000000001))) = (7 * 2 ^ 64 + 5) div 0x8000000000000001"
  using udiv1norm_is_division [of "0x8000000000000001" 7 5, OF _ _ prod.collapse [symmetric]] by (simp add: word_less_def)

text \<open>C12: mp_divnorm, with a divisor whose leading limb has its top bit set, and that has one limb or when
  the divisor or the quotient has less than DIVNORM_LARGE_THRESHOLD = 50 limbs (min(na - nb, nb)
  < 50, so that the division by an inverse is not used), leaves the quotient and the remainder
  of the division of the arrays of limbs: each estimate of a limb of the quotient is corrected
  by the added back divisors, at most twice.\<close>

theorem mp_divnorm_divides:
  assumes "0 < nb" "nb \<le> length tabb" "2 ^ 63 \<le> uint (tabb ! (nb - 1))" "nb \<le> na" "na \<le> length taba"
    and "nb = 1 \<or> min (na - nb) nb < DIVNORM_LARGE_THRESHOLD"
  shows "\<exists>q a. mp_divnorm large taba na tabb nb = Some (Some (q, a)) \<and> length q = Suc (na - nb) \<and> length a = length taba \<and>
    mpv q = mpv (take na taba) div mpv (take nb tabb) \<and> mpv (take nb a) = mpv (take na taba) mod mpv (take nb tabb)"
proof -
  from mp_divnorm_base_ok [OF assms(1,2) _ assms(4,5)] assms(3) obtain q a where
    h: "mp_divnorm_base taba na tabb nb = Some (q, a)" "length q = Suc (na - nb)" "length a = length taba"
    "mpv q * mpv (take nb tabb) + mpv (take nb a) = mpv (take na taba)" "mpv (take nb a) < mpv (take nb tabb)" by auto
  have m: "mp_divnorm large taba na tabb nb = Some (Some (q, a))" using h(1) assms(6) by (auto simp: mp_divnorm_def)
  define B R where "B = mpv (take nb tabb)" and "R = mpv (take nb a)"
  have R: "0 \<le> R" "R < B" using h(5) by (simp_all add: B_def R_def)
  then have "(mpv q * B + R) div B = mpv q" "(mpv q * B + R) mod B = R" by (simp_all add: div_pos_pos_trivial)
  then have "mpv q = mpv (take na taba) div mpv (take nb tabb)" "mpv (take nb a) = mpv (take na taba) mod mpv (take nb tabb)"
    unfolding h(4) [folded B_def R_def, symmetric] by (simp_all add: B_def [symmetric] R_def [symmetric])
  then show ?thesis using h(2,3) m by blast
qed

theorem mp_divnorm_divides_witness:
  "\<exists>q a. mp_divnorm (\<lambda>_ _ _ _. None) [1, 2, 3, 4] 4 [5, 0xF000000000000000] 2 = Some (Some (q, a)) \<and> length q = 3 \<and>
    mpv q = mpv [1, 2, 3, 4] div mpv [5, 0xF000000000000000]"
  using mp_divnorm_divides [of 2 "[5, 0xF000000000000000]" 4 "[1, 2, 3, 4]" "\<lambda>_ _ _ _. None"]
  by (auto simp: DIVNORM_LARGE_THRESHOLD_def)

text \<open>C13: For a finite, nonzero number in normal form whose exponent lies in the range that the flags
  select (in_exp_range: no overflow, and no subnormal number), bf_round gives, when memory can
  be shrunk, the number that the rounding mode prescribes for the requested precision (to
  nearest with ties to even or away, towards zero, up, down, away from zero; the faithful mode
  as the code chooses): the unit of the last digit times the rounded quotient, in normal form or
  zero. The status is inexact exactly when the result differs from the operand, or always in the
  faithful mode, with underflow and inexact when no digit is kept.\<close>

theorem bf_round_correct:
  assumes "shrinks f" "bf_normal r" "rnd_mode_of flags = Some mode" "in_exp_range flags (bf_expn r)"
  shows "\<exists>res. bf_round f r prec flags = Some res \<and>
    correctly_rounded mode flags prec (bf_val r) (bf_expn r) res \<and> bf_sign (snd res) = bf_sign r"
  using assms by (rule bf_round_ok)

theorem bf_round_correct_witness:
  "\<exists>res. bf_round limb_realloc bf_ten 2 3 = Some res \<and> correctly_rounded BF_RNDU 3 2 (bf_val bf_ten) 4 res \<and> bf_sign (snd res) = 0"
  using bf_round_correct [OF reallocates_shrinks [OF reallocates_limb_realloc] bf_examples_normal(2), of 3 BF_RNDU 2]
  by (simp add: rnd_mode_of_def in_exp_range_def bf_get_exp_bits_def bf_ten_def)

text \<open>C14: For finite, nonzero factors in normal form, an allocator that does not fail, and a product whose
  exponent lies in the range that the flags select (in_exp_range of both candidates, the sum of
  the exponents and one less: no overflow, no subnormal number), bf_mul gives the correctly
  rounded product with its sign and status, in normal form or zero, for every rounding mode but
  the faithful one and when one of the factors has less than 100 limbs (so that the
  multiplication by transforms is not used), also when the result is one of the operands.\<close>

theorem bf_mul_correct:
  assumes "reallocates f" "bf_normal a" "bf_normal b" "rnd_mode_of flags = Some mode" "mode \<noteq> BF_RNDF"
    and "min (length (bf_tab a)) (length (bf_tab b)) < 100"
    and "in_exp_range flags (bf_expn a + bf_expn b - 1)" "in_exp_range flags (bf_expn a + bf_expn b)"
  shows "\<exists>e res. exponent_of (bf_val a * bf_val b) e \<and> bf_mul f fft_mul r overlap a b prec flags = Some res \<and>
    correctly_rounded mode flags prec (bf_val a * bf_val b) e res \<and> bf_sign (snd res) = bf_sign a XOR bf_sign b"
  using assms by (rule bf_mul_ok)

theorem bf_mul_correct_witness:
  "bf_mul limb_realloc (\<lambda>_ _. None) bf_init False bf_three bf_three 3 0 =
     Some (16, \<lparr>bf_sign = 0, bf_expn = 4, bf_tab = [0x8000000000000000]\<rparr>) \<and>
   (\<exists>e res. exponent_of (bf_val bf_three * bf_val bf_three) e \<and>
     bf_mul limb_realloc (\<lambda>_ _. None) bf_init False bf_three bf_three 3 0 = Some res \<and>
     correctly_rounded BF_RNDN 0 3 (bf_val bf_three * bf_val bf_three) e res)"
proof
  show "bf_mul limb_realloc (\<lambda>_ _. None) bf_init False bf_three bf_three 3 0 =
     Some (16, \<lparr>bf_sign = 0, bf_expn = 4, bf_tab = [0x8000000000000000]\<rparr>)" by code_simp
  have m: "rnd_mode_of 0 = Some BF_RNDN" "BF_RNDN \<noteq> BF_RNDF" "min (length (bf_tab bf_three)) (length (bf_tab bf_three)) < 100"
    "in_exp_range 0 (bf_expn bf_three + bf_expn bf_three - 1)" "in_exp_range 0 (bf_expn bf_three + bf_expn bf_three)" by code_simp+
  from bf_mul_correct [OF reallocates_limb_realloc bf_examples_normal(1) bf_examples_normal(1) m, of "\<lambda>_ _. None" bf_init False 3]
  show "\<exists>e res. exponent_of (bf_val bf_three * bf_val bf_three) e \<and>
     bf_mul limb_realloc (\<lambda>_ _. None) bf_init False bf_three bf_three 3 0 = Some res \<and>
     correctly_rounded BF_RNDN 0 3 (bf_val bf_three * bf_val bf_three) e res" by blast
qed

text \<open>C15: For finite, nonzero operands in normal form, an allocator that does not fail, a precision of at
  least one digit counted from the leading one (no BF_FLAG_RADPNT_PREC), and a quotient whose
  exponent lies in the range that the flags select (in_exp_range of both candidates, the
  difference of the exponents and one more), bf_div gives the correctly rounded quotient for
  every rounding mode, also when the result is one of the operands: the quotient is computed
  with two more digits than needed, and the bit set for a nonzero remainder makes its rounding
  that of the exact quotient. The sizes are below the threshold of the division by an inverse
  (divides_small).\<close>

theorem bf_div_correct:
  assumes "reallocates f" "bf_normal a" "bf_normal b"
    and "bf_expn a < BF_EXP_INF" "bf_expn b < BF_EXP_INF" "BF_EXP_ZERO < bf_expn a" "BF_EXP_ZERO < bf_expn b"
    and "rnd_mode_of flags = Some mode" "flags AND BF_FLAG_RADPNT_PREC = 0" "1 \<le> prec" "divides_small a b prec"
    and "in_exp_range flags (bf_expn a - bf_expn b)" "in_exp_range flags (bf_expn a - bf_expn b + 1)"
  shows "\<exists>e res. exponent_of (bf_val a / bf_val b) e \<and> bf_div f large r overlap a b prec flags = Some res \<and>
    correctly_rounded mode flags prec (bf_val a / bf_val b) e res \<and> bf_sign (snd res) = bf_sign a XOR bf_sign b"
  using assms by (rule bf_div_ok)

theorem bf_div_correct_witness:
  "bf_div limb_realloc (\<lambda>_ _ _ _. None) bf_init False bf_ten bf_three 4 0 =
     Some (16, \<lparr>bf_sign = 0, bf_expn = 2, bf_tab = [0xD000000000000000]\<rparr>) \<and>
   (\<exists>e res. exponent_of (bf_val bf_ten / bf_val bf_three) e \<and>
     bf_div limb_realloc (\<lambda>_ _ _ _. None) bf_init False bf_ten bf_three 4 0 = Some res \<and>
     correctly_rounded BF_RNDN 0 4 (bf_val bf_ten / bf_val bf_three) e res)"
proof
  show "bf_div limb_realloc (\<lambda>_ _ _ _. None) bf_init False bf_ten bf_three 4 0 =
     Some (16, \<lparr>bf_sign = 0, bf_expn = 2, bf_tab = [0xD000000000000000]\<rparr>)" by code_simp
  have m: "bf_expn bf_ten < BF_EXP_INF" "bf_expn bf_three < BF_EXP_INF" "BF_EXP_ZERO < bf_expn bf_ten" "BF_EXP_ZERO < bf_expn bf_three"
    "rnd_mode_of 0 = Some BF_RNDN" "(0 :: u32) AND BF_FLAG_RADPNT_PREC = 0" "1 \<le> (4 :: int)" "divides_small bf_ten bf_three 4"
    "in_exp_range 0 (bf_expn bf_ten - bf_expn bf_three)" "in_exp_range 0 (bf_expn bf_ten - bf_expn bf_three + 1)" by code_simp+
  from bf_div_correct [OF reallocates_limb_realloc bf_examples_normal(2) bf_examples_normal(1) m, of "\<lambda>_ _ _ _. None" bf_init False]
  show "\<exists>e res. exponent_of (bf_val bf_ten / bf_val bf_three) e \<and>
     bf_div limb_realloc (\<lambda>_ _ _ _. None) bf_init False bf_ten bf_three 4 0 = Some res \<and>
     correctly_rounded BF_RNDN 0 4 (bf_val bf_ten / bf_val bf_three) e res" by blast
qed

subsection \<open>Character ranges\<close>

lemma cr_init_facts:
  "cr_wf (cr_init f)" "cr_realloc_func (cr_init f) = f" "cr_pts (cr_init f) = []"
  by (simp_all add: cr_init_def cr_wf_def cr_pts_def)

lemma range_ok:
  assumes "realloc_contract f" "cr_wf cr" "cr_realloc_func cr = f"
  shows "char_range_alloc f" "char_range_alloc.cr_ok f cr"
  using assms by (simp_all add: char_range_alloc_def char_range_alloc.cr_ok_def)

lemmas cr_unbounded_contract = cr_unbounded.realloc_contract_axioms

lemma ok_result:
  assumes "A \<and> (r = 0 \<and> P \<or> r = -1)" "r = (0 :: int)"
  shows P
  using assms by simp

lemma ok_result2:
  assumes "A \<and> (r = 0 \<and> P \<or> r = -1 \<and> Q)" "r = (0 :: int)"
  shows P
  using assms by simp

lemma cr_init_canonical: "canonical (cr_pts (cr_init f))"
  by (simp add: cr_init_facts canonical_def)

lemma cr_init_sorted: "sorted (cr_pts (cr_init f))" "even (length (cr_pts (cr_init f)))"
  by (simp_all add: cr_init_facts)

lemma cr_ok_libc:
  "cr_libc.cr_ok avail junk cr \<longleftrightarrow> cr_wf cr \<and> cr_realloc_func cr = cr_default_realloc avail junk"
  by (simp add: cr_libc.cr_ok_def)

text \<open>C16: cr_op, with an empty range for the result and two arrays of sorted points, each of an even
  length, gives the union, the intersection or the symmetric difference of the two sets in
  canonical form (strictly increasing points), for any allocator that keeps the contract of
  realloc; or it returns -1, with the range well-formed, which happens only with an allocator
  that can fail.\<close>

theorem cr_op_is_set_operation:
  assumes "realloc_contract f" "cr_wf cr" "cr_realloc_func cr = f" "cr_pts cr = []"
    "sorted a" "sorted b" "even (length a)" "even (length b)" "cr_op cr a b op = (r, cr')"
  shows "cr_wf cr' \<and> (r = 0 \<and> canonical (cr_pts cr') \<and>
    cr_set (cr_pts cr') = {c. op_in op (c \<in> cr_set a) (c \<in> cr_set b)} \<or> r = -1 \<and> (\<exists>b n. f b n = None))"
proof -
  note R = range_ok [OF assms(1-3)]
  have "cr_wf cr' \<and> (r = 0 \<and> canonical (cr_pts cr') \<and>
      cr_set (cr_pts cr') = {c. op_in op (c \<in> cr_set a) (c \<in> cr_set b)} \<or> r = -1)"
    using char_range_alloc.op_ok [OF R assms(4,9,5-8)] by (simp add: char_range_alloc.cr_ok_def [OF R(1)] del: in_cr_set)
  moreover have "\<exists>b n. f b n = None" if "r \<noteq> 0"
  proof (rule ccontr)
    assume "\<not> (\<exists>b n. f b n = None)"
    then have "f b n \<noteq> None" for b n by simp
    from char_range_alloc.op_total [OF R(1) this R(2), of a b op] assms(9) that show False by simp
  qed
  ultimately show ?thesis by (cases "r = 0") (simp_all del: in_cr_set not_None_eq)
qed

theorem cr_op_is_set_operation_witness:
  "canonical (cr_pts (snd (cr_op (cr_init (cr_default_realloc 99 (\<lambda>_. 0))) [1, 5, 7, 9] [3, 7] CR_OP_UNION))) \<and>
    cr_set (cr_pts (snd (cr_op (cr_init (cr_default_realloc 99 (\<lambda>_. 0))) [1, 5, 7, 9] [3, 7] CR_OP_UNION))) =
      {c. c \<in> cr_set [1, 5, 7, 9] \<or> c \<in> cr_set [3, 7]}"
proof -
  have r: "fst (cr_op (cr_init (cr_default_realloc 99 (\<lambda>_. 0))) [1, 5, 7, 9] [3, 7] CR_OP_UNION) = 0" by code_simp
  have s: "sorted [1, 5, 7, 9 :: u32]" "sorted [3, 7 :: u32]" "even (length [1, 5, 7, 9 :: u32])" "even (length [3, 7 :: u32])"
    by simp_all
  note w = cr_op_is_set_operation [OF cr_libc.realloc_contract_axioms cr_init_facts s prod.collapse [symmetric], of 99 "\<lambda>_. 0" CR_OP_UNION]
  show ?thesis using ok_result2 [OF w r] unfolding op_in.simps .
qed

text \<open>C17: cr_invert gives the complement (of the code units below UINT32_MAX) of any range of sorted
  points, in canonical form, or fails with -1.\<close>

theorem cr_invert_is_complement:
  assumes "cr_wf cr" "cr_realloc_func cr = cr_default_realloc avail junk" "sorted (cr_pts cr)"
    "even (length (cr_pts cr))" "cr_invert cr = (r, cr')"
  shows "cr_wf cr' \<and> (r = 0 \<and> canonical (cr_pts cr') \<and>
    cr_set (cr_pts cr') = - cr_set (cr_pts cr) - {UINT32_MAX} \<or> r = -1)"
  using cr_libc.invert_ok [of avail junk cr r cr'] assms by (auto simp: cr_ok_libc)

theorem cr_invert_is_complement_witness:
  "canonical (cr_pts (snd (cr_invert (cr_init (cr_default_realloc 99 (\<lambda>_. 0)))))) \<and>
    cr_set (cr_pts (snd (cr_invert (cr_init (cr_default_realloc 99 (\<lambda>_. 0)))))) = - cr_set [] - {UINT32_MAX}"
proof -
  have r: "fst (cr_invert (cr_init (cr_default_realloc 99 (\<lambda>_. 0)))) = 0" by code_simp
  note w = cr_invert_is_complement [of _ 99 "\<lambda>_. 0", OF cr_init_facts(1,2) cr_init_sorted prod.collapse [symmetric]]
  show ?thesis using ok_result [OF w r] unfolding cr_init_facts(3) .
qed

text \<open>cr_union_interval adds the interval [c1, c2] to a canonical range, keeping it canonical, or fails with -1.\<close>

theorem cr_union_interval_adds:
  assumes "cr_wf cr" "cr_realloc_func cr = cr_default_realloc avail junk" "canonical (cr_pts cr)"
    "c1 \<le> c2" "c2 < UINT32_MAX" "cr_union_interval cr c1 c2 = (r, cr')"
  shows "cr_wf cr' \<and> (r = 0 \<and> canonical (cr_pts cr') \<and> cr_set (cr_pts cr') = cr_set (cr_pts cr) \<union> {c1..c2} \<or> r = -1)"
  using cr_libc.union_interval_ok [of avail junk cr c1 c2 r cr'] assms by (auto simp: cr_ok_libc)

theorem cr_union_interval_adds_witness:
  "cr_set (cr_pts (snd (cr_union_interval (cr_init (cr_default_realloc 99 (\<lambda>_. 0))) 48 57))) = {} \<union> {48..57}"
proof -
  have e: "cr_set [] = {}" by auto
  have r: "fst (cr_union_interval (cr_init (cr_default_realloc 99 (\<lambda>_. 0))) 48 57) = 0" by code_simp
  have i: "(48 :: u32) \<le> 57" "(57 :: u32) < UINT32_MAX" by (simp, code_simp)
  note w = cr_union_interval_adds [of _ 99 "\<lambda>_. 0", OF cr_init_facts(1,2) cr_init_canonical i prod.collapse [symmetric]]
  show ?thesis using conjunct2 [OF ok_result [OF w r]] unfolding cr_init_facts(3) e .
qed

text \<open>Canonical ranges are determined by their set: two ranges built by these operations denote the same set only when their points are equal.\<close>

theorem canonical_ranges_unique:
  assumes "canonical (cr_pts a)" "canonical (cr_pts b)" "cr_set (cr_pts a) = cr_set (cr_pts b)"
  shows "cr_pts a = cr_pts b"
  using assms canonical_unique by (auto simp: canonical_def)


theorem canonical_ranges_unique_witness:
  "cr_pts (cr_init (cr_default_realloc 9 (\<lambda>_. 0))) = cr_pts (cr_init (cr_default_realloc 99 (\<lambda>_. 1)))"
  by (rule canonical_ranges_unique) (simp_all only: cr_init_facts(3) cr_init_canonical [unfolded cr_init_facts(3)])

text \<open>C18: cr_sort_and_remove_overlap turns any list of nonempty, possibly overlapping intervals into the
  canonical range of their union; the sort it calls never fails.\<close>

theorem sort_and_remove_overlap_is_union:
  assumes "cr_wf cr" "even (cr_len cr)" "\<forall>(s, e)\<in>set (pairs (cr_pts cr)). s < e"
  shows "\<exists>cr'. cr_sort_and_remove_overlap cr = Some cr' \<and> cr_wf cr' \<and> canonical (cr_pts cr') \<and>
    cr_set (cr_pts cr') = (\<Union>(s, e)\<in>set (pairs (cr_pts cr)). {s..<e})"
  using sort_and_remove_overlap_ok [OF assms] by (auto simp: covers_def)

theorem sort_and_remove_overlap_is_union_witness:
  "\<exists>cr'. cr_sort_and_remove_overlap
      \<lparr>cr_len = 4, cr_size = 4, cr_points = [7, 9, 1, 8], cr_realloc_func = \<lambda>_ _. None\<rparr> = Some cr' \<and>
    canonical (cr_pts cr')"
  using sort_and_remove_overlap_is_union
    [of "\<lparr>cr_len = 4, cr_size = 4, cr_points = [7, 9, 1, 8], cr_realloc_func = \<lambda>_ _. None\<rparr>"]
  by (auto simp: cr_wf_def cr_pts_def)

subsection \<open>Character classes of regular expressions and Unicode properties\<close>

text \<open>C19: With an allocator that does not fail, cr_regexp_canonicalize, which canonicalizes a character
  class of a case-insensitive pattern, leaves in the range, in canonical form, the image of the
  class under lre_canonicalize (the function the matcher applies to the characters of the
  subject), and no assertion of its table walk fails. The class is given by sorted points. (When
  an allocation fails the code may lose an interval and still return 0, because it ignores the
  result of one cr_add_interval.)\<close>

theorem regexp_class_canonicalize:
  assumes "realloc_contract f" "\<And>b n. f b n \<noteq> None" "cr_wf cr" "cr_realloc_func cr = f"
    "sorted (cr_pts cr)" "even (length (cr_pts cr))"
  shows "\<exists>cr'. cr_regexp_canonicalize cr is_unicode = Some (0, cr') \<and> cr_wf cr' \<and> canonical (cr_pts cr') \<and>
    cr_set (cr_pts cr') = (\<lambda>c. the (lre_canonicalize c is_unicode)) ` cr_set (cr_pts cr)"
  using char_range_alloc.regexp_canonicalize_ok [OF range_ok(1) assms(2) range_ok(2), OF assms(1,3,4) assms(1,3,4) assms(5,6), of is_unicode]
  by (auto simp: char_range_alloc.cr_ok_def [OF range_ok(1) [OF assms(1,3,4)]] simp del: in_cr_set)

theorem regexp_class_canonicalize_witness:
  "\<exists>cr'. cr_regexp_canonicalize \<lparr>cr_len = 2, cr_size = 2, cr_points = [97, 100], cr_realloc_func = unbounded_realloc\<rparr> False = Some (0, cr') \<and>
    canonical (cr_pts cr')"
proof -
  let ?cr = "\<lparr>cr_len = 2, cr_size = 2, cr_points = [97, 100], cr_realloc_func = unbounded_realloc\<rparr>"
  have "cr_wf ?cr" "cr_realloc_func ?cr = unbounded_realloc" "sorted (cr_pts ?cr)" "even (length (cr_pts ?cr))"
    by (simp_all add: cr_wf_def cr_pts_def)
  from regexp_class_canonicalize [OF cr_unbounded_contract _ this] show ?thesis
    by (force simp: unbounded_realloc_def simp del: in_cr_set)
qed

text \<open>C20: The indexed lookups of the lexer and of the case conversion rules (lre_is_id_start,
  lre_is_id_continue, lre_is_cased, lre_is_case_ignorable), which jump into a table by a binary
  search in its index and decode from there, answer for every 32-bit value as the set that
  decoding the whole table from its start gives; no byte outside of a table is read.\<close>

theorem class_lookups_agree_with_tables:
  "lre_is_id_start c = Some (c \<in> table_set unicode_prop_ID_Start_table) \<and>
   lre_is_id_continue c = Some (c \<in> table_set unicode_prop_ID_Start_table \<union> table_set unicode_prop_ID_Continue1_table) \<and>
   lre_is_cased c = Some (c \<in> {d. \<exists>x. cc_find d = Some x} \<union> table_set unicode_prop_Cased1_table) \<and>
   lre_is_case_ignorable c = Some (c \<in> table_set unicode_prop_Case_Ignorable_table)"
  using is_id_start_ok is_id_continue_ok is_cased_ok is_case_ignorable_ok by auto

text \<open>C21: The two readers of the ID_Start table agree: unicode_prop1 for ID_Start fills the range with
  exactly the characters for which lre_is_id_start answers yes, or fails with -1 when an
  allocation fails.\<close>

theorem id_start_readers_agree:
  assumes "realloc_contract f" "cr_wf cr" "cr_realloc_func cr = f" "cr_pts cr = []"
  shows "fills f {c. lre_is_id_start c = Some True} (unicode_prop1 cr (UNICODE_PROP ''ID_Start''))"
proof -
  note ok = range_ok [OF assms(1-3)]
  have p: "UNICODE_PROP ''ID_Start'' < length unicode_prop_table"
    "unicode_prop_table ! UNICODE_PROP ''ID_Start'' = unicode_prop_ID_Start_table"
    by (simp_all add: UNICODE_PROP_def enum_value_def UnicodePropertyEnum_def unicode_prop_table_def)
  have "{c. lre_is_id_start c = Some True} = table_set unicode_prop_ID_Start_table" using is_id_start_ok by simp
  with char_range_alloc.fillsI [OF ok(1) char_range_alloc.prop1_ok [OF ok assms(4) p(1)]]
    char_range_alloc.prop1_total [OF ok(1) _ ok(2) p(1)] show ?thesis unfolding p(2) by metis
qed

theorem id_start_readers_agree_witness:
  "fills unbounded_realloc {c. lre_is_id_start c = Some True} (unicode_prop1 (cr_init unbounded_realloc) (UNICODE_PROP ''ID_Start''))"
  by (rule id_start_readers_agree [OF cr_unbounded_contract cr_init_facts])

text \<open>unicode_find_name answers with the position of the first entry of a table of names that has the name among its comma-separated aliases, and with -1 when there is none; it stops at the terminating zero of the table.\<close>

theorem find_name_first_match:
  assumes "(table, names) \<in> {(unicode_prop_name_table, unicode_prop_names), (unicode_gc_name_table, unicode_gc_names),
    (unicode_script_name_table, unicode_script_names)}"
  shows "\<exists>i. unicode_find_name table name = Some i \<and>
    (i = -1 \<and> (\<forall>nm\<in>set names. \<not> named name nm) \<or>
     0 \<le> i \<and> nat i < length names \<and> named name (names ! nat i) \<and> (\<forall>j<nat i. \<not> named name (names ! j)))"
proof -
  have "unicode_find_name table name = Some (first_index (named name) names)"
    using assms find_valid_name name_tables_valid
    by (auto simp: unicode_prop_name_table_def unicode_gc_name_table_def unicode_script_name_table_def)
  moreover have "\<forall>j<nat (first_index (named name) names). \<not> named name (names ! j)"
    using nth_mem [of _ "takeWhile (\<lambda>x. \<not> named name x) names"]
    by (auto simp: first_index_def takeWhile_nth dest: set_takeWhileD)
  ultimately show ?thesis using first_index_cases [of "named name" names] by auto
qed

theorem find_name_first_match_witness:
  "\<exists>i. unicode_find_name unicode_gc_name_table (c_bytes ''Uppercase_Letter'') = Some i \<and>
    (i = -1 \<or> 0 \<le> i \<and> nat i < length unicode_gc_names)"
  using find_name_first_match [of unicode_gc_name_table unicode_gc_names "c_bytes ''Uppercase_Letter''"] by blast

text \<open>C22: unicode_prop fills an empty range with the code points of the property that a name of the table
  of properties denotes (the set its table or its program of set operations defines), gives -2
  and leaves the range alone for an unknown name, and fails with -1 only when an allocation
  fails.\<close>

theorem unicode_prop_by_name:
  assumes "realloc_contract f" "cr_wf cr" "cr_realloc_func cr = f" "cr_pts cr = []"
  shows "let i = first_index (named name) unicode_prop_names in
    if i < 0 then unicode_prop cr name = Some (-2, cr)
    else fills f (property_set (UnicodePropertyEnum ! (nat i + 16))) (unicode_prop cr name)"
  using range_ok [OF assms(1-3)] assms(4) by (rule char_range_alloc.unicode_prop_fills)

theorem unicode_prop_by_name_witness:
  "fills unbounded_realloc (property_set ''White_Space'') (unicode_prop (cr_init unbounded_realloc) (c_bytes ''space''))"
proof -
  have i: "first_index (named (c_bytes ''space'')) unicode_prop_names = 23" by code_simp
  have "UnicodePropertyEnum ! (nat 23 + 16) = ''White_Space''" by (simp add: UnicodePropertyEnum_def)
  with unicode_prop_by_name [OF cr_unbounded_contract cr_init_facts, of "c_bytes ''space''"] show ?thesis
    by (simp add: i Let_def)
qed

text \<open>C23: No program of unicode_prop makes an assertion of the stack machine unicode_prop_ops fail:
  whatever allocations fail, the stack never exceeds POP_STACK_LEN_MAX = 4 ranges, no operation
  lacks an operand, and exactly one range is left at the end.\<close>

theorem property_programs_keep_the_stack:
  assumes "realloc_contract f" "(nm, ops) \<in> set prop_programs"
  shows "pop_run f ops [] = Some (Inl ()) \<or> (\<exists>cr. pop_run f ops [] = Some (Inr [cr]))"
proof -
  have c: "char_range_alloc f" using assms(1) by (simp add: char_range_alloc_def)
  obtain S where "pop_sets_run ops [] = Some [S]" using programs_well_stacked assms(2) by (auto simp: list_all_iff)
  from char_range_alloc.pop_run_ok [OF c list_all2_Nil [THEN iffD2, OF refl] this] obtain y where
    y: "pop_run f ops [] = Some y" "\<And>st. y = Inr st \<Longrightarrow> list_all2 (char_range_alloc.holds f) st [S]" by blast
  then show ?thesis by (cases y) (auto simp: list_all2_Cons2)
qed

theorem property_programs_keep_the_stack_witness:
  "\<exists>y. pop_run unbounded_realloc (the (map_of prop_programs ''XID_Start'')) [] = Some y"
proof -
  have "(''XID_Start'', the (map_of prop_programs ''XID_Start'')) \<in> set prop_programs" by (simp add: prop_programs_def)
  from property_programs_keep_the_stack [OF cr_unbounded_contract this] show ?thesis by blast
qed

text \<open>C24: unicode_general_category fills an empty range with the code points of the category, or of the
  group of categories, that a name denotes, gives -2 for an unknown name, and fails with -1 only
  when an allocation fails.\<close>

theorem unicode_general_category_by_name:
  assumes "realloc_contract f" "cr_wf cr" "cr_realloc_func cr = f" "cr_pts cr = []"
  shows "let i = first_index (named name) unicode_gc_names in
    if i < 0 then unicode_general_category cr name = Some (-2, cr)
    else fills f {c. \<exists>nm\<in>set (category_members (nat i)). UNICODE_GC nm < 32 \<and>
        general_category c = Some (of_nat (UNICODE_GC nm))} (unicode_general_category cr name)"
  using char_range_alloc.unicode_general_category_fills [OF range_ok [OF assms(1-3)] assms(4), of name]
  unfolding gc_set_Ms .

theorem unicode_general_category_by_name_witness:
  "fills unbounded_realloc {c. general_category c = Some (of_nat (UNICODE_GC ''Lu''))}
     (unicode_general_category (cr_init unbounded_realloc) (c_bytes ''Uppercase_Letter''))"
proof -
  have i: "first_index (named (c_bytes ''Uppercase_Letter'')) unicode_gc_names = 1" by code_simp
  have m: "category_members (Suc 0) = [''Lu'']" "UNICODE_GC ''Lu'' < 32"
    by (simp_all add: category_members_def UNICODE_GC_def enum_value_def UnicodeGCEnum_def)
  from unicode_general_category_by_name [OF cr_unbounded_contract cr_init_facts, of "c_bytes ''Uppercase_Letter''"] show ?thesis
    by (simp add: i Let_def m(1)) (simp add: m(2))
qed

text \<open>C25: The general categories partition the code points: for any mask, the ranges of the mask and of
  its complement are disjoint and together hold exactly the code points below 0x110000.\<close>

theorem general_categories_partition:
  assumes "realloc_contract f" "cr_wf cr" "cr_realloc_func cr = f" "cr_pts cr = []"
    "unicode_general_category1 cr m = Some (0, cr1)" "unicode_general_category1 cr (NOT m) = Some (0, cr2)"
  shows "cr_set (cr_pts cr1) \<inter> cr_set (cr_pts cr2) = {} \<and> cr_set (cr_pts cr1) \<union> cr_set (cr_pts cr2) = {..<0x110000}"
proof -
  note ok = range_ok [OF assms(1-3)]
  note g = char_range_alloc.gc1_ok [OF ok assms(4), unfolded char_range_alloc.gives_def [OF ok(1)]]
  have "cr_set (cr_pts cr1) = gc_set m" "cr_set (cr_pts cr2) = gc_set (NOT m)"
    using g [of m] g [of "NOT m"] assms(5,6) by (auto simp del: in_cr_set)
  then show ?thesis using gc_set_complement [of m] by (simp del: in_cr_set)
qed

theorem general_categories_partition_witness:
  "\<exists>cr1 cr2. cr_set (cr_pts cr1) \<inter> cr_set (cr_pts cr2) = {} \<and> cr_set (cr_pts cr1) \<union> cr_set (cr_pts cr2) = {..<0x110000} \<and>
    unicode_general_category1 (cr_init unbounded_realloc) 2 = Some (0, cr1)"
proof -
  have "\<exists>cr'. unicode_general_category1 (cr_init unbounded_realloc) m = Some (0, cr')" for m
    using cr_unbounded.gc1_ok [OF cr_unbounded.init_ok, of m] cr_unbounded.gc1_total [OF _ cr_unbounded.init_ok(1), of m]
    by (auto simp: cr_unbounded.gives_def unbounded_realloc_def)
  then obtain cr1 cr2 where "unicode_general_category1 (cr_init unbounded_realloc) 2 = Some (0, cr1)"
    "unicode_general_category1 (cr_init unbounded_realloc) (NOT 2) = Some (0, cr2)" by metis
  with general_categories_partition [OF cr_unbounded_contract cr_init_facts, of 2 cr1 cr2] show ?thesis by blast
qed

text \<open>C26: unicode_script fills an empty range with the code points of a script, with is_ext also with
  those that have it among their script extensions (for Common and Inherited, without those that
  have any extension), and gives -2 for an unknown name. It never returns the error -1 that the
  comment above it promises: when it does not succeed the allocator can fail, and then the code
  after its label fail, which jumps to that label, runs forever or, with is_ext, frees a range a
  second time.\<close>

theorem unicode_script_by_name:
  assumes "realloc_contract f" "cr_wf cr" "cr_realloc_func cr = f" "cr_pts cr = []"
  shows "let i = first_index (named name) unicode_script_names in
    if i < 0 then unicode_script cr name is_ext = Some (Returns (-2, cr))
    else (\<exists>t. unicode_script cr name is_ext = Some (Returns (0, t)) \<and> cr_wf t \<and> sorted (cr_pts t) \<and>
         even (length (cr_pts t)) \<and> cr_set (cr_pts t) = script_set (nat i + 1) is_ext) \<or>
      (\<exists>b n. f b n = None) \<and>
        (unicode_script cr name is_ext = None \<or> is_ext \<and> unicode_script cr name is_ext = Some DoubleFree)"
  using range_ok [OF assms(1-3)] assms(4) by (rule char_range_alloc.unicode_script_fills)

theorem unicode_script_by_name_witness:
  "\<exists>t. unicode_script (cr_init unbounded_realloc) (c_bytes ''Common'') True = Some (Returns (0, t)) \<and>
     cr_set (cr_pts t) = script_set 25 True"
proof -
  have i: "first_index (named (c_bytes ''Common'')) unicode_script_names = 24" by code_simp
  from unicode_script_by_name [OF cr_unbounded_contract cr_init_facts, of "c_bytes ''Common''" True] show ?thesis
    by (auto simp: i Let_def unbounded_realloc_def simp del: in_cr_set)
qed

text \<open>C27: When there is no memory at all (every allocation fails), the lookup of any script that has code
  points, with or without its extensions, never returns: the loop after the label fail of
  unicode_script has no exit, and the ranges that it frees are still null pointers.\<close>

theorem unicode_script_hangs_without_memory:
  assumes "\<And>b n. f b n = None" "first_index (named name) unicode_script_names = i" "0 \<le> i" "script_set (nat i + 1) is_ext \<noteq> {}"
  shows "unicode_script (cr_init f) name is_ext = None"
proof -
  have "char_range_alloc f" by unfold_locales (simp_all add: assms(1))
  from char_range_alloc.script_no_memory [OF this assms(1)] assms(2-4) show ?thesis by blast
qed

theorem unicode_script_hangs_without_memory_witness:
  "unicode_script (cr_init (\<lambda>_ _. None)) (c_bytes ''Common'') False = None"
proof (rule unicode_script_hangs_without_memory)
  show "first_index (named (c_bytes ''Common'')) unicode_script_names = 24" by code_simp
  have i: "nat 24 + 1 = 25" by simp
  show "script_set (nat 24 + 1) False \<noteq> {}" unfolding i by (rule script_Common)
qed simp_all

subsection \<open>Case conversion\<close>

text \<open>The binary search in case_conv_table1 finds the entry whose run of code points contains c exactly when there is one: it agrees with a linear search, and the entry is unique.\<close>

theorem case_search_correct:
  "cc_find c = Some (i, v) \<longleftrightarrow>
     i < length case_conv_table1 \<and> v = case_conv_table1 ! i \<and> cc_code v \<le> c \<and> c < cc_code v + cc_len v"
  using cc_compare [of i c] unfolding cc_find_Some in_entry_def by (auto simp: not_less not_le)

text \<open>C28: lre_case_conv is defined for every 32-bit value and every conversion type: no table is read
  outside of its bounds, the recursion stops, and the result has between 1 and
  LRE_CC_RES_LEN_MAX = 3 code points.\<close>

theorem case_conv_in_bounds:
  assumes "conv_type \<le> 2"
  shows "\<exists>res. lre_case_conv c conv_type = Some res \<and> 1 \<le> length res \<and> length res \<le> 3"
  using lre_case_conv_total [OF assms, of c] by (auto simp: Suc_le_eq)

theorem case_conv_in_bounds_witness:
  "\<exists>res. lre_case_conv 0xfb03 0 = Some res \<and> 1 \<le> length res \<and> length res \<le> 3"
  by (rule case_conv_in_bounds) simp

text \<open>C29: unicode_case1 with CASE_U, CASE_L or CASE_F, computed from the run types alone, fills an empty
  range with exactly the set of the code points that lre_case_conv changes when it converts to
  upper case, to lower case or folds; it returns -1 only with an allocator that can fail.\<close>

theorem unicode_case1_is_changed_set:
  assumes "realloc_contract f" "cr_wf cr" "cr_realloc_func cr = f" "cr_pts cr = []" "conv_type \<le> 2"
  shows "fills f {c. lre_case_conv c conv_type \<noteq> Some [c]} (Some (unicode_case1 cr (case_of_type conv_type)))"
  using range_ok [OF assms(1-3)] assms(4,5) by (rule char_range_alloc.case1_fills)

theorem unicode_case1_is_changed_set_witness:
  "fst (unicode_case1 (cr_init unbounded_realloc) (case_of_type 1)) = 0 \<and>
    cr_set (cr_pts (snd (unicode_case1 (cr_init unbounded_realloc) (case_of_type 1)))) = {c. lre_case_conv c 1 \<noteq> Some [c]}"
proof -
  have "fills unbounded_realloc {c. lre_case_conv c 1 \<noteq> Some [c]} (Some (unicode_case1 (cr_init unbounded_realloc) (case_of_type 1)))"
    by (rule unicode_case1_is_changed_set [OF cr_unbounded_contract cr_init_facts]) simp
  then show ?thesis by (rule fillsD) (rule unbounded_total)
qed

text \<open>C30: For patterns without the u flag lre_canonicalize is the rule of the language: the full upper
  case conversion when it is a single code point and does not map a character outside of ASCII
  into ASCII, the character itself otherwise.\<close>

theorem canonicalize_legacy_rule:
  "lre_canonicalize c False = Some d \<longleftrightarrow>
     (case lre_case_conv c 0 of
        Some [u] \<Rightarrow> d = (if c \<ge> 128 \<and> u < 128 then c else u)
      | Some _ \<Rightarrow> d = c
      | None \<Rightarrow> False)"
  unfolding lre_canonicalize_legacy canonicalize_spec_def ..

subsection \<open>Sorting\<close>

text \<open>C31: rqsort, called with a comparison function that is a total preorder, returns, has permuted the
  elements of its range only, and leaves the range in ascending order (partition, heap sort
  fallback and insertion sort included).\<close>

theorem rqsort_sorts:
  assumes "\<And>x y. sgn (cmp y x) = - sgn (cmp x y)"
    and "\<And>x y z. cmp x y \<le> 0 \<Longrightarrow> cmp y z \<le> 0 \<Longrightarrow> cmp x z \<le> 0"
    and "base + nmemb \<le> length xs"
  shows "\<exists>ys. rqsort cmp base nmemb xs = Some ys \<and> mset ys = mset xs \<and>
    (\<forall>k<length xs. k < base \<or> base + nmemb \<le> k \<longrightarrow> ys ! k = xs ! k) \<and>
    (\<forall>i j. base \<le> i \<and> i < j \<and> j < base + nmemb \<longrightarrow> cmp (ys ! i) (ys ! j) \<le> 0)"
proof -
  have c: "comparator cmp" by (rule comparator.intro) (rule assms(1), rule assms(2))
  from rqsort_perm [OF assms(3), of cmp] obtain ys where
    ys: "rqsort cmp base nmemb xs = Some ys" "perm_in base (base + nmemb) xs ys" by blast
  from comparator.rqsort_sorted [OF c ys(1) assms(3)] have "sorted_in cmp base (base + nmemb) ys" .
  with ys show ?thesis unfolding perm_in_def sorted_in_def by blast
qed

theorem rqsort_sorts_witness:
  "\<exists>ys. rqsort (\<lambda>x y. x - y) 1 7 [9, 5, 3, 8, 1, 7, 2, 4, 0 :: int] = Some ys \<and>
    mset ys = mset [9, 5, 3, 8, 1, 7, 2, 4, 0] \<and> ys ! 0 = 9 \<and> ys ! 1 \<le> ys ! 2"
proof -
  have "\<exists>ys. rqsort (\<lambda>x y. x - y) 1 7 [9, 5, 3, 8, 1, 7, 2, 4, 0 :: int] = Some ys \<and>
    mset ys = mset [9, 5, 3, 8, 1, 7, 2, 4, 0] \<and>
    (\<forall>k<length [9, 5, 3, 8, 1, 7, 2, 4, 0 :: int]. k < 1 \<or> 1 + 7 \<le> k \<longrightarrow> ys ! k = [9, 5, 3, 8, 1, 7, 2, 4, 0] ! k) \<and>
    (\<forall>i j. 1 \<le> i \<and> i < j \<and> j < 1 + 7 \<longrightarrow> ys ! i - ys ! j \<le> 0)"
    by (rule rqsort_sorts) (simp_all add: sgn_if)
  then obtain ys where ys: "rqsort (\<lambda>x y. x - y) 1 7 [9, 5, 3, 8, 1, 7, 2, 4, 0 :: int] = Some ys"
    "mset ys = mset [9, 5, 3, 8, 1, 7, 2, 4, 0 :: int]"
    "\<forall>k<length [9, 5, 3, 8, 1, 7, 2, 4, 0 :: int]. k < 1 \<or> 1 + 7 \<le> k \<longrightarrow> ys ! k = [9, 5, 3, 8, 1, 7, 2, 4, 0] ! k"
    "\<forall>i j. 1 \<le> i \<and> i < j \<and> j < 1 + 7 \<longrightarrow> ys ! i - ys ! j \<le> 0" by blast
  from ys(3) have "ys ! 0 = 9" by (drule_tac x = 0 in spec) simp
  moreover from ys(4) have "ys ! 1 - ys ! 2 \<le> 0" by (drule_tac x = 1 in spec, drule_tac x = 2 in spec) simp
  ultimately show ?thesis using ys(1,2) by auto
qed

text \<open>C32: For any comparison function of two elements, also one that is not an ordering (its answer
  depends on the two elements only: the opaque argument, and comparison functions with a state
  or side effects, are not covered), rqsort returns, never compares or swaps outside of its
  range, never overflows its local stack of 50 segments, and only permutes the range.\<close>

theorem rqsort_any_comparison:
  assumes "base + nmemb \<le> length xs"
  shows "\<exists>ys. rqsort cmp base nmemb xs = Some ys \<and> length ys = length xs \<and> mset ys = mset xs \<and>
    (\<forall>k<length xs. k < base \<or> base + nmemb \<le> k \<longrightarrow> ys ! k = xs ! k)"
  using rqsort_perm [OF assms, of cmp] unfolding perm_in_def by blast

theorem rqsort_any_comparison_witness:
  "\<exists>ys. rqsort (\<lambda>_ _. 1) 0 8 [1, 2, 3, 4, 5, 6, 7, 8 :: nat] = Some ys \<and> length ys = 8"
  using rqsort_any_comparison [of 0 8 "[1, 2, 3, 4, 5, 6, 7, 8 :: nat]" "\<lambda>_ _. 1"] by auto

text \<open>C33: The exchange function that exchange_func selects from the alignment of the array and the element
  size exchanges, on the bytes, exactly the two elements: it refines the element swap the sort
  is modelled with.\<close>

theorem exchange_swaps_elements:
  assumes "i < n" "j < n" "i \<noteq> j" "n * unat sz \<le> length mem"
  shows "\<exists>mem'. exchange_func base sz mem (i * unat sz) (j * unat sz) (unat sz) = Some mem' \<and>
    elems n (unat sz) mem' = swap_at (elems n (unat sz) mem) i j"
  using assms by (rule exchange_refines_swap)

theorem exchange_swaps_elements_witness:
  "\<exists>mem'. exchange_func 8 4 [1, 2, 3, 4, 5, 6, 7, 8] 0 4 4 = Some mem' \<and>
    elems 2 4 mem' = swap_at (elems 2 4 [1, 2, 3, 4, 5, 6, 7, 8]) 0 1"
  using exchange_swaps_elements [of 0 2 1 4 "[1, 2, 3, 4, 5, 6, 7, 8]" 8] by simp

text \<open>The block exchange of the partition (exchange_func of size | 128, called with a multiple of the element size) exchanges two disjoint runs of elements.\<close>

theorem exchange_swaps_blocks:
  assumes "i + m \<le> j" "j + m \<le> n" "n * unat sz \<le> length mem"
  shows "\<exists>mem'. exchange_func base (sz OR 128) mem (i * unat sz) (j * unat sz) (m * unat sz) = Some mem' \<and>
    swap_block (elems n (unat sz) mem) i j m = Some (elems n (unat sz) mem')"
  using assms by (rule exchange_refines_swap_block)

theorem exchange_swaps_blocks_witness:
  "\<exists>mem'. exchange_func 16 (2 OR 128) [1, 2, 3, 4, 5, 6, 7, 8] 0 4 4 = Some mem' \<and>
    swap_block (elems 4 2 [1, 2, 3, 4, 5, 6, 7, 8]) 0 2 2 = Some (elems 4 2 mem')"
  using exchange_swaps_blocks [of 0 2 2 4 2 "[1, 2, 3, 4, 5, 6, 7, 8]" 16] by simp

subsection \<open>Strings, integers and buffers\<close>

text \<open>C34: Decoding the bytes that unicode_to_utf8 wrote for a code point of at most 31 bits gives the code
  point back and consumes exactly these bytes, wherever they stand in a buffer.\<close>

theorem utf8_roundtrip:
  assumes "c < 0x80000000" "int (length (unicode_to_utf8 c)) \<le> m"
  shows "unicode_from_utf8 (pre @ unicode_to_utf8 c @ post) (length pre) m =
    Some (uint c, length pre + length (unicode_to_utf8 c))"
  using assms by (rule utf8_decode_encode)

theorem utf8_roundtrip_witness:
  "unicode_from_utf8 ([65] @ unicode_to_utf8 0x20ac @ [66]) (length [65 :: u8]) 6 =
    Some (uint (0x20ac :: u32), length [65 :: u8] + length (unicode_to_utf8 0x20ac))"
  by (rule utf8_roundtrip) (simp, code_simp)

text \<open>C35: Whenever unicode_from_utf8 accepts, the bytes it consumed are exactly the encoding
  unicode_to_utf8 gives of the result: overlong and truncated forms are refused, and at most
  max_len bytes are read after the first.\<close>

theorem utf8_canonical:
  assumes "unicode_from_utf8 s p m = Some (v, q)" "0 \<le> v"
  shows "p < q \<and> q \<le> length s \<and> int q - int p \<le> max 1 m \<and> v < 2 ^ 31 \<and>
    take (q - p) (drop p s) = unicode_to_utf8 (word_of_int v)"
  using assms by (rule utf8_encode_decode)

theorem utf8_canonical_witness:
  "take 3 (drop 1 [65, 0xe2, 0x82, 0xac, 66]) = unicode_to_utf8 (word_of_int 0x20ac)"
proof -
  have "unicode_from_utf8 [65, 0xe2, 0x82, 0xac, 66] 1 6 = Some (0x20ac, 4)" by code_simp
  from utf8_canonical [OF this] show ?thesis by simp
qed

text \<open>C36: On a zero-terminated string unicode_from_utf8 never reads past the terminating zero, whatever
  the bytes and max_len are.\<close>

theorem utf8_stops_at_zero:
  assumes "p < z" "rd s z = Some 0"
  shows "\<exists>v q. unicode_from_utf8 s p m = Some (v, q) \<and> p \<le> q \<and> q \<le> z \<and> (v = -1 \<and> q = p \<or> 0 \<le> v \<and> p < q)"
  using assms by (rule from_utf8_safe) blast

theorem utf8_stops_at_zero_witness:
  "\<exists>v q. unicode_from_utf8 [0xfc, 0x80, 0] 0 6 = Some (v, q) \<and> 0 \<le> q \<and> q \<le> 2 \<and> (v = -1 \<and> q = 0 \<or> 0 \<le> v \<and> 0 < q)"
  using utf8_stops_at_zero [of 0 2 "[0xfc, 0x80, 0]" 6] by (simp add: rd_def)

text \<open>C37: pstrcat leaves in a buffer of buf_size bytes the zero-terminated concatenation cut to buf_size -
  1 bytes, and never writes outside of the buffer.\<close>

theorem pstrcat_bounded:
  assumes "c_str_at buf 0 a" "c_str_at str p s" "length a < nat n" "nat n \<le> length buf"
  shows "\<exists>b. pstrcat buf n str p = Some b \<and> c_str_at b 0 (take (nat n - 1) (a @ s)) \<and> length b = length buf"
  using assms by (rule pstrcat_spec)

theorem pstrcat_bounded_witness:
  "\<exists>b. pstrcat [65, 0, 9, 9] 3 [66, 67, 0] 0 = Some b \<and> c_str_at b 0 [65, 66] \<and> length b = Suc (Suc (Suc (Suc 0)))"
  using pstrcat_bounded [of "[65, 0, 9, 9]" "[65]" "[66, 67, 0]" 0 "[66, 67]" 3]
  by (simp add: c_str_at_def)

text \<open>has_suffix answers whether the second string is a suffix of the first, also when it is the longer one.\<close>

theorem has_suffix_correct:
  assumes "c_str_at str 0 s" "c_str_at suf 0 t"
  shows "has_suffix str suf = Some (\<exists>u. s = u @ t)"
  using assms by (rule has_suffix_spec)


theorem has_suffix_correct_witness:
  "has_suffix [97, 46, 106, 115, 0] [46, 106, 115, 0] = Some (\<exists>u. [97, 46, 106, 115 :: u8] = u @ [46, 106, 115])"
  by (rule has_suffix_correct) (simp_all add: c_str_at_def)

text \<open>A 64-bit value read from the bytes of its byte-swapped form is the value with its bytes in the opposite order, and swapping twice is the identity on the bytes.\<close>

theorem bswap64_reverses_bytes:
  "get_u64 (pre @ rev (bytes_u64 v) @ post) (length pre) = Some (bswap64 v)"
  using get_u64_bytes [of pre "bswap64 v" post] by (simp add: bswap64_bytes)

text \<open>C38: A client that writes any sequence of blocks with dbuf_put and looks at dbuf_error only at the
  end is right to do so: when the error flag is clear the buffer holds the old contents followed
  by all the blocks, and an error, once set, stays.\<close>

theorem dbuf_error_checked_at_end:
  assumes "db_wf s" "db_realloc s = dbuf_default_realloc avail junk"
  shows "db_wf (dbuf_puts s ds) \<and> (db_error s \<longrightarrow> db_error (dbuf_puts s ds)) \<and>
    (\<not> db_error (dbuf_puts s ds) \<longrightarrow> contents (dbuf_puts s ds) = contents s @ concat ds)"
proof -
  have "dbuf_libc.db_ok avail junk s" using assms by (simp add: dbuf_libc.db_ok_def)
  from dbuf_libc.puts_spec [OF this, of ds] show ?thesis by (simp add: dbuf_libc.db_ok_def)
qed

theorem dbuf_error_checked_at_end_witness:
  "db_wf (dbuf_puts (dbuf_init 3 (\<lambda>_. 0)) [[1, 2], [3, 4]]) \<and>
    \<not> db_error (dbuf_puts (dbuf_init 9 (\<lambda>_. 0)) [[1, 2], [3, 4]]) \<and>
    contents (dbuf_puts (dbuf_init 9 (\<lambda>_. 0)) [[1, 2], [3, 4]]) = [1, 2, 3, 4]"
proof -
  have i: "db_wf (dbuf_init a j)" "db_realloc (dbuf_init a j) = dbuf_default_realloc a j" "contents (dbuf_init a j) = []" for a j
    by (simp_all add: dbuf_init_def dbuf_init2_def db_wf_def contents_def)
  have "\<not> db_error (dbuf_puts (dbuf_init 9 (\<lambda>_. 0)) [[1, 2], [3, 4]])" by code_simp
  then show ?thesis
    using dbuf_error_checked_at_end [OF i(1,2), of 3 "\<lambda>_. 0" "[[1, 2], [3, 4]]"]
      dbuf_error_checked_at_end [OF i(1,2), of 9 "\<lambda>_. 0" "[[1, 2], [3, 4]]"] i(3) by simp
qed

text \<open>C39: dbuf_put_self appends a copy of a part of the buffer itself, correctly also when the buffer
  moves in the reallocation, or fails with the contents unchanged and the error flag set.\<close>

theorem dbuf_put_self_copies:
  assumes "db_wf s" "db_realloc s = dbuf_default_realloc avail junk" "off + len \<le> db_size s"
    "dbuf_put_self s off len = (r, s')"
  shows "db_wf s' \<and> (r = 0 \<and> contents s' = contents s @ take len (drop off (contents s)) \<or>
    r = -1 \<and> contents s' = contents s \<and> db_error s')"
proof -
  have "dbuf_libc.db_ok avail junk s" using assms by (simp add: dbuf_libc.db_ok_def)
  from dbuf_libc.put_self_spec [OF this assms(3,4)] show ?thesis by (auto simp: dbuf_libc.db_ok_def)
qed

theorem dbuf_put_self_copies_witness:
  "contents (snd (dbuf_put_self
     \<lparr>db_buf = [1, 2, 3], db_size = 3, db_allocated_size = 3, db_error = False,
      db_realloc = dbuf_default_realloc 99 (\<lambda>_. 0)\<rparr> 1 2)) = [1, 2, 3, 2, 3]"
proof -
  let ?s = "\<lparr>db_buf = [1, 2, 3], db_size = 3, db_allocated_size = 3, db_error = False,
      db_realloc = dbuf_default_realloc 99 (\<lambda>_. 0)\<rparr>"
  have r: "fst (dbuf_put_self ?s 1 2) = 0" by code_simp
  have wf: "db_wf ?s" "db_realloc ?s = dbuf_default_realloc 99 (\<lambda>_. 0)" "1 + 2 \<le> db_size ?s"
    by (simp_all add: db_wf_def)
  have c: "contents ?s @ take 2 (drop 1 (contents ?s)) = [1, 2, 3, 2, 3]" by (simp add: contents_def)
  from dbuf_put_self_copies [OF wf prod.collapse [symmetric]] show ?thesis
    unfolding r c by simp
qed

end
